(* ===== verification/Prelude.thy ===== *)
theory Prelude
  imports Main "HOL-Library.Word"
begin

text \<open>
  The vocabulary the component theories share: the machine integer types of the kernel's C
  code, its error numbers and result type, little-endian loads, and the facts on words and
  lists that several components use.
\<close>

unbundle bit_operations_syntax

section \<open>Types\<close>

text \<open>
  The fixed-width unsigned integers of \<^verbatim>\<open>stdint.h\<close>. Arithmetic on them wraps around as in C.
\<close>

type_synonym u8 = "8 word"
type_synonym u16 = "16 word"
type_synonym u32 = "32 word"
type_synonym u64 = "64 word"

text \<open>
  The error numbers of \<^verbatim>\<open>kernel/include/tunix/errno.h\<close> that the modelled code returns. The C code
  returns them negated; here they are the left summand of a result. \<open>FAILED\<close> is the bare
  \<^verbatim>\<open>-1\<close> that internal functions return.
\<close>

datatype errno =
    EPERM | ENOENT | ESRCH | EINTR | EIO | ENXIO | E2BIG | EBADF | EAGAIN | ENOMEM | EACCES | EFAULT
  | EBUSY | EEXIST | ENODEV | ENOTDIR | EISDIR | EINVAL | EMFILE | ENOTTY | EFBIG | ENOSPC | ESPIPE
  | EROFS | EPIPE | ERANGE | EDEADLK | ENAMETOOLONG | ENOLCK | EIDRM | ENODATA | EOPNOTSUPP
  | ETIMEDOUT | EUCLEAN | EOVERFLOW | ERESTARTSYS | FAILED

type_synonym 'a result = "errno + 'a"

text \<open>
  Facts that evaluate loads from and stores to byte arrays, and facts that move between the
  bitwise and the arithmetic reading of a word.
\<close>

named_theorems byte_simps \<open>byte loads and stores\<close>
named_theorems word_bits \<open>bits of words\<close>

section \<open>Words\<close>

lemma minus_and_one [word_bits]: "- (v AND 1) = (if bit v 0 then -1 else 0)" for v :: "'a::len word"
  by (cases "bit v 0") (simp_all add: and_one_eq bit_0 mod_2_eq_odd)

lemma xor_eq_0 [word_bits]: "a XOR b = 0 \<longleftrightarrow> a = b" for a b :: "'a::len word"
proof
  assume "a XOR b = 0"
  then have "a XOR (b XOR b) = b" by (simp only: xor.assoc [symmetric] xor.left_neutral)
  then show "a = b" by simp
qed simp

lemma xor_cancel_right [word_bits]: "a XOR c = b XOR c \<longleftrightarrow> a = b" for a b c :: "'a::len word"
proof
  assume "a XOR c = b XOR c"
  then have "(a XOR c) XOR c = (b XOR c) XOR c" by (simp only:)
  then show "a = b" by (simp add: xor.assoc)
qed simp

lemma xor_cancel_left [word_bits]: "c XOR a = c XOR b \<longleftrightarrow> a = b" for a b c :: "'a::len word"
  by (simp only: xor.commute [of c] xor_cancel_right)

lemma mask_8: "0xFF = (mask 8 :: 'a::len word)"
  by (simp add: mask_eq_exp_minus_1)

lemma unat_and_255: "unat ((v :: 'a::len word) AND 0xFF) < 256"
proof -
  have "v AND 0xFF = take_bit 8 v" by (simp add: take_bit_eq_mask mask_8)
  then show ?thesis by (simp add: unsigned_take_bit_eq take_bit_nat_less_exp [of 8, simplified])
qed

lemma unat_ucast_le: "unat (ucast (w :: 'a::len word) :: 'b::len word) \<le> unat w"
  by (simp add: unsigned_ucast_eq take_bit_nat_less_eq_self)

lemma and_3_multiple: "of_nat (4 * m) AND 3 = (0 :: 'a::len word)"
proof -
  have m: "of_nat (4 * m) = push_bit 2 (of_nat m :: 'a word)" by (simp add: push_bit_eq_mult)
  have three: "(3 :: 'a word) = mask 2" by (simp add: mask_eq_exp_minus_1)
  show ?thesis
    unfolding m three by (rule bit_eqI) (auto simp: bit_and_iff bit_push_bit_iff bit_mask_iff)
qed

lemma unat_u64_less: "unat (v :: u64) < 2 ^ 64"
  using unsigned_less [of v, where ?'a = nat] by simp

lemma unat_u32_less: "unat (v :: u32) < 2 ^ 32"
  using unsigned_less [of v, where ?'a = nat] by simp

lemma byte_bit_high: "8 \<le> n \<Longrightarrow> \<not> bit (b :: u8) n"
  using bit_imp_le_length [of b n] by auto

section \<open>Little-endian values\<close>

definition le32 :: "u8 \<Rightarrow> u8 \<Rightarrow> u8 \<Rightarrow> u8 \<Rightarrow> u32" where
  "le32 b0 b1 b2 b3 =
     ucast b0 OR push_bit 8 (ucast b1) OR push_bit 16 (ucast b2) OR push_bit 24 (ucast b3)"

definition le16_bytes :: "u16 \<Rightarrow> u8 list" where
  "le16_bytes v = [ucast v, ucast (drop_bit 8 v)]"

definition le32_bytes_of :: "u32 \<Rightarrow> u8 list" where
  "le32_bytes_of v = [ucast v, ucast (drop_bit 8 v), ucast (drop_bit 16 v), ucast (drop_bit 24 v)]"

definition le16 :: "u8 \<Rightarrow> u8 \<Rightarrow> u16" where
  "le16 b0 b1 = ucast b0 OR push_bit 8 (ucast b1)"

definition le64 :: "u8 list \<Rightarrow> u64" where
  "le64 bs = foldr (\<lambda>b acc. push_bit 8 acc OR ucast b) bs 0"

definition le64_bytes :: "u64 \<Rightarrow> u8 list" where
  "le64_bytes v = map (\<lambda>i. ucast (drop_bit (8 * i) v)) [0..<8]"

lemma bit_le32:
  "bit (le32 b0 b1 b2 b3) n \<longleftrightarrow>
     n < 8 \<and> bit b0 n \<or> 8 \<le> n \<and> n < 16 \<and> bit b1 (n - 8) \<or>
     16 \<le> n \<and> n < 24 \<and> bit b2 (n - 16) \<or> 24 \<le> n \<and> n < 32 \<and> bit b3 (n - 24)"
proof -
  consider "n < 8" | "8 \<le> n" "n < 16" | "16 \<le> n" "n < 24" | "24 \<le> n" "n < 32" | "32 \<le> n"
    by linarith
  then show ?thesis
    by cases (auto simp: le32_def bit_or_iff bit_push_bit_iff bit_unsigned_iff byte_bit_high)
qed

lemma le32_bytes [byte_simps]:
  "ucast (le32 b0 b1 b2 b3) = b0"
  "ucast (drop_bit 8 (le32 b0 b1 b2 b3)) = b1"
  "ucast (drop_bit 16 (le32 b0 b1 b2 b3)) = b2"
  "ucast (drop_bit 24 (le32 b0 b1 b2 b3)) = b3"
  by (rule bit_eqI, simp add: bit_unsigned_iff bit_le32 bit_drop_bit_eq)+

lemma le32_split [byte_simps]:
  "le32 (ucast v) (ucast (drop_bit 8 v)) (ucast (drop_bit 16 v)) (ucast (drop_bit 24 v)) = v"
proof (rule bit_word_eqI)
  fix n assume n: "n < LENGTH(32)"
  consider "n < 8" | "8 \<le> n" "n < 16" | "16 \<le> n" "n < 24" | "24 \<le> n" "n < 32"
    using n by fastforce
  then show "bit (le32 (ucast v) (ucast (drop_bit 8 v)) (ucast (drop_bit 16 v)) (ucast (drop_bit 24 v))) n =
      bit v n"
    by cases (auto simp: bit_le32 bit_unsigned_iff bit_drop_bit_eq)
qed

lemma le16_split [byte_simps]: "le16 (ucast v) (ucast (drop_bit 8 v)) = v"
proof (rule bit_word_eqI)
  fix n assume "n < LENGTH(16)"
  then consider "n < 8" | "8 \<le> n" "n < 16" by fastforce
  then show "bit (le16 (ucast v) (ucast (drop_bit 8 v))) n = bit v n"
    by cases (auto simp: le16_def bit_or_iff bit_push_bit_iff bit_unsigned_iff bit_drop_bit_eq)
qed

lemma le32_inject:
  "le32 a0 a1 a2 a3 = le32 b0 b1 b2 b3 \<longleftrightarrow> a0 = b0 \<and> a1 = b1 \<and> a2 = b2 \<and> a3 = b3"
  using le32_bytes [of a0 a1 a2 a3] le32_bytes [of b0 b1 b2 b3] by auto

lemma le32_xor:
  "le32 b0 b1 b2 b3 =
     ucast b0 XOR push_bit 8 (ucast b1) XOR push_bit 16 (ucast b2) XOR push_bit 24 (ucast b3)"
  unfolding le32_def by (rule bit_eqI) (auto simp: bit_simps dest: bit_imp_le_length)

lemma bit_le64: "length bs \<le> 8 \<Longrightarrow> bit (le64 bs) n \<longleftrightarrow> n < 8 * length bs \<and> bit (bs ! (n div 8)) (n mod 8)"
proof (induction bs arbitrary: n)
  case Nil
  then show ?case by (simp add: le64_def)
next
  case (Cons b bs)
  have c: "le64 (b # bs) = push_bit 8 (le64 bs) OR ucast b" by (simp add: le64_def)
  show ?case
  proof (cases "n < 8")
    case True
    then show ?thesis unfolding c by (simp add: bit_or_iff bit_push_bit_iff bit_unsigned_iff)
  next
    case False
    then have "n div 8 = Suc ((n - 8) div 8)" "n mod 8 = (n - 8) mod 8" by (simp_all add: div_if mod_if [of n])
    moreover have "n < 8 * length (b # bs) \<Longrightarrow> n < 64" using Cons.prems by simp
    ultimately show ?thesis
      unfolding c using False Cons.IH [of "n - 8"] Cons.prems byte_bit_high [of n b]
      by (auto simp: bit_or_iff bit_push_bit_iff bit_unsigned_iff)
  qed
qed

lemma le64_bytes_le64: "length bs = 8 \<Longrightarrow> le64_bytes (le64 bs) = bs"
proof (rule nth_equalityI)
  fix i assume l: "length bs = 8" and "i < length (le64_bytes (le64 bs))"
  then have i: "i < 8" by (simp add: le64_bytes_def)
  have "ucast (drop_bit (8 * i) (le64 bs)) = bs ! i"
  proof (rule bit_word_eqI)
    fix n assume "n < LENGTH(8)"
    then show "bit (ucast (drop_bit (8 * i) (le64 bs)) :: u8) n = bit (bs ! i) n"
      using i l by (simp add: bit_unsigned_iff bit_drop_bit_eq bit_le64)
  qed
  then show "le64_bytes (le64 bs) ! i = bs ! i" using i by (simp add: le64_bytes_def)
qed (simp add: le64_bytes_def)

lemma length_le64_bytes [simp]: "length (le64_bytes v) = 8"
  by (simp add: le64_bytes_def)

lemma le64_le64_bytes [byte_simps]: "le64 (le64_bytes v) = v"
proof (rule bit_word_eqI)
  fix n assume n: "n < LENGTH(64)"
  then have "n div 8 < 8" by (simp add: div_less_iff_less_mult)
  with n show "bit (le64 (le64_bytes v)) n = bit v n"
    by (simp add: bit_le64 le64_bytes_def bit_unsigned_iff bit_drop_bit_eq)
qed

section \<open>Byte arrays\<close>

text \<open>
  \<open>copy_into dst off src\<close> is the array after \<^verbatim>\<open>memcpy(dst + off, src, length)\<close>; the callers stay inside
  the array.
\<close>

definition copy_into :: "'a list \<Rightarrow> nat \<Rightarrow> 'a list \<Rightarrow> 'a list" where
  "copy_into dst off src = take off dst @ src @ drop (off + length src) dst"

lemma length_copy_into [simp]:
  "off + length src \<le> length dst \<Longrightarrow> length (copy_into dst off src) = length dst"
  by (simp add: copy_into_def)

lemma nth_copy_into:
  assumes "off + length src \<le> length dst" "i < length dst"
  shows "copy_into dst off src ! i =
    (if off \<le> i \<and> i < off + length src then src ! (i - off) else dst ! i)"
  using assms by (auto simp: copy_into_def nth_append)

lemma copy_into_Nil [simp]: "copy_into dst off [] = dst"
  by (simp add: copy_into_def)

lemma copy_into_append:
  "off + length (xs @ ys) \<le> length dst \<Longrightarrow>
     copy_into (copy_into dst off xs) (off + length xs) ys = copy_into dst off (xs @ ys)"
  by (simp add: copy_into_def ac_simps)

text \<open>
  The allocator as a parameter: the array it returns for a size, or \<open>None\<close>. An array has the requested length and
  unspecified contents.
\<close>

type_synonym kmalloc = "nat \<Rightarrow> u8 list option"

definition kmalloc_ok :: "kmalloc \<Rightarrow> bool" where
  "kmalloc_ok alloc \<longleftrightarrow> (\<forall>n bytes. alloc n = Some bytes \<longrightarrow> length bytes = n)"

section \<open>Masks\<close>

lemma and_mask_mod: "n AND (2 ^ k - Suc 0) = n mod 2 ^ k" for n :: nat
  by (metis One_nat_def mask_eq_exp_minus_1 take_bit_eq_mask take_bit_eq_mod)

section \<open>Lists and iteration\<close>

lemma upt_2: "[0..<2] = [0, Suc 0]"
  by (simp add: numeral_2_eq_2)

lemma funpow_funpow_add: "(f ^^ m) ((f ^^ n) x) = (f ^^ (m + n)) x"
  by (simp add: funpow_add)

end
