(* ===== verification/Elf.thy ===== *)
theory Elf
  imports Rust
begin

text \<open>
  The ELF planner of \<^verbatim>\<open>kernel/rust/elf/src/lib.rs\<close> with its C interface in \<^verbatim>\<open>ffi.rs\<close>: it reads the headers of a program and decides where its
  segments go in memory. A loop over the program headers is a recursion over their indices; its mutable variables are
  the fields of a record.
\<close>

section \<open>Data\<close>

abbreviation (input) HEADER_SIZE :: nat where "HEADER_SIZE \<equiv> 64"
abbreviation (input) PROGRAM_SIZE :: nat where "PROGRAM_SIZE \<equiv> 56"
abbreviation (input) PROGRAM_SIZE_BYTES :: u64 where "PROGRAM_SIZE_BYTES \<equiv> 56"
abbreviation (input) PAGE_SIZE :: u64 where "PAGE_SIZE \<equiv> 4096"
abbreviation (input) LOWEST_ADDRESS :: u64 where "LOWEST_ADDRESS \<equiv> 0x10000"
abbreviation (input) MAX_HEADER_SPAN :: u64 where "MAX_HEADER_SPAN \<equiv> 0x10000"
abbreviation (input) MAX_INTERP_SIZE :: u64 where "MAX_INTERP_SIZE \<equiv> 4096"
abbreviation (input) ET_EXEC :: u16 where "ET_EXEC \<equiv> 2"
abbreviation (input) ET_DYN :: u16 where "ET_DYN \<equiv> 3"
abbreviation (input) PT_LOAD :: u32 where "PT_LOAD \<equiv> 1"
abbreviation (input) PT_INTERP :: u32 where "PT_INTERP \<equiv> 3"
abbreviation (input) PF_X :: u32 where "PF_X \<equiv> 1"
abbreviation (input) PF_W :: u32 where "PF_W \<equiv> 2"
abbreviation (input) ELFCLASS64 :: u8 where "ELFCLASS64 \<equiv> 2"
abbreviation (input) ELFDATA2LSB :: u8 where "ELFDATA2LSB \<equiv> 1"
abbreviation (input) EV_CURRENT :: u8 where "EV_CURRENT \<equiv> 1"

datatype elf_error = Truncated | Ident | Kind | Machine | Layout | Program | Interp | Range | Entry | Phdr

record elf_header =
  h_kind :: u16
  h_entry :: u64
  h_phoff :: u64
  h_phnum :: u16

record elf_program =
  p_kind :: u32
  p_flags :: u32
  p_offset :: u64
  p_vaddr :: u64
  p_filesz :: u64
  p_memsz :: u64
  p_align :: u64

record elf_plan =
  plan_kind :: u16
  plan_phnum :: u16
  plan_load_count :: u16
  plan_load_bias :: u64
  plan_entry :: u64
  plan_phdr :: u64
  plan_image_start :: u64
  plan_image_end :: u64
  plan_interp_offset :: u64
  plan_interp_size :: u64

record elf_segment =
  seg_address :: u64
  seg_file_offset :: u64
  seg_file_size :: u64
  seg_memory_size :: u64
  seg_page_start :: u64
  seg_page_end :: u64
  seg_writable :: bool
  seg_executable :: bool

record elf_target =
  t_machine :: u16
  t_user_limit :: u64

record elf_image =
  im_bytes :: "u8 list"
  im_header :: elf_header
  im_plan :: elf_plan
  im_target :: elf_target

section \<open>Reading\<close>

definition elf_field :: "nat \<Rightarrow> u8 list \<Rightarrow> nat \<Rightarrow> u8 list option" where
  "elf_field n bytes at = do { hi \<leftarrow> checked_add at n; get_range bytes at hi }"

definition elf_u16 :: "u8 list \<Rightarrow> nat \<Rightarrow> u16 option" where
  "elf_u16 bytes at = map_option (\<lambda>b. le16 (b ! 0) (b ! 1)) (elf_field 2 bytes at)"

definition elf_u32 :: "u8 list \<Rightarrow> nat \<Rightarrow> u32 option" where
  "elf_u32 bytes at = map_option (\<lambda>b. le32 (b ! 0) (b ! 1) (b ! 2) (b ! 3)) (elf_field 4 bytes at)"

definition elf_u64 :: "u8 list \<Rightarrow> nat \<Rightarrow> u64 option" where
  "elf_u64 bytes at = map_option le64 (elf_field 8 bytes at)"

definition page_down :: "u64 \<Rightarrow> u64" where
  "page_down v = v AND NOT (PAGE_SIZE - 1)"

definition page_up :: "u64 \<Rightarrow> u64 option" where
  "page_up v = do { w \<leftarrow> checked_add64 v (PAGE_SIZE - 1); Some (page_down w) }"

definition table_size :: "u16 \<Rightarrow> u64" where
  "table_size phnum = saturating_mul64 (ucast phnum) PROGRAM_SIZE_BYTES"

definition parse_header :: "u8 list \<Rightarrow> u64 \<Rightarrow> u16 \<Rightarrow> elf_error + elf_header" where
  "parse_header bytes file_size machine =
     (if file_size < 64 \<or> length bytes < HEADER_SIZE then Inl Truncated
      else and_then (ok_or (elf_field 16 bytes 0) Truncated) (\<lambda>ident.
      if take 4 ident \<noteq> [0x7F, 0x45, 0x4C, 0x46] then Inl Ident
      else if ident ! 4 \<noteq> ELFCLASS64 \<or> ident ! 5 \<noteq> ELFDATA2LSB \<or> ident ! 6 \<noteq> EV_CURRENT then Inl Ident
      else and_then (ok_or (elf_u16 bytes 16) Truncated) (\<lambda>kind.
      if kind \<noteq> ET_EXEC \<and> kind \<noteq> ET_DYN then Inl Kind
      else and_then (ok_or (elf_u16 bytes 18) Truncated) (\<lambda>file_machine.
      if file_machine \<noteq> machine then Inl Machine
      else and_then (ok_or (elf_u32 bytes 20) Truncated) (\<lambda>version.
      if version \<noteq> ucast EV_CURRENT then Inl Ident
      else and_then (ok_or (elf_u64 bytes 24) Truncated) (\<lambda>entry.
      and_then (ok_or (elf_u64 bytes 32) Truncated) (\<lambda>phoff.
      and_then (ok_or (elf_u16 bytes 52) Truncated) (\<lambda>ehsize.
      and_then (ok_or (elf_u16 bytes 54) Truncated) (\<lambda>phentsize.
      and_then (ok_or (elf_u16 bytes 56) Truncated) (\<lambda>phnum.
      if unat ehsize \<noteq> HEADER_SIZE \<or> unat phentsize \<noteq> PROGRAM_SIZE \<or> phnum = 0 then Inl Layout
      else and_then (ok_or (checked_sub64 file_size phoff) Layout) (\<lambda>room.
      if table_size phnum > room then Inl Layout
      else Inr \<lparr>h_kind = kind, h_entry = entry, h_phoff = phoff, h_phnum = phnum\<rparr>)))))))))))"

definition header_span :: "u8 list \<Rightarrow> u64 \<Rightarrow> u16 \<Rightarrow> elf_error + u64" where
  "header_span bytes file_size machine =
     and_then (parse_header bytes file_size machine) (\<lambda>header.
     and_then (ok_or (checked_add64 (h_phoff header) (table_size (h_phnum header))) Layout) (\<lambda>span.
     if span > file_size \<or> span > MAX_HEADER_SPAN then Inl Layout else Inr span))"

definition program :: "u8 list \<Rightarrow> elf_header \<Rightarrow> nat \<Rightarrow> elf_program option" where
  "program bytes header index = do {
     at \<leftarrow> checked_add (unat (h_phoff header)) (index * PROGRAM_SIZE);
     hi \<leftarrow> checked_add at PROGRAM_SIZE;
     entry \<leftarrow> get_range bytes at hi;
     kind \<leftarrow> elf_u32 entry 0;
     flags \<leftarrow> elf_u32 entry 4;
     offset \<leftarrow> elf_u64 entry 8;
     vaddr \<leftarrow> elf_u64 entry 16;
     filesz \<leftarrow> elf_u64 entry 32;
     memsz \<leftarrow> elf_u64 entry 40;
     align \<leftarrow> elf_u64 entry 48;
     Some \<lparr>p_kind = kind, p_flags = flags, p_offset = offset, p_vaddr = vaddr, p_filesz = filesz, p_memsz = memsz, p_align = align\<rparr>
   }"

section \<open>Checks\<close>

definition within_file :: "u64 \<Rightarrow> u64 \<Rightarrow> u64 \<Rightarrow> bool" where
  "within_file offset n file_size = (case checked_sub64 file_size offset of None \<Rightarrow> False | Some room \<Rightarrow> n \<le> room)"

definition check_program :: "elf_program \<Rightarrow> u64 \<Rightarrow> elf_error + unit" where
  "check_program p file_size =
     (if p_memsz p < p_filesz p then Inl Program
      else if p_filesz p \<noteq> 0 \<and> \<not> within_file (p_offset p) (p_filesz p) file_size then Inl Program
      else if p_align p > 1 \<and> \<not> is_power_of_two (p_align p) then Inl Program
      else if p_vaddr p AND (PAGE_SIZE - 1) \<noteq> p_offset p AND (PAGE_SIZE - 1) then Inl Program
      else and_then (ok_or (checked_add64 (p_vaddr p) (p_memsz p)) Program) (\<lambda>hi.
      and_then (ok_or (page_up hi) Range) (\<lambda>_. Inr ())))"

definition segment :: "elf_program \<Rightarrow> u64 \<Rightarrow> elf_target \<Rightarrow> elf_error + elf_segment" where
  "segment p load_bias target =
     and_then (ok_or (checked_add64 (p_vaddr p) load_bias) Range) (\<lambda>address.
     and_then (ok_or (checked_add64 address (p_memsz p)) Range) (\<lambda>hi.
     if address < LOWEST_ADDRESS \<or> address \<ge> t_user_limit target then Inl Range
     else if p_memsz p > saturating_sub64 (t_user_limit target) address then Inl Range
     else and_then (ok_or (page_up hi) Range) (\<lambda>page_end.
       Inr \<lparr>seg_address = address, seg_file_offset = p_offset p, seg_file_size = p_filesz p, seg_memory_size = p_memsz p,
            seg_page_start = page_down address, seg_page_end = page_end,
            seg_writable = (p_flags p AND PF_W \<noteq> 0), seg_executable = (p_flags p AND PF_X \<noteq> 0)\<rparr>)))"

definition segments :: "elf_image \<Rightarrow> elf_segment list" where
  "segments img =
     List.map_filter (\<lambda>p. case segment p (plan_load_bias (im_plan img)) (im_target img) of Inl _ \<Rightarrow> None | Inr s \<Rightarrow> Some s)
       (filter (\<lambda>p. p_kind p = PT_LOAD)
         (List.map_filter (program (im_bytes img) (im_header img)) [0..<unat (h_phnum (im_header img))]))"

section \<open>The plan\<close>

text \<open>
  The two loops of \<^verbatim>\<open>plan\<close>. The first checks the program headers and finds the extent of the image and the interpreter, the second places the
  segments and finds the program header table in memory.
\<close>

record elf_scan =
  sc_lowest :: u64
  sc_highest :: u64
  sc_load_count :: u16
  sc_interp :: "(u64 \<times> u64) option"

definition scan_program :: "u64 \<Rightarrow> elf_scan \<Rightarrow> elf_program \<Rightarrow> elf_error + elf_scan" where
  "scan_program file_size sc p =
     (if p_kind p = PT_INTERP then
        if p_filesz p < 2 \<or> p_filesz p > MAX_INTERP_SIZE \<or> \<not> within_file (p_offset p) (p_filesz p) file_size then Inl Interp
        else if sc_interp sc \<noteq> None then Inl Interp
        else Inr (sc\<lparr>sc_interp := Some (p_offset p, p_filesz p)\<rparr>)
      else if p_kind p \<noteq> PT_LOAD then Inr sc
      else
        and_then (check_program p file_size) (\<lambda>_.
        and_then (if sc_load_count sc = - 1 then Inl Program else Inr (sc_load_count sc + 1)) (\<lambda>count.
        and_then (ok_or (Option.bind (checked_add64 (p_vaddr p) (p_memsz p)) page_up) Range) (\<lambda>hi.
          Inr (sc\<lparr>sc_load_count := count, sc_lowest := min (sc_lowest sc) (page_down (p_vaddr p)), sc_highest := max (sc_highest sc) hi\<rparr>)))))"

fun scan_programs :: "u8 list \<Rightarrow> elf_header \<Rightarrow> u64 \<Rightarrow> nat list \<Rightarrow> elf_scan \<Rightarrow> elf_error + elf_scan" where
  "scan_programs bytes header file_size [] sc = Inr sc"
| "scan_programs bytes header file_size (index # indices) sc =
     and_then (ok_or (program bytes header index) Truncated) (\<lambda>p.
     and_then (scan_program file_size sc p) (scan_programs bytes header file_size indices))"

record elf_place =
  pl_phdr :: u64
  pl_entry_mapped :: bool

definition place_program :: "elf_header \<Rightarrow> u64 \<Rightarrow> elf_target \<Rightarrow> u64 \<Rightarrow> elf_place \<Rightarrow> elf_program \<Rightarrow> elf_error + elf_place" where
  "place_program header load_bias target entry st p =
     (if p_kind p \<noteq> PT_LOAD then Inr st
      else
        and_then (segment p load_bias target) (\<lambda>placed.
          let st1 = (if seg_page_start placed \<le> entry \<and> entry < seg_page_end placed then st\<lparr>pl_entry_mapped := True\<rparr> else st)
          in if pl_phdr st1 = 0 then
               (case checked_sub64 (h_phoff header) (p_offset p) of
                  None \<Rightarrow> Inr st1
                | Some relative \<Rightarrow>
                    if relative \<le> p_filesz p \<and> table_size (h_phnum header) \<le> saturating_sub64 (p_filesz p) relative then
                      and_then (ok_or (checked_add64 (seg_address placed) relative) Range) (\<lambda>phdr. Inr (st1\<lparr>pl_phdr := phdr\<rparr>))
                    else Inr st1)
             else Inr st1))"

fun place_programs :: "u8 list \<Rightarrow> elf_header \<Rightarrow> u64 \<Rightarrow> elf_target \<Rightarrow> u64 \<Rightarrow> nat list \<Rightarrow> elf_place \<Rightarrow> elf_error + elf_place" where
  "place_programs bytes header load_bias target entry [] st = Inr st"
| "place_programs bytes header load_bias target entry (index # indices) st =
     and_then (ok_or (program bytes header index) Truncated) (\<lambda>p.
     and_then (place_program header load_bias target entry st p) (place_programs bytes header load_bias target entry indices))"

definition choose_bias :: "elf_header \<Rightarrow> u64 \<Rightarrow> u64 \<Rightarrow> elf_error + u64" where
  "choose_bias header lowest preferred_base =
     (if h_kind header = ET_EXEC then (if lowest < LOWEST_ADDRESS then Inl Range else Inr 0)
      else ok_or (checked_sub64 preferred_base lowest) Range)"

definition plan :: "u8 list \<Rightarrow> u64 \<Rightarrow> u64 \<Rightarrow> elf_target \<Rightarrow> elf_error + elf_image" where
  "plan bytes file_size preferred_base target =
     and_then (parse_header bytes file_size (t_machine target)) (\<lambda>header.
     and_then (header_span bytes file_size (t_machine target)) (\<lambda>span.
     if length bytes < unat span then Inl Truncated
     else
       and_then (scan_programs bytes header file_size [0..<unat (h_phnum header)]
           \<lparr>sc_lowest = - 1, sc_highest = 0, sc_load_count = 0, sc_interp = None\<rparr>) (\<lambda>sc.
       if sc_load_count sc = 0 \<or> sc_lowest sc = - 1 \<or> sc_highest sc \<le> sc_lowest sc then Inl Program
       else if preferred_base AND (PAGE_SIZE - 1) \<noteq> 0 then Inl Range
       else
         and_then (choose_bias header (sc_lowest sc) preferred_base) (\<lambda>load_bias.
         and_then (ok_or (checked_add64 (sc_highest sc) load_bias) Range) (\<lambda>image_end.
         if image_end > t_user_limit target then Inl Range
         else
           and_then (ok_or (checked_add64 (sc_lowest sc) load_bias) Range) (\<lambda>image_start.
           and_then (ok_or (checked_add64 (h_entry header) load_bias) Entry) (\<lambda>entry.
           and_then (place_programs bytes header load_bias target entry [0..<unat (h_phnum header)]
               \<lparr>pl_phdr = 0, pl_entry_mapped = False\<rparr>) (\<lambda>st.
           if entry < LOWEST_ADDRESS \<or> entry \<ge> t_user_limit target \<or> \<not> pl_entry_mapped st then Inl Entry
           else if sc_interp sc \<noteq> None \<and> pl_phdr st = 0 then Inl Phdr
           else
             case (case sc_interp sc of None \<Rightarrow> (0, 0) | Some i \<Rightarrow> i) of (interp_offset, interp_size) \<Rightarrow>
               Inr \<lparr>im_bytes = bytes, im_header = header,
                    im_plan = \<lparr>plan_kind = h_kind header, plan_phnum = h_phnum header, plan_load_count = sc_load_count sc,
                      plan_load_bias = load_bias, plan_entry = entry, plan_phdr = pl_phdr st, plan_image_start = image_start,
                      plan_image_end = image_end, plan_interp_offset = interp_offset, plan_interp_size = interp_size\<rparr>,
                    im_target = target\<rparr>))))))))"

definition interp_path_valid :: "u8 list \<Rightarrow> bool" where
  "interp_path_valid path \<longleftrightarrow>
     (case rev path of
        [] \<Rightarrow> False
      | final # rest \<Rightarrow>
          final = 0 \<and> (case rev rest of [] \<Rightarrow> False | c # _ \<Rightarrow> c = 0x2F) \<and> list_all (\<lambda>byte. byte \<noteq> 0) (rev rest))"

section \<open>The C interface\<close>

text \<open>
  A pointer is \<open>None\<close> when null and otherwise the array behind it. The status is \<open>True\<close> for 0 and \<open>False\<close> for -1. \<open>out\<close> is where the plan is
  written; the records of the C side have the fields of the Rust side and padding.
\<close>

definition elf_slice :: "u8 list option \<Rightarrow> u8 list" where
  "elf_slice pointer = (case pointer of None \<Rightarrow> [] | Some bytes \<Rightarrow> if length bytes < 2 ^ 63 then bytes else [])"

definition tunix_elf_header_span :: "u8 list option \<Rightarrow> u64 \<Rightarrow> u16 \<Rightarrow> int" where
  "tunix_elf_header_span header file_size machine =
     (case header_span (elf_slice header) file_size machine of
        Inl _ \<Rightarrow> - 1
      | Inr span \<Rightarrow> if unat span < 2 ^ 63 then int (unat span) else - 1)"

fun write_segments :: "elf_segment list \<Rightarrow> nat \<Rightarrow> elf_segment list \<Rightarrow> bool \<times> elf_segment list \<times> nat" where
  "write_segments array written [] = (True, array, written)"
| "write_segments array written (s # ss) =
     (if written \<ge> length array then (False, array, written) else write_segments (array[written := s]) (written + 1) ss)"

definition tunix_elf_plan ::
  "u8 list option \<Rightarrow> u64 \<Rightarrow> u16 \<Rightarrow> u64 \<Rightarrow> u64 \<Rightarrow> elf_plan option \<Rightarrow> elf_segment list option \<Rightarrow>
   bool \<times> elf_plan option \<times> elf_segment list option" where
  "tunix_elf_plan headers file_size machine preferred_base user_limit out array =
     (if out = None then (False, out, array)
      else
        (case plan (elf_slice headers) file_size preferred_base \<lparr>t_machine = machine, t_user_limit = user_limit\<rparr> of
           Inl _ \<Rightarrow> (False, out, array)
         | Inr img \<Rightarrow>
             let summary = im_plan img in
             (case array of
                None \<Rightarrow> (True, Some summary, array)
              | Some a \<Rightarrow>
                  if length a < unat (plan_load_count summary) then (True, Some summary, array)
                  else
                    (case write_segments a 0 (segments img) of
                       (complete, a', written) \<Rightarrow>
                         (complete \<and> written = unat (plan_load_count summary), Some summary, Some a')))))"

definition tunix_elf_interp_valid :: "u8 list option \<Rightarrow> bool" where
  "tunix_elf_interp_valid path = interp_path_valid (elf_slice path)"

end
