(* ===== verification/Elf_Reference.thy ===== *)
theory Elf_Reference
  imports Elf
begin

text \<open>
  The validation of the C loader that the Rust planner replaced, \<^verbatim>\<open>kernel/rust/elf-check/reference.c\<close>. Its sums wrap around. The packed structures are
  read from the bytes at their offsets; the callers check the length first. A program header is the record of the
  planner (the physical address is never read).
\<close>

section \<open>Structures\<close>

record elf64_header =
  e_ident :: "u8 list"
  e_type :: u16
  e_machine :: u16
  e_version :: u32
  e_entry :: u64
  e_phoff :: u64
  e_ehsize :: u16
  e_phentsize :: u16
  e_phnum :: u16

record old_plan =
  r_kind :: u16
  r_phnum :: u16
  r_load_count :: u16
  r_entry_wrapped :: u16
  r_load_bias :: u64
  r_entry :: u64
  r_phdr :: u64
  r_image_start :: u64
  r_image_end :: u64
  r_interp_offset :: u64
  r_interp_size :: u64

record reference_segment =
  rs_page_start :: u64
  rs_page_end :: u64
  rs_address :: u64
  rs_writable :: u32
  rs_executable :: u32

definition c_u16 :: "u8 list \<Rightarrow> nat \<Rightarrow> u16" where
  "c_u16 bytes at = le16 (bytes ! at) (bytes ! (at + 1))"

definition c_u32 :: "u8 list \<Rightarrow> nat \<Rightarrow> u32" where
  "c_u32 bytes at = le32 (bytes ! at) (bytes ! (at + 1)) (bytes ! (at + 2)) (bytes ! (at + 3))"

definition c_u64 :: "u8 list \<Rightarrow> nat \<Rightarrow> u64" where
  "c_u64 bytes at = le64 (take 8 (drop at bytes))"

definition c_header :: "u8 list \<Rightarrow> elf64_header" where
  "c_header bytes =
     \<lparr>e_ident = take 16 bytes, e_type = c_u16 bytes 16, e_machine = c_u16 bytes 18, e_version = c_u32 bytes 20, e_entry = c_u64 bytes 24,
      e_phoff = c_u64 bytes 32, e_ehsize = c_u16 bytes 52, e_phentsize = c_u16 bytes 54, e_phnum = c_u16 bytes 56\<rparr>"

definition c_program :: "u8 list \<Rightarrow> nat \<Rightarrow> elf_program" where
  "c_program bytes at =
     \<lparr>p_kind = c_u32 bytes at, p_flags = c_u32 bytes (at + 4), p_offset = c_u64 bytes (at + 8), p_vaddr = c_u64 bytes (at + 16),
      p_filesz = c_u64 bytes (at + 32), p_memsz = c_u64 bytes (at + 40), p_align = c_u64 bytes (at + 48)\<rparr>"

definition c_programs :: "u8 list \<Rightarrow> elf64_header \<Rightarrow> elf_program list" where
  "c_programs bytes header = map (\<lambda>i. c_program bytes (unat (e_phoff header) + 56 * i)) [0..<unat (e_phnum header)]"

section \<open>Checks\<close>

definition align_down :: "u64 \<Rightarrow> u64 \<Rightarrow> u64" where
  "align_down v alignment = v AND NOT (alignment - 1)"

definition align_up :: "u64 \<Rightarrow> u64 \<Rightarrow> u64" where
  "align_up v alignment = (v + alignment - 1) AND NOT (alignment - 1)"

definition power_of_two :: "u64 \<Rightarrow> bool" where
  "power_of_two v \<longleftrightarrow> v \<noteq> 0 \<and> v AND (v - 1) = 0"

definition add_overflows :: "u64 \<Rightarrow> u64 \<Rightarrow> bool" where
  "add_overflows left right \<longleftrightarrow> left > - 1 - right"

definition valid_header :: "elf64_header \<Rightarrow> u64 \<Rightarrow> u16 \<Rightarrow> bool" where
  "valid_header header file_size machine =
     (if file_size < 64 then False
      else if e_ident header ! 0 \<noteq> 0x7F \<or> e_ident header ! 1 \<noteq> 0x45 \<or> e_ident header ! 2 \<noteq> 0x4C \<or> e_ident header ! 3 \<noteq> 0x46 then False
      else if e_ident header ! 4 \<noteq> ELFCLASS64 \<or> e_ident header ! 5 \<noteq> ELFDATA2LSB \<or> e_ident header ! 6 \<noteq> EV_CURRENT then False
      else if (e_type header \<noteq> ET_EXEC \<and> e_type header \<noteq> ET_DYN) \<or> e_machine header \<noteq> machine \<or> e_version header \<noteq> ucast EV_CURRENT then False
      else if e_ehsize header \<noteq> 64 \<or> e_phentsize header \<noteq> 56 \<or> e_phnum header = 0 then False
      else if e_phoff header > file_size then False
      else \<not> ucast (e_phnum header) * ucast (e_phentsize header) > file_size - e_phoff header)"

fun validate_loop :: "u64 \<Rightarrow> elf_program list \<Rightarrow> u64 \<Rightarrow> u64 \<Rightarrow> nat \<Rightarrow> (u64 \<times> u64 \<times> nat) option" where
  "validate_loop file_size [] minimum maximum load_count = Some (minimum, maximum, load_count)"
| "validate_loop file_size (p # ps) minimum maximum load_count =
     (if p_kind p = PT_INTERP then
        if p_filesz p < 2 \<or> p_filesz p > 4096 \<or> p_offset p > file_size \<or> p_filesz p > file_size - p_offset p then None
        else validate_loop file_size ps minimum maximum load_count
      else if p_kind p \<noteq> PT_LOAD then validate_loop file_size ps minimum maximum load_count
      else if p_memsz p < p_filesz p then None
      else if p_filesz p \<noteq> 0 \<and> (p_offset p > file_size \<or> p_filesz p > file_size - p_offset p) then None
      else if p_align p > 1 \<and> \<not> power_of_two (p_align p) then None
      else if p_vaddr p AND 0xFFF \<noteq> p_offset p AND 0xFFF then None
      else if add_overflows (p_vaddr p) (p_memsz p) then None
      else
        let start = align_down (p_vaddr p) 4096;
            hi = align_up (p_vaddr p + p_memsz p) 4096
        in validate_loop file_size ps (if start < minimum then start else minimum) (if hi > maximum then hi else maximum) (load_count + 1))"

definition validate_programs :: "elf_program list \<Rightarrow> u64 \<Rightarrow> (u64 \<times> u64) option" where
  "validate_programs programs file_size =
     (case validate_loop file_size programs (- 1) 0 0 of
        None \<Rightarrow> None
      | Some (minimum, maximum, load_count) \<Rightarrow>
          if load_count = 0 \<or> minimum = - 1 \<or> maximum \<le> minimum then None else Some (minimum, maximum))"

definition choose_load_bias :: "elf64_header \<Rightarrow> u64 \<Rightarrow> u64 \<Rightarrow> u64 option" where
  "choose_load_bias header minimum preferred_base =
     (if e_type header = ET_EXEC then (if minimum < 0x10000 then None else Some 0)
      else if preferred_base < minimum then None
      else Some (preferred_base - minimum))"

definition reference_map_segment :: "elf_program \<Rightarrow> u64 \<Rightarrow> u64 \<Rightarrow> bool" where
  "reference_map_segment p load_bias user_limit =
     (if add_overflows (p_vaddr p) load_bias \<or> add_overflows (p_vaddr p + load_bias) (p_memsz p) then False
      else
        let virtual_address = p_vaddr p + load_bias
        in \<not> (virtual_address < 0x10000 \<or> virtual_address \<ge> user_limit \<or> p_memsz p > user_limit - virtual_address))"

fun program_header_virtual :: "elf64_header \<Rightarrow> elf_program list \<Rightarrow> u64 \<Rightarrow> u64" where
  "program_header_virtual header [] load_bias = 0"
| "program_header_virtual header (p # ps) load_bias =
     (if p_kind p \<noteq> PT_LOAD then program_header_virtual header ps load_bias
      else if e_phoff header < p_offset p then program_header_virtual header ps load_bias
      else
        let relative = e_phoff header - p_offset p
        in if relative \<le> p_filesz p \<and> ucast (e_phnum header) * ucast (e_phentsize header) \<le> p_filesz p - relative then load_bias + p_vaddr p + relative
           else program_header_virtual header ps load_bias)"

fun page_mapped :: "elf_program list \<Rightarrow> u64 \<Rightarrow> u64 \<Rightarrow> bool" where
  "page_mapped [] load_bias address = False"
| "page_mapped (p # ps) load_bias address =
     (if p_kind p \<noteq> PT_LOAD then page_mapped ps load_bias address
      else
        let virtual_address = p_vaddr p + load_bias;
            start = align_down virtual_address 4096;
            hi = align_up (virtual_address + p_memsz p) 4096
        in if address \<ge> start \<and> address < hi then True else page_mapped ps load_bias address)"

section \<open>The plan\<close>

definition reference_header_span :: "u8 list \<Rightarrow> u64 \<Rightarrow> u16 \<Rightarrow> u64 option" where
  "reference_header_span bytes file_size machine =
     (if length bytes < 64 \<or> file_size < 64 then None
      else
        let probe = c_header bytes
        in if \<not> valid_header probe file_size machine then None
           else
             let span = e_phoff probe + ucast (e_phnum probe) * ucast (e_phentsize probe)
             in if span > file_size \<or> span > 64 * 1024 then None else Some span)"

fun reference_segments :: "elf_program list \<Rightarrow> u64 \<Rightarrow> u64 \<Rightarrow> nat \<Rightarrow> reference_segment list \<Rightarrow> (nat \<times> reference_segment list) option" where
  "reference_segments [] load_bias user_limit count array = Some (count, array)"
| "reference_segments (p # ps) load_bias user_limit count array =
     (if p_kind p \<noteq> PT_LOAD then reference_segments ps load_bias user_limit count array
      else if \<not> reference_map_segment p load_bias user_limit then None
      else
        let virtual_address = p_vaddr p + load_bias;
            s = \<lparr>rs_page_start = align_down virtual_address 4096, rs_page_end = align_up (virtual_address + p_memsz p) 4096,
                 rs_address = virtual_address, rs_writable = (if p_flags p AND PF_W \<noteq> 0 then 1 else 0),
                 rs_executable = (if p_flags p AND PF_X \<noteq> 0 then 1 else 0)\<rparr>
        in reference_segments ps load_bias user_limit (count + 1) (if count < length array then array[count := s] else array))"

fun find_interp :: "elf_program list \<Rightarrow> elf_program option \<Rightarrow> elf_program option option" where
  "find_interp [] interp = Some interp"
| "find_interp (p # ps) interp =
     (if p_kind p \<noteq> PT_INTERP then find_interp ps interp
      else if interp \<noteq> None then None
      else find_interp ps (Some p))"

definition reference_plan ::
  "u8 list \<Rightarrow> u64 \<Rightarrow> u16 \<Rightarrow> u64 \<Rightarrow> u64 \<Rightarrow> reference_segment list \<Rightarrow> (old_plan \<times> reference_segment list) option" where
  "reference_plan bytes file_size machine preferred_base user_limit array = do {
     span \<leftarrow> reference_header_span bytes file_size machine;
     (if length bytes < unat span then None
      else
        let header = c_header bytes;
            programs = c_programs bytes header
        in do {
          (minimum, maximum) \<leftarrow> validate_programs programs file_size;
          load_bias \<leftarrow> choose_load_bias header minimum preferred_base;
          (if add_overflows maximum load_bias \<or> maximum + load_bias > user_limit then None
           else do {
             (count, array') \<leftarrow> reference_segments programs load_bias user_limit 0 array;
             (let entry = e_entry header + load_bias
              in if entry < 0x10000 \<or> entry \<ge> user_limit \<or> \<not> page_mapped programs load_bias entry then None
                 else do {
                   interp \<leftarrow> find_interp programs None;
                   (let phdr = program_header_virtual header programs load_bias
                    in if interp \<noteq> None \<and> phdr = 0 then None
                       else Some
                         (\<lparr>r_kind = e_type header, r_phnum = e_phnum header, r_load_count = of_nat count,
                           r_entry_wrapped = (if add_overflows (e_entry header) load_bias then 1 else 0), r_load_bias = load_bias,
                           r_entry = entry, r_phdr = phdr, r_image_start = minimum + load_bias, r_image_end = maximum + load_bias,
                           r_interp_offset = (case interp of None \<Rightarrow> 0 | Some p \<Rightarrow> p_offset p),
                           r_interp_size = (case interp of None \<Rightarrow> 0 | Some p \<Rightarrow> p_filesz p)\<rparr>, array'))
                 })
           })
        })
   }"

definition reference_interp_valid :: "u8 list \<Rightarrow> bool" where
  "reference_interp_valid path =
     (if length path < 2 \<or> length path > 4096 then False
      else if path ! (length path - 1) \<noteq> 0 then False
      else if path ! 0 \<noteq> 0x2F \<or> length (takeWhile (\<lambda>c. c \<noteq> 0) path) + 1 \<noteq> length path then False
      else True)"

text \<open>
  The comparison of the differential tests in \<^verbatim>\<open>kernel/rust/elf-check/src/lib.rs\<close>.
\<close>

definition same_plan :: "elf_plan \<Rightarrow> old_plan \<Rightarrow> bool" where
  "same_plan new old \<longleftrightarrow>
     plan_kind new = r_kind old \<and> plan_phnum new = r_phnum old \<and> plan_load_count new = r_load_count old \<and>
     plan_load_bias new = r_load_bias old \<and> plan_entry new = r_entry old \<and> plan_phdr new = r_phdr old \<and>
     plan_image_start new = r_image_start old \<and> plan_image_end new = r_image_end old \<and>
     plan_interp_offset new = r_interp_offset old \<and> plan_interp_size new = r_interp_size old"

definition same_segment :: "elf_segment \<Rightarrow> reference_segment \<Rightarrow> bool" where
  "same_segment new old \<longleftrightarrow>
     seg_page_start new = rs_page_start old \<and> seg_page_end new = rs_page_end old \<and> seg_address new = rs_address old \<and>
     (if seg_writable new then 1 else 0) = rs_writable old \<and> (if seg_executable new then 1 else 0) = rs_executable old"

end
