(* ===== verification/Elf_Plan.thy ===== *)
theory Elf_Plan
  imports Elf_Reference
begin

text \<open>
  What the planner promises: it agrees with the C code it replaced, and the plans it accepts can be loaded.
\<close>

section \<open>Words\<close>

lemma add_overflows_iff [simp]: "add_overflows a b \<longleftrightarrow> \<not> unat a + unat b < 2 ^ 64"
proof -
  have "unat (- 1 - b) = 2 ^ 64 - 1 - unat b"
  proof -
    have "b \<le> - 1" by simp
    then have "unat (- 1 - b) = unat (- 1 :: u64) - unat b" by (rule unat_sub)
    then show ?thesis by (simp add: unsigned_minus_1_eq_mask mask_eq_exp_minus_1)
  qed
  then have "add_overflows a b \<longleftrightarrow> 2 ^ 64 - 1 - unat b < unat a" by (simp add: add_overflows_def word_less_nat_alt)
  also have "\<dots> \<longleftrightarrow> \<not> unat a + unat b < 2 ^ 64" using unat_u64_less [of b] by linarith
  finally show ?thesis .
qed

lemma unat_add64: "unat a + unat b < 2 ^ 64 \<Longrightarrow> unat (a + b) = unat a + unat b" for a b :: u64
  by (subst unat_add_lem [symmetric]) simp

lemmas unat_add64_simp = unat_add64 [simplified]

lemma align_down_page [simp]: "align_down v 4096 = page_down v"
  by (simp add: align_down_def page_down_def)

lemma align_up_page: "align_up v 4096 = page_down (v + 4095)"
  by (simp add: align_up_def page_down_def add_diff_eq [symmetric])

lemma page_up_Some [simp]: "page_up v = Some w \<longleftrightarrow> unat v + 4095 < 2 ^ 64 \<and> w = align_up v 4096"
  by (auto simp: page_up_def align_up_page checked_add64_def split: if_splits)

lemma within_file_iff [simp]: "within_file off n fs \<longleftrightarrow> \<not> (off > fs \<or> n > fs - off)"
  by (auto simp: within_file_def checked_sub64_def not_le)

lemma table_size_eq: "table_size n = ucast n * 56" "unat (table_size n) = 56 * unat n"
proof -
  have l: "unat n < 65536" using unsigned_less [of n, where ?'a = nat] by simp
  have u: "unat (ucast n :: u64) = unat n" using l by (simp add: unsigned_ucast_eq take_bit_nat_eq_self)
  show e: "table_size n = ucast n * 56" using l by (simp add: table_size_def saturating_mul64_def u)
  show "unat (table_size n) = 56 * unat n"
    using l unfolding e by (subst unat_mult_lem [THEN iffD1]) (simp_all add: u)
qed

lemma page_mask: "(0xFFF :: u64) = mask 12"
  by (simp add: mask_eq_exp_minus_1)

lemma unat_page_down: "unat (page_down v) = 4096 * (unat v div 4096)"
proof -
  have "page_down v = push_bit 12 (drop_bit 12 v)"
  proof -
    have "page_down v = v AND NOT (mask 12)" by (simp add: page_down_def flip: page_mask)
    also have "\<dots> = push_bit 12 (drop_bit 12 v)"
      by (intro bit_word_eqI) (auto simp: bit_and_iff bit_not_iff bit_mask_iff bit_push_bit_iff bit_drop_bit_eq)
    finally show ?thesis .
  qed
  also have "unat \<dots> = unat v div 4096 * 4096"
    unfolding push_bit_eq_mult
    by (subst unat_mult_lem [THEN iffD1]) (use unat_u64_less [of v] in \<open>simp_all add: drop_bit_eq_div unat_div_distrib div_less_iff_less_mult\<close>)
  finally show ?thesis by simp
qed

lemma and_page_mask: "unat (v AND 0xFFF :: u64) = unat v mod 4096"
  unfolding page_mask by (simp add: take_bit_eq_mask [symmetric] take_bit_eq_mod unat_mod_distrib)

text \<open>
  Above the lowest set bit, subtracting one changes nothing.
\<close>

lemma bit_minus_one_above:
  fixes n :: nat
  assumes "bit n k" "\<And>i. i < k \<Longrightarrow> \<not> bit n i" "k < j"
  shows "bit (n - 1) j = bit n j"
proof -
  have "take_bit k n = 0" using assms(2) by (intro bit_eqI) (auto simp: bit_take_bit_iff)
  then have "n mod 2 ^ k = 0" by (simp add: take_bit_eq_mod)
  then obtain m where m: "n = 2 ^ k * m" by (auto simp: mod_eq_0_iff_dvd)
  have "odd m" using assms(1) by (simp add: m bit_iff_odd)
  then obtain q where q: "m = 2 * q + 1" by (rule oddE)
  obtain d where d: "j = k + Suc d" using assms(3) less_imp_Suc_add by fastforce
  have j2: "(2 :: nat) ^ j = 2 ^ k * (2 * 2 ^ d)" by (simp add: d power_add)
  have "n - 1 = (2 ^ k - 1) + 2 ^ k * (2 * q)" unfolding m q by (simp add: algebra_simps)
  moreover have "((2 ^ k - 1) + 2 ^ k * (2 * q)) div 2 ^ k = 2 * q + (2 ^ k - 1) div 2 ^ k" by (rule div_mult_self2) simp
  moreover have "(2 ^ k - 1) div 2 ^ k = (0 :: nat)" by (intro div_less) simp
  ultimately have "(n - 1) div 2 ^ k = 2 * q" by (metis add.right_neutral)
  then have "(n - 1) div 2 ^ j = q div 2 ^ d" unfolding j2 div_mult2_eq by simp
  moreover have "n div 2 ^ j = q div 2 ^ d"
  proof -
    have "n div 2 ^ k = 2 * q + 1" unfolding m q by simp
    then show ?thesis unfolding j2 div_mult2_eq by simp
  qed
  ultimately show ?thesis by (simp add: bit_iff_odd)
qed

lemma is_power_of_two_iff [simp]: "is_power_of_two v \<longleftrightarrow> power_of_two v"
proof -
  have c: "is_power_of_two v \<longleftrightarrow> card {i. i < 64 \<and> bit v i} = 1"
    by (simp add: is_power_of_two_def distinct_length_filter Int_def conj_commute)
  show ?thesis
  proof
    assume "is_power_of_two v"
    then obtain k where k: "{i. i < 64 \<and> bit v i} = {k}" unfolding c by (rule card_1_singletonE)
    then have "v = 2 ^ k" by (intro bit_word_eqI) (auto simp: bit_exp_iff)
    moreover have "k < 64" using k by blast
    moreover have "(2 :: u64) ^ k AND mask k = 0"
      by (intro bit_word_eqI) (simp add: bit_and_iff bit_exp_iff bit_mask_iff)
    ultimately show "power_of_two v" by (simp add: power_of_two_def mask_eq_exp_minus_1)
  next
    assume p: "power_of_two v"
    then have "v \<noteq> 0" by (simp add: power_of_two_def)
    then obtain i where "bit v i" by (auto simp: bit_eq_iff)
    define k where "k = (LEAST i. bit v i)"
    have k: "bit v k" "\<And>i. i < k \<Longrightarrow> \<not> bit v i"
      using \<open>bit v i\<close> by (auto simp: k_def intro: LeastI dest: not_less_Least)
    have nb: "bit (unat v) j = bit v j" for j by (simp add: bit_unsigned_iff)
    have "\<not> bit v j" if "k < j" for j
    proof
      assume j: "bit v j"
      have "bit (unat v - 1) j" using bit_minus_one_above [of "unat v" k j] k j that by (simp add: nb)
      then have "bit (unat (v - 1)) j" by (simp only: unat_minus_one [OF \<open>v \<noteq> 0\<close>])
      then have "bit (v - 1) j" by (simp add: bit_unsigned_iff)
      with j have "bit (v AND (v - 1)) j" by (simp add: bit_and_iff)
      then show False using p by (simp add: power_of_two_def)
    qed
    then have "{i. i < 64 \<and> bit v i} = {k}" using k bit_imp_le_length [OF k(1)] by (auto intro: linorder_cases)
    then show "is_power_of_two v" unfolding c by simp
  qed
qed

section \<open>Reading\<close>

lemma elf_field_eq:
  "elf_field n bytes at = (if at + n \<le> length bytes \<and> at + n < 2 ^ 64 then Some (take n (drop at bytes)) else None)"
  by (auto simp: elf_field_def checked_add_def get_range_def)

lemma elf_reads:
  assumes "length bytes < 2 ^ 63"
  shows "elf_u16 bytes at = (if at + 2 \<le> length bytes then Some (c_u16 bytes at) else None)"
    "elf_u32 bytes at = (if at + 4 \<le> length bytes then Some (c_u32 bytes at) else None)"
    "elf_u64 bytes at = (if at + 8 \<le> length bytes then Some (c_u64 bytes at) else None)"
  using assms by (auto simp: elf_u16_def elf_u32_def elf_u64_def elf_field_eq c_u16_def c_u32_def c_u64_def)

lemma c_reads_slice:
  assumes "at + 56 \<le> length bytes" "k + 4 \<le> 56"
  shows "c_u32 (take 56 (drop at bytes)) k = c_u32 bytes (at + k)"
  using assms by (simp add: c_u32_def ac_simps)

lemma c_u64_slice:
  assumes "at + 56 \<le> length bytes" "k + 8 \<le> 56"
  shows "c_u64 (take 56 (drop at bytes)) k = c_u64 bytes (at + k)"
  using assms by (simp add: c_u64_def drop_take min_def ac_simps)

lemma program_eq:
  assumes "length bytes < 2 ^ 63" "unat (h_phoff h) + 56 * i + 56 \<le> length bytes"
  shows "program bytes h i = Some (c_program bytes (unat (h_phoff h) + 56 * i))"
proof -
  let ?at = "unat (h_phoff h) + 56 * i"
  have l: "length (take 56 (drop ?at bytes)) = 56" using assms(2) by simp
  then have s: "length (take 56 (drop ?at bytes)) < 2 ^ 63" by simp
  have r: "checked_add (unat (h_phoff h)) (i * 56) = Some ?at" "checked_add ?at 56 = Some (?at + 56)"
    "get_range bytes ?at (?at + 56) = Some (take 56 (drop ?at bytes))"
    using assms by (simp_all add: mult.commute)
  show ?thesis
    unfolding program_def r bind.bind_lunit elf_reads [OF s] l
    using assms(2) by (simp add: c_program_def c_reads_slice c_u64_slice del: length_take)
qed

lemma parse_header_Inr:
  assumes "length bytes < 2 ^ 63"
  shows "parse_header bytes file_size machine = Inr h \<longleftrightarrow>
    64 \<le> length bytes \<and> valid_header (c_header bytes) file_size machine \<and>
    h = \<lparr>h_kind = e_type (c_header bytes), h_entry = e_entry (c_header bytes), h_phoff = e_phoff (c_header bytes), h_phnum = e_phnum (c_header bytes)\<rparr>"
proof (cases "64 \<le> length bytes")
  case True
  have i: "take 4 (take 16 bytes) = [0x7F, 0x45, 0x4C, 0x46] \<longleftrightarrow>
      bytes ! 0 = 0x7F \<and> bytes ! 1 = 0x45 \<and> bytes ! 2 = 0x4C \<and> bytes ! 3 = 0x46"
    using True by (auto simp: list_eq_iff_nth_eq nth_Cons' less_Suc_eq numeral_eq_Suc)
  have e: "unat x = 64 \<longleftrightarrow> x = 64" "unat x = 56 \<longleftrightarrow> x = 56" for x :: u16
    by (auto simp: word_unat_eq_iff)
  show ?thesis
    using True assms
    by (auto simp: parse_header_def valid_header_def elf_reads elf_field_eq i e c_header_def checked_sub64_def table_size_eq(1)
        simp del: take_take split: if_splits)
next
  case False
  then show ?thesis by (simp add: parse_header_def)
qed

lemma header_span_Inr:
  assumes "length bytes < 2 ^ 63"
  shows "header_span bytes file_size machine = Inr span \<longleftrightarrow> reference_header_span bytes file_size machine = Some span"
proof -
  let ?c = "c_header bytes"
  have v: "valid_header ?c file_size machine \<Longrightarrow>
      unat (e_phoff ?c) + unat (table_size (e_phnum ?c)) < 2 ^ 64 \<and> \<not> file_size < 64 \<and> ucast (e_phnum ?c) * ucast (e_phentsize ?c) = table_size (e_phnum ?c)"
  proof -
    assume a: "valid_header ?c file_size machine"
    then have e: "ucast (e_phnum ?c) * ucast (e_phentsize ?c) = table_size (e_phnum ?c)" and o: "e_phoff ?c \<le> file_size"
      and l: "\<not> file_size < 64" and t: "table_size (e_phnum ?c) \<le> file_size - e_phoff ?c"
      by (auto simp: valid_header_def table_size_eq(1) split: if_splits)
    have "unat (table_size (e_phnum ?c)) \<le> unat file_size - unat (e_phoff ?c)"
      using t unat_sub [OF o] by (simp add: word_le_nat_alt)
    then show ?thesis using e l o unat_u64_less [of file_size] by (auto simp: word_le_nat_alt)
  qed
  show ?thesis
  proof (cases "64 \<le> length bytes \<and> valid_header ?c file_size machine")
    case True
    then have "parse_header bytes file_size machine = Inr \<lparr>h_kind = e_type ?c, h_entry = e_entry ?c, h_phoff = e_phoff ?c, h_phnum = e_phnum ?c\<rparr>"
      using parse_header_Inr [OF assms] by blast
    then show ?thesis
      using True v by (auto simp: header_span_def reference_header_span_def Let_def checked_add64_def)
  next
    case False
    then have "\<nexists>h. parse_header bytes file_size machine = Inr h" using parse_header_Inr [OF assms] by blast
    then show ?thesis using False by (auto simp: header_span_def reference_header_span_def Let_def)
  qed
qed

section \<open>The loops\<close>

fun try_fold :: "('s \<Rightarrow> 'a \<Rightarrow> 'e + 's) \<Rightarrow> 'a list \<Rightarrow> 's \<Rightarrow> 'e + 's" where
  "try_fold f [] s = Inr s"
| "try_fold f (x # xs) s = and_then (f s x) (try_fold f xs)"

lemma scan_programs_eq:
  "(\<And>i. i \<in> set is \<Longrightarrow> program bytes h i = Some (g i)) \<Longrightarrow>
     scan_programs bytes h file_size is sc = try_fold (scan_program file_size) (map g is) sc"
proof (induction "is" arbitrary: sc)
  case (Cons i "is")
  then show ?case by (simp cong: and_then_cong)
qed simp

lemma place_programs_eq:
  "(\<And>i. i \<in> set is \<Longrightarrow> program bytes h i = Some (g i)) \<Longrightarrow>
     place_programs bytes h bias target entry is st = try_fold (place_program h bias target entry) (map g is) st"
proof (induction "is" arbitrary: st)
  case (Cons i "is")
  then show ?case by (simp cong: and_then_cong)
qed simp

definition loads :: "elf_program list \<Rightarrow> elf_program list" where
  "loads ps = filter (\<lambda>p. p_kind p = PT_LOAD) ps"

text \<open>
  The end of the pages of a program header does not wrap around.
\<close>

definition no_wrap :: "elf_program \<Rightarrow> bool" where
  "no_wrap p \<longleftrightarrow> unat (p_vaddr p) + unat (p_memsz p) + 4095 < 2 ^ 64"

lemma page_end_ok:
  "unat (p_vaddr p) + unat (p_memsz p) < 2 ^ 64 \<Longrightarrow> page_up (p_vaddr p + p_memsz p) = (if no_wrap p then Some (align_up (p_vaddr p + p_memsz p) 4096) else None)"
  by (auto simp: page_up_def no_wrap_def unat_add64 checked_add64_def align_up_page)

lemma check_program_Inr:
  "check_program p file_size = Inr u \<longleftrightarrow>
     \<not> p_memsz p < p_filesz p \<and> \<not> (p_filesz p \<noteq> 0 \<and> (p_offset p > file_size \<or> p_filesz p > file_size - p_offset p)) \<and>
     \<not> (p_align p > 1 \<and> \<not> power_of_two (p_align p)) \<and> p_vaddr p AND 0xFFF = p_offset p AND 0xFFF \<and> no_wrap p"
  by (auto simp: check_program_def checked_add64_def page_end_ok no_wrap_def unat_add64_simp split: if_splits)

definition interp_pair :: "elf_program \<Rightarrow> u64 \<times> u64" where
  "interp_pair p = (p_offset p, p_filesz p)"

definition scan_of :: "u64 \<Rightarrow> u64 \<Rightarrow> nat \<Rightarrow> elf_program option \<Rightarrow> elf_scan" where
  "scan_of minimum maximum n interp =
     \<lparr>sc_lowest = minimum, sc_highest = maximum, sc_load_count = of_nat n, sc_interp = map_option interp_pair interp\<rparr>"

lemma scan_all:
  assumes "n + length ps < 2 ^ 16"
  shows "try_fold (scan_program file_size) ps (scan_of minimum maximum n interp) = Inr sc \<longleftrightarrow>
    list_all no_wrap (loads ps) \<and>
    (\<exists>minimum' maximum' n' interp'. validate_loop file_size ps minimum maximum n = Some (minimum', maximum', n') \<and>
       find_interp ps interp = Some interp' \<and> sc = scan_of minimum' maximum' n' interp')"
  using assms
proof (induction ps arbitrary: minimum maximum n interp)
  case Nil
  then show ?case by (auto simp: loads_def)
next
  case (Cons p ps)
  have n: "(of_nat n :: u16) \<noteq> - 1"
  proof
    assume "(of_nat n :: u16) = - 1"
    then have "unat (of_nat n :: u16) = 2 ^ 16 - 1" by (simp add: unsigned_minus_1_eq_mask mask_eq_exp_minus_1)
    then show False using Cons.prems by (simp add: unsigned_of_nat take_bit_nat_eq_self)
  qed
  show ?case
  proof (cases "p_kind p = PT_LOAD")
    case True
    let ?sc = "scan_of (if align_down (p_vaddr p) 4096 < minimum then align_down (p_vaddr p) 4096 else minimum)
      (if align_up (p_vaddr p + p_memsz p) 4096 > maximum then align_up (p_vaddr p + p_memsz p) 4096 else maximum) (n + 1) interp"
    have "scan_program file_size (scan_of minimum maximum n interp) p = Inr s \<longleftrightarrow> check_program p file_size = Inr () \<and> s = ?sc" for s
      using True n by (auto simp: scan_program_def scan_of_def check_program_Inr page_end_ok no_wrap_def checked_add64_def min_def max_def unat_add64_simp)
    then show ?thesis
      using True Cons.IH [of "n + 1" "if align_down (p_vaddr p) 4096 < minimum then align_down (p_vaddr p) 4096 else minimum"
        "if align_up (p_vaddr p + p_memsz p) 4096 > maximum then align_up (p_vaddr p + p_memsz p) 4096 else maximum" interp] Cons.prems
      by (auto simp: loads_def check_program_Inr no_wrap_def Let_def)
  next
    case False
    then show ?thesis
      using Cons.IH [of n minimum maximum interp] Cons.IH [of n minimum maximum "Some p"] Cons.prems
      by (auto simp: loads_def scan_program_def scan_of_def interp_pair_def)
  qed
qed

section \<open>Segments\<close>

definition load_segment :: "elf_program \<Rightarrow> u64 \<Rightarrow> elf_segment" where
  "load_segment p bias =
     \<lparr>seg_address = p_vaddr p + bias, seg_file_offset = p_offset p, seg_file_size = p_filesz p, seg_memory_size = p_memsz p,
      seg_page_start = page_down (p_vaddr p + bias), seg_page_end = align_up (p_vaddr p + bias + p_memsz p) 4096,
      seg_writable = (p_flags p AND PF_W \<noteq> 0), seg_executable = (p_flags p AND PF_X \<noteq> 0)\<rparr>"

definition reference_segment_of :: "elf_program \<Rightarrow> u64 \<Rightarrow> reference_segment" where
  "reference_segment_of p bias =
     \<lparr>rs_page_start = align_down (p_vaddr p + bias) 4096, rs_page_end = align_up (p_vaddr p + bias + p_memsz p) 4096,
      rs_address = p_vaddr p + bias, rs_writable = (if p_flags p AND PF_W \<noteq> 0 then 1 else 0),
      rs_executable = (if p_flags p AND PF_X \<noteq> 0 then 1 else 0)\<rparr>"

lemma same_segment_of: "same_segment (load_segment p bias) (reference_segment_of p bias)"
  by (simp add: same_segment_def load_segment_def reference_segment_of_def)

text \<open>
  A segment that the C code accepts lies between the lowest address and the limit, in numbers.
\<close>

lemma reference_map_segment_iff:
  "reference_map_segment p bias limit \<longleftrightarrow>
     0x10000 \<le> unat (p_vaddr p) + unat bias \<and> unat (p_vaddr p) + unat bias < unat limit \<and>
     unat (p_vaddr p) + unat bias + unat (p_memsz p) \<le> unat limit"
proof (cases "unat (p_vaddr p) + unat bias < 2 ^ 64")
  case True
  note a = unat_add64 [OF True]
  have "p_memsz p > limit - (p_vaddr p + bias) \<longleftrightarrow> unat limit < unat (p_vaddr p) + unat bias + unat (p_memsz p)"
    if "p_vaddr p + bias < limit"
  proof -
    have "unat (limit - (p_vaddr p + bias)) = unat limit - unat (p_vaddr p + bias)"
      using that by (intro unat_sub) (rule order_less_imp_le)
    then show ?thesis using that a by (auto simp: word_less_nat_alt)
  qed
  then show ?thesis
    using True a unat_u64_less [of limit]
    by (auto simp: reference_map_segment_def Let_def word_less_nat_alt word_le_nat_alt not_less)
next
  case False
  then show ?thesis using unat_u64_less [of limit] by (auto simp: reference_map_segment_def)
qed

lemma segment_Inr:
  assumes "unat (t_user_limit target) + 4095 < 2 ^ 64"
  shows "segment p bias target = Inr s \<longleftrightarrow> reference_map_segment p bias (t_user_limit target) \<and> s = load_segment p bias"
proof (cases "unat (p_vaddr p) + unat bias < 2 ^ 64 \<and> unat (p_vaddr p) + unat bias + unat (p_memsz p) < 2 ^ 64")
  case True
  then have a: "unat (p_vaddr p + bias) = unat (p_vaddr p) + unat bias"
    "unat (p_vaddr p + bias + p_memsz p) = unat (p_vaddr p) + unat bias + unat (p_memsz p)"
    by (simp_all add: unat_add64_simp)
  have m: "reference_map_segment p bias (t_user_limit target) \<longleftrightarrow>
      \<not> (p_vaddr p + bias < 0x10000 \<or> p_vaddr p + bias \<ge> t_user_limit target) \<and> \<not> p_memsz p > saturating_sub64 (t_user_limit target) (p_vaddr p + bias)"
    using True a by (auto simp: reference_map_segment_def Let_def saturating_sub64_def)
  have "reference_map_segment p bias (t_user_limit target) \<Longrightarrow> unat (p_vaddr p + bias + p_memsz p) + 4095 < 2 ^ 64"
    unfolding reference_map_segment_iff a using assms by linarith
  then show ?thesis
    using True a m by (auto simp: segment_def checked_add64_def load_segment_def)
next
  case False
  then have "segment p bias target \<noteq> Inr s" by (auto simp: segment_def checked_add64_def unat_add64_simp)
  moreover have "\<not> reference_map_segment p bias (t_user_limit target)"
    unfolding reference_map_segment_iff using False unat_u64_less [of "t_user_limit target"] by linarith
  ultimately show ?thesis by simp
qed

fun fill_from :: "nat \<Rightarrow> 'a list \<Rightarrow> 'a list \<Rightarrow> 'a list" where
  "fill_from n [] array = array"
| "fill_from n (x # xs) array = fill_from (n + 1) xs (if n < length array then array[n := x] else array)"

lemma take_fill_from: "n + length xs \<le> length array \<Longrightarrow> take (n + length xs) (fill_from n xs array) = take n array @ xs"
proof (induction xs arbitrary: n array)
  case (Cons x xs)
  have "take (n + 1) (array[n := x]) = take n array @ [x]" using Cons.prems by (simp add: take_Suc_conv_app_nth)
  then show ?case using Cons.IH [of "n + 1" "array[n := x]"] Cons.prems by simp
qed simp

lemma reference_segments_Some:
  "reference_segments ps bias limit n array = Some (n', array') \<longleftrightarrow>
     list_all (\<lambda>p. reference_map_segment p bias limit) (loads ps) \<and> n' = n + length (loads ps) \<and>
     array' = fill_from n (map (\<lambda>p. reference_segment_of p bias) (loads ps)) array"
proof (induction ps arbitrary: n array)
  case Nil
  then show ?case by (auto simp: loads_def)
next
  case (Cons p ps)
  show ?case
  proof (cases "p_kind p = PT_LOAD")
    case True
    then have l: "loads (p # ps) = p # loads ps" by (simp add: loads_def)
    have "reference_segments (p # ps) bias limit n array =
        (if reference_map_segment p bias limit
         then reference_segments ps bias limit (n + 1) (if n < length array then array[n := reference_segment_of p bias] else array) else None)"
      using True by (simp add: Let_def reference_segment_of_def)
    then show ?thesis
      unfolding l using Cons.IH [of "n + 1" "if n < length array then array[n := reference_segment_of p bias] else array"]
      by simp
  next
    case False
    then show ?thesis using Cons.IH [of n array] by (simp add: loads_def)
  qed
qed

text \<open>
  The program header table is found at the same address, which is not zero.
\<close>

lemma place_all:
  assumes "unat (t_user_limit target) + 4095 < 2 ^ 64" "\<And>p. p \<in> set (loads ps) \<Longrightarrow> p_filesz p \<le> p_memsz p"
    "h_phoff h = e_phoff c" "h_phnum h = e_phnum c" "e_phentsize c = 56"
  shows "try_fold (place_program h bias target entry) ps st = Inr st' \<longleftrightarrow>
    list_all (\<lambda>p. reference_map_segment p bias (t_user_limit target)) (loads ps) \<and>
    st' = st\<lparr>pl_entry_mapped := pl_entry_mapped st \<or> page_mapped ps bias entry,
             pl_phdr := (if pl_phdr st = 0 then program_header_virtual c ps bias else pl_phdr st)\<rparr>"
  using assms(2)
proof (induction ps arbitrary: st)
  case Nil
  then show ?case by (auto simp: loads_def)
next
  case (Cons p ps)
  have t: "ucast (e_phnum c) * ucast (e_phentsize c) = table_size (e_phnum c)" by (simp add: assms(5) table_size_eq(1))
  show ?case
  proof (cases "p_kind p = PT_LOAD")
    case False
    then show ?thesis using Cons.IH [of st] Cons.prems by (simp add: place_program_def loads_def)
  next
    case True
    then have l: "loads (p # ps) = p # loads ps" by (simp add: loads_def)
    show ?thesis
    proof (cases "reference_map_segment p bias (t_user_limit target)")
      case False
      then have "\<And>s. segment p bias target \<noteq> Inr s" using segment_Inr [OF assms(1)] by blast
      then obtain e where "segment p bias target = Inl e" by (cases "segment p bias target") auto
      then show ?thesis using True False by (simp add: place_program_def l)
    next
      case map: True
      then have s: "segment p bias target = Inr (load_segment p bias)" using segment_Inr [OF assms(1)] by blast
      have m: "0x10000 \<le> unat (p_vaddr p) + unat bias" "unat (p_vaddr p) + unat bias + unat (p_memsz p) < 2 ^ 64"
        using map assms(1) unfolding reference_map_segment_iff by linarith+
      have rel: "checked_add64 (p_vaddr p + bias) r = Some (bias + p_vaddr p + r) \<and> bias + p_vaddr p + r \<noteq> 0" if "r \<le> p_filesz p" for r
      proof -
        have "unat r \<le> unat (p_memsz p)" using that Cons.prems [of p] by (simp add: l word_le_nat_alt)
        then have "unat (p_vaddr p) + unat bias + unat r < 2 ^ 64" using m(2) by linarith
        then have "unat (p_vaddr p + bias) + unat r < 2 ^ 64" "unat (p_vaddr p + bias + r) = unat (p_vaddr p) + unat bias + unat r"
          by (simp_all add: unat_add64_simp)
        moreover from this m(1) have "p_vaddr p + bias + r \<noteq> 0" by (auto simp: word_unat_eq_iff)
        ultimately show ?thesis by (simp add: checked_add64_def ac_simps)
      qed
      define st1 where "st1 = st\<lparr>pl_entry_mapped := pl_entry_mapped st \<or> page_down (p_vaddr p + bias) \<le> entry \<and> entry < align_up (p_vaddr p + bias + p_memsz p) 4096\<rparr>"
      define hit where "hit \<longleftrightarrow> \<not> e_phoff c < p_offset p \<and> e_phoff c - p_offset p \<le> p_filesz p \<and>
          table_size (e_phnum c) \<le> p_filesz p - (e_phoff c - p_offset p)"
      have step: "place_program h bias target entry st p =
          Inr (if pl_phdr st = 0 \<and> hit then st1\<lparr>pl_phdr := bias + p_vaddr p + (e_phoff c - p_offset p)\<rparr> else st1)"
      proof -
        have st1: "(if seg_page_start (load_segment p bias) \<le> entry \<and> entry < seg_page_end (load_segment p bias) then st\<lparr>pl_entry_mapped := True\<rparr> else st) = st1"
          by (cases st) (auto simp: st1_def load_segment_def)
        have "pl_phdr st1 = pl_phdr st" "seg_address (load_segment p bias) = p_vaddr p + bias" by (simp_all add: st1_def load_segment_def)
        then show ?thesis
          using True rel [of "e_phoff c - p_offset p"]
          unfolding place_program_def s and_then_simps Let_def st1 hit_def assms(3,4)
          by (cases "e_phoff c < p_offset p") (auto simp: checked_sub64_def saturating_sub64_def not_less not_le)
      qed
      have virt: "program_header_virtual c (p # ps) bias =
          (if hit then bias + p_vaddr p + (e_phoff c - p_offset p) else program_header_virtual c ps bias)"
        using True by (auto simp: Let_def hit_def t not_less not_le)
      have mapped: "page_mapped (p # ps) bias entry \<longleftrightarrow>
          page_down (p_vaddr p + bias) \<le> entry \<and> entry < align_up (p_vaddr p + bias + p_memsz p) 4096 \<or> page_mapped ps bias entry"
        using True by (auto simp: Let_def)
      have nz: "hit \<Longrightarrow> bias + p_vaddr p + (e_phoff c - p_offset p) \<noteq> 0" using rel by (simp add: hit_def)
      show ?thesis
        unfolding try_fold.simps step and_then_simps virt mapped l
        using Cons.IH [of "if pl_phdr st = 0 \<and> hit then st1\<lparr>pl_phdr := bias + p_vaddr p + (e_phoff c - p_offset p)\<rparr> else st1"] Cons.prems map nz
        by (auto simp: l st1_def)
    qed
  qed
qed

section \<open>Acceptance\<close>

lemma and_then_InrD: "and_then r f = Inr y \<Longrightarrow> \<exists>x. r = Inr x"
  by auto

lemma validate_loop_load:
  assumes "validate_loop file_size (p # ps) minimum maximum n = Some r" "p_kind p = PT_LOAD"
  shows "p_filesz p \<le> p_memsz p" "p_filesz p = 0 \<or> p_offset p \<le> file_size \<and> p_filesz p \<le> file_size - p_offset p"
    "p_vaddr p AND 0xFFF = p_offset p AND 0xFFF" "unat (p_vaddr p) + unat (p_memsz p) < 2 ^ 64"
    "validate_loop file_size ps (if align_down (p_vaddr p) 4096 < minimum then align_down (p_vaddr p) 4096 else minimum)
       (if align_up (p_vaddr p + p_memsz p) 4096 > maximum then align_up (p_vaddr p + p_memsz p) 4096 else maximum) (n + 1) = Some r"
proof -
  have k: "p_kind p \<noteq> PT_INTERP" "\<not> p_kind p \<noteq> PT_LOAD" using assms(2) by simp_all
  note e1 = assms(1) [unfolded validate_loop.simps if_not_P [OF k(1)] if_not_P [OF k(2)]]
  have c1: "\<not> p_memsz p < p_filesz p" using e1 by (rule contrapos_pn) simp
  note e2 = e1 [unfolded if_not_P [OF c1]]
  have c2: "\<not> (p_filesz p \<noteq> 0 \<and> (p_offset p > file_size \<or> p_filesz p > file_size - p_offset p))" using e2 by (rule contrapos_pn) simp
  note e3 = e2 [unfolded if_not_P [OF c2]]
  have c3: "\<not> (p_align p > 1 \<and> \<not> power_of_two (p_align p))" using e3 by (rule contrapos_pn) simp
  note e4 = e3 [unfolded if_not_P [OF c3]]
  have c4: "\<not> p_vaddr p AND 0xFFF \<noteq> p_offset p AND 0xFFF" using e4 by (rule contrapos_pn) simp
  note e5 = e4 [unfolded if_not_P [OF c4]]
  have c5: "\<not> add_overflows (p_vaddr p) (p_memsz p)" using e5 by (rule contrapos_pn) simp
  note e6 = e5 [unfolded if_not_P [OF c5] Let_def]
  show "p_filesz p \<le> p_memsz p" using c1 by simp
  show "p_filesz p = 0 \<or> p_offset p \<le> file_size \<and> p_filesz p \<le> file_size - p_offset p" using c2 by (auto simp: not_less)
  show "p_vaddr p AND 0xFFF = p_offset p AND 0xFFF" using c4 by simp
  show "unat (p_vaddr p) + unat (p_memsz p) < 2 ^ 64" using c5 by simp
  show "validate_loop file_size ps (if align_down (p_vaddr p) 4096 < minimum then align_down (p_vaddr p) 4096 else minimum)
       (if align_up (p_vaddr p + p_memsz p) 4096 > maximum then align_up (p_vaddr p + p_memsz p) 4096 else maximum) (n + 1) = Some r"
    by (rule e6)
qed

lemma validate_loop_other:
  assumes "validate_loop file_size (p # ps) minimum maximum n = Some r" "p_kind p \<noteq> PT_LOAD"
  shows "validate_loop file_size ps minimum maximum n = Some r"
    "p_kind p = PT_INTERP \<Longrightarrow> 2 \<le> p_filesz p \<and> p_filesz p \<le> 4096 \<and> p_offset p \<le> file_size \<and> p_filesz p \<le> file_size - p_offset p"
  using assms by (auto simp: not_less split: if_splits)

lemma validate_loop_facts:
  assumes "validate_loop file_size ps minimum maximum n = Some (minimum', maximum', n')"
  shows "n' = n + length (loads ps) \<and> minimum' \<le> minimum \<and> maximum \<le> maximum' \<and>
    (\<forall>p \<in> set ps. p_kind p = PT_INTERP \<longrightarrow> 2 \<le> p_filesz p \<and> p_filesz p \<le> 4096 \<and> p_offset p \<le> file_size \<and> p_filesz p \<le> file_size - p_offset p) \<and>
    (\<forall>p \<in> set (loads ps). p_filesz p \<le> p_memsz p \<and> (p_filesz p = 0 \<or> p_offset p \<le> file_size \<and> p_filesz p \<le> file_size - p_offset p) \<and>
       p_vaddr p AND 0xFFF = p_offset p AND 0xFFF \<and> minimum' \<le> page_down (p_vaddr p) \<and> align_up (p_vaddr p + p_memsz p) 4096 \<le> maximum')"
  using assms
proof (induction ps arbitrary: minimum maximum n)
  case Nil
  then show ?case by (simp add: loads_def)
next
  case (Cons p ps)
  show ?case
  proof (cases "p_kind p = PT_LOAD")
    case True
    then have l: "loads (p # ps) = p # loads ps" "p_kind p \<noteq> PT_INTERP" by (simp_all add: loads_def)
    note v = validate_loop_load [OF Cons.prems True]
    note ih = Cons.IH [OF v(5)]
    have "minimum' \<le> page_down (p_vaddr p)" "minimum' \<le> minimum" "align_up (p_vaddr p + p_memsz p) 4096 \<le> maximum'" "maximum \<le> maximum'"
      using ih by (auto split: if_splits)
    then show ?thesis using ih v(1,2,3) l by simp
  next
    case False
    then have l: "loads (p # ps) = loads ps" by (simp add: loads_def)
    show ?thesis using Cons.IH [OF validate_loop_other(1) [OF Cons.prems False]] validate_loop_other(2) [OF Cons.prems False] l by auto
  qed
qed

text \<open>
  The conditions that both planners check, on the list of program headers.
\<close>

definition accepts ::
  "elf64_header \<Rightarrow> elf_program list \<Rightarrow> u64 \<Rightarrow> u64 \<Rightarrow> u64 \<Rightarrow> u64 \<Rightarrow> u64 \<Rightarrow> nat \<Rightarrow> elf_program option \<Rightarrow> u64 \<Rightarrow> bool" where
  "accepts c ps file_size base limit minimum maximum n interp bias \<longleftrightarrow>
     validate_loop file_size ps (- 1) 0 0 = Some (minimum, maximum, n) \<and> n \<noteq> 0 \<and> minimum \<noteq> - 1 \<and> \<not> maximum \<le> minimum \<and>
     find_interp ps None = Some interp \<and> choose_load_bias c minimum base = Some bias \<and>
     unat maximum + unat bias < 2 ^ 64 \<and> \<not> maximum + bias > limit \<and> list_all (\<lambda>p. reference_map_segment p bias limit) (loads ps) \<and>
     \<not> (e_entry c + bias < 0x10000 \<or> e_entry c + bias \<ge> limit \<or> \<not> page_mapped ps bias (e_entry c + bias)) \<and>
     \<not> (interp \<noteq> None \<and> program_header_virtual c ps bias = 0)"

lemma accepts_no_wrap:
  assumes "accepts c ps file_size base limit minimum maximum n interp bias" "unat limit + 4095 < 2 ^ 64"
  shows "list_all no_wrap (loads ps)"
  using assms by (auto simp: accepts_def reference_map_segment_iff no_wrap_def list_all_iff)

definition plan_of :: "elf64_header \<Rightarrow> elf_program list \<Rightarrow> u64 \<Rightarrow> u64 \<Rightarrow> nat \<Rightarrow> elf_program option \<Rightarrow> u64 \<Rightarrow> elf_plan" where
  "plan_of c ps minimum maximum n interp bias =
     \<lparr>plan_kind = e_type c, plan_phnum = e_phnum c, plan_load_count = of_nat n, plan_load_bias = bias, plan_entry = e_entry c + bias,
      plan_phdr = program_header_virtual c ps bias, plan_image_start = minimum + bias, plan_image_end = maximum + bias,
      plan_interp_offset = (case interp of None \<Rightarrow> 0 | Some p \<Rightarrow> p_offset p),
      plan_interp_size = (case interp of None \<Rightarrow> 0 | Some p \<Rightarrow> p_filesz p)\<rparr>"

definition header_of :: "elf64_header \<Rightarrow> elf_header" where
  "header_of c = \<lparr>h_kind = e_type c, h_entry = e_entry c, h_phoff = e_phoff c, h_phnum = e_phnum c\<rparr>"

definition reference_of :: "elf64_header \<Rightarrow> elf_program list \<Rightarrow> u64 \<Rightarrow> u64 \<Rightarrow> nat \<Rightarrow> elf_program option \<Rightarrow> u64 \<Rightarrow> old_plan" where
  "reference_of c ps minimum maximum n interp bias =
     \<lparr>r_kind = e_type c, r_phnum = e_phnum c, r_load_count = of_nat n,
      r_entry_wrapped = (if unat (e_entry c) + unat bias < 2 ^ 64 then 0 else 1), r_load_bias = bias, r_entry = e_entry c + bias,
      r_phdr = program_header_virtual c ps bias, r_image_start = minimum + bias, r_image_end = maximum + bias,
      r_interp_offset = (case interp of None \<Rightarrow> 0 | Some p \<Rightarrow> p_offset p),
      r_interp_size = (case interp of None \<Rightarrow> 0 | Some p \<Rightarrow> p_filesz p)\<rparr>"

lemma same_plan_of: "same_plan (plan_of c ps minimum maximum n interp bias) (reference_of c ps minimum maximum n interp bias)"
  by (simp add: same_plan_def plan_of_def reference_of_def)

lemma reference_plan_accepts:
  assumes "reference_header_span bytes file_size machine = Some span" "unat span \<le> length bytes"
    and "c = c_header bytes" "ps = c_programs bytes c" "accepts c ps file_size base limit minimum maximum n interp bias"
  shows "reference_plan bytes file_size machine base limit array =
    Some (reference_of c ps minimum maximum n interp bias, fill_from 0 (map (\<lambda>p. reference_segment_of p bias) (loads ps)) array)"
proof -
  note a = assms(5) [unfolded accepts_def]
  have v: "validate_programs ps file_size = Some (minimum, maximum)" using a by (simp add: validate_programs_def)
  have n: "n = length (loads ps)" using a validate_loop_facts by force
  have s: "reference_segments ps bias limit 0 array = Some (n, fill_from 0 (map (\<lambda>p. reference_segment_of p bias) (loads ps)) array)"
    using a n by (simp add: reference_segments_Some)
  show ?thesis
    unfolding reference_plan_def assms(1) bind.bind_lunit Let_def assms(3,4) [symmetric] v
    using a assms(2) s by (simp add: reference_of_def)
qed

lemma reference_plan_Some:
  assumes "reference_header_span bytes file_size machine = Some span" "unat span \<le> length bytes"
    and "c = c_header bytes" "ps = c_programs bytes c" "reference_plan bytes file_size machine base limit array = Some r"
  shows "\<exists>minimum maximum n interp bias. accepts c ps file_size base limit minimum maximum n interp bias"
proof -
  have l: "\<not> length bytes < unat span" using assms(2) by simp
  note e1 = assms(5) [unfolded reference_plan_def assms(1) bind.bind_lunit if_not_P [OF l] Let_def assms(3,4) [symmetric]]
  have "validate_programs ps file_size \<noteq> None" using e1 by (intro notI) simp
  then obtain minimum maximum where v: "validate_programs ps file_size = Some (minimum, maximum)" by auto
  then obtain n where vl: "validate_loop file_size ps (- 1) 0 0 = Some (minimum, maximum, n)"
      "n \<noteq> 0" "minimum \<noteq> - 1" "\<not> maximum \<le> minimum"
    by (auto simp: validate_programs_def split: option.splits if_splits)
  note e2 = e1 [unfolded v bind.bind_lunit prod.case]
  have "choose_load_bias c minimum base \<noteq> None" using e2 by (intro notI) simp
  then obtain bias where b: "choose_load_bias c minimum base = Some bias" by auto
  note e3 = e2 [unfolded b bind.bind_lunit]
  have o: "\<not> (add_overflows maximum bias \<or> maximum + bias > limit)" using e3 by (rule contrapos_pn) simp
  note e4 = e3 [unfolded if_not_P [OF o]]
  have "reference_segments ps bias limit 0 array \<noteq> None" using e4 by (intro notI) simp
  then obtain m array' where s: "reference_segments ps bias limit 0 array = Some (m, array')" by auto
  note e5 = e4 [unfolded s bind.bind_lunit prod.case]
  have e: "\<not> (e_entry c + bias < 0x10000 \<or> e_entry c + bias \<ge> limit \<or> \<not> page_mapped ps bias (e_entry c + bias))"
    using e5 by (rule contrapos_pn) simp
  note e6 = e5 [unfolded if_not_P [OF e]]
  have "find_interp ps None \<noteq> None" using e6 by (intro notI) simp
  then obtain interp where i: "find_interp ps None = Some interp" by auto
  note e7 = e6 [unfolded i bind.bind_lunit]
  have "\<not> (interp \<noteq> None \<and> program_header_virtual c ps bias = 0)" using e7 by (rule contrapos_pn) simp
  then have "accepts c ps file_size base limit minimum maximum n interp bias"
    using vl b o s e i by (simp add: accepts_def reference_segments_Some)
  then show ?thesis by blast
qed

text \<open>
  The planner reads the same program headers.
\<close>

lemma reference_span_facts:
  assumes "reference_header_span bytes file_size machine = Some span"
  shows "64 \<le> length bytes" "valid_header (c_header bytes) file_size machine" "e_phentsize (c_header bytes) = 56"
    "unat span = unat (e_phoff (c_header bytes)) + 56 * unat (e_phnum (c_header bytes))" "span \<le> file_size" "span \<le> 0x10000"
proof -
  let ?c = "c_header bytes"
  have s: "64 \<le> length bytes \<and> valid_header ?c file_size machine \<and> span \<le> file_size \<and> span \<le> 0x10000 \<and>
      span = e_phoff ?c + ucast (e_phnum ?c) * ucast (e_phentsize ?c)"
    using assms by (auto simp: reference_header_span_def Let_def not_less split: if_splits)
  then show "64 \<le> length bytes" "valid_header ?c file_size machine" "span \<le> file_size" "span \<le> 0x10000" by blast+
  have v: "e_phentsize ?c = 56 \<and> e_phoff ?c \<le> file_size \<and> table_size (e_phnum ?c) \<le> file_size - e_phoff ?c"
    using s by (auto simp: valid_header_def table_size_eq(1) split: if_splits)
  then show "e_phentsize ?c = 56" by simp
  have "unat (table_size (e_phnum ?c)) \<le> unat file_size - unat (e_phoff ?c)"
    using v unat_sub [of "e_phoff ?c" file_size] by (simp add: word_le_nat_alt)
  then have "unat (e_phoff ?c) + unat (table_size (e_phnum ?c)) < 2 ^ 64"
    using v unat_u64_less [of file_size] by (auto simp: word_le_nat_alt)
  then have "unat (e_phoff ?c + table_size (e_phnum ?c)) = unat (e_phoff ?c) + 56 * unat (e_phnum ?c)"
    by (simp add: unat_add64 table_size_eq(2))
  then show "unat span = unat (e_phoff ?c) + 56 * unat (e_phnum ?c)" using s v by (simp add: table_size_eq(1))
qed

lemma programs_read:
  assumes "length bytes < 2 ^ 63" "reference_header_span bytes file_size machine = Some span" "unat span \<le> length bytes"
    and "c = c_header bytes" "i \<in> set [0..<unat (h_phnum (header_of c))]"
  shows "program bytes (header_of c) i = Some (c_program bytes (unat (e_phoff c) + 56 * i))"
proof -
  have "unat (e_phoff c) + 56 * i + 56 \<le> length bytes"
    using reference_span_facts(4) [OF assms(2)] assms(3-5) by (simp add: header_of_def)
  then show ?thesis using program_eq [OF assms(1), of "header_of c" i] by (simp add: header_of_def)
qed

lemma programs_list: "map (\<lambda>i. c_program bytes (unat (e_phoff c) + 56 * i)) [0..<unat (h_phnum (header_of c))] = c_programs bytes c"
  by (simp add: c_programs_def header_of_def)

lemma plan_Inr:
  assumes "length bytes < 2 ^ 63" "reference_header_span bytes file_size (t_machine target) = Some span" "unat span \<le> length bytes"
    and "c = c_header bytes" "ps = c_programs bytes c" "unat (t_user_limit target) + 4095 < 2 ^ 64"
  shows "plan bytes file_size base target = Inr img \<longleftrightarrow>
    (\<exists>minimum maximum n interp bias.
       accepts c ps file_size base (t_user_limit target) minimum maximum n interp bias \<and> base AND 0xFFF = 0 \<and>
       unat (e_entry c) + unat bias < 2 ^ 64 \<and>
       img = \<lparr>im_bytes = bytes, im_header = header_of c, im_plan = plan_of c ps minimum maximum n interp bias, im_target = target\<rparr>)"
    (is "_ \<longleftrightarrow> ?accepted")
proof -
  note sf = reference_span_facts [OF assms(2), folded assms(4)]
  have p: "parse_header bytes file_size (t_machine target) = Inr (header_of c)"
    using parse_header_Inr [OF assms(1)] sf(1,2) assms(4) by (simp add: header_of_def)
  have h: "header_span bytes file_size (t_machine target) = Inr span" using header_span_Inr [OF assms(1)] assms(2) by simp
  have l: "\<not> length bytes < unat span" using assms(3) by simp
  have scan: "scan_programs bytes (header_of c) file_size [0..<unat (h_phnum (header_of c))] sc = try_fold (scan_program file_size) ps sc" for sc
    unfolding assms(5) programs_list [symmetric] by (rule scan_programs_eq) (rule programs_read [OF assms(1-4)])
  have place: "place_programs bytes (header_of c) bias target entry [0..<unat (h_phnum (header_of c))] st =
      try_fold (place_program (header_of c) bias target entry) ps st" for bias entry st
    unfolding assms(5) programs_list [symmetric] by (rule place_programs_eq) (rule programs_read [OF assms(1-4)])
  have z: "\<lparr>sc_lowest = - 1, sc_highest = 0, sc_load_count = 0, sc_interp = None\<rparr> = scan_of (- 1) 0 0 None" by (simp add: scan_of_def)
  have len: "length ps < 2 ^ 16"
    using unsigned_less [of "e_phnum c", where ?'a = nat] by (simp add: assms(5) c_programs_def)
  have n0: "(of_nat n :: u16) = 0 \<longleftrightarrow> n = 0" if "validate_loop file_size ps (- 1) 0 0 = Some (a, b, n)" for a b n
  proof -
    have "n \<le> length ps" using validate_loop_facts [OF that] by (simp add: loads_def)
    then have "unat (of_nat n :: u16) = n" using len by (simp add: unsigned_of_nat take_bit_nat_eq_self)
    then show ?thesis by (auto simp: word_unat_eq_iff)
  qed
  have b: "choose_bias (header_of c) minimum base = Inr bias \<longleftrightarrow> choose_load_bias c minimum base = Some bias" for minimum bias
    by (auto simp: choose_bias_def choose_load_bias_def header_of_def checked_sub64_def)
  note plan_unfold = plan_def [of bytes file_size base target, unfolded p h and_then_simps if_not_P [OF l] scan place z]
  have ph: "h_phoff (header_of c) = e_phoff c" "h_phnum (header_of c) = e_phnum c" "h_entry (header_of c) = e_entry c" "h_kind (header_of c) = e_type c"
    by (simp_all add: header_of_def)
  have placed: "try_fold (place_program (header_of c) bias target entry) ps \<lparr>pl_phdr = 0, pl_entry_mapped = False\<rparr> = Inr st \<longleftrightarrow>
      list_all (\<lambda>p. reference_map_segment p bias (t_user_limit target)) (loads ps) \<and>
      st = \<lparr>pl_phdr = program_header_virtual c ps bias, pl_entry_mapped = page_mapped ps bias entry\<rparr>"
    if "validate_loop file_size ps (- 1) 0 0 = Some (a, b, n)" for a b n bias entry st
    using place_all [OF assms(6) _ ph(1,2) sf(3), of ps bias entry "\<lparr>pl_phdr = 0, pl_entry_mapped = False\<rparr>" st] validate_loop_facts [OF that] by simp
  have start: "unat minimum + unat bias < 2 ^ 64" if "\<not> maximum \<le> minimum" "unat maximum + unat bias < 2 ^ 64" for minimum maximum bias :: u64
    using that by (simp add: word_le_nat_alt)
  show ?thesis
  proof
    assume "plan bytes file_size base target = Inr img"
    note e1 = this [unfolded plan_unfold]
    obtain sc where sc: "try_fold (scan_program file_size) ps (scan_of (- 1) 0 0 None) = Inr sc" using and_then_InrD [OF e1] by blast
    then obtain minimum maximum n interp where v: "validate_loop file_size ps (- 1) 0 0 = Some (minimum, maximum, n)"
        "find_interp ps None = Some interp" "sc = scan_of minimum maximum n interp"
      using scan_all [of 0 ps file_size "- 1" 0 None sc] len by auto
    have scf: "sc_load_count sc = of_nat n" "sc_lowest sc = minimum" "sc_highest sc = maximum" "sc_interp sc = map_option interp_pair interp"
      by (simp_all add: v(3) scan_of_def)
    note e2 = e1 [unfolded sc and_then_simps scf n0 [OF v(1)]]
    have c1: "\<not> (n = 0 \<or> minimum = - 1 \<or> maximum \<le> minimum)" using e2 by (rule contrapos_pn) simp
    note e3 = e2 [unfolded if_not_P [OF c1]]
    have c2: "\<not> base AND (4096 - 1) \<noteq> 0" using e3 by (rule contrapos_pn) simp
    note e4 = e3 [unfolded if_not_P [OF c2]]
    obtain bias where bias: "choose_bias (header_of c) minimum base = Inr bias" using and_then_InrD [OF e4] by blast
    note e5 = e4 [unfolded bias and_then_simps]
    have o: "unat maximum + unat bias < 2 ^ 64" using and_then_InrD [OF e5] by auto
    then have om: "ok_or (checked_add64 maximum bias) Range = Inr (maximum + bias)" by simp
    note e6 = e5 [unfolded om and_then_simps]
    have c3: "\<not> t_user_limit target < maximum + bias" using e6 by (rule contrapos_pn) simp
    have os: "ok_or (checked_add64 minimum bias) Range = Inr (minimum + bias)" using start [OF _ o] c1 by simp
    note e7 = e6 [unfolded if_not_P [OF c3] os and_then_simps ph(3)]
    have oe: "unat (e_entry c) + unat bias < 2 ^ 64" using and_then_InrD [OF e7] by auto
    then have oe': "ok_or (checked_add64 (e_entry c) bias) Entry = Inr (e_entry c + bias)" by simp
    note e8 = e7 [unfolded oe' and_then_simps]
    obtain st where st: "try_fold (place_program (header_of c) bias target (e_entry c + bias)) ps \<lparr>pl_phdr = 0, pl_entry_mapped = False\<rparr> = Inr st"
      using and_then_InrD [OF e8] by blast
    note stf = st [unfolded placed [OF v(1)]]
    have stp: "pl_phdr st = program_header_virtual c ps bias" "pl_entry_mapped st = page_mapped ps bias (e_entry c + bias)" using stf by simp_all
    note e9 = e8 [unfolded st and_then_simps stp]
    have c4: "\<not> (e_entry c + bias < 0x10000 \<or> e_entry c + bias \<ge> t_user_limit target \<or> \<not> page_mapped ps bias (e_entry c + bias))"
      using e9 by (rule contrapos_pn) simp
    note e10 = e9 [unfolded if_not_P [OF c4]]
    have c5: "\<not> (map_option interp_pair interp \<noteq> None \<and> program_header_virtual c ps bias = 0)" using e10 by (rule contrapos_pn) simp
    note e11 = e10 [unfolded if_not_P [OF c5]]
    have "accepts c ps file_size base (t_user_limit target) minimum maximum n interp bias"
      using v c1 bias o c3 stf c4 c5 by (simp add: accepts_def b)
    moreover have "img = \<lparr>im_bytes = bytes, im_header = header_of c, im_plan = plan_of c ps minimum maximum n interp bias, im_target = target\<rparr>"
      using e11 by (cases interp) (simp_all add: plan_of_def interp_pair_def ph)
    moreover have "base AND 0xFFF = 0" using c2 by simp
    ultimately show ?accepted using oe by blast
  next
    assume ?accepted
    then obtain minimum maximum n interp bias where acc: "accepts c ps file_size base (t_user_limit target) minimum maximum n interp bias"
        and al: "base AND 0xFFF = 0" and oe: "unat (e_entry c) + unat bias < 2 ^ 64"
        and img: "img = \<lparr>im_bytes = bytes, im_header = header_of c, im_plan = plan_of c ps minimum maximum n interp bias, im_target = target\<rparr>"
      by blast
    note a = acc [unfolded accepts_def]
    have v: "validate_loop file_size ps (- 1) 0 0 = Some (minimum, maximum, n)" using a by simp
    have sc: "try_fold (scan_program file_size) ps (scan_of (- 1) 0 0 None) = Inr (scan_of minimum maximum n interp)"
      using scan_all [of 0 ps file_size "- 1" 0 None] len a accepts_no_wrap [OF acc assms(6)] by auto
    have scf: "sc_load_count (scan_of minimum maximum n interp) = of_nat n" "sc_lowest (scan_of minimum maximum n interp) = minimum"
      "sc_highest (scan_of minimum maximum n interp) = maximum" "sc_interp (scan_of minimum maximum n interp) = map_option interp_pair interp"
      by (simp_all add: scan_of_def)
    have bias: "choose_bias (header_of c) minimum base = Inr bias" using a b by simp
    have os: "ok_or (checked_add64 minimum bias) Range = Inr (minimum + bias)" using start [of maximum minimum bias] a by simp
    have om: "ok_or (checked_add64 maximum bias) Range = Inr (maximum + bias)" using a by simp
    have oe': "ok_or (checked_add64 (e_entry c) bias) Entry = Inr (e_entry c + bias)" using oe by simp
    have st: "try_fold (place_program (header_of c) bias target (e_entry c + bias)) ps \<lparr>pl_phdr = 0, pl_entry_mapped = False\<rparr> =
        Inr \<lparr>pl_phdr = program_header_virtual c ps bias, pl_entry_mapped = page_mapped ps bias (e_entry c + bias)\<rparr>"
      using placed [OF v] a by simp
    show "plan bytes file_size base target = Inr img"
      unfolding plan_unfold sc and_then_simps scf n0 [OF v] bias om os ph oe' st
      using a al by (cases interp) (simp_all add: img plan_of_def interp_pair_def)
  qed
qed

section \<open>The segments\<close>

lemma segments_of:
  assumes "length bytes < 2 ^ 63" "reference_header_span bytes file_size (t_machine target) = Some span" "unat span \<le> length bytes"
    and "c = c_header bytes" "ps = c_programs bytes c" "unat (t_user_limit target) + 4095 < 2 ^ 64"
    and "list_all (\<lambda>p. reference_map_segment p bias (t_user_limit target)) (loads ps)" "plan_load_bias pl = bias"
  shows "segments \<lparr>im_bytes = bytes, im_header = header_of c, im_plan = pl, im_target = target\<rparr> = map (\<lambda>p. load_segment p bias) (loads ps)"
proof -
  have r: "List.map_filter (program bytes (header_of c)) [0..<unat (h_phnum (header_of c))] = ps"
  proof -
    have "List.map_filter (program bytes (header_of c)) is = map (\<lambda>i. c_program bytes (unat (e_phoff c) + 56 * i)) is"
      if "set is \<subseteq> set [0..<unat (h_phnum (header_of c))]" for "is"
      using that
    proof (induction "is")
      case (Cons i "is")
      then show ?case using programs_read [OF assms(1-4), of i] by (simp add: map_filter_simps)
    qed (simp add: map_filter_simps)
    then show ?thesis unfolding assms(5) programs_list [symmetric] by simp
  qed
  have "List.map_filter (\<lambda>p. case segment p bias target of Inl _ \<Rightarrow> None | Inr s \<Rightarrow> Some s) qs = map (\<lambda>p. load_segment p bias) qs"
    if "list_all (\<lambda>p. reference_map_segment p bias (t_user_limit target)) qs" for qs
    using that
  proof (induction qs)
    case (Cons p qs)
    then have "segment p bias target = Inr (load_segment p bias)" using segment_Inr [OF assms(6)] by simp
    then show ?case using Cons by (simp add: map_filter_simps)
  qed (simp add: map_filter_simps)
  from this [OF assms(7)] show ?thesis
    unfolding segments_def elf_image.simps assms(8) r loads_def .
qed

text \<open>
  A plan exists only when the headers can be read.
\<close>

lemma plan_span:
  assumes "length bytes < 2 ^ 63" "plan bytes file_size base target = Inr img"
  obtains span where "reference_header_span bytes file_size (t_machine target) = Some span" "unat span \<le> length bytes"
  using assms(2) header_span_Inr [OF assms(1)] that unfolding plan_def by (auto split: if_splits)

lemma reference_span:
  assumes "reference_plan bytes file_size machine base limit array = Some r"
  obtains span where "reference_header_span bytes file_size machine = Some span" "unat span \<le> length bytes"
  using assms that unfolding reference_plan_def by (cases "reference_header_span bytes file_size machine") (auto split: if_splits)

text \<open>
  The bounds of the image are multiples of the page size, and no segment leaves them.
\<close>

lemma unat_align_up: "unat v + 4095 < 2 ^ 64 \<Longrightarrow> unat (align_up v 4096) = 4096 * ((unat v + 4095) div 4096)"
  by (simp add: align_up_page unat_page_down unat_add64_simp)

lemma page_round: "n \<le> 4096 * ((n + 4095) div 4096)" for n :: nat
proof -
  have "(n + 4095) mod 4096 < 4096" by simp
  moreover have "4096 * ((n + 4095) div 4096) + (n + 4095) mod 4096 = n + 4095" by (rule mult_div_mod_eq)
  ultimately show ?thesis by linarith
qed

lemma validate_loop_aligned:
  assumes "validate_loop file_size ps minimum maximum n = Some (minimum', maximum', n')"
  shows "minimum' = minimum \<or> unat minimum' mod 4096 = 0"
  using assms
proof (induction ps arbitrary: minimum maximum n)
  case (Cons p ps)
  show ?case
  proof (cases "p_kind p = PT_LOAD")
    case True
    from Cons.IH [OF validate_loop_load(5) [OF Cons.prems True]] show ?thesis by (auto simp: unat_page_down split: if_splits)
  next
    case False
    then show ?thesis using Cons.IH [OF validate_loop_other(1) [OF Cons.prems False]] by simp
  qed
qed simp

lemma accepts_aligned:
  assumes "accepts c ps file_size base limit minimum maximum n interp bias" "base AND 0xFFF = 0"
  shows "unat minimum mod 4096 = 0" "unat bias mod 4096 = 0"
proof -
  have b: "unat base mod 4096 = 0" using and_page_mask [of base] assms(2) by simp
  have "validate_loop file_size ps (- 1) 0 0 = Some (minimum, maximum, n)" "minimum \<noteq> - 1" using assms(1) by (simp_all add: accepts_def)
  then show m: "unat minimum mod 4096 = 0" using validate_loop_aligned by blast
  have "bias = 0 \<or> minimum \<le> base \<and> bias = base - minimum"
    using assms(1) by (auto simp: accepts_def choose_load_bias_def not_less split: if_splits)
  then show "unat bias mod 4096 = 0"
  proof
    assume a: "minimum \<le> base \<and> bias = base - minimum"
    then have "unat bias = unat base - unat minimum" by (simp add: unat_sub)
    then show ?thesis using m b a by (simp add: mod_eq_0_iff_dvd word_le_nat_alt)
  qed simp
qed

definition segment_placed :: "elf_plan \<Rightarrow> u64 \<Rightarrow> elf_segment \<Rightarrow> bool" where
  "segment_placed pl file_size s \<longleftrightarrow>
     0x10000 \<le> unat (seg_address s) \<and> unat (plan_image_start pl) \<le> unat (seg_page_start s) \<and> unat (seg_page_start s) \<le> unat (seg_address s) \<and>
     unat (seg_address s) + unat (seg_memory_size s) \<le> unat (seg_page_end s) \<and> unat (seg_page_end s) \<le> unat (plan_image_end pl) \<and>
     unat (seg_page_start s) mod 4096 = 0 \<and> unat (seg_page_end s) mod 4096 = 0 \<and> seg_file_size s \<le> seg_memory_size s \<and>
     (seg_file_size s \<noteq> 0 \<longrightarrow> unat (seg_file_offset s) + unat (seg_file_size s) \<le> unat file_size) \<and>
     unat (seg_address s) mod 4096 = unat (seg_file_offset s) mod 4096"

lemma segment_placed_of:
  assumes acc: "accepts c ps file_size base limit minimum maximum n interp bias" and al: "base AND 0xFFF = 0"
    and lim: "unat limit + 4095 < 2 ^ 64" and p: "p \<in> set (loads ps)"
  shows "segment_placed (plan_of c ps minimum maximum n interp bias) file_size (load_segment p bias)"
proof -
  note a = acc [unfolded accepts_def]
  have v: "validate_loop file_size ps (- 1) 0 0 = Some (minimum, maximum, n)" using a by simp
  have f: "p_filesz p \<le> p_memsz p" "p_filesz p = 0 \<or> p_offset p \<le> file_size \<and> p_filesz p \<le> file_size - p_offset p"
    "p_vaddr p AND 0xFFF = p_offset p AND 0xFFF" "minimum \<le> page_down (p_vaddr p)" "align_up (p_vaddr p + p_memsz p) 4096 \<le> maximum"
    using validate_loop_facts [OF v] p by auto
  have m: "reference_map_segment p bias limit" using a p by (simp add: list_all_iff)
  note m' = m [unfolded reference_map_segment_iff]
  have nw: "unat (p_vaddr p) + unat (p_memsz p) + 4095 < 2 ^ 64" using m' lim by linarith
  have ad: "unat (p_vaddr p + bias) = unat (p_vaddr p) + unat bias" "unat (p_vaddr p + p_memsz p) = unat (p_vaddr p) + unat (p_memsz p)"
      "unat (p_vaddr p + bias + p_memsz p) = unat (p_vaddr p) + unat bias + unat (p_memsz p)"
    using m' lim by (simp_all add: unat_add64_simp)
  have mx: "unat (maximum + bias) = unat maximum + unat bias" using a by (simp add: unat_add64)
  have mn: "unat (minimum + bias) = unat minimum + unat bias" using a by (simp add: unat_add64_simp word_le_nat_alt)
  obtain k where k: "unat bias = 4096 * k" using accepts_aligned(2) [OF acc al] by (auto simp: mod_eq_0_iff_dvd)
  have e1: "unat (align_up (p_vaddr p + p_memsz p) 4096) = 4096 * ((unat (p_vaddr p) + unat (p_memsz p) + 4095) div 4096)"
    using nw ad by (subst unat_align_up) simp_all
  have e2: "unat (align_up (p_vaddr p + bias + p_memsz p) 4096) = 4096 * ((unat (p_vaddr p) + unat bias + unat (p_memsz p) + 4095) div 4096)"
    using m' lim ad by (subst unat_align_up) simp_all
  have "(unat (p_vaddr p) + unat bias + unat (p_memsz p) + 4095) div 4096 = k + (unat (p_vaddr p) + unat (p_memsz p) + 4095) div 4096"
  proof -
    have "(4096 * k + x) div 4096 = k + x div 4096" for x :: nat by simp
    moreover have "unat (p_vaddr p) + unat bias + unat (p_memsz p) + 4095 = 4096 * k + (unat (p_vaddr p) + unat (p_memsz p) + 4095)"
      by (simp add: k)
    ultimately show ?thesis by (simp only:)
  qed
  then have e3: "unat (align_up (p_vaddr p + bias + p_memsz p) 4096) = unat (align_up (p_vaddr p + p_memsz p) 4096) + unat bias"
    unfolding e1 e2 k by simp
  have s1: "unat (page_down (p_vaddr p + bias)) = unat (page_down (p_vaddr p)) + unat bias"
  proof -
    have "4096 * ((x + 4096 * k) div 4096) = 4096 * (x div 4096) + 4096 * k" for x :: nat by simp
    then show ?thesis unfolding unat_page_down ad k by (simp only:)
  qed
  have off: "unat (p_vaddr p) mod 4096 = unat (p_offset p) mod 4096" using f(3) and_page_mask by metis
  have fs: "p_filesz p \<noteq> 0 \<Longrightarrow> unat (p_offset p) + unat (p_filesz p) \<le> unat file_size"
    using f(2) unat_sub [of "p_offset p" file_size] by (auto simp: word_le_nat_alt)
  show ?thesis
    unfolding segment_placed_def load_segment_def plan_of_def elf_segment.simps elf_plan.simps
  proof (intro conjI impI)
    show "0x10000 \<le> unat (p_vaddr p + bias)" using m' ad by simp
    show "unat (minimum + bias) \<le> unat (page_down (p_vaddr p + bias))" using f(4) s1 mn by (simp add: word_le_nat_alt)
    show "unat (page_down (p_vaddr p + bias)) \<le> unat (p_vaddr p + bias)" by (simp add: unat_page_down)
    show "unat (p_vaddr p + bias) + unat (p_memsz p) \<le> unat (align_up (p_vaddr p + bias + p_memsz p) 4096)"
      unfolding e2 ad by (rule page_round)
    show "unat (align_up (p_vaddr p + bias + p_memsz p) 4096) \<le> unat (maximum + bias)" using f(5) e3 mx by (simp add: word_le_nat_alt)
    show "unat (page_down (p_vaddr p + bias)) mod 4096 = 0" by (simp add: unat_page_down)
    show "unat (align_up (p_vaddr p + bias + p_memsz p) 4096) mod 4096 = 0" by (simp add: e2)
    show "p_filesz p \<le> p_memsz p" by (rule f(1))
    show "unat (p_offset p) + unat (p_filesz p) \<le> unat file_size" if "p_filesz p \<noteq> 0" using fs that by simp
    show "unat (p_vaddr p + bias) mod 4096 = unat (p_offset p) mod 4096" using off unfolding ad k by simp
  qed
qed

lemma page_mapped_iff:
  "page_mapped ps bias address \<longleftrightarrow>
     (\<exists>p \<in> set (loads ps). seg_page_start (load_segment p bias) \<le> address \<and> address < seg_page_end (load_segment p bias))"
  by (induction ps) (auto simp: loads_def load_segment_def Let_def)

lemma program_header_virtual_nonzero:
  "program_header_virtual c ps bias \<noteq> 0 \<Longrightarrow>
     \<exists>p \<in> set (loads ps). p_offset p \<le> e_phoff c \<and> e_phoff c - p_offset p \<le> p_filesz p \<and>
       ucast (e_phnum c) * ucast (e_phentsize c) \<le> p_filesz p - (e_phoff c - p_offset p) \<and>
       program_header_virtual c ps bias = bias + p_vaddr p + (e_phoff c - p_offset p)"
proof (induction ps)
  case (Cons p ps)
  show ?case
  proof (cases "p_kind p = PT_LOAD \<and> p_offset p \<le> e_phoff c \<and> e_phoff c - p_offset p \<le> p_filesz p \<and>
       ucast (e_phnum c) * ucast (e_phentsize c) \<le> p_filesz p - (e_phoff c - p_offset p)")
    case True
    then show ?thesis by (intro bexI [of _ p]) (auto simp: loads_def Let_def)
  next
    case False
    then have "program_header_virtual c (p # ps) bias = program_header_virtual c ps bias" by (auto simp: Let_def not_less)
    then show ?thesis using Cons by (auto simp: loads_def)
  qed
qed simp

lemma find_interp_Some:
  assumes "find_interp ps i = Some (Some p)"
  shows "i = Some p \<or> p \<in> set ps \<and> p_kind p = PT_INTERP"
  using assms by (induction ps arbitrary: i) (auto split: if_splits)

text \<open>
  The path of the interpreter is judged alike for the lengths that a plan can have.
\<close>

lemma takeWhile_length: "length (takeWhile P xs) = length xs \<longleftrightarrow> list_all P xs"
  by (induction xs) auto

lemma interp_path_eq_reference:
  assumes "2 \<le> length path" "length path \<le> 4096"
  shows "interp_path_valid path = reference_interp_valid path"
proof -
  obtain rest final where p: "path = rest @ [final]" using assms(1) by (cases path rule: rev_cases) auto
  then obtain c cs where r: "rest = c # cs" using assms(1) by (cases rest) auto
  have "length (takeWhile (\<lambda>c. c \<noteq> 0) path) + 1 = length path \<longleftrightarrow> list_all (\<lambda>c. c \<noteq> 0) rest" if "final = 0"
    unfolding p by (subst takeWhile_tail) (simp_all add: that takeWhile_length)
  moreover have "path ! (length path - 1) = final" "path ! 0 = c" by (simp_all add: p r)
  moreover have "interp_path_valid path \<longleftrightarrow> final = 0 \<and> c = 0x2F \<and> list_all (\<lambda>c. c \<noteq> 0) rest" by (auto simp: interp_path_valid_def p r)
  ultimately show ?thesis using assms by (auto simp: reference_interp_valid_def)
qed

text \<open>
  The second call of the loader, with an array of the size that the first call announced, succeeds and gives all segments.
\<close>

lemma write_segments_fit:
  "n + length ss \<le> length array \<Longrightarrow> write_segments array n ss = (True, fill_from n ss array, n + length ss)"
  by (induction array n ss rule: write_segments.induct) auto

lemma length_fill_from: "length (fill_from n ss array) = length array"
  by (induction n ss array rule: fill_from.induct) simp_all

lemma fill_from_all: "length ss = length array \<Longrightarrow> fill_from 0 ss array = ss"
  using take_fill_from [of 0 ss array] by (simp add: length_fill_from)

section \<open>The contract\<close>

lemma plan_facts:
  assumes "length bytes < 2 ^ 63" "unat (t_user_limit target) + 4095 < 2 ^ 64" "plan bytes file_size base target = Inr img"
  obtains c ps minimum maximum n interp bias where
    "c = c_header bytes" "ps = c_programs bytes c" "accepts c ps file_size base (t_user_limit target) minimum maximum n interp bias"
    "base AND 0xFFF = 0" "im_plan img = plan_of c ps minimum maximum n interp bias" "segments img = map (\<lambda>p. load_segment p bias) (loads ps)"
    "im_header img = header_of c" "e_phentsize c = 56" "unat (plan_load_count (im_plan img)) = length (loads ps)"
    "unat (e_entry c) + unat bias < 2 ^ 64" "unat (e_phnum c) \<le> 1170"
proof -
  obtain span where span: "reference_header_span bytes file_size (t_machine target) = Some span" "unat span \<le> length bytes"
    by (rule plan_span [OF assms(1,3)])
  define c where "c = c_header bytes"
  define ps where "ps = c_programs bytes c"
  obtain minimum maximum n interp bias where a: "accepts c ps file_size base (t_user_limit target) minimum maximum n interp bias"
      "base AND 0xFFF = 0" "unat (e_entry c) + unat bias < 2 ^ 64"
      "img = \<lparr>im_bytes = bytes, im_header = header_of c, im_plan = plan_of c ps minimum maximum n interp bias, im_target = target\<rparr>"
    using plan_Inr [OF assms(1) span c_def ps_def assms(2)] assms(3) by blast
  have s: "segments img = map (\<lambda>p. load_segment p bias) (loads ps)"
    unfolding a(4) by (rule segments_of [OF assms(1) span c_def ps_def assms(2)]) (use a(1) in \<open>simp_all add: accepts_def plan_of_def\<close>)
  note sf = reference_span_facts [OF span(1), folded c_def]
  have v: "validate_loop file_size ps (- 1) 0 0 = Some (minimum, maximum, n)" using a(1) by (simp add: accepts_def)
  have n: "n = length (loads ps)" using validate_loop_facts [OF v] by simp
  have pn: "unat (e_phnum c) \<le> 1170" using sf(4,6) by (simp add: word_le_nat_alt)
  have "length (loads ps) \<le> 1170"
    using pn length_filter_le [of "\<lambda>p. p_kind p = PT_LOAD" ps] by (simp add: loads_def ps_def c_programs_def)
  then have "unat (of_nat n :: u16) = length (loads ps)" by (simp add: n unsigned_of_nat take_bit_nat_eq_self)
  then have lc: "unat (plan_load_count (im_plan img)) = length (loads ps)" by (simp add: a(4) plan_of_def)
  show thesis
    by (rule that [OF c_def ps_def a(1,2) _ s _ sf(3) lc a(3) pn]) (simp_all add: a(4))
qed

text \<open>
  C6: The planner is the C code it replaced, except for the two documented differences. For every input it accepts, the C code accepts it without letting
  the entry point wrap around, and plan and segments are the same; an input that it refuses is refused by the C code, or has an entry point that wraps
  around or a preferred base that is not page aligned. The array of the C code has room for the segments of 64 KiB of headers.
\<close>

theorem elf_plan_eq_reference:
  assumes "length bytes < 2 ^ 63" "unat (t_user_limit target) + 4095 < 2 ^ 64" "1170 \<le> length array"
  shows "case plan bytes file_size base target of
      Inr img \<Rightarrow> \<exists>old array'. reference_plan bytes file_size (t_machine target) base (t_user_limit target) array = Some (old, array') \<and>
        r_entry_wrapped old = 0 \<and> same_plan (im_plan img) old \<and> list_all2 same_segment (segments img) (take (unat (r_load_count old)) array')
    | Inl _ \<Rightarrow> (case reference_plan bytes file_size (t_machine target) base (t_user_limit target) array of
        None \<Rightarrow> True | Some (old, _) \<Rightarrow> r_entry_wrapped old = 1 \<or> base AND 0xFFF \<noteq> 0)"
proof (cases "plan bytes file_size base target")
  case (Inr img)
  obtain span where span: "reference_header_span bytes file_size (t_machine target) = Some span" "unat span \<le> length bytes"
    by (rule plan_span [OF assms(1) Inr])
  obtain c ps minimum maximum n interp bias where f:
    "c = c_header bytes" "ps = c_programs bytes c" "accepts c ps file_size base (t_user_limit target) minimum maximum n interp bias"
    "base AND 0xFFF = 0" "im_plan img = plan_of c ps minimum maximum n interp bias" "segments img = map (\<lambda>p. load_segment p bias) (loads ps)"
    "im_header img = header_of c" "e_phentsize c = 56" "unat (plan_load_count (im_plan img)) = length (loads ps)"
    "unat (e_entry c) + unat bias < 2 ^ 64" "unat (e_phnum c) \<le> 1170"
    by (rule plan_facts [OF assms(1,2) Inr])
  let ?old = "reference_of c ps minimum maximum n interp bias"
  let ?array = "fill_from 0 (map (\<lambda>p. reference_segment_of p bias) (loads ps)) array"
  have r: "reference_plan bytes file_size (t_machine target) base (t_user_limit target) array = Some (?old, ?array)"
    by (rule reference_plan_accepts [OF span f(1-3)])
  have l: "length (loads ps) \<le> length array"
    using f(11) length_filter_le [of "\<lambda>p. p_kind p = PT_LOAD" ps] assms(3) by (simp add: loads_def f(2) c_programs_def)
  have "unat (r_load_count ?old) = length (loads ps)" using f(9) by (simp add: f(5) plan_of_def reference_of_def)
  then have "take (unat (r_load_count ?old)) ?array = map (\<lambda>p. reference_segment_of p bias) (loads ps)"
    using take_fill_from [of 0 "map (\<lambda>p. reference_segment_of p bias) (loads ps)" array] l by simp
  moreover have "list_all2 same_segment (map (\<lambda>p. load_segment p bias) qs) (map (\<lambda>p. reference_segment_of p bias) qs)" for qs
    by (induction qs) (simp_all add: same_segment_of)
  ultimately show ?thesis
    unfolding Inr sum.case using r f(10) same_plan_of [of c ps minimum maximum n interp bias] f(5,6) by (simp add: reference_of_def)
next
  case (Inl e)
  show ?thesis
  proof (cases "reference_plan bytes file_size (t_machine target) base (t_user_limit target) array")
    case (Some r)
    obtain span where span: "reference_header_span bytes file_size (t_machine target) = Some span" "unat span \<le> length bytes"
      by (rule reference_span [OF Some])
    obtain minimum maximum n interp bias where a:
        "accepts (c_header bytes) (c_programs bytes (c_header bytes)) file_size base (t_user_limit target) minimum maximum n interp bias"
      using reference_plan_Some [OF span refl refl Some] by blast
    have "fst r = reference_of (c_header bytes) (c_programs bytes (c_header bytes)) minimum maximum n interp bias"
      using reference_plan_accepts [OF span refl refl a, of array] Some by auto
    moreover have "\<not> (base AND 0xFFF = 0 \<and> unat (e_entry (c_header bytes)) + unat bias < 2 ^ 64)"
    proof
      assume "base AND 0xFFF = 0 \<and> unat (e_entry (c_header bytes)) + unat bias < 2 ^ 64"
      with a have "\<exists>img. plan bytes file_size base target = Inr img" unfolding plan_Inr [OF assms(1) span refl refl assms(2)] by blast
      with Inl show False by simp
    qed
    ultimately show ?thesis unfolding Inl sum.case Some option.case by (cases r) (auto simp: reference_of_def)
  qed (simp add: Inl)
qed

definition ex_elf :: "u8 list" where
  "ex_elf = [127, 69, 76, 70, 2, 1, 1, 0, 0, 0, 0, 0, 0, 0, 0, 0, 3, 0, 62, 0, 1, 0, 0, 0, 120, 0, 0, 0, 0, 0, 0, 0, 64, 0,
     0, 0, 0, 0, 0, 0, 0, 0, 0, 0, 0, 0, 0, 0, 0, 0, 0, 0, 64, 0, 56, 0, 1, 0, 0, 0, 0, 0, 0, 0, 1, 0, 0, 0, 5, 0,
     0, 0, 0, 0, 0, 0, 0, 0, 0, 0, 0, 0, 0, 0, 0, 0, 0, 0, 0, 0, 0, 0, 0, 0, 0, 0, 0, 16, 0, 0, 0, 0, 0, 0, 0, 32,
     0, 0, 0, 0, 0, 0, 0, 16, 0, 0, 0, 0, 0, 0]"

lemma ex_elf_length: "length ex_elf = 120"
  by (simp add: ex_elf_def)

lemma ex_elf_header:
  "c_header ex_elf = \<lparr>e_ident = take 16 ex_elf, e_type = 3, e_machine = 62, e_version = 1, e_entry = 0x78, e_phoff = 64, e_ehsize = 64,
     e_phentsize = 56, e_phnum = 1\<rparr>"
  by (simp add: c_header_def c_u16_def c_u32_def c_u64_def le16_def le32_def le64_def ex_elf_def)

lemma ex_elf_programs:
  "c_programs ex_elf (c_header ex_elf) = [\<lparr>p_kind = 1, p_flags = 5, p_offset = 0, p_vaddr = 0, p_filesz = 4096, p_memsz = 8192, p_align = 4096\<rparr>]"
  unfolding ex_elf_header by (simp add: c_programs_def c_program_def c_u32_def c_u64_def le32_def le64_def ex_elf_def)

lemma ex_elf_accepts:
  "accepts (c_header ex_elf) (c_programs ex_elf (c_header ex_elf)) 4096 0x550000000000 0x800000000000 0 8192 1 None 0x550000000000"
  unfolding ex_elf_programs unfolding ex_elf_header
  by (simp add: accepts_def Let_def power_of_two_def choose_load_bias_def loads_def reference_map_segment_iff page_down_def align_up_def word_gt_0)

lemma ex_elf_plan: "\<exists>img. plan ex_elf 4096 0x550000000000 \<lparr>t_machine = 62, t_user_limit = 0x800000000000\<rparr> = Inr img"
proof -
  have "take 16 ex_elf = [0x7F, 0x45, 0x4C, 0x46, 2, 1, 1, 0, 0, 0, 0, 0, 0, 0, 0, 0]" by (simp add: ex_elf_def)
  then have s: "reference_header_span ex_elf 4096 (t_machine \<lparr>t_machine = 62, t_user_limit = 0x800000000000\<rparr>) = Some 120"
    by (simp add: reference_header_span_def ex_elf_header valid_header_def Let_def ex_elf_length)
  have l: "length ex_elf < 2 ^ 63" "unat (120 :: u64) \<le> length ex_elf"
    "unat (t_user_limit \<lparr>t_machine = 62, t_user_limit = 0x800000000000\<rparr>) + 4095 < 2 ^ 64"
    by (simp_all add: ex_elf_length)
  have e: "unat (e_entry (c_header ex_elf)) + unat (0x550000000000 :: u64) < 2 ^ 64" "(0x550000000000 :: u64) AND 0xFFF = 0" by (simp_all add: ex_elf_header)
  show ?thesis
    unfolding plan_Inr [OF l(1) s l(2) refl refl l(3)] elf_target.simps using ex_elf_accepts e by blast
qed

theorem elf_plan_eq_reference_witness:
  "\<exists>img old array'. plan ex_elf 4096 0x550000000000 \<lparr>t_machine = 62, t_user_limit = 0x800000000000\<rparr> = Inr img \<and>
     reference_plan ex_elf 4096 62 0x550000000000 0x800000000000
       (replicate 2048 \<lparr>rs_page_start = 0, rs_page_end = 0, rs_address = 0, rs_writable = 0, rs_executable = 0\<rparr>) = Some (old, array') \<and>
     same_plan (im_plan img) old"
proof -
  let ?t = "\<lparr>t_machine = 62, t_user_limit = 0x800000000000\<rparr>"
  let ?a = "replicate 2048 \<lparr>rs_page_start = 0, rs_page_end = 0, rs_address = 0, rs_writable = 0, rs_executable = 0\<rparr>"
  obtain img where "plan ex_elf 4096 0x550000000000 ?t = Inr img" using ex_elf_plan by blast
  then show ?thesis
    using elf_plan_eq_reference [where bytes = ex_elf and target = ?t and array = ?a and file_size = 4096 and base = "0x550000000000"] by (auto simp: ex_elf_length)
qed

text \<open>
  C8: What the planner accepts can be loaded. The segments are as many as the plan says, at least one; each is page aligned, lies inside the image and the
  image inside user memory, no address wraps around, and what is copied lies inside the file, at the same offset in its page. The entry point is in
  a page of a segment; the program header table, if the plan has its address, lies in the part of a segment that is copied from the file, and from its
  place in the file; the path of the interpreter lies inside the file and has at most 4096 bytes.
\<close>

theorem elf_plan_sound:
  assumes "length bytes < 2 ^ 63" "unat (t_user_limit target) + 4095 < 2 ^ 64" "plan bytes file_size base target = Inr img"
  shows "length (segments img) = unat (plan_load_count (im_plan img)) \<and> segments img \<noteq> [] \<and>
    unat (plan_image_start (im_plan img)) mod 4096 = 0 \<and> plan_image_start (im_plan img) < plan_image_end (im_plan img) \<and>
    plan_image_end (im_plan img) \<le> t_user_limit target \<and> (\<forall>s \<in> set (segments img). segment_placed (im_plan img) file_size s) \<and>
    (\<exists>s \<in> set (segments img). seg_page_start s \<le> plan_entry (im_plan img) \<and> plan_entry (im_plan img) < seg_page_end s) \<and>
    (plan_phdr (im_plan img) \<noteq> 0 \<longrightarrow>
       (\<exists>s \<in> set (segments img). \<exists>k. unat (plan_phdr (im_plan img)) = unat (seg_address s) + k \<and>
          k + 56 * unat (plan_phnum (im_plan img)) \<le> unat (seg_file_size s) \<and> unat (seg_file_offset s) + k = unat (h_phoff (im_header img)))) \<and>
    (plan_interp_size (im_plan img) \<noteq> 0 \<longrightarrow>
       2 \<le> plan_interp_size (im_plan img) \<and> plan_interp_size (im_plan img) \<le> 4096 \<and> plan_phdr (im_plan img) \<noteq> 0 \<and>
       unat (plan_interp_offset (im_plan img)) + unat (plan_interp_size (im_plan img)) \<le> unat file_size)"
proof -
  obtain c ps minimum maximum n interp bias where f:
    "c = c_header bytes" "ps = c_programs bytes c" "accepts c ps file_size base (t_user_limit target) minimum maximum n interp bias"
    "base AND 0xFFF = 0" "im_plan img = plan_of c ps minimum maximum n interp bias" "segments img = map (\<lambda>p. load_segment p bias) (loads ps)"
    "im_header img = header_of c" "e_phentsize c = 56" "unat (plan_load_count (im_plan img)) = length (loads ps)"
    "unat (e_entry c) + unat bias < 2 ^ 64" "unat (e_phnum c) \<le> 1170"
    by (rule plan_facts [OF assms])
  note a = f(3) [unfolded accepts_def]
  have v: "validate_loop file_size ps (- 1) 0 0 = Some (minimum, maximum, n)" using a by simp
  note vf = validate_loop_facts [OF v]
  have ne: "loads ps \<noteq> []" using vf a by auto
  have mx: "unat (maximum + bias) = unat maximum + unat bias" "unat (minimum + bias) = unat minimum + unat bias"
    using a by (simp_all add: unat_add64_simp word_le_nat_alt)
  have start: "unat (minimum + bias) mod 4096 = 0" using accepts_aligned [OF f(3,4)] unfolding mx by (simp add: mod_eq_0_iff_dvd)
  have less: "minimum + bias < maximum + bias" using a mx by (simp add: word_less_nat_alt word_le_nat_alt)
  have phdr: "\<exists>p \<in> set (loads ps). \<exists>k. unat (program_header_virtual c ps bias) = unat (seg_address (load_segment p bias)) + k \<and>
      k + 56 * unat (e_phnum c) \<le> unat (p_filesz p) \<and> unat (p_offset p) + k = unat (e_phoff c)"
    if nz: "program_header_virtual c ps bias \<noteq> 0"
  proof -
    obtain p where p: "p \<in> set (loads ps)" "p_offset p \<le> e_phoff c" "e_phoff c - p_offset p \<le> p_filesz p"
        "ucast (e_phnum c) * ucast (e_phentsize c) \<le> p_filesz p - (e_phoff c - p_offset p)"
        "program_header_virtual c ps bias = bias + p_vaddr p + (e_phoff c - p_offset p)"
      using program_header_virtual_nonzero [OF nz] by blast
    have t: "56 * unat (e_phnum c) \<le> unat (p_filesz p) - unat (e_phoff c - p_offset p)"
      using p(4) unat_sub [OF p(3)] table_size_eq [of "e_phnum c"] f(8) by (simp add: word_le_nat_alt)
    have k: "unat (e_phoff c - p_offset p) = unat (e_phoff c) - unat (p_offset p)" by (rule unat_sub [OF p(2)])
    have m: "unat (p_vaddr p) + unat bias + unat (p_memsz p) < 2 ^ 64"
      using a p(1) assms(2) by (auto simp: list_all_iff reference_map_segment_iff)
    have le: "unat (e_phoff c - p_offset p) \<le> unat (p_memsz p)" using p(1,3) vf by (auto simp: word_le_nat_alt)
    then have "unat (p_vaddr p + bias + (e_phoff c - p_offset p)) = unat (p_vaddr p + bias) + unat (e_phoff c - p_offset p)"
      using m by (simp add: unat_add64_simp)
    then show ?thesis
      using p t k by (intro bexI [OF _ p(1)] exI [of _ "unat (e_phoff c - p_offset p)"])
        (auto simp: load_segment_def ac_simps word_le_nat_alt)
  qed
  have interp: "2 \<le> p_filesz p \<and> p_filesz p \<le> 4096 \<and> unat (p_offset p) + unat (p_filesz p) \<le> unat file_size" if "interp = Some p" for p
  proof -
    have "p \<in> set ps \<and> p_kind p = PT_INTERP" using a that find_interp_Some [of ps None p] by simp
    then have q: "2 \<le> p_filesz p" "p_filesz p \<le> 4096" "p_offset p \<le> file_size" "p_filesz p \<le> file_size - p_offset p" using vf by auto
    then show ?thesis using unat_sub [OF q(3)] by (simp add: word_le_nat_alt)
  qed
  have placed: "\<forall>s \<in> set (segments img). segment_placed (im_plan img) file_size s"
    using segment_placed_of [OF f(3,4) assms(2)] by (simp add: f(5,6))
  have entry: "\<exists>s \<in> set (segments img). seg_page_start s \<le> plan_entry (im_plan img) \<and> plan_entry (im_plan img) < seg_page_end s"
    using a page_mapped_iff [of ps bias "e_entry c + bias"] by (simp add: f(5,6) plan_of_def)
  have pl: "plan_image_start (im_plan img) = minimum + bias" "plan_image_end (im_plan img) = maximum + bias"
    "plan_phdr (im_plan img) = program_header_virtual c ps bias" "plan_phnum (im_plan img) = e_phnum c" "h_phoff (im_header img) = e_phoff c"
    by (simp_all add: f(5,7) plan_of_def header_of_def)
  show ?thesis
  proof (intro conjI impI)
    show "length (segments img) = unat (plan_load_count (im_plan img))" using f(9) by (simp add: f(6))
    show "segments img \<noteq> []" using ne by (simp add: f(6))
    show "unat (plan_image_start (im_plan img)) mod 4096 = 0" using start by (simp add: pl)
    show "plan_image_start (im_plan img) < plan_image_end (im_plan img)" using less by (simp add: pl)
    show "plan_image_end (im_plan img) \<le> t_user_limit target" using a by (simp add: pl not_less)
    show "\<forall>s \<in> set (segments img). segment_placed (im_plan img) file_size s" by (rule placed)
    show "\<exists>s \<in> set (segments img). seg_page_start s \<le> plan_entry (im_plan img) \<and> plan_entry (im_plan img) < seg_page_end s" by (rule entry)
    show "\<exists>s \<in> set (segments img). \<exists>k. unat (plan_phdr (im_plan img)) = unat (seg_address s) + k \<and>
        k + 56 * unat (plan_phnum (im_plan img)) \<le> unat (seg_file_size s) \<and> unat (seg_file_offset s) + k = unat (h_phoff (im_header img))"
      if "plan_phdr (im_plan img) \<noteq> 0"
      using phdr that by (simp add: pl f(6) load_segment_def)
  next
    assume z: "plan_interp_size (im_plan img) \<noteq> 0"
    then obtain p where p: "interp = Some p" by (cases interp) (simp_all add: f(5) plan_of_def)
    then have i: "plan_interp_size (im_plan img) = p_filesz p" "plan_interp_offset (im_plan img) = p_offset p" by (simp_all add: f(5) plan_of_def)
    show "2 \<le> plan_interp_size (im_plan img)" "plan_interp_size (im_plan img) \<le> 4096"
      "unat (plan_interp_offset (im_plan img)) + unat (plan_interp_size (im_plan img)) \<le> unat file_size"
      using interp [OF p] by (simp_all add: i)
    show "plan_phdr (im_plan img) \<noteq> 0" using a p by (simp add: pl)
  qed
qed

theorem elf_plan_sound_witness:
  "\<exists>img. plan ex_elf 4096 0x550000000000 \<lparr>t_machine = 62, t_user_limit = 0x800000000000\<rparr> = Inr img \<and> segments img \<noteq> [] \<and>
     plan_image_end (im_plan img) \<le> 0x800000000000"
proof -
  let ?t = "\<lparr>t_machine = 62, t_user_limit = 0x800000000000\<rparr>"
  obtain img where p: "plan ex_elf 4096 0x550000000000 ?t = Inr img" using ex_elf_plan by blast
  have l: "length ex_elf < 2 ^ 63" "unat (t_user_limit ?t) + 4095 < 2 ^ 64" by (simp_all add: ex_elf_length)
  note sound = elf_plan_sound [OF l p]
  have "segments img \<noteq> []" by (rule sound [THEN conjunct2, THEN conjunct1])
  moreover have "plan_image_end (im_plan img) \<le> t_user_limit ?t"
    by (rule sound [THEN conjunct2, THEN conjunct2, THEN conjunct2, THEN conjunct2, THEN conjunct1])
  ultimately show ?thesis using p by auto
qed

end
