(* ===== verification/Lz4.thy ===== *)
theory Lz4
  imports Rust
begin

text \<open>
  The LZ4 block compressor and decompressor of \<^verbatim>\<open>kernel/rust/lz4/src/lib.rs\<close> with its C interface in \<^verbatim>\<open>ffi.rs\<close>. A slice is
  the list of its elements; a function that changes a slice returns the changed list. The content of the output after a failure is
  not modelled: no caller reads it.
\<close>

section \<open>The model\<close>

abbreviation (input) HASH_LOG :: nat where "HASH_LOG \<equiv> 12"
abbreviation (input) TABLE_ENTRIES :: nat where "TABLE_ENTRIES \<equiv> 4096"
abbreviation (input) MAX_INPUT :: nat where "MAX_INPUT \<equiv> 65535"
abbreviation (input) MIN_MATCH :: nat where "MIN_MATCH \<equiv> 4"
abbreviation (input) LAST_LITERALS :: nat where "LAST_LITERALS \<equiv> 5"
abbreviation (input) MF_LIMIT :: nat where "MF_LIMIT \<equiv> 12"
abbreviation (input) MAX_OFFSET :: nat where "MAX_OFFSET \<equiv> 65535"
abbreviation (input) RUN_MASK :: nat where "RUN_MASK \<equiv> 15"
abbreviation (input) SKIP_TRIGGER :: nat where "SKIP_TRIGGER \<equiv> 6"

datatype lz4_error = Malformed | OutputSize

definition lz4_bound :: "nat \<Rightarrow> nat" where
  "lz4_bound len = saturating_add (saturating_add len (len div 255)) 16"

definition read_u32 :: "u8 list \<Rightarrow> nat \<Rightarrow> u32 option" where
  "read_u32 data at = do {
     stop \<leftarrow> checked_add at 4;
     bytes \<leftarrow> get_range data at stop;
     Some (le32 (bytes ! 0) (bytes ! 1) (bytes ! 2) (bytes ! 3))
   }"

definition lz4_hash :: "u32 \<Rightarrow> nat" where
  "lz4_hash sequence = unat (drop_bit (32 - HASH_LOG) (sequence * 2654435761) AND 4095)"

definition u16_try_from :: "nat \<Rightarrow> u16 option" where
  "u16_try_from n = (if n < 2 ^ 16 then Some (of_nat n) else None)"

text \<open>
  The writer: a buffer and the position of the next byte.
\<close>

record writer =
  buffer :: "u8 list"
  filled :: nat

definition put_byte :: "writer \<Rightarrow> u8 \<Rightarrow> writer option" where
  "put_byte w v = do {
     get_at (buffer w) (filled w);
     stop \<leftarrow> checked_add (filled w) 1;
     Some \<lparr>buffer = (buffer w)[filled w := v], filled = stop\<rparr>
   }"

definition put_bytes :: "writer \<Rightarrow> u8 list \<Rightarrow> writer option" where
  "put_bytes w data = do {
     stop \<leftarrow> checked_add (filled w) (length data);
     get_range (buffer w) (filled w) stop;
     Some \<lparr>buffer = copy_into (buffer w) (filled w) data, filled = stop\<rparr>
   }"

function put_length :: "writer \<Rightarrow> nat \<Rightarrow> writer option" where
  "put_length w rest =
     (if rest \<ge> 255 then do {
        w1 \<leftarrow> put_byte w 255;
        less \<leftarrow> checked_sub rest 255;
        put_length w1 less
      }
      else put_byte w (of_nat rest))"
  by pat_completeness auto

termination by (relation "measure snd") auto

declare put_length.simps [simp del]

definition put_sequence :: "writer \<Rightarrow> u8 list \<Rightarrow> nat \<Rightarrow> nat \<Rightarrow> writer option" where
  "put_sequence w literals offset match_length = do {
     extra \<leftarrow> checked_sub match_length MIN_MATCH;
     w1 \<leftarrow> put_byte w (push_bit 4 (of_nat (min (length literals) RUN_MASK)) OR of_nat (min extra RUN_MASK));
     w2 \<leftarrow> (if length literals \<ge> RUN_MASK then put_length w1 (length literals - RUN_MASK) else Some w1);
     w3 \<leftarrow> put_bytes w2 literals;
     short \<leftarrow> u16_try_from offset;
     w4 \<leftarrow> put_bytes w3 (le16_bytes short);
     (if extra \<ge> RUN_MASK then put_length w4 (extra - RUN_MASK) else Some w4)
   }"

definition put_last :: "writer \<Rightarrow> u8 list \<Rightarrow> writer option" where
  "put_last w literals = do {
     w1 \<leftarrow> put_byte w (push_bit 4 (of_nat (min (length literals) RUN_MASK)));
     w2 \<leftarrow> (if length literals \<ge> RUN_MASK then put_length w1 (length literals - RUN_MASK) else Some w1);
     put_bytes w2 literals
   }"

text \<open>
  The length of the common run of two positions, from \<open>len\<close> on; the addition of one does not saturate on a slice.
\<close>

function common_length :: "u8 list \<Rightarrow> nat \<Rightarrow> nat \<Rightarrow> nat \<Rightarrow> nat \<Rightarrow> nat" where
  "common_length source first second limit len =
     (case (checked_add first len, checked_add second len) of
        (Some a, Some b) \<Rightarrow>
          if b \<ge> limit then len
          else (case (get_at source a, get_at source b) of
                  (Some x, Some y) \<Rightarrow> if x = y then common_length source first second limit (len + 1) else len
                | _ \<Rightarrow> len)
      | _ \<Rightarrow> len)"
  by pat_completeness auto

termination
  by (relation "measure (\<lambda>(source, first, second, limit, len). length source - (second + len))")
    (auto simp: checked_add_def get_at_def split: if_split_asm)

declare common_length.simps [simp del]

function extend_back :: "u8 list \<Rightarrow> nat \<Rightarrow> nat \<Rightarrow> nat \<Rightarrow> nat \<times> nat" where
  "extend_back source anchor start origin =
     (if start > anchor \<and> origin > 0 \<and> get_at source (start - 1) = get_at source (origin - 1)
      then extend_back source anchor (start - 1) (origin - 1)
      else (start, origin))"
  by pat_completeness auto

termination by (relation "measure (\<lambda>(source, anchor, start, origin). start)") auto

declare extend_back.simps [simp del]

text \<open>
  The position two before the end of a match enters the table as well.
\<close>

definition index_back :: "u8 list \<Rightarrow> u16 list \<Rightarrow> nat \<Rightarrow> u16 list option" where
  "index_back source table position =
     (case checked_sub position 2 of
        None \<Rightarrow> Some table
      | Some back \<Rightarrow>
          if back \<le> length source - MF_LIMIT then
            (case read_u32 source back of
               None \<Rightarrow> Some table
             | Some value \<Rightarrow>
                 (case get_at table (lz4_hash value) of
                    None \<Rightarrow> Some table
                  | Some _ \<Rightarrow> do { mark \<leftarrow> u16_try_from back; Some (table[lz4_hash value := mark]) }))
          else Some table)"

text \<open>
  The match found at a position: where it begins after extending it backwards, its origin and its length.
\<close>

definition find_match :: "u8 list \<Rightarrow> nat \<Rightarrow> nat \<Rightarrow> nat \<Rightarrow> (nat \<times> nat \<times> nat) option" where
  "find_match source anchor position candidate =
     (case extend_back source anchor position candidate of
        (start, origin) \<Rightarrow> do {
          first \<leftarrow> checked_add origin MIN_MATCH;
          second \<leftarrow> checked_add start MIN_MATCH;
          Some (start, origin, saturating_add MIN_MATCH (common_length source first second (length source - LAST_LITERALS) 0))
        })"

section \<open>Matches\<close>

lemma read_u32_Some: "read_u32 data at = Some v \<longleftrightarrow> at + 4 < 2 ^ 64 \<and> at + 4 \<le> length data \<and> v = le32 (data ! at) (data ! (at + 1)) (data ! (at + 2)) (data ! (at + 3))"
  by (auto simp: read_u32_def bind_eq_Some_conv)

lemma read_u32_same:
  assumes "read_u32 data a = Some v" "read_u32 data b = Some v" "i < 4"
  shows "data ! (a + i) = data ! (b + i)"
proof -
  let ?le = "\<lambda>p. le32 (data ! p) (data ! (p + 1)) (data ! (p + 2)) (data ! (p + 3))"
  have e: "?le a = ?le b" using assms(1,2) unfolding read_u32_Some by metis
  have "data ! a = data ! b" "data ! (a + 1) = data ! (b + 1)" "data ! (a + 2) = data ! (b + 2)" "data ! (a + 3) = data ! (b + 3)"
    using arg_cong [OF e, of "\<lambda>v. ucast v :: u8"] arg_cong [OF e, of "\<lambda>v. ucast (drop_bit 8 v) :: u8"]
      arg_cong [OF e, of "\<lambda>v. ucast (drop_bit 16 v) :: u8"] arg_cong [OF e, of "\<lambda>v. ucast (drop_bit 24 v) :: u8"] by (simp_all only: le32_bytes)
  moreover have "i = 0 \<or> i = 1 \<or> i = 2 \<or> i = 3" using assms(3) by linarith
  ultimately show ?thesis by auto
qed

text \<open>
  The bytes from \<open>a\<close> to \<open>b\<close> repeat those \<open>d\<close> before them.
\<close>

definition repeats :: "u8 list \<Rightarrow> nat \<Rightarrow> nat \<Rightarrow> nat \<Rightarrow> bool" where
  "repeats source d a b \<longleftrightarrow> d \<le> a \<and> b \<le> length source \<and> (\<forall>k. a \<le> k \<and> k < b \<longrightarrow> source ! k = source ! (k - d))"

lemma extend_back_repeats:
  "extend_back source anchor start origin = (s, q) \<Longrightarrow> origin < start \<Longrightarrow> start \<le> b \<Longrightarrow> repeats source (start - origin) start b \<Longrightarrow>
    start - origin = s - q \<and> q < s \<and> s \<le> start \<and> (anchor \<le> start \<longrightarrow> anchor \<le> s) \<and> repeats source (s - q) s b"
proof (induction source anchor start origin rule: extend_back.induct)
  case (1 source anchor start origin)
  show ?case
  proof (cases "start > anchor \<and> origin > 0 \<and> get_at source (start - 1) = get_at source (origin - 1)")
    case False
    then show ?thesis using 1 by (auto simp: extend_back.simps [of source anchor start origin] split: if_split_asm)
  next
    case True
    have len: "start - 1 < length source" using 1(3-5) True by (auto simp: repeats_def)
    then have eq: "source ! (start - 1) = source ! (origin - 1)" using True 1(3) by (auto simp: get_at_def split: if_split_asm)
    have d: "start - 1 - (origin - 1) = start - origin" using True 1(3) by simp
    have "repeats source (start - origin) (start - 1) b"
      unfolding repeats_def
    proof (intro conjI allI impI)
      show "start - origin \<le> start - 1" "b \<le> length source" using True 1(3,5) by (auto simp: repeats_def)
      fix k assume k: "start - 1 \<le> k \<and> k < b"
      show "source ! k = source ! (k - (start - origin))"
      proof (cases "k = start - 1")
        case True
        then show ?thesis using eq \<open>start > anchor \<and> _\<close> 1(3) by simp
      next
        case False
        then show ?thesis using k 1(5) by (auto simp: repeats_def)
      qed
    qed
    then have "start - 1 - (origin - 1) = s - q \<and> q < s \<and> s \<le> start - 1 \<and> (anchor \<le> start - 1 \<longrightarrow> anchor \<le> s) \<and> repeats source (s - q) s b"
      by (intro 1(1) [OF True]) (use 1(2,3,4) True d in \<open>auto simp: extend_back.simps [of source anchor start origin]\<close>)
    then show ?thesis using True d by auto
  qed
qed

lemma common_length_spec:
  "first < second \<Longrightarrow> n = common_length source first second limit len \<Longrightarrow> limit \<le> length source \<Longrightarrow>
    len \<le> n \<and> (second + len \<le> limit \<longrightarrow> second + n \<le> limit) \<and> (\<forall>i. len \<le> i \<and> i < n \<longrightarrow> source ! (first + i) = source ! (second + i)) \<and>
    (second + n < limit \<and> second + n < 2 ^ 64 \<longrightarrow> source ! (first + n) \<noteq> source ! (second + n))"
proof (induction source first second limit len rule: common_length.induct)
  case (1 source first second limit len)
  show ?case
  proof (cases "second + len < limit \<and> second + len < 2 ^ 64 \<and> source ! (first + len) = source ! (second + len)")
    case True
    then have s: "common_length source first second limit len = common_length source first second limit (len + 1)"
      using 1(2,4) by (simp add: common_length.simps [of _ _ _ _ len] checked_add_def get_at_def)
    have a: "checked_add first len = Some (first + len)" "checked_add second len = Some (second + len)"
      "get_at source (first + len) = Some (source ! (first + len))" "get_at source (second + len) = Some (source ! (second + len))"
      using True 1(2,4) by simp_all
    have ih: "len + 1 \<le> n \<and> (second + (len + 1) \<le> limit \<longrightarrow> second + n \<le> limit) \<and>
        (\<forall>i. len + 1 \<le> i \<and> i < n \<longrightarrow> source ! (first + i) = source ! (second + i)) \<and>
        (second + n < limit \<and> second + n < 2 ^ 64 \<longrightarrow> source ! (first + n) \<noteq> source ! (second + n))"
      by (rule 1(1) [OF refl a(1,2) _ refl a(3,4) _ 1(2) _ 1(4)]) (use True 1(3) s in simp_all)
    have "source ! (first + i) = source ! (second + i)" if "len \<le> i" "i < n" for i
      using that ih True by (cases "i = len") auto
    then show ?thesis using ih True by auto
  next
    case False
    then have "common_length source first second limit len = len"
      using 1(2,4) by (auto simp: common_length.simps [of _ _ _ _ len] checked_add_def get_at_def split: option.split)
    then show ?thesis using False 1(3) by auto
  qed
qed

text \<open>
  A candidate that agrees on four bytes gives a match: it lies behind the anchor, reaches past the position, ends before the last
  literals, and repeats the bytes at its offset.
\<close>

lemma match_origin:
  assumes "read_u32 source position = Some v" "read_u32 source candidate = Some v" "candidate < position"
    and "extend_back source anchor position candidate = (s, q)"
  shows "s - q = position - candidate" "q < s" "s \<le> position" "anchor \<le> position \<Longrightarrow> anchor \<le> s" "repeats source (s - q) s (position + 4)"
proof -
  have "repeats source (position - candidate) position (position + 4)"
    unfolding repeats_def
  proof (intro conjI allI impI)
    show "position - candidate \<le> position" "position + 4 \<le> length source" using assms(1) by (simp_all add: read_u32_Some)
    fix k assume k: "position \<le> k \<and> k < position + 4"
    have "source ! (position + (k - position)) = source ! (candidate + (k - position))"
      by (rule read_u32_same [OF assms(1,2)]) (use k in auto)
    then show "source ! k = source ! (k - (position - candidate))" using k assms(3) by (simp add: add.commute)
  qed
  then show "s - q = position - candidate" "q < s" "s \<le> position" "anchor \<le> position \<Longrightarrow> anchor \<le> s" "repeats source (s - q) s (position + 4)"
    using extend_back_repeats [OF assms(4,3), of "position + 4"] by simp_all
qed

lemma find_match_advances:
  assumes "find_match source anchor position candidate = Some (start, origin, found)"
    and "read_u32 source position = Some v" "read_u32 source candidate = Some v" "candidate < position" "position \<le> length source - 12"
  shows "position + 4 \<le> start + found"
proof (rule ccontr)
  obtain s q where sq: "extend_back source anchor position candidate = (s, q)" by fastforce
  note e = match_origin [OF assms(2-4) sq]
  let ?n = "common_length source (q + 4) (s + 4) (length source - 5) 0"
  have res: "start = s" "origin = q" "found = saturating_add 4 ?n"
    using assms(1) sq by (auto simp: find_match_def bind_eq_Some_conv)
  assume "\<not> position + 4 \<le> start + found"
  then have k: "s + 4 + ?n < position + 4" "position + 4 < 2 ^ 64" "position + 4 \<le> length source"
    using res assms(2) by (auto simp: saturating_add_def read_u32_Some split: if_split_asm)
  then have "source ! (s + 4 + ?n) = source ! (s + 4 + ?n - (s - q))" using e(5) by (simp add: repeats_def)
  moreover have "s + 4 + ?n - (s - q) = q + 4 + ?n" using e(2) by simp
  moreover have "s + 4 + ?n < length source - 5" using k(1,3) assms(5) by simp
  then have "source ! (q + 4 + ?n) \<noteq> source ! (s + 4 + ?n)"
    using common_length_spec [of "q + 4" "s + 4" ?n source "length source - 5" 0] e(2) k(1,2) by simp
  ultimately show False by simp
qed

lemma find_match_spec:
  assumes "find_match source anchor position candidate = Some (start, origin, found)" "length source < 2 ^ 63"
    and "read_u32 source position = Some v" "read_u32 source candidate = Some v" "candidate < position" "position + 12 \<le> length source"
  shows "origin < start" "start - origin = position - candidate" "start \<le> position" "anchor \<le> position \<Longrightarrow> anchor \<le> start"
    "start + found + 5 \<le> length source" "4 \<le> found" "repeats source (start - origin) start (start + found)"
proof -
  obtain s q where sq: "extend_back source anchor position candidate = (s, q)" by fastforce
  note e = match_origin [OF assms(3-5) sq]
  let ?n = "common_length source (q + 4) (s + 4) (length source - 5) 0"
  have n: "s + 4 + ?n \<le> length source - 5" "\<forall>i. i < ?n \<longrightarrow> source ! (q + 4 + i) = source ! (s + 4 + i)"
    using common_length_spec [OF _ refl, of "q + 4" "s + 4" "length source - 5" source 0] e(2,3) assms(6) by simp_all
  have res: "start = s" "origin = q" "found = 4 + ?n"
    using assms(1,2) sq n(1) by (auto simp: find_match_def bind_eq_Some_conv saturating_add_def)
  show "origin < start" "start - origin = position - candidate" "start \<le> position" "anchor \<le> position \<Longrightarrow> anchor \<le> start"
    using e res by simp_all
  show "start + found + 5 \<le> length source" "4 \<le> found" using n(1) res assms(6) e(3) by simp_all
  show "repeats source (start - origin) start (start + found)"
    unfolding repeats_def
  proof (intro conjI allI impI)
    show "start - origin \<le> start" "start + found \<le> length source" using n(1) res assms(6) e(3) by simp_all
    fix k assume k: "start \<le> k \<and> k < start + found"
    show "source ! k = source ! (k - (start - origin))"
    proof (cases "k < start + 4")
      case True
      then show ?thesis using k e(3,5) res by (simp add: repeats_def)
    next
      case False
      then have "k - (s + 4) < ?n" using k res by auto
      then have "source ! (q + 4 + (k - (s + 4))) = source ! (s + 4 + (k - (s + 4)))" using n(2) by blast
      moreover have "q + 4 + (k - (s + 4)) = k - (s - q)" using False e(2) res by simp
      ultimately show ?thesis using False res by simp
    qed
  qed
qed

section \<open>Compression\<close>

text \<open>
  The main loop: it ends because each match reaches past the position it was found at. The result is the writer, the table and the
  first byte not yet written.
\<close>

function compress_loop :: "u8 list \<Rightarrow> u16 list \<Rightarrow> writer \<Rightarrow> nat \<Rightarrow> nat \<Rightarrow> nat \<Rightarrow> (writer \<times> u16 list \<times> nat) option" where
  "compress_loop source table w anchor position misses =
     (if position \<le> length source - MF_LIMIT then do {
        sequence \<leftarrow> read_u32 source position;
        slot \<leftarrow> get_at table (lz4_hash sequence);
        mark \<leftarrow> u16_try_from position;
        let candidate = unat slot;
            table1 = table[lz4_hash sequence := mark]
        in if candidate < position \<and> position - candidate \<le> MAX_OFFSET \<and> read_u32 source candidate = Some sequence
           then do {
             (start, origin, found) \<leftarrow> find_match source anchor position candidate;
             literals \<leftarrow> get_range source anchor start;
             offset \<leftarrow> checked_sub start origin;
             w1 \<leftarrow> put_sequence w literals offset found;
             position1 \<leftarrow> checked_add start found;
             table2 \<leftarrow> index_back source table1 position1;
             compress_loop source table2 w1 position1 position1 0
           }
           else do {
             let misses1 = min (misses + 1) (2 ^ 32 - 1);
             position1 \<leftarrow> checked_add position (saturating_add 1 (drop_bit SKIP_TRIGGER misses1));
             compress_loop source table1 w anchor position1 misses1
           }
      }
      else Some (w, table, anchor))"
  by pat_completeness auto

termination
proof (relation "measure (\<lambda>(source, table, w, anchor, position, misses). length source + 1 - position)", goal_cases)
  case 1
  then show ?case by simp
next
  case (2 source table w anchor position misses sequence slot mark candidate table1 m start r origin found literals offset w1 position1 table2)
  have "position + 4 \<le> start + found"
    by (rule find_match_advances [where source = source and anchor = anchor and candidate = candidate and v = sequence]) (use 2 in auto)
  then show ?case using 2 by auto
next
  case (3 source table w anchor position misses sequence slot mark candidate table1 misses1 position1)
  have "position < position1" using 3(9) by (auto simp: saturating_add_def)
  then show ?case using 3(1,2) by (auto simp: read_u32_Some)
qed

declare compress_loop.simps [simp del]

definition lz4_compress :: "u8 list \<Rightarrow> u8 list \<Rightarrow> u16 list \<Rightarrow> (nat \<times> u8 list \<times> u16 list) option" where
  "lz4_compress source output table =
     (if length source > MAX_INPUT \<or> length table < TABLE_ENTRIES then None
      else if length source \<le> MF_LIMIT then do {
        w \<leftarrow> put_last \<lparr>buffer = output, filled = 0\<rparr> source;
        Some (filled w, buffer w, table)
      }
      else do {
        (w, table1, anchor) \<leftarrow> compress_loop source (replicate TABLE_ENTRIES 0 @ drop TABLE_ENTRIES table) \<lparr>buffer = output, filled = 0\<rparr> 0 0 0;
        rest \<leftarrow> get_range source anchor (length source);
        w1 \<leftarrow> put_last w rest;
        Some (filled w1, buffer w1, table1)
      })"

section \<open>Decompression\<close>

function read_length :: "u8 list \<Rightarrow> nat \<Rightarrow> nat \<Rightarrow> lz4_error + nat \<times> nat" where
  "read_length input at len =
     and_then (ok_or (get_at input at) Malformed) (\<lambda>byte.
     and_then (ok_or (checked_add at 1) Malformed) (\<lambda>at1.
     and_then (ok_or (checked_add len (unat byte)) Malformed) (\<lambda>len1.
       if byte \<noteq> 255 then Inr (len1, at1) else read_length input at1 len1)))"
  by pat_completeness auto

termination by (relation "measure (\<lambda>(input, at, len). length input - at)") auto

declare read_length.simps [simp del]

text \<open>
  The literals of a sequence: the new output, input position and output position.
\<close>

definition decode_literals :: "u8 list \<Rightarrow> u8 list \<Rightarrow> u8 \<Rightarrow> nat \<Rightarrow> nat \<Rightarrow> lz4_error + u8 list \<times> nat \<times> nat" where
  "decode_literals input output token at out =
     (let short = unat (drop_bit 4 token)
      in and_then (if short = RUN_MASK then read_length input at short else Inr (short, at)) (\<lambda>(literals, at1).
         and_then (ok_or (checked_add at1 literals) Malformed) (\<lambda>literal_end.
         and_then (ok_or (checked_add out literals) Malformed) (\<lambda>out_end.
         and_then (ok_or (get_range input at1 literal_end) Malformed) (\<lambda>source.
         and_then (ok_or (get_range output out out_end) OutputSize) (\<lambda>_.
           Inr (copy_into output out source, literal_end, out_end)))))))"

text \<open>
  The copy of a match that overlaps its target goes in steps of at most the offset. The caller has excluded the offset 0, with which
  the loop would not end; the sums stay below the end of the match and do not saturate.
\<close>

function copy_overlap :: "u8 list \<Rightarrow> nat \<Rightarrow> nat \<Rightarrow> nat \<Rightarrow> nat \<Rightarrow> lz4_error + u8 list" where
  "copy_overlap output at from offset match_end =
     (if at < match_end \<and> offset \<noteq> 0 then
        let step = min offset (match_end - at)
        in and_then (ok_or (get_range output 0 at) Malformed) (\<lambda>head.
           and_then (ok_or (get_range head from (saturating_add from step)) Malformed) (\<lambda>source.
           and_then (ok_or (get_range output at (at + step)) Malformed) (\<lambda>_.
             copy_overlap (copy_into output at source) (at + step) (saturating_add from step) offset match_end)))
      else Inr output)"
  by pat_completeness auto

termination by (relation "measure (\<lambda>(output, at, from, offset, match_end). match_end - at)") (auto split: split_min)

declare copy_overlap.simps [simp del]

definition copy_match :: "u8 list \<Rightarrow> nat \<Rightarrow> nat \<Rightarrow> nat \<Rightarrow> nat \<Rightarrow> lz4_error + u8 list" where
  "copy_match output out offset matched match_end =
     and_then (ok_or (checked_sub out offset) Malformed) (\<lambda>from.
       if offset \<ge> matched then
         and_then (ok_or (get_range output 0 out) Malformed) (\<lambda>head.
         and_then (ok_or (get_range head from (saturating_add from matched)) Malformed) (\<lambda>source.
         and_then (ok_or (get_range output out (out + matched)) Malformed) (\<lambda>_.
           Inr (copy_into output out source))))
       else copy_overlap output out from offset match_end)"

definition decode_match :: "u8 list \<Rightarrow> u8 list \<Rightarrow> u8 \<Rightarrow> nat \<Rightarrow> nat \<Rightarrow> lz4_error + u8 list \<times> nat \<times> nat" where
  "decode_match input output token at out =
     (if out > length output - MF_LIMIT \<or> at > length input - (3 + LAST_LITERALS) then Inl Malformed
      else
        and_then (ok_or (checked_add at 2) Malformed) (\<lambda>offset_end.
        and_then (ok_or (get_range input at offset_end) Malformed) (\<lambda>bytes.
          let offset = unat (le16 (bytes ! 0) (bytes ! 1));
              short = unat (token AND 15)
          in if offset = 0 \<or> offset > out then Inl Malformed
             else
               and_then (if short = RUN_MASK then read_length input offset_end short else Inr (short, offset_end)) (\<lambda>(extra, at1).
               and_then (ok_or (checked_add extra MIN_MATCH) Malformed) (\<lambda>matched.
               and_then (ok_or (checked_add out matched) Malformed) (\<lambda>match_end.
                 if match_end > length output - LAST_LITERALS then Inl Malformed
                 else and_then (copy_match output out offset matched match_end) (\<lambda>output1. Inr (output1, at1, match_end))))))))"

text \<open>
  One turn of the loop of \<^verbatim>\<open>decompress\<close>: the new output, with the positions to go on from unless the block ends.
\<close>

definition decode_step :: "u8 list \<Rightarrow> u8 list \<Rightarrow> nat \<Rightarrow> nat \<Rightarrow> lz4_error + u8 list \<times> (nat \<times> nat) option" where
  "decode_step input output at out =
     and_then (ok_or (get_at input at) Malformed) (\<lambda>token.
     and_then (ok_or (checked_add at 1) Malformed) (\<lambda>at1.
     and_then (decode_literals input output token at1 out) (\<lambda>(output1, at2, out1).
       if at2 = length input then (if out1 = length output then Inr (output1, None) else Inl OutputSize)
       else and_then (decode_match input output1 token at2 out1) (\<lambda>(output2, at3, out2). Inr (output2, Some (at3, out2))))))"

lemma read_length_advances: "read_length input at len = Inr (v, at') \<Longrightarrow> at < at'"
proof (induction input at len rule: read_length.induct)
  case (1 input at len)
  then show ?case by (subst (asm) (2) read_length.simps) (fastforce split: if_split_asm)
qed

lemma decode_step_advances:
  assumes "decode_step input output at out = Inr (output', Some (at', out'))"
  shows "at < at' \<and> at < length input"
  using assms
  by (fastforce simp: decode_step_def decode_literals_def decode_match_def Let_def split: if_split_asm dest!: read_length_advances)

function decompress_loop :: "u8 list \<Rightarrow> u8 list \<Rightarrow> nat \<Rightarrow> nat \<Rightarrow> lz4_error + u8 list" where
  "decompress_loop input output at out =
     (case decode_step input output at out of
        Inl e \<Rightarrow> Inl e
      | Inr (output1, None) \<Rightarrow> Inr output1
      | Inr (output1, Some (at1, out1)) \<Rightarrow> decompress_loop input output1 at1 out1)"
  by pat_completeness auto

termination
  by (relation "measure (\<lambda>(input, output, at, out). length input - at)") (auto dest!: decode_step_advances)

declare decompress_loop.simps [simp del]

definition lz4_decompress :: "u8 list \<Rightarrow> u8 list \<Rightarrow> lz4_error + u8 list" where
  "lz4_decompress input output =
     (if input = [] then Inl Malformed
      else if output = [] then (if input = [0] then Inr output else Inl Malformed)
      else decompress_loop input output 0 0)"

section \<open>The interface for C\<close>

text \<open>
  A buffer of C is \<open>None\<close> for the null pointer. The results are the number returned and the buffers after the call, \<open>None\<close>
  after a failure.
\<close>

definition lz4_slice :: "'a list option \<Rightarrow> 'a list option" where
  "lz4_slice p = (case p of None \<Rightarrow> None | Some xs \<Rightarrow> if length xs < 2 ^ 63 then Some xs else None)"

definition tunix_lz4_compress :: "u8 list option \<Rightarrow> u8 list option \<Rightarrow> u16 list option \<Rightarrow> nat \<times> u8 list option \<times> u16 list option" where
  "tunix_lz4_compress source output table =
     (case (lz4_slice source, lz4_slice output, table) of
        (Some s, Some target, Some t) \<Rightarrow>
          (case lz4_compress s target t of None \<Rightarrow> (0, None, None) | Some (n, target1, t1) \<Rightarrow> (n, Some target1, Some t1))
      | _ \<Rightarrow> (0, output, table))"

definition tunix_lz4_decompress :: "u8 list option \<Rightarrow> u8 list option \<Rightarrow> int \<times> u8 list option" where
  "tunix_lz4_decompress input output =
     (case (lz4_slice input, lz4_slice output) of
        (Some i, Some target) \<Rightarrow> (case lz4_decompress i target of Inl _ \<Rightarrow> (-1, None) | Inr target1 \<Rightarrow> (0, Some target1))
      | _ \<Rightarrow> (-1, output))"

end
