(* ===== verification/Lz4_Block.thy ===== *)
theory Lz4_Block
  imports Lz4
begin

text \<open>
  The LZ4 block format and the proof that the compressor writes it and the decompressor reads it. A block is a list of sequences,
  each with literals, an offset and a match length, and the last literals; \<open>block_bytes\<close> is its encoding, \<open>valid\<close> the
  restrictions of the format, and \<open>expand\<close> the bytes it stands for.
\<close>

section \<open>The format\<close>

type_synonym lz4_sequence = "u8 list \<times> nat \<times> nat"

definition ext_bytes :: "nat \<Rightarrow> u8 list" where
  "ext_bytes n = replicate (n div 255) 255 @ [of_nat (n mod 255)]"

definition run_bytes :: "nat \<Rightarrow> u8 list" where
  "run_bytes n = (if n \<ge> 15 then ext_bytes (n - 15) else [])"

definition seq_bytes :: "lz4_sequence \<Rightarrow> u8 list" where
  "seq_bytes = (\<lambda>(literals, offset, n).
     (push_bit 4 (of_nat (min (length literals) 15)) OR of_nat (min (n - 4) 15)) # run_bytes (length literals) @ literals @
     le16_bytes (of_nat offset) @ run_bytes (n - 4))"

text \<open>
  The last token has four bits without a meaning; the compressor clears them.
\<close>

definition last_bytes :: "nat \<Rightarrow> u8 list \<Rightarrow> u8 list" where
  "last_bytes low literals = (push_bit 4 (of_nat (min (length literals) 15)) OR of_nat low) # run_bytes (length literals) @ literals"

definition block_bytes :: "lz4_sequence list \<Rightarrow> nat \<Rightarrow> u8 list \<Rightarrow> u8 list" where
  "block_bytes seqs low rest = concat (map seq_bytes seqs) @ last_bytes low rest"

text \<open>
  A match copies byte by byte, so that it may overlap the bytes it produces.
\<close>

fun lz_copy :: "u8 list \<Rightarrow> nat \<Rightarrow> nat \<Rightarrow> u8 list" where
  "lz_copy acc offset 0 = acc"
| "lz_copy acc offset (Suc n) = lz_copy (acc @ [acc ! (length acc - offset)]) offset n"

fun expand :: "u8 list \<Rightarrow> lz4_sequence list \<Rightarrow> u8 list" where
  "expand acc [] = acc"
| "expand acc ((literals, offset, n) # seqs) = expand (lz_copy (acc @ literals) offset n) seqs"

text \<open>
  The sequences are those of a block for \<open>N\<close> bytes of which \<open>p\<close> precede them: the offset of each match stays inside what
  precedes it, no match starts in the last twelve bytes or reaches into the last five.
\<close>

fun valid :: "nat \<Rightarrow> nat \<Rightarrow> lz4_sequence list \<Rightarrow> bool" where
  "valid N p [] = True"
| "valid N p ((literals, offset, n) # seqs) =
     (0 < offset \<and> offset < 65536 \<and> offset \<le> p + length literals \<and> 4 \<le> n \<and> p + length literals + 12 \<le> N \<and>
      p + length literals + n + 5 \<le> N \<and> valid N (p + length literals + n) seqs)"

definition lz4_block :: "nat \<Rightarrow> u8 list \<Rightarrow> u8 list \<Rightarrow> bool" where
  "lz4_block N input content \<longleftrightarrow>
     (\<exists>seqs low rest. input = block_bytes seqs low rest \<and> low \<le> 15 \<and> (N = 0 \<longrightarrow> low = 0) \<and> valid N 0 seqs \<and>
        content = expand [] seqs @ rest \<and> length content = N)"

section \<open>Copying\<close>

lemma length_lz_copy [simp]: "length (lz_copy acc offset n) = length acc + n"
  by (induction n arbitrary: acc) simp_all

lemma lz_copy_add: "lz_copy acc offset (m + n) = lz_copy (lz_copy acc offset m) offset n"
  by (induction m arbitrary: acc) simp_all

lemma lz_copy_step:
  "step \<le> offset \<Longrightarrow> offset \<le> length acc \<Longrightarrow> lz_copy acc offset step = acc @ take step (drop (length acc - offset) acc)"
proof (induction step arbitrary: acc rule: nat_induct)
  case 0
  then show ?case by simp
next
  case (Suc step)
  have "lz_copy acc offset (Suc step) = lz_copy (lz_copy acc offset step) offset 1" using lz_copy_add [of acc offset step 1] by simp
  also have "\<dots> = lz_copy acc offset step @ [lz_copy acc offset step ! (length acc + step - offset)]" by simp
  also have "lz_copy acc offset step = acc @ take step (drop (length acc - offset) acc)" using Suc by simp
  also have "(acc @ take step (drop (length acc - offset) acc)) ! (length acc + step - offset) = drop (length acc - offset) acc ! step"
    using Suc.prems by (simp add: nth_append)
  finally show ?case using Suc.prems by (simp add: take_Suc_conv_app_nth)
qed

lemma lz_copy_repeats:
  "repeats source d a (a + n) \<Longrightarrow> 0 < d \<Longrightarrow> lz_copy (take a source) d n = take (a + n) source"
proof (induction n arbitrary: a)
  case 0
  then show ?case by simp
next
  case (Suc n)
  have "a < length source" "source ! a = source ! (a - d)" "d \<le> a" using Suc.prems(1) by (auto simp: repeats_def)
  then have "take a source @ [take a source ! (length (take a source) - d)] = take (Suc a) source"
    using Suc.prems(2) by (simp add: take_Suc_conv_app_nth)
  moreover have "repeats source d (Suc a) (Suc a + n)" using Suc.prems(1) by (simp add: repeats_def)
  ultimately show ?case using Suc.IH [of "Suc a"] Suc.prems(2) by simp
qed

lemma copy_overlap_spec:
  "offset \<noteq> 0 \<Longrightarrow> offset \<le> at \<Longrightarrow> from = at - offset \<Longrightarrow> at \<le> match_end \<Longrightarrow> match_end \<le> length dst \<Longrightarrow> length dst < 2 ^ 63 \<Longrightarrow>
    copy_overlap dst at from offset match_end = Inr (lz_copy (take at dst) offset (match_end - at) @ drop match_end dst)"
proof (induction dst at "from" offset match_end rule: copy_overlap.induct)
  case (1 dst at "from" offset match_end)
  show ?case
  proof (cases "at < match_end")
    case False
    then show ?thesis using 1(2-7) by (simp add: copy_overlap.simps)
  next
    case True
    let ?step = "min offset (match_end - at)"
    have ss: "saturating_add from ?step = from + ?step" using 1(2-7) by (simp add: saturating_add_def)
    have st: "at + ?step \<le> match_end" using True by simp
    have fs: "from + ?step \<le> at" using 1(2-7) by simp
    let ?src = "take ?step (drop from (take at dst))"
    have len: "length ?src = ?step" using fs 1(2-7) by simp
    have g: "get_range dst 0 at = Some (take at dst)" "get_range (take at dst) from (saturating_add from ?step) = Some ?src"
      "get_range dst at (at + ?step) = Some (take ?step (drop at dst))"
      unfolding ss using 1(6) True fs st by simp_all
    have step: "copy_overlap dst at from offset match_end = copy_overlap (copy_into dst at ?src) (at + ?step) (from + ?step) offset match_end"
      unfolding copy_overlap.simps [of dst at "from" offset match_end] Let_def ss g [unfolded ss] ok_or_simps(2) and_then_simps(2) using 1(2) True by simp
    have cp: "copy_into dst at ?src = lz_copy (take at dst) offset ?step @ drop (at + ?step) dst"
      using 1(2-7) len by (simp add: copy_into_def lz_copy_step)
    have tk: "take (at + ?step) (copy_into dst at ?src) = lz_copy (take at dst) offset ?step" using cp 1(2-7) by simp
    have dr: "drop match_end (copy_into dst at ?src) = drop match_end dst" using cp 1(2-7) True by (simp add: min_def)
    have "copy_overlap (copy_into dst at ?src) (at + ?step) (from + ?step) offset match_end =
        Inr (lz_copy (take (at + ?step) (copy_into dst at ?src)) offset (match_end - (at + ?step)) @ drop match_end (copy_into dst at ?src))"
      by (rule 1(1) [unfolded ok_or_simps, OF conjI [OF True 1(2)] refl g(1) _ g(3), OF g(2) 1(2), unfolded ss])
        (use 1(3-7) st in simp_all)
    also have "lz_copy (take (at + ?step) (copy_into dst at ?src)) offset (match_end - (at + ?step)) = lz_copy (take at dst) offset (?step + (match_end - (at + ?step)))"
      unfolding tk lz_copy_add ..
    also have "?step + (match_end - (at + ?step)) = match_end - at" using True by simp
    finally show ?thesis using step dr by simp
  qed
qed

lemma copy_match_spec:
  assumes "offset \<noteq> 0" "offset \<le> out" "match_end = out + matched" "match_end \<le> length dst" "length dst < 2 ^ 63"
  shows "copy_match dst out offset matched match_end = Inr (lz_copy (take out dst) offset matched @ drop match_end dst)"
proof (cases "offset \<ge> matched")
  case True
  have "saturating_add (out - offset) matched = out - offset + matched" "out - offset + matched \<le> out"
    using True assms by (simp_all add: saturating_add_def)
  then show ?thesis
    using True assms by (simp add: copy_match_def ok_or_def checked_sub_def get_range_def copy_into_def lz_copy_step)
next
  case False
  then show ?thesis
    using assms copy_overlap_spec [OF assms(1,2) refl, of match_end dst] by (simp add: copy_match_def ok_or_def checked_sub_def)
qed

section \<open>Lengths\<close>

lemma ext_bytes_less: "n < 255 \<Longrightarrow> ext_bytes n = [of_nat n]"
  by (simp add: ext_bytes_def)

lemma ext_bytes_more: "ext_bytes (n + 255) = 255 # ext_bytes n"
  unfolding ext_bytes_def div_add_self2 [of 255 n, simplified] by simp

lemma length_ext_bytes: "length (ext_bytes n) = n div 255 + 1"
  by (simp add: ext_bytes_def)

lemma read_length_ext:
  "drop at input = ext_bytes n @ rest \<Longrightarrow> at + length (ext_bytes n) < 2 ^ 64 \<Longrightarrow> len + n < 2 ^ 64 \<Longrightarrow>
    read_length input at len = Inr (len + n, at + length (ext_bytes n))"
proof (induction n arbitrary: at len rule: less_induct)
  case (less n)
  have at: "at < length input" using less.prems(1) by (cases "at < length input") (simp_all add: ext_bytes_def)
  show ?case
  proof (cases "n < 255")
    case True
    have "input ! at = of_nat n" using less.prems(1) at True by (simp add: ext_bytes_less hd_drop_conv_nth [symmetric])
    moreover have "unat (of_nat n :: u8) = n" "(of_nat n :: u8) \<noteq> 255"
      using True by (simp_all add: unat_of_nat take_bit_eq_mod word_unat_eq_iff)
    ultimately show ?thesis
      using at less.prems True by (subst read_length.simps) (simp add: get_at_def checked_add_def ext_bytes_less)
  next
    case False
    define m where "m = n - 255"
    have n: "n = m + 255" using False by (simp add: m_def)
    have d: "drop at input = 255 # ext_bytes m @ rest" using less.prems(1) by (simp add: n ext_bytes_more)
    then have "input ! at = 255" "drop (Suc at) input = ext_bytes m @ rest"
      using at by (simp_all add: hd_drop_conv_nth [symmetric] drop_Suc drop_tl)
    moreover have "read_length input (Suc at) (len + 255) = Inr (len + 255 + m, Suc at + length (ext_bytes m))"
      by (rule less.IH) (use less.prems(2,3) n d at in \<open>simp_all add: ext_bytes_more drop_Suc drop_tl\<close>)
    ultimately show ?thesis
      using at less.prems(2,3) n by (subst read_length.simps) (simp add: get_at_def checked_add_def ext_bytes_more)
  qed
qed

lemma read_length_parse:
  "read_length input at len = Inr (v, at') \<Longrightarrow> \<exists>n. v = len + n \<and> drop at input = ext_bytes n @ drop at' input \<and> at' = at + length (ext_bytes n)"
proof (induction input at len rule: read_length.induct)
  case (1 input at len)
  have at: "at < length input" "at + 1 < 2 ^ 64" "len + unat (input ! at) < 2 ^ 64"
    using 1(2) by (subst (asm) read_length.simps, auto)+
  have d: "drop at input = input ! at # drop (Suc at) input" using at by (simp add: Cons_nth_drop_Suc)
  show ?case
  proof (cases "input ! at = 255")
    case False
    have u: "unat (input ! at) < 255"
      using False unsigned_less [of "input ! at", where ?'a = nat] by (auto simp: word_unat_eq_iff less_eq_Suc_le)
    have "v = len + unat (input ! at)" "at' = at + 1" using 1(2) False by (subst (asm) read_length.simps, auto)+
    then show ?thesis using d u by (intro exI [of _ "unat (input ! at)"]) (simp add: ext_bytes_less)
  next
    case True
    have "read_length input (at + 1) (len + unat (input ! at)) = Inr (v, at')"
      using 1(2) True by (subst (asm) read_length.simps) auto
    then obtain n where n: "v = len + unat (input ! at) + n" "drop (at + 1) input = ext_bytes n @ drop at' input" "at' = at + 1 + length (ext_bytes n)"
      using 1(1) [of "input ! at" "at + 1" "len + unat (input ! at)"] at True by auto
    show ?thesis using n d True by (intro exI [of _ "n + 255"]) (simp add: ext_bytes_more)
  qed
qed

section \<open>Tokens\<close>

lemma token_fields:
  assumes "a \<le> 15" "b \<le> 15"
  shows "unat (drop_bit 4 (push_bit 4 (of_nat a) OR of_nat b :: u8)) = a" "unat ((push_bit 4 (of_nat a) OR of_nat b :: u8) AND 15) = b"
proof -
  have "list_all (\<lambda>a. list_all (\<lambda>b. unat (drop_bit 4 (push_bit 4 (of_nat a) OR of_nat b :: u8)) = a \<and>
      unat ((push_bit 4 (of_nat a) OR of_nat b :: u8) AND 15) = b) [0..<16]) [0..<16]"
    by code_simp
  then show "unat (drop_bit 4 (push_bit 4 (of_nat a) OR of_nat b :: u8)) = a" "unat ((push_bit 4 (of_nat a) OR of_nat b :: u8) AND 15) = b"
    using assms by (simp_all add: list_all_iff)
qed

lemma token_join:
  fixes t :: u8
  shows "push_bit 4 (of_nat (unat (drop_bit 4 t))) OR of_nat (unat (t AND 15)) = t" "unat (drop_bit 4 t) \<le> 15" "unat (t AND 15) \<le> 15"
proof -
  have "list_all (\<lambda>n. let t = of_nat n :: u8 in push_bit 4 (of_nat (unat (drop_bit 4 t))) OR of_nat (unat (t AND 15)) = t \<and>
      unat (drop_bit 4 t) \<le> 15 \<and> unat (t AND 15) \<le> 15) [0..<256]"
    by code_simp
  moreover have "unat t < 256" using unsigned_less [of t, where ?'a = nat] by simp
  ultimately have "let t = of_nat (unat t) :: u8 in push_bit 4 (of_nat (unat (drop_bit 4 t))) OR of_nat (unat (t AND 15)) = t \<and>
      unat (drop_bit 4 t) \<le> 15 \<and> unat (t AND 15) \<le> 15"
    unfolding list_all_iff by (metis atLeastLessThan_iff le0 set_upt)
  then show "push_bit 4 (of_nat (unat (drop_bit 4 t))) OR of_nat (unat (t AND 15)) = t" "unat (drop_bit 4 t) \<le> 15" "unat (t AND 15) \<le> 15"
    by (simp_all add: Let_def)
qed

text \<open>
  The value of a four bit field with its extension.
\<close>

abbreviation run_value :: "u8 list \<Rightarrow> nat \<Rightarrow> nat \<Rightarrow> lz4_error + nat \<times> nat" where
  "run_value input short at \<equiv> if short = 15 then read_length input at short else Inr (short, at)"

lemma run_value_read:
  assumes "drop at input = run_bytes n @ rest" "length input < 2 ^ 63" "at \<le> length input" "n < 2 ^ 63"
  shows "run_value input (min n 15) at = Inr (n, at + length (run_bytes n))"
proof (cases "n \<ge> 15")
  case True
  then have r: "run_bytes n = ext_bytes (n - 15)" by (simp add: run_bytes_def)
  have "length input - at = length (run_bytes n) + length rest" using arg_cong [OF assms(1), of length] by simp
  then have "at + length (ext_bytes (n - 15)) < 2 ^ 64" using assms(2,3) r by simp
  then show ?thesis using True read_length_ext [of at input "n - 15" rest 15] assms(1,4) r by simp
next
  case False
  then show ?thesis by (simp add: run_bytes_def)
qed

lemma run_value_parse:
  assumes "run_value input short at = Inr (v, at')" "short \<le> 15"
  shows "short = min v 15" "drop at input = run_bytes v @ drop at' input" "at' = at + length (run_bytes v)"
proof -
  have "short = min v 15 \<and> drop at input = run_bytes v @ drop at' input \<and> at' = at + length (run_bytes v)"
  proof (cases "short = 15")
    case True
    then obtain n where "v = 15 + n" "drop at input = ext_bytes n @ drop at' input" "at' = at + length (ext_bytes n)"
      using read_length_parse [of input at 15 v at'] assms(1) by auto
    then show ?thesis using True by (simp add: run_bytes_def)
  next
    case False
    then show ?thesis using assms by (auto simp: run_bytes_def)
  qed
  then show "short = min v 15" "drop at input = run_bytes v @ drop at' input" "at' = at + length (run_bytes v)" by simp_all
qed

section \<open>Decoding\<close>

lemma drop_append_at: "drop at xs = ys @ zs \<Longrightarrow> drop (at + length ys) xs = zs"
  by (metis append_eq_conv_conj add.commute drop_drop)

lemma decode_literals_read:
  assumes "drop at input = run_bytes (length ls) @ ls @ rest" "unat (drop_bit 4 token) = min (length ls) 15" "at \<le> length input"
    and "length input < 2 ^ 63" "out + length ls \<le> length dst" "length dst < 2 ^ 63"
  shows "decode_literals input dst token at out =
    Inr (copy_into dst out ls, at + length (run_bytes (length ls)) + length ls, out + length ls)"
proof -
  let ?at = "at + length (run_bytes (length ls))"
  have d: "drop ?at input = ls @ rest" using drop_append_at [OF assms(1)] .
  have len: "?at + length ls \<le> length input" using arg_cong [OF assms(1), of length] assms(3) by simp
  have g: "get_range input ?at (?at + length ls) = Some ls" using d len by simp
  show ?thesis
    using run_value_read [OF assms(1,4,3)] assms(2,4,5,6) g len
    by (simp add: decode_literals_def Let_def checked_add_def get_range_def)
qed

lemma decode_literals_parse:
  assumes "decode_literals input dst token at out = Inr (dst', at', out')"
  shows "\<exists>ls. unat (drop_bit 4 token) = min (length ls) 15 \<and> drop at input = run_bytes (length ls) @ ls @ drop at' input \<and>
    at' = at + length (run_bytes (length ls)) + length ls \<and> at' \<le> length input \<and> out' = out + length ls \<and> out' \<le> length dst \<and>
    dst' = copy_into dst out ls"
proof -
  obtain v at1 where v: "run_value input (unat (drop_bit 4 token)) at = Inr (v, at1)"
    using assms by (auto simp: decode_literals_def Let_def)
  note p = run_value_parse [OF v token_join(2)]
  have r: "at' = at1 + v" "out' = out + v" "at' \<le> length input" "out' \<le> length dst" "dst' = copy_into dst out (take v (drop at1 input))"
    using assms v by (auto simp: decode_literals_def Let_def)
  have "drop at1 input = take v (drop at1 input) @ drop at' input" using r(1) by (metis append_take_drop_id drop_drop add.commute)
  moreover have "length (take v (drop at1 input)) = v" using r(1,3) by simp
  ultimately show ?thesis using p r by (intro exI [of _ "take v (drop at1 input)"]) simp
qed

lemma le16_of_bytes: "unat (le16 b0 b1) < 65536" "le16_bytes (of_nat (unat (le16 b0 b1))) = [b0, b1]"
proof -
  show "unat (le16 b0 b1) < 65536" using unsigned_less [of "le16 b0 b1", where ?'a = nat] by simp
  have "ucast (le16 b0 b1) = b0" "ucast (drop_bit 8 (le16 b0 b1)) = b1"
    by (rule bit_word_eqI, simp add: le16_def bit_unsigned_iff bit_or_iff bit_push_bit_iff bit_drop_bit_eq byte_bit_high)+
  then show "le16_bytes (of_nat (unat (le16 b0 b1))) = [b0, b1]" by (simp add: le16_bytes_def)
qed

lemma le16_bytes_read: "n < 65536 \<Longrightarrow> xs = le16_bytes (of_nat n) \<Longrightarrow> unat (le16 (xs ! 0) (xs ! 1)) = n"
  by (simp add: le16_bytes_def le16_split unat_of_nat take_bit_eq_mod)

lemma length_le16_bytes [simp]: "length (le16_bytes v) = 2"
  by (simp add: le16_bytes_def)

lemma decode_match_read:
  assumes "drop at input = le16_bytes (of_nat offset) @ run_bytes (n - 4) @ rest" "6 \<le> length rest" "unat (token AND 15) = min (n - 4) 15"
    and "at \<le> length input" "length input < 2 ^ 63" "length dst < 2 ^ 63" "0 < offset" "offset < 65536" "offset \<le> out" "4 \<le> n"
    and "out + 12 \<le> length dst" "out + n + 5 \<le> length dst"
  shows "decode_match input dst token at out =
    Inr (lz_copy (take out dst) offset n @ drop (out + n) dst, at + 2 + length (run_bytes (n - 4)), out + n)"
proof -
  have len: "length input = at + 2 + length (run_bytes (n - 4)) + length rest" using arg_cong [OF assms(1), of length] assms(4) by simp
  have d: "drop (at + 2) input = run_bytes (n - 4) @ rest" using drop_append_at [OF assms(1)] by simp
  have g: "get_range input at (at + 2) = Some (le16_bytes (of_nat offset))" using assms(1) len by simp
  have rv: "run_value input (min (n - 4) 15) (at + 2) = Inr (n - 4, at + 2 + length (run_bytes (n - 4)))"
    by (rule run_value_read [OF d]) (use assms(5,6,12) len in simp_all)
  have c: "(out > length dst - 12 \<or> at > length input - (3 + 5)) = False" "checked_add at 2 = Some (at + 2)" "(offset = 0 \<or> offset > out) = False"
    "checked_add (n - 4) 4 = Some n" "checked_add out n = Some (out + n)" "(out + n > length dst - 5) = False"
    using assms(2,5-12) len by auto
  have cp: "copy_match dst out offset n (out + n) = Inr (lz_copy (take out dst) offset n @ drop (out + n) dst)"
    by (rule copy_match_spec) (use assms in simp_all)
  show ?thesis
    unfolding decode_match_def
    by (simp only: c if_False ok_or_simps and_then_simps g Let_def le16_bytes_read [OF assms(8) refl] assms(3) rv prod.case cp)
qed

lemma decode_match_parse:
  assumes "decode_match input dst token at out = Inr (dst', at', out')" "length dst < 2 ^ 63"
  shows "\<exists>offset n. drop at input = le16_bytes (of_nat offset) @ run_bytes (n - 4) @ drop at' input \<and> unat (token AND 15) = min (n - 4) 15 \<and>
    at' = at + 2 + length (run_bytes (n - 4)) \<and> out' = out + n \<and> 0 < offset \<and> offset < 65536 \<and> offset \<le> out \<and> 4 \<le> n \<and>
    out + 12 \<le> length dst \<and> out + n + 5 \<le> length dst \<and> dst' = lz_copy (take out dst) offset n @ drop (out + n) dst"
proof -
  define bytes where "bytes = take 2 (drop at input)"
  define offset where "offset = unat (le16 (bytes ! 0) (bytes ! 1))"
  have c: "\<not> out > length dst - 12" "at + 2 \<le> length input" "offset \<noteq> 0" "offset \<le> out"
    using assms(1) by (auto simp: decode_match_def Let_def bytes_def offset_def split: if_split_asm)
  obtain v at1 where v: "run_value input (unat (token AND 15)) (at + 2) = Inr (v, at1)"
    using assms(1) by (auto simp: decode_match_def Let_def split: if_split_asm)
  note p = run_value_parse [OF v token_join(3)]
  have r: "at' = at1" "out' = out + (v + 4)" "\<not> out' > length dst - 5" "copy_match dst out offset (v + 4) out' = Inr dst'"
    using assms(1) v by (auto simp: decode_match_def Let_def bytes_def offset_def split: if_split_asm)
  have two: "length bytes = 2" using c(2) by (simp add: bytes_def)
  then have b: "bytes = [bytes ! 0, bytes ! 1]" by (simp add: list_eq_iff_nth_eq less_2_cases_iff)
  have "drop at input = bytes @ drop (at + 2) input" unfolding bytes_def by (metis append_take_drop_id drop_drop add.commute)
  also have "bytes = le16_bytes (of_nat offset)" using b le16_of_bytes(2) unfolding offset_def by metis
  finally have d: "drop at input = le16_bytes (of_nat offset) @ run_bytes v @ drop at' input" using p(2) r(1) by simp
  have le: "out + (v + 4) + 5 \<le> length dst" "out + 12 \<le> length dst" using c(1,3,4) r(2,3) by auto
  then have dst: "dst' = lz_copy (take out dst) offset (v + 4) @ drop (out + (v + 4)) dst"
    using copy_match_spec [OF c(3,4) r(2) _ assms(2)] r by simp
  have "offset < 65536" unfolding offset_def by (rule le16_of_bytes(1))
  then show ?thesis
    using p(1,3) r(1,2) c(3,4) d le dst by (intro exI [of _ offset] exI [of _ "v + 4"]) simp
qed

lemma length_expand_valid: "valid N (length acc) seqs \<Longrightarrow> length acc + 5 \<le> N \<Longrightarrow> length (expand acc seqs) + 5 \<le> N"
  by (induction acc seqs rule: expand.induct) simp_all

lemma length_expand: "length acc \<le> length (expand acc seqs)"
  by (induction acc seqs rule: expand.induct) simp_all

lemma decompress_loop_read:
  assumes "drop at input = block_bytes seqs low rest" "low \<le> 15" "at \<le> length input" "length input < 2 ^ 63" "out \<le> length dst"
    and "length dst < 2 ^ 63" "valid (length dst) out seqs" "length (expand (take out dst) seqs @ rest) = length dst"
  shows "decompress_loop input dst at out = Inr (expand (take out dst) seqs @ rest)"
  using assms
proof (induction seqs arbitrary: dst at out)
  case Nil
  let ?token = "push_bit 4 (of_nat (min (length rest) 15)) OR of_nat low :: u8"
  have d: "drop at input = ?token # run_bytes (length rest) @ rest @ []" using Nil.prems(1) by (simp add: block_bytes_def last_bytes_def)
  have at: "at < length input" using d by (cases "at < length input") simp_all
  have t: "input ! at = ?token" "drop (at + 1) input = run_bytes (length rest) @ rest @ []"
    using d at by (simp_all add: hd_drop_conv_nth [symmetric] drop_Suc drop_tl)
  have len: "length input = at + 1 + length (run_bytes (length rest)) + length rest" using arg_cong [OF d, of length] at by simp
  have out: "out + length rest = length dst" using Nil.prems(5,8) by simp
  have "decode_literals input dst ?token (at + 1) out = Inr (copy_into dst out rest, at + 1 + length (run_bytes (length rest)) + length rest, out + length rest)"
    by (rule decode_literals_read [OF t(2)]) (use token_fields(1) [of "min (length rest) 15" low] Nil.prems(2,4,6) at out in simp_all)
  then have "decode_step input dst at out = Inr (copy_into dst out rest, None)"
    using at t(1) len out Nil.prems(4) by (simp add: decode_step_def checked_add_def get_at_def)
  then show ?case using out by (simp add: decompress_loop.simps [of input dst] copy_into_def)
next
  case (Cons q seqs)
  obtain ls off n where q: "q = (ls, off, n)" by (cases q)
  have v: "0 < off" "off < 65536" "off \<le> out + length ls" "4 \<le> n" "out + length ls + 12 \<le> length dst" "out + length ls + n + 5 \<le> length dst"
    "valid (length dst) (out + length ls + n) seqs" using Cons.prems(7) by (simp_all add: q)
  let ?token = "push_bit 4 (of_nat (min (length ls) 15)) OR of_nat (min (n - 4) 15) :: u8"
  let ?tail = "le16_bytes (of_nat off) @ run_bytes (n - 4) @ block_bytes seqs low rest"
  have d: "drop at input = ?token # run_bytes (length ls) @ ls @ ?tail" using Cons.prems(1) by (simp add: block_bytes_def seq_bytes_def q)
  have at: "at < length input" using d by (cases "at < length input") simp_all
  have t: "input ! at = ?token" "drop (at + 1) input = run_bytes (length ls) @ ls @ ?tail"
    using d at by (simp_all add: hd_drop_conv_nth [symmetric] drop_Suc drop_tl)
  have tok: "unat (drop_bit 4 ?token) = min (length ls) 15" "unat (?token AND 15) = min (n - 4) 15"
    by (rule token_fields; simp)+
  let ?dst1 = "copy_into dst out ls" and ?at1 = "at + 1 + length (run_bytes (length ls)) + length ls"
  have l: "decode_literals input dst ?token (at + 1) out = Inr (?dst1, ?at1, out + length ls)"
    by (rule decode_literals_read [OF t(2) tok(1)]) (use Cons.prems(4,6) at v in simp_all)
  have len1: "length ?dst1 = length dst" "take (out + length ls) ?dst1 = take out dst @ ls" using v Cons.prems(5) by (simp_all add: copy_into_def)
  have t1: "drop ?at1 input = ?tail" using drop_append_at [of "at + 1" input "run_bytes (length ls) @ ls" ?tail] t(2) by (simp add: add.assoc)
  have leni: "length input = ?at1 + length ?tail" using arg_cong [OF t(2), of length] at by simp
  let ?acc = "lz_copy (take out dst @ ls) off n" and ?at2 = "?at1 + 2 + length (run_bytes (n - 4))"
  have five: "length (expand ?acc seqs) + 5 \<le> length dst" by (rule length_expand_valid) (use v Cons.prems(5) in simp_all)
  have total: "length (expand ?acc seqs @ rest) = length dst" using Cons.prems(8) by (simp add: q)
  have six: "6 \<le> length (block_bytes seqs low rest)" using five total by (simp add: block_bytes_def last_bytes_def)
  let ?dst2 = "?acc @ drop (out + length ls + n) ?dst1"
  have m: "decode_match input ?dst1 ?token ?at1 (out + length ls) = Inr (?dst2, ?at2, out + length ls + n)"
    using decode_match_read [OF t1 six tok(2) _ Cons.prems(4), of ?dst1 "out + length ls"] v leni len1 Cons.prems(6) by simp
  have step: "decode_step input dst at out = Inr (?dst2, Some (?at2, out + length ls + n))"
    using at t(1) l m leni six Cons.prems(4) by (simp add: decode_step_def checked_add_def get_at_def)
  have len2: "length ?dst2 = length dst" "take (out + length ls + n) ?dst2 = ?acc" using len1 v Cons.prems(5) by simp_all
  have "decompress_loop input ?dst2 ?at2 (out + length ls + n) = Inr (expand (take (out + length ls + n) ?dst2) seqs @ rest)"
  proof (rule Cons.IH)
    show "drop ?at2 input = block_bytes seqs low rest"
      using drop_append_at [of ?at1 input "le16_bytes (of_nat off) @ run_bytes (n - 4)" "block_bytes seqs low rest"] t1 by (simp add: add.assoc)
  qed (use Cons.prems(2,4,6) v len2 leni total in simp_all)
  then show ?case unfolding len2(2) decompress_loop.simps [of input dst] step q by simp
qed

lemma decompress_loop_parse:
  assumes "decompress_loop input dst at out = Inr content" "out \<le> length dst" "length dst < 2 ^ 63"
  shows "\<exists>seqs low rest. drop at input = block_bytes seqs low rest \<and> low \<le> 15 \<and> valid (length dst) out seqs \<and>
    content = expand (take out dst) seqs @ rest \<and> length content = length dst"
  using assms
proof (induction input dst at out rule: decompress_loop.induct)
  case (1 input dst at out)
  obtain dst' w where step: "decode_step input dst at out = Inr (dst', w)"
    using 1(2) by (auto simp: decompress_loop.simps [of input dst] split: sum.split_asm)
  obtain dst1 at1 out1 where lit: "decode_literals input dst (input ! at) (at + 1) out = Inr (dst1, at1, out1)" and at: "at < length input"
    using step by (auto simp: decode_step_def)
  obtain ls where ls: "unat (drop_bit 4 (input ! at)) = min (length ls) 15" "drop (at + 1) input = run_bytes (length ls) @ ls @ drop at1 input"
    "at1 \<le> length input" "out1 = out + length ls" "out1 \<le> length dst" "dst1 = copy_into dst out ls"
    using decode_literals_parse [OF lit] by auto
  have d: "drop at input = input ! at # run_bytes (length ls) @ ls @ drop at1 input" using ls(2) at by (simp add: Cons_nth_drop_Suc [symmetric])
  have token: "input ! at = push_bit 4 (of_nat (min (length ls) 15)) OR of_nat (unat (input ! at AND 15))"
    using token_join(1) [of "input ! at"] ls(1) by simp
  have len1: "length dst1 = length dst" "take out1 dst1 = take out dst @ ls" using ls 1(3) by (simp_all add: copy_into_def)
  show ?case
  proof (cases "at1 = length input")
    case True
    then have res: "content = dst1" "out1 = length dst" using 1(2) lit at by (auto simp: decompress_loop.simps [of input dst] decode_step_def split: if_split_asm sum.split_asm)
    have "drop at input = block_bytes [] (unat (input ! at AND 15)) ls"
      unfolding block_bytes_def last_bytes_def using d True token by (metis append_Nil append_Nil2 concat.simps(1) drop_all list.simps(8) order_refl)
    moreover have "content = take out dst @ ls" using res len1 by simp
    ultimately show ?thesis
      using token_join(3) [of "input ! at"] res len1 by (intro exI [of _ "[]"] exI [of _ "unat (input ! at AND 15)"] exI [of _ ls]) simp
  next
    case False
    obtain dst2 at2 out2 where m: "decode_match input dst1 (input ! at) at1 out1 = Inr (dst2, at2, out2)"
      using step lit at False by (auto simp: decode_step_def)
    have st: "decode_step input dst at out = Inr (dst2, Some (at2, out2))"
      using step lit at False m by (auto simp: decode_step_def)
    obtain off n where o: "drop at1 input = le16_bytes (of_nat off) @ run_bytes (n - 4) @ drop at2 input" "unat (input ! at AND 15) = min (n - 4) 15"
      "out2 = out1 + n" "0 < off" "off < 65536" "off \<le> out1" "4 \<le> n" "out1 + 12 \<le> length dst1" "out1 + n + 5 \<le> length dst1"
      "dst2 = lz_copy (take out1 dst1) off n @ drop (out1 + n) dst1"
      using decode_match_parse [OF m] 1(4) len1 by auto
    have len2: "length dst2 = length dst" "take out2 dst2 = lz_copy (take out dst @ ls) off n" using o len1 ls(4) 1(3) by simp_all
    have "decompress_loop input dst2 at2 out2 = Inr content" using 1(2) st by (simp add: decompress_loop.simps [of input dst])
    then obtain seqs low rest where ih: "drop at2 input = block_bytes seqs low rest" "low \<le> 15" "valid (length dst2) out2 seqs"
      "content = expand (take out2 dst2) seqs @ rest" "length content = length dst2"
      using 1(1) [OF st refl refl] len2 o(3,9) len1 1(4) by auto
    have "drop at input = seq_bytes (ls, off, n) @ drop at2 input" using d o(1) token o(2) by (simp add: seq_bytes_def)
    then have "drop at input = block_bytes ((ls, off, n) # seqs) low rest" using ih(1) by (simp add: block_bytes_def)
    then show ?thesis
      using ih len2 o len1 ls(4) by (intro exI [of _ "(ls, off, n) # seqs"] exI [of _ low] exI [of _ rest]) simp
  qed
qed

end
