(* ===== verification/Lz4_Contract.thy ===== *)
theory Lz4_Contract
  imports Lz4_Block
begin

text \<open>
  The compressor writes the encoding of a block that stands for its input and never more than the bound; with the decompressor this
  gives the round trip.
\<close>

section \<open>Writing\<close>

definition appended :: "writer \<Rightarrow> u8 list \<Rightarrow> writer" where
  "appended w bytes = \<lparr>buffer = copy_into (buffer w) (filled w) bytes, filled = filled w + length bytes\<rparr>"

definition put :: "writer \<Rightarrow> u8 list \<Rightarrow> writer option" where
  "put w bytes = (if filled w + length bytes \<le> length (buffer w) then Some (appended w bytes) else None)"

definition small :: "writer \<Rightarrow> bool" where
  "small w \<longleftrightarrow> length (buffer w) < 2 ^ 63"

lemma put_facts:
  assumes "put w bytes = Some w'"
  shows "filled w' = filled w + length bytes" "length (buffer w') = length (buffer w)" "filled w' \<le> length (buffer w')" "small w' = small w"
    "take (filled w') (buffer w') = take (filled w) (buffer w) @ bytes"
  using assms by (auto simp: put_def appended_def small_def copy_into_def split: if_split_asm)

lemma put_append: "Option.bind (put w a) (\<lambda>w1. put w1 b) = put w (a @ b)"
  by (auto simp: put_def appended_def copy_into_append add.assoc)

lemma put_Nil: "filled w \<le> length (buffer w) \<Longrightarrow> put w [] = Some w"
  by (simp add: put_def appended_def)

lemma put_byte_put: "small w \<Longrightarrow> put_byte w v = put w [v]"
  by (auto simp: put_byte_def put_def appended_def small_def get_at_def checked_add_def copy_into_def upd_conv_take_nth_drop)

lemma put_bytes_put: "small w \<Longrightarrow> put_bytes w bytes = put w bytes"
  by (auto simp: put_bytes_def put_def appended_def small_def get_range_def checked_add_def)

lemma put_length_put: "small w \<Longrightarrow> put_length w n = put w (ext_bytes n)"
proof (induction w n rule: put_length.induct)
  case (1 w n)
  show ?case
  proof (cases "n \<ge> 255")
    case True
    define m where "m = n - 255"
    have n: "n = m + 255" using True by (simp add: m_def)
    have "put_length w n = Option.bind (put w [255]) (\<lambda>w1. put_length w1 m)"
      using True 1(2) by (simp add: put_length.simps [of w n] put_byte_put checked_sub_def m_def)
    also have "\<dots> = Option.bind (put w [255]) (\<lambda>w1. put w1 (ext_bytes m))"
      by (rule bind_option_cong [OF refl]) (use 1 True put_facts(4) in \<open>simp add: put_byte_put m_def\<close>)
    finally show ?thesis unfolding put_append n ext_bytes_more by simp
  next
    case False
    then show ?thesis using 1(2) by (simp add: put_length.simps [of w n] put_byte_put ext_bytes_less)
  qed
qed

lemma put_run: "small w \<Longrightarrow> filled w \<le> length (buffer w) \<Longrightarrow> (if n \<ge> 15 then put_length w (n - 15) else Some w) = put w (run_bytes n)"
  by (simp add: run_bytes_def put_length_put put_Nil)

lemma put_then:
  assumes "\<And>w1. put w a = Some w1 \<Longrightarrow> small w1 \<Longrightarrow> filled w1 \<le> length (buffer w1) \<Longrightarrow> f w1 = put w1 b" "small w"
  shows "Option.bind (put w a) f = put w (a @ b)"
  unfolding put_append [symmetric] by (rule bind_option_cong [OF refl]) (use assms put_facts in \<open>simp add: put_facts\<close>)

lemma put_last_put:
  assumes "small w"
  shows "put_last w literals = put w (last_bytes 0 literals)"
proof -
  have "put_last w literals = put w ([push_bit 4 (of_nat (min (length literals) 15))] @ run_bytes (length literals) @ literals)"
    unfolding put_last_def put_byte_put [OF assms]
    by (intro put_then assms) (simp add: put_run put_bytes_put put_then)
  then show ?thesis by (simp add: last_bytes_def)
qed

lemma put_sequence_put:
  assumes "small w" "4 \<le> n" "offset < 65536"
  shows "put_sequence w literals offset n = put w (seq_bytes (literals, offset, n))"
proof -
  have e: "checked_sub n 4 = Some (n - 4)" using assms(2) by simp
  have o: "u16_try_from offset = Some (of_nat offset)" using assms(3) by (simp add: u16_try_from_def)
  have "put_sequence w literals offset n =
      put w ([push_bit 4 (of_nat (min (length literals) 15)) OR of_nat (min (n - 4) 15)] @ run_bytes (length literals) @ literals @
        le16_bytes (of_nat offset) @ run_bytes (n - 4))"
    unfolding put_sequence_def put_byte_put [OF assms(1)] e Option.bind.simps(2) o
    by (intro put_then assms(1)) (simp add: put_run put_bytes_put put_then)
  then show ?thesis by (simp add: seq_bytes_def)
qed

section \<open>What the compressor writes\<close>

lemma take_between: "a \<le> b \<Longrightarrow> take a xs @ take (b - a) (drop a xs) = take b xs"
  by (metis le_add_diff_inverse take_add)

text \<open>
  A match as the loop takes it, with the sequence it writes.
\<close>

lemma match_sequence:
  assumes "find_match source anchor position candidate = Some (start, origin, found)" "length source < 2 ^ 16" "12 < length source"
    and "read_u32 source position = Some v" "read_u32 source candidate = Some v" "candidate < position" "position \<le> length source - 12"
    and "anchor \<le> position" "literals = take (start - anchor) (drop anchor source)"
  shows "anchor + length literals = start" "lz_copy (take anchor source @ literals) (start - origin) found = take (start + found) source"
    "0 < start - origin" "start - origin < 65536" "start - origin \<le> start" "4 \<le> found" "start + 12 \<le> length source"
    "start + found + 5 \<le> length source" "origin \<le> start" "anchor \<le> start"
proof -
  note m = find_match_spec [OF assms(1) _ assms(4,5,6)]
  have f: "origin < start" "start - origin = position - candidate" "start \<le> position" "anchor \<le> start" "start + found + 5 \<le> length source"
    "4 \<le> found" "repeats source (start - origin) start (start + found)"
    using m assms(2,3,7,8) by simp_all
  have "take anchor source @ literals = take start source" using take_between [OF f(4)] assms(9) by simp
  then show "lz_copy (take anchor source @ literals) (start - origin) found = take (start + found) source"
    using lz_copy_repeats [OF f(7)] f(1) by simp
  show "anchor + length literals = start" "0 < start - origin" "start - origin < 65536" "start - origin \<le> start" "4 \<le> found"
    "start + 12 \<le> length source" "start + found + 5 \<le> length source" "origin \<le> start" "anchor \<le> start"
    using f assms(2,3,7,9) by auto
qed

lemma compress_loop_writes:
  assumes "compress_loop source table w anchor position misses = Some (w', table', anchor')" "length source < 2 ^ 16" "12 < length source"
    and "anchor \<le> position" "anchor \<le> length source" "small w" "filled w \<le> length (buffer w)"
  shows "\<exists>seqs. put w (concat (map seq_bytes seqs)) = Some w' \<and> expand (take anchor source) seqs = take anchor' source \<and>
    valid (length source) anchor seqs \<and> anchor' \<le> length source"
  using assms
proof (induction source table w anchor position misses rule: compress_loop.induct)
  case (1 source table w anchor position misses)
  show ?case
  proof (cases "position \<le> length source - 12")
    case False
    then have "w' = w" "anchor' = anchor" using 1(3) by (auto simp: compress_loop.simps [of source table w])
    then show ?thesis using 1(7,9) by (intro exI [of _ "[]"]) (simp add: put_Nil)
  next
    case True
    obtain seq slot mark where a: "read_u32 source position = Some seq" "get_at table (lz4_hash seq) = Some slot" "u16_try_from position = Some mark"
      using 1(3) True by (auto simp: compress_loop.simps [of source table w] bind_eq_Some_conv Let_def)
    let ?t = "table[lz4_hash seq := mark]"
    show ?thesis
    proof (cases "unat slot < position \<and> position - unat slot \<le> 65535 \<and> read_u32 source (unat slot) = Some seq")
      case hit: True
      obtain start origin found w1 t2 where b: "find_match source anchor position (unat slot) = Some (start, origin, found)"
        "get_range source anchor start = Some (take (start - anchor) (drop anchor source))" "checked_sub start origin = Some (start - origin)"
        "put_sequence w (take (start - anchor) (drop anchor source)) (start - origin) found = Some w1" "checked_add start found = Some (start + found)"
        "index_back source ?t (start + found) = Some t2" "compress_loop source t2 w1 (start + found) (start + found) 0 = Some (w', table', anchor')"
        using 1(3) True a hit by (auto simp: compress_loop.simps [of source table w] bind_eq_Some_conv Let_def split: if_split_asm)
      have cand: "read_u32 source (unat slot) = Some seq" "unat slot < position" using hit by simp_all
      note m' = match_sequence [OF b(1) 1(4,5) a(1) cand True 1(6) refl]
      let ?ls = "take (start - anchor) (drop anchor source)"
      let ?q = "(?ls, start - origin, found)"
      have p: "put w (seq_bytes ?q) = Some w1" using b(4) put_sequence_put [OF 1(8) m'(6,4)] by simp
      obtain seqs where seqs: "put w1 (concat (map seq_bytes seqs)) = Some w'" "expand (take (start + found) source) seqs = take anchor' source"
        "valid (length source) (start + found) seqs" "anchor' \<le> length source"
        using 1(1) [OF True a refl refl hit b(1) refl refl b(2-6) b(7) 1(4,5)] put_facts [OF p] m' 1(8) by auto
      have "put w (concat (map seq_bytes (?q # seqs))) = Some w'"
        using put_append [of w "seq_bytes ?q" "concat (map seq_bytes seqs)"] p seqs(1) by simp
      then show ?thesis using seqs m' by (intro exI [of _ "?q # seqs"]) simp
    next
      case miss: False
      let ?m = "min (misses + 1) (2 ^ 32 - 1)"
      let ?p = "position + saturating_add 1 (drop_bit 6 ?m)"
      have b: "checked_add position (saturating_add 1 (drop_bit 6 ?m)) = Some ?p" "compress_loop source ?t w anchor ?p ?m = Some (w', table', anchor')"
        using 1(3) True a miss by (auto simp: compress_loop.simps [of source table w] bind_eq_Some_conv Let_def split: if_split_asm)
      show ?thesis by (rule 1(2) [OF True a refl refl miss refl b(1,2) 1(4,5)]) (use 1(6-9) in simp_all)
    qed
  qed
qed

lemma lz4_compress_block:
  assumes "lz4_compress source dst table = Some (n, packed, table')" "length dst < 2 ^ 63"
  shows "n \<le> length packed" "length packed = length dst" "lz4_block (length source) (take n packed) source"
proof -
  let ?w = "\<lparr>buffer = dst, filled = 0\<rparr>"
  have sm: "small ?w" using assms(2) by (simp add: small_def)
  have len: "length source < 2 ^ 16" using assms(1) by (auto simp: lz4_compress_def split: if_split_asm)
  obtain seqs rest w where w: "put ?w (block_bytes seqs 0 rest) = Some w" "valid (length source) 0 seqs" "expand [] seqs @ rest = source"
    "n = filled w" "packed = buffer w"
  proof (cases "length source \<le> 12")
    case True
    then show thesis
      using that [of "[]" source] assms(1) put_last_put [OF sm]
      by (auto simp: lz4_compress_def block_bytes_def bind_eq_Some_conv split: if_split_asm)
  next
    case False
    obtain w1 table1 anchor w2 where c: "compress_loop source (replicate 4096 0 @ drop 4096 table) ?w 0 0 0 = Some (w1, table1, anchor)"
      "anchor \<le> length source" "put_last w1 (drop anchor source) = Some w2" "n = filled w2" "packed = buffer w2"
      using assms(1) False by (auto simp: lz4_compress_def bind_eq_Some_conv split: if_split_asm)
    obtain seqs where s: "put ?w (concat (map seq_bytes seqs)) = Some w1" "expand [] seqs = take anchor source" "valid (length source) 0 seqs"
      using compress_loop_writes [OF c(1) len] False sm by auto
    have "put ?w (block_bytes seqs 0 (drop anchor source)) = Some w2"
      using put_append [of ?w "concat (map seq_bytes seqs)" "last_bytes 0 (drop anchor source)"] s(1) c(3) put_last_put [of w1] put_facts(4) [OF s(1)] sm
      by (simp add: block_bytes_def)
    then show thesis using that [of seqs "drop anchor source" w2] s c by simp
  qed
  note f = put_facts [OF w(1)]
  show "n \<le> length packed" "length packed = length dst" using f w(4,5) by simp_all
  have "take n packed = block_bytes seqs 0 rest" using f w(4,5) by simp
  then show "lz4_block (length source) (take n packed) source"
    unfolding lz4_block_def using w(2,3) by (intro exI [of _ seqs] exI [of _ 0] exI [of _ rest]) simp
qed

section \<open>The bound\<close>

lemma length_run_bytes: "length (run_bytes n) \<le> 1 + n div 255"
  using div_le_mono [of "n - 15" n 255] by (simp add: run_bytes_def length_ext_bytes)

lemma length_match_run: "4 \<le> n \<Longrightarrow> length (run_bytes (n - 4)) + 4 \<le> n"
proof (cases "n - 4 \<ge> 15")
  case True
  have "(n - 4 - 15) div 255 \<le> n - 4 - 15" by (rule div_le_dividend)
  then show ?thesis using True by (simp add: run_bytes_def length_ext_bytes)
qed (simp add: run_bytes_def)

lemma length_seq_bytes: "4 \<le> n \<Longrightarrow> length (seq_bytes (ls, offset, n)) \<le> length ls + n + length ls div 255"
  using length_run_bytes [of "length ls"] length_match_run [of n] by (simp add: seq_bytes_def)

lemma div_add_le: "a div 255 + b div 255 \<le> (a + b) div (255 :: nat)"
  by (metis div_add1_eq le_add1)

lemma lz4_hash_less: "lz4_hash v < 4096"
proof -
  have "(4095 :: u32) = mask 12" by (simp add: mask_eq_exp_minus_1)
  then have "drop_bit 20 (v * 2654435761) AND 4095 = take_bit 12 (drop_bit 20 (v * 2654435761))" by (simp add: take_bit_eq_mask)
  then show ?thesis using take_bit_nat_less_exp [of 12] by (simp add: lz4_hash_def unsigned_take_bit_eq)
qed

lemma index_back_Some:
  assumes "length source < 2 ^ 16"
  shows "\<exists>table'. index_back source table position = Some table' \<and> length table' = length table"
proof -
  have "u16_try_from i = Some (of_nat i)" if "i \<le> length source - 12" for i using that assms by (simp add: u16_try_from_def)
  then show ?thesis by (auto simp: index_back_def checked_sub_def split: option.split)
qed

lemma find_match_Some:
  assumes "read_u32 source position = Some v" "candidate < position"
  shows "\<exists>start origin found. find_match source anchor position candidate = Some (start, origin, found)"
proof -
  have "s \<le> a \<and> q \<le> b" if "extend_back source anchor a b = (s, q)" for a b s q
    using that
  proof (induction source anchor a b rule: extend_back.induct)
    case (1 source anchor a b)
    then show ?case by (subst (asm) (2) extend_back.simps) (force split: if_split_asm)
  qed
  moreover obtain s q where "extend_back source anchor position candidate = (s, q)" by fastforce
  ultimately show ?thesis using assms by (fastforce simp: find_match_def checked_add_def read_u32_Some)
qed

lemma compress_loop_turn:
  assumes "position \<le> length source - 12" "read_u32 source position = Some seq" "get_at table (lz4_hash seq) = Some slot"
    and "u16_try_from position = Some mark"
  shows "unat slot < position \<and> position - unat slot \<le> 65535 \<and> read_u32 source (unat slot) = Some seq \<Longrightarrow>
      find_match source anchor position (unat slot) = Some (start, origin, found) \<Longrightarrow> get_range source anchor start = Some ls \<Longrightarrow>
      checked_sub start origin = Some offset \<Longrightarrow> put_sequence w ls offset found = Some w1 \<Longrightarrow> checked_add start found = Some p1 \<Longrightarrow>
      index_back source (table[lz4_hash seq := mark]) p1 = Some t2 \<Longrightarrow>
      compress_loop source table w anchor position misses = compress_loop source t2 w1 p1 p1 0"
    and "\<not> (unat slot < position \<and> position - unat slot \<le> 65535 \<and> read_u32 source (unat slot) = Some seq) \<Longrightarrow>
      checked_add position (saturating_add 1 (drop_bit 6 (min (misses + 1) (2 ^ 32 - 1)))) = Some p2 \<Longrightarrow>
      compress_loop source table w anchor position misses =
        compress_loop source (table[lz4_hash seq := mark]) w anchor p2 (min (misses + 1) (2 ^ 32 - 1))"
  by (simp_all only: compress_loop.simps [of source table w anchor position misses] assms if_True if_False Option.bind.simps Let_def prod.case simp_thms)

lemma compress_loop_fits:
  assumes "length source < 2 ^ 16" "12 < length source" "anchor \<le> position" "anchor \<le> length source" "small w" "4096 \<le> length table"
    and "filled w \<le> anchor + anchor div 255" "length source + length source div 255 \<le> length (buffer w)"
  shows "\<exists>w' table' anchor'. compress_loop source table w anchor position misses = Some (w', table', anchor') \<and> anchor' \<le> length source \<and>
    filled w' \<le> anchor' + anchor' div 255 \<and> length (buffer w') = length (buffer w)"
  using assms
proof (induction source table w anchor position misses rule: compress_loop.induct)
  case (1 source table w anchor position misses)
  show ?case
  proof (cases "position \<le> length source - 12")
    case False
    then show ?thesis using 1(6,9) by (simp add: compress_loop.simps [of source table w])
  next
    case True
    have "\<exists>seq. read_u32 source position = Some seq" using True 1(3,4) by (auto simp: read_u32_Some)
    then obtain seq where seq: "read_u32 source position = Some seq" by blast
    have slot: "get_at table (lz4_hash seq) = Some (table ! lz4_hash seq)" using 1(8) lz4_hash_less [of seq] by simp
    have mark: "u16_try_from position = Some (of_nat position)" using True 1(3) by (simp add: u16_try_from_def)
    let ?slot = "table ! lz4_hash seq" and ?t = "table[lz4_hash seq := of_nat position]"
    show ?thesis
    proof (cases "unat ?slot < position \<and> position - unat ?slot \<le> 65535 \<and> read_u32 source (unat ?slot) = Some seq")
      case hit: True
      obtain start origin found where f: "find_match source anchor position (unat ?slot) = Some (start, origin, found)"
        using find_match_Some [OF seq] hit by blast
      let ?ls = "take (start - anchor) (drop anchor source)"
      have cand: "read_u32 source (unat ?slot) = Some seq" "unat ?slot < position" using hit by simp_all
      note m' = match_sequence(1,4,6,8,9,10) [OF f 1(3,4) seq cand True 1(5) refl]
      have g: "get_range source anchor start = Some ?ls" "checked_sub start origin = Some (start - origin)" "checked_add start found = Some (start + found)"
        using m' 1(3) by simp_all
      have ls: "length ?ls = start - anchor" using m'(4) by simp
      have bound: "filled w + length (seq_bytes (?ls, start - origin, found)) \<le> start + found + (start + found) div 255"
        using length_seq_bytes [OF m'(3), of ?ls "start - origin"] div_add_le [of anchor "length ?ls"] div_le_mono [of start "start + found" 255]
          m'(1) 1(9) by linarith
      also have "\<dots> \<le> length source + length source div 255" using m'(4) div_le_mono [of "start + found" "length source" 255] by simp
      finally have fits: "filled w + length (seq_bytes (?ls, start - origin, found)) \<le> length (buffer w)" using 1(10) by simp
      then obtain w1 where w1: "put w (seq_bytes (?ls, start - origin, found)) = Some w1" by (simp add: put_def)
      then have ps: "put_sequence w ?ls (start - origin) found = Some w1" using put_sequence_put [OF 1(7) m'(3,2)] by simp
      obtain t2 where t2: "index_back source ?t (start + found) = Some t2" "length t2 = length ?t" using index_back_Some [OF 1(3)] by blast
      have "\<exists>w' table' anchor'. compress_loop source t2 w1 (start + found) (start + found) 0 = Some (w', table', anchor') \<and> anchor' \<le> length source \<and>
          filled w' \<le> anchor' + anchor' div 255 \<and> length (buffer w') = length (buffer w1)"
        by (rule 1(1) [OF True seq slot mark refl refl hit f refl refl g(1,2) ps g(3) t2(1) 1(3,4)])
          (use put_facts [OF w1] 1(7,8,10) m' t2(2) bound in simp_all)
      then show ?thesis
        using compress_loop_turn(1) [OF True seq slot mark hit f g(1,2) ps g(3) t2(1), of misses] put_facts(2) [OF w1] by simp
    next
      case miss: False
      let ?m = "min (misses + 1) (2 ^ 32 - 1)"
      let ?p = "position + saturating_add 1 (drop_bit 6 ?m)"
      have "drop_bit 6 ?m \<le> ?m" by (simp add: drop_bit_eq_div)
      moreover have "?m < 2 ^ 32" by simp
      ultimately have "drop_bit 6 ?m < 2 ^ 32" by linarith
      then have p: "checked_add position (saturating_add 1 (drop_bit 6 ?m)) = Some ?p" using True 1(3) by (simp add: saturating_add_def)
      have "\<exists>w' table' anchor'. compress_loop source ?t w anchor ?p ?m = Some (w', table', anchor') \<and> anchor' \<le> length source \<and>
          filled w' \<le> anchor' + anchor' div 255 \<and> length (buffer w') = length (buffer w)"
        by (rule 1(2) [OF True seq slot mark refl refl miss refl p 1(3,4)]) (use 1(5-10) in simp_all)
      then show ?thesis using compress_loop_turn(2) [OF True seq slot mark miss p] by simp
    qed
  qed
qed

lemma lz4_compress_Some:
  assumes "length source \<le> 65535" "4096 \<le> length table" "lz4_bound (length source) \<le> length dst" "length dst < 2 ^ 63"
  shows "\<exists>n packed table'. lz4_compress source dst table = Some (n, packed, table') \<and> n \<le> lz4_bound (length source)"
proof -
  let ?N = "length source" and ?w = "\<lparr>buffer = dst, filled = 0\<rparr>"
  have sm: "small ?w" using assms(4) by (simp add: small_def)
  have "?N div 255 \<le> 257" using div_le_mono [OF assms(1), of 255] by simp
  then have bound: "lz4_bound ?N = ?N + ?N div 255 + 16" using assms(1) by (simp add: lz4_bound_def saturating_add_def)
  have last: "length (last_bytes 0 xs) \<le> length xs + length xs div 255 + 2" for xs
    using length_run_bytes [of "length xs"] by (simp add: last_bytes_def)
  show ?thesis
  proof (cases "?N \<le> 12")
    case True
    have fits: "length (last_bytes 0 source) \<le> lz4_bound ?N" using last [of source] bound by simp
    then obtain w where w: "put ?w (last_bytes 0 source) = Some w" using assms(3) by (simp add: put_def)
    then show ?thesis
      using True assms(1,2) put_last_put [OF sm] put_facts(1) [OF w] fits by (simp add: lz4_compress_def)
  next
    case False
    let ?t = "replicate 4096 0 @ drop 4096 table"
    obtain w1 t1 a where c: "compress_loop source ?t ?w 0 0 0 = Some (w1, t1, a)" "a \<le> ?N" "filled w1 \<le> a + a div 255" "length (buffer w1) = length dst"
      using compress_loop_fits [of source 0 0 ?w ?t 0] False sm assms bound by auto
    have fits: "filled w1 + length (last_bytes 0 (drop a source)) \<le> lz4_bound ?N"
      using last [of "drop a source"] c(2,3) div_add_le [of a "?N - a"] bound unfolding length_drop le_add_diff_inverse [OF c(2)] by linarith
    then obtain w2 where w2: "put w1 (last_bytes 0 (drop a source)) = Some w2" using assms(3) c(4) by (simp add: put_def)
    have sm1: "small w1" using sm c(4) by (simp add: small_def)
    have "lz4_compress source dst table = Some (filled w2, buffer w2, t1)"
      using False assms(1,2) c w2 put_last_put [OF sm1, of "drop a source"] by (simp add: lz4_compress_def get_range_def)
    then show ?thesis using put_facts(1) [OF w2] fits by simp
  qed
qed

lemma lz4_decompress_iff:
  assumes "length input < 2 ^ 63" "length dst < 2 ^ 63"
  shows "lz4_decompress input dst = Inr content \<longleftrightarrow> lz4_block (length dst) input content"
proof (cases "dst = []")
  case True
  have "lz4_block 0 input content \<longleftrightarrow> input = [0] \<and> content = []"
  proof
    assume "lz4_block 0 input content"
    then obtain seqs rest where b: "input = block_bytes seqs 0 rest" "valid 0 0 seqs" "content = expand [] seqs @ rest" "content = []"
      by (auto simp: lz4_block_def)
    have "seqs = []" using b(2) by (cases seqs) auto
    then show "input = [0] \<and> content = []" using b by (simp add: block_bytes_def last_bytes_def run_bytes_def)
  next
    assume "input = [0] \<and> content = []"
    then show "lz4_block 0 input content"
      unfolding lz4_block_def by (intro exI [of _ "[]"] exI [of _ 0] exI [of _ "[]"]) (simp add: block_bytes_def last_bytes_def run_bytes_def)
  qed
  then show ?thesis using True by (auto simp: lz4_decompress_def)
next
  case False
  show ?thesis
  proof
    assume "lz4_decompress input dst = Inr content"
    then have "decompress_loop input dst 0 0 = Inr content" using False by (simp add: lz4_decompress_def split: if_split_asm)
    then show "lz4_block (length dst) input content"
      using decompress_loop_parse [of input dst 0 0 content] assms(2) False unfolding lz4_block_def by simp
  next
    assume "lz4_block (length dst) input content"
    then obtain seqs low rest where b: "input = block_bytes seqs low rest" "low \<le> 15" "valid (length dst) 0 seqs"
      "content = expand [] seqs @ rest" "length content = length dst" by (auto simp: lz4_block_def)
    have "input \<noteq> []" using b(1) by (simp add: block_bytes_def last_bytes_def)
    moreover have "decompress_loop input dst 0 0 = Inr content"
      using decompress_loop_read [of 0 input seqs low rest 0 dst] b assms by simp
    ultimately show "lz4_decompress input dst = Inr content" using False by (simp add: lz4_decompress_def)
  qed
qed

section \<open>Properties\<close>

text \<open>
  C4: What the compressor returns decompresses to its input: for every input, every output buffer and every state of the hash table
  with which compression succeeds, decompressing the bytes written into a buffer of the input's length gives the input.
\<close>

theorem lz4_roundtrip:
  assumes "lz4_compress source dst table = Some (n, packed, table')" "length dst < 2 ^ 63" "length target = length source"
  shows "lz4_decompress (take n packed) target = Inr source"
proof -
  note c = lz4_compress_block [OF assms(1,2)]
  have "length source < 2 ^ 16" using assms(1) by (auto simp: lz4_compress_def split: if_split_asm)
  then show ?thesis
    using lz4_decompress_iff [of "take n packed" target source] c assms(2,3) by simp
qed

theorem lz4_roundtrip_witness:
  "\<exists>n packed table'. lz4_compress (replicate 4096 7) (replicate 4128 0) (replicate 4096 0) = Some (n, packed, table') \<and>
     lz4_decompress (take n packed) (replicate 4096 0) = Inr (replicate 4096 7)"
proof -
  obtain n packed table' where c: "lz4_compress (replicate 4096 7) (replicate 4128 0) (replicate 4096 0) = Some (n, packed, table')"
    using lz4_compress_Some [of "replicate 4096 7" "replicate 4096 0" "replicate 4128 0"] by (auto simp: lz4_bound_def saturating_add_def)
  then show ?thesis using lz4_roundtrip [OF c, of "replicate 4096 0"] by simp
qed

text \<open>
  C28: Compression never fails for lack of room in a buffer of \<open>lz4_bound\<close> bytes, and writes no more than that.
\<close>

theorem lz4_compress_bounded:
  assumes "length source \<le> 65535" "4096 \<le> length table" "lz4_bound (length source) \<le> length dst" "length dst < 2 ^ 63"
  shows "\<exists>n packed table'. lz4_compress source dst table = Some (n, packed, table') \<and> n \<le> lz4_bound (length source) \<and> length packed = length dst"
  using lz4_compress_Some [OF assms] lz4_compress_block(2) [OF _ assms(4)] by blast

theorem lz4_compress_bounded_witness:
  "\<exists>n packed table'. lz4_compress [1, 2, 3] (replicate 19 0) (replicate 4096 0) = Some (n, packed, table') \<and> n \<le> 19"
  using lz4_compress_bounded [of "[1, 2, 3]" "replicate 4096 0" "replicate 19 0"] by (auto simp: lz4_bound_def saturating_add_def)

text \<open>
  C13: The decompressor accepts exactly the valid blocks for the size of its output and gives the bytes they stand for; any other
  input, however malformed, ends with an error.
\<close>

theorem lz4_decompress_exact:
  assumes "length input < 2 ^ 63" "length dst < 2 ^ 63"
  shows "lz4_decompress input dst = Inr content \<longleftrightarrow> lz4_block (length dst) input content"
  by (rule lz4_decompress_iff [OF assms])

theorem lz4_decompress_exact_witness:
  "lz4_decompress [0x13, 7, 1, 0, 0x50, 1, 2, 3, 4, 5] (replicate 13 0) = Inr [7, 7, 7, 7, 7, 7, 7, 7, 1, 2, 3, 4, 5] \<and>
   lz4_decompress [0x13, 7, 0, 0, 0x50, 1, 2, 3, 4, 5] (replicate 13 0) \<noteq> Inr [7, 7, 7, 7, 7, 7, 7, 7, 1, 2, 3, 4, 5]"
proof -
  let ?good = "[0x13, 7, 1, 0, 0x50, 1, 2, 3, 4, 5] :: u8 list" and ?bad = "[0x13, 7, 0, 0, 0x50, 1, 2, 3, 4, 5] :: u8 list"
  let ?content = "[7, 7, 7, 7, 7, 7, 7, 7, 1, 2, 3, 4, 5] :: u8 list"
  have b: "?good = block_bytes [([7], 1, 7)] 0 [1, 2, 3, 4, 5]"
    by (simp add: block_bytes_def seq_bytes_def last_bytes_def run_bytes_def le16_bytes_def)
  have e: "?content = expand [] [([7], 1, 7)] @ [1, 2, 3, 4, 5]" by (simp add: eval_nat_numeral)
  have "lz4_block 13 ?good ?content"
    unfolding lz4_block_def b e by (intro exI [of _ "[([7], 1, 7)]"] exI [of _ 0] exI [of _ "[1, 2, 3, 4, 5]"]) simp
  then have good: "lz4_decompress ?good (replicate 13 0) = Inr ?content"
    using lz4_decompress_exact [of ?good "replicate 13 0" ?content] by simp
  have "lz4_decompress ?bad (replicate 13 0) = Inl Malformed"
    by (simp add: lz4_decompress_def decompress_loop.simps decode_step_def decode_literals_def decode_match_def get_at_def get_range_def
        checked_add_def ok_or_def le16_def Let_def)
  with good show ?thesis by simp
qed

end
