(* ===== verification/Zram.thy ===== *)
theory Zram
  imports Lz4_Contract
begin

text \<open>
  The compressed memory disk of \<^verbatim>\<open>kernel/drivers/storage/zram.c\<close>: its slots, the block operations, and the attributes of
  \<^verbatim>\<open>/sys\<close> that set its size and its limit and show its statistics. The memory of the slots is an explicit store from addresses to byte
  arrays; \<open>alloc\<close> is \<^verbatim>\<open>kmalloc\<close>, which gives an address or fails. Each operation runs under \<^verbatim>\<open>zram_lock\<close> and is one step. The static
  buffers \<^verbatim>\<open>packed\<close>, \<^verbatim>\<open>hash_table\<close> and \<^verbatim>\<open>scratch\<close> are written before they are read, so that their contents between operations
  are not part of the state.
\<close>

section \<open>The model\<close>

abbreviation (input) ZRAM_PAGE :: nat where "ZRAM_PAGE \<equiv> 4096"
abbreviation (input) ZRAM_SECTORS :: nat where "ZRAM_SECTORS \<equiv> 8"
abbreviation (input) BLOCK_SECTOR_SIZE :: nat where "BLOCK_SECTOR_SIZE \<equiv> 512"
abbreviation (input) ZRAM_HUGE :: nat where "ZRAM_HUGE \<equiv> 3072"
abbreviation (input) ZRAM_HEADER :: u64 where "ZRAM_HEADER \<equiv> 48"
abbreviation (input) ZRAM_MAJOR :: u64 where "ZRAM_MAJOR \<equiv> 252"

datatype zram_kind = ZRAM_EMPTY | ZRAM_SAME | ZRAM_PACKED | ZRAM_RAW

record zram_slot =
  slot_value :: u64
  slot_size :: u32
  slot_kind :: zram_kind

text \<open>
  \<open>z_blobs\<close> is the memory the slots point to; \<open>z_sectors\<close> and \<open>z_length\<close> are the size published to the block layer and on the
  device node.
\<close>

record zram =
  z_slots :: "zram_slot list option"
  z_blobs :: "u64 \<Rightarrow> u8 list option"
  z_page_count :: u64
  z_disk_bytes :: u64
  z_stored_pages :: u64
  z_compressed_bytes :: u64
  z_memory_used :: u64
  z_memory_used_max :: u64
  z_memory_limit :: u64
  z_same_pages :: u64
  z_huge_pages :: u64
  z_huge_pages_since :: u64
  z_failed_reads :: u64
  z_failed_writes :: u64
  z_invalid_io :: u64
  z_freed_notices :: u64
  z_sectors :: u64
  z_length :: u64

type_synonym zram_alloc = "(u64 \<Rightarrow> u8 list option) \<Rightarrow> nat \<Rightarrow> u64 option"

definition zram_start :: zram where
  "zram_start =
     \<lparr>z_slots = None, z_blobs = (\<lambda>_. None), z_page_count = 0, z_disk_bytes = 0, z_stored_pages = 0, z_compressed_bytes = 0, z_memory_used = 0,
      z_memory_used_max = 0, z_memory_limit = 0, z_same_pages = 0, z_huge_pages = 0, z_huge_pages_since = 0, z_failed_reads = 0,
      z_failed_writes = 0, z_invalid_io = 0, z_freed_notices = 0, z_sectors = 0, z_length = 0\<rparr>"

definition charge :: "u32 \<Rightarrow> u64" where
  "charge sz = ucast sz + ZRAM_HEADER"

definition empty_slot :: zram_slot where
  "empty_slot = \<lparr>slot_value = 0, slot_size = 0, slot_kind = ZRAM_EMPTY\<rparr>"

definition the_slots :: "zram \<Rightarrow> zram_slot list" where
  "the_slots z = (case z_slots z of None \<Rightarrow> [] | Some ss \<Rightarrow> ss)"

definition set_slot :: "zram \<Rightarrow> nat \<Rightarrow> zram_slot \<Rightarrow> zram" where
  "set_slot z page s = z\<lparr>z_slots := map_option (\<lambda>ss. ss[page := s]) (z_slots z)\<rparr>"

definition holds_blob :: "zram_slot \<Rightarrow> bool" where
  "holds_blob s \<longleftrightarrow> slot_kind s = ZRAM_PACKED \<or> slot_kind s = ZRAM_RAW"

definition slot_clear :: "zram \<Rightarrow> nat \<Rightarrow> zram" where
  "slot_clear z page =
     (let slot = the_slots z ! page;
          z1 = (if holds_blob slot
                then z\<lparr>z_blobs := (z_blobs z)(slot_value slot := None), z_memory_used := z_memory_used z - charge (slot_size slot),
                       z_compressed_bytes := z_compressed_bytes z - ucast (slot_size slot),
                       z_huge_pages := (if slot_kind slot = ZRAM_RAW then z_huge_pages z - 1 else z_huge_pages z)\<rparr>
                else z);
          z2 = (if slot_kind slot = ZRAM_SAME then z1\<lparr>z_same_pages := z_same_pages z1 - 1\<rparr> else z1);
          z3 = (if slot_kind slot \<noteq> ZRAM_EMPTY then z2\<lparr>z_stored_pages := z_stored_pages z2 - 1\<rparr> else z2)
      in set_slot z3 page empty_slot)"

text \<open>
  A page as an array of 64-bit words.
\<close>

definition page_word :: "u8 list \<Rightarrow> nat \<Rightarrow> u64" where
  "page_word page i = le64 (take 8 (drop (8 * i) page))"

definition same_filled :: "u8 list \<Rightarrow> u64 option" where
  "same_filled page =
     (if list_all (\<lambda>i. page_word page i = page_word page 0) [1..<ZRAM_PAGE div 8] then Some (page_word page 0) else None)"

text \<open>
  What is to be stored of a page that is not filled with one word: its compressed form, or the page when that is too large.
\<close>

definition pack_page :: "u8 list \<Rightarrow> zram_kind \<times> u8 list" where
  "pack_page data =
     (case tunix_lz4_compress (Some data) (Some (replicate 4128 0)) (Some (replicate TABLE_ENTRIES 0)) of
        (n, packed, _) \<Rightarrow>
          if n = 0 \<or> n > ZRAM_HUGE then (ZRAM_RAW, data) else (ZRAM_PACKED, take n (case packed of None \<Rightarrow> [] | Some bs \<Rightarrow> bs)))"

definition slot_store :: "zram_alloc \<Rightarrow> zram \<Rightarrow> nat \<Rightarrow> u8 list \<Rightarrow> errno option \<times> zram" where
  "slot_store alloc z page data =
     (case same_filled data of
        Some pattern \<Rightarrow>
          let z1 = slot_clear z page;
              z2 = set_slot z1 page \<lparr>slot_value = pattern, slot_size = 0, slot_kind = ZRAM_SAME\<rparr>
          in (None, z2\<lparr>z_same_pages := z_same_pages z2 + 1, z_stored_pages := z_stored_pages z2 + 1\<rparr>)
      | None \<Rightarrow>
          (case pack_page data of
             (kind, source) \<Rightarrow>
               let slot = the_slots z ! page;
                   n = of_nat (length source) :: u32;
                   old_charge = (if holds_blob slot then charge (slot_size slot) else 0)
               in if z_memory_limit z \<noteq> 0 \<and> z_memory_used z - old_charge + charge n > z_memory_limit z then (Some ENOSPC, z)
                  else
                    (case alloc (z_blobs z) (length source) of
                       None \<Rightarrow> (Some ENOMEM, z)
                     | Some blob \<Rightarrow>
                         let z1 = slot_clear (z\<lparr>z_blobs := (z_blobs z)(blob := Some source)\<rparr>) page;
                             z2 = set_slot z1 page \<lparr>slot_value = blob, slot_size = n, slot_kind = kind\<rparr>;
                             used = z_memory_used z2 + charge n;
                             z3 = z2\<lparr>z_stored_pages := z_stored_pages z2 + 1, z_compressed_bytes := z_compressed_bytes z2 + ucast n,
                                     z_memory_used := used,
                                     z_memory_used_max := (if used > z_memory_used_max z2 then used else z_memory_used_max z2)\<rparr>
                         in (None, if kind = ZRAM_RAW
                                   then z3\<lparr>z_huge_pages := z_huge_pages z3 + 1, z_huge_pages_since := z_huge_pages_since z3 + 1\<rparr>
                                   else z3))))"

definition blob_at :: "zram \<Rightarrow> u64 \<Rightarrow> u8 list" where
  "blob_at z a = (case z_blobs z a of None \<Rightarrow> [] | Some bs \<Rightarrow> bs)"

definition slot_load :: "zram \<Rightarrow> nat \<Rightarrow> u8 list result" where
  "slot_load z page =
     (let slot = the_slots z ! page
      in case slot_kind slot of
           ZRAM_EMPTY \<Rightarrow> Inr (replicate ZRAM_PAGE 0)
         | ZRAM_SAME \<Rightarrow> Inr (concat (replicate (ZRAM_PAGE div 8) (le64_bytes (slot_value slot))))
         | ZRAM_RAW \<Rightarrow> Inr (take ZRAM_PAGE (blob_at z (slot_value slot)))
         | ZRAM_PACKED \<Rightarrow>
             (case tunix_lz4_decompress (Some (take (unat (slot_size slot)) (blob_at z (slot_value slot)))) (Some (replicate ZRAM_PAGE 0)) of
                (status, page) \<Rightarrow> if status = 0 then Inr (case page of None \<Rightarrow> [] | Some bs \<Rightarrow> bs) else Inl EIO))"

definition range_valid :: "zram \<Rightarrow> u64 \<Rightarrow> u32 \<Rightarrow> bool" where
  "range_valid z lba count \<longleftrightarrow>
     z_slots z \<noteq> None \<and> count \<noteq> 0 \<and> lba < z_page_count z * 8 \<and> ucast count \<le> z_page_count z * 8 - lba"

text \<open>
  The loops over the pages of a request. A valid range ends inside the disk, so that the sector numbers do not wrap; here they
  are numbers.
\<close>

function zram_read_loop :: "zram \<Rightarrow> nat \<Rightarrow> nat \<Rightarrow> u8 list \<Rightarrow> u8 list result \<times> zram" where
  "zram_read_loop z lba count dst =
     (if count = 0 then (Inr dst, z)
      else
        let page = lba div ZRAM_SECTORS;
            within = lba mod ZRAM_SECTORS;
            n = min (ZRAM_SECTORS - within) count
        in case slot_load z page of
             Inl _ \<Rightarrow> (Inl FAILED, z\<lparr>z_failed_reads := z_failed_reads z + 1\<rparr>)
           | Inr data \<Rightarrow>
               let piece = (if within = 0 \<and> n = ZRAM_SECTORS then data
                            else take (n * BLOCK_SECTOR_SIZE) (drop (within * BLOCK_SECTOR_SIZE) data))
               in zram_read_loop z (lba + n) (count - n) (dst @ piece))"
  by pat_completeness auto

termination by (relation "measure (\<lambda>(z, lba, count, dst). count)") (auto split: split_min)

declare zram_read_loop.simps [simp del]

definition zram_read :: "zram \<Rightarrow> u64 \<Rightarrow> u32 \<Rightarrow> u8 list result \<times> zram" where
  "zram_read z lba count =
     (if \<not> range_valid z lba count then (Inl FAILED, z\<lparr>z_invalid_io := z_invalid_io z + 1\<rparr>)
      else zram_read_loop z (unat lba) (unat count) [])"

function zram_write_loop :: "zram_alloc \<Rightarrow> zram \<Rightarrow> nat \<Rightarrow> nat \<Rightarrow> u8 list \<Rightarrow> unit result \<times> zram" where
  "zram_write_loop alloc z lba count src =
     (if count = 0 then (Inr (), z)
      else
        let page = lba div ZRAM_SECTORS;
            within = lba mod ZRAM_SECTORS;
            n = min (ZRAM_SECTORS - within) count;
            piece = take (n * BLOCK_SECTOR_SIZE) src;
            whole = (if within \<noteq> 0 \<or> n \<noteq> ZRAM_SECTORS
                     then (case slot_load z page of
                             Inl _ \<Rightarrow> None
                           | Inr old \<Rightarrow> Some (copy_into old (within * BLOCK_SECTOR_SIZE) piece))
                     else Some piece)
        in case whole of
             None \<Rightarrow> (Inl FAILED, z\<lparr>z_failed_writes := z_failed_writes z + 1\<rparr>)
           | Some data \<Rightarrow>
               (case slot_store alloc z page data of
                  (Some _, z1) \<Rightarrow> (Inl FAILED, z1\<lparr>z_failed_writes := z_failed_writes z1 + 1\<rparr>)
                | (None, z1) \<Rightarrow> zram_write_loop alloc z1 (lba + n) (count - n) (drop (n * BLOCK_SECTOR_SIZE) src)))"
  by pat_completeness auto

termination by (relation "measure (\<lambda>(alloc, z, lba, count, src). count)") (auto split: split_min)

declare zram_write_loop.simps [simp del]

definition zram_write :: "zram_alloc \<Rightarrow> zram \<Rightarrow> u64 \<Rightarrow> u32 \<Rightarrow> u8 list \<Rightarrow> unit result \<times> zram" where
  "zram_write alloc z lba count src =
     (if \<not> range_valid z lba count then (Inl FAILED, z\<lparr>z_invalid_io := z_invalid_io z + 1\<rparr>)
      else zram_write_loop alloc z (unat lba) (unat count) src)"

fun discard_pages :: "zram \<Rightarrow> nat list \<Rightarrow> zram" where
  "discard_pages z [] = z"
| "discard_pages z (page # pages) =
     (let z1 = (if slot_kind (the_slots z ! page) \<noteq> ZRAM_EMPTY then z\<lparr>z_freed_notices := z_freed_notices z + 1\<rparr> else z)
      in discard_pages (slot_clear z1 page) pages)"

definition zram_discard :: "zram \<Rightarrow> u64 \<Rightarrow> u32 \<Rightarrow> unit result \<times> zram" where
  "zram_discard z lba count =
     (if \<not> range_valid z lba count then (Inl FAILED, z)
      else
        let first = (lba + 8 - 1) div 8;
            stop = (lba + ucast count) div 8
        in (Inr (), discard_pages z [unat first..<unat stop]))"

section \<open>Attributes\<close>

definition ascii :: "string \<Rightarrow> u8 list" where
  "ascii s = map of_char s"

definition text_reply :: "u8 list \<Rightarrow> u64 \<Rightarrow> nat \<Rightarrow> u8 list" where
  "text_reply text offset n = (if unat offset \<ge> length text then [] else take n (drop (unat offset) text))"

text \<open>
  The digits of a number, most significant first, and the loops that append to a text of which the last byte stays free.
\<close>

fun digits_of :: "nat \<Rightarrow> u8 list" where
  "digits_of v = (if v < 10 then [48 + of_nat v] else digits_of (v div 10) @ [48 + of_nat (v mod 10)])"

declare digits_of.simps [simp del]

fun put_chars :: "u8 list \<Rightarrow> nat \<Rightarrow> u8 list \<Rightarrow> u8 list" where
  "put_chars text room [] = text"
| "put_chars text room (c # cs) = (if length text + 1 < room then put_chars (text @ [c]) room cs else text)"

definition put_number :: "u8 list \<Rightarrow> nat \<Rightarrow> u64 \<Rightarrow> u8 list" where
  "put_number text room value = put_chars text room (digits_of (unat value))"

definition put_text :: "u8 list \<Rightarrow> nat \<Rightarrow> string \<Rightarrow> u8 list" where
  "put_text text room s = put_chars text room (ascii s)"

fun put_values :: "u8 list \<Rightarrow> nat \<Rightarrow> u64 list \<Rightarrow> u8 list" where
  "put_values text room [] = text"
| "put_values text room [v] = put_number text room v"
| "put_values text room (v # vs) = put_values (put_text (put_number text room v) room '' '') room vs"

fun parse_digits :: "u64 \<Rightarrow> u8 list \<Rightarrow> (u64 \<times> u8 list) option" where
  "parse_digits value [] = Some (value, [])"
| "parse_digits value (c # cs) =
     (if 48 \<le> c \<and> c \<le> 57 then
        if value > (-1 - 9) div 10 then None else parse_digits (value * 10 + ucast (c - 48)) cs
      else Some (value, c # cs))"

definition size_suffix :: "u8 list \<Rightarrow> nat \<times> u8 list" where
  "size_suffix bs =
     (case bs of
        [] \<Rightarrow> (0, [])
      | c # cs \<Rightarrow>
          if [c] = ascii ''k'' \<or> [c] = ascii ''K'' then (10, cs)
          else if [c] = ascii ''m'' \<or> [c] = ascii ''M'' then (20, cs)
          else if [c] = ascii ''g'' \<or> [c] = ascii ''G'' then (30, cs)
          else if [c] = ascii ''t'' \<or> [c] = ascii ''T'' then (40, cs)
          else (0, bs))"

definition parse_size :: "u8 list \<Rightarrow> u64 option" where
  "parse_size input =
     (let text = dropWhile (\<lambda>c. c = 32 \<or> c = 9) input
      in case parse_digits 0 text of
           None \<Rightarrow> None
         | Some (value, rest) \<Rightarrow>
             if length rest = length text then None
             else
               (case size_suffix rest of
                  (shift, rest1) \<Rightarrow>
                    if dropWhile (\<lambda>c. c = 10 \<or> c = 32) rest1 \<noteq> [] then None
                    else if shift \<noteq> 0 \<and> value > drop_bit shift (-1) then None
                    else Some (push_bit shift value)))"

definition publish_size :: "zram \<Rightarrow> zram" where
  "publish_size z = z\<lparr>z_sectors := z_page_count z * 8, z_length := z_page_count z * 4096\<rparr>"

fun clear_pages :: "zram \<Rightarrow> nat list \<Rightarrow> zram" where
  "clear_pages z [] = z"
| "clear_pages z (page # pages) = clear_pages (slot_clear z page) pages"

definition release_all :: "zram \<Rightarrow> zram" where
  "release_all z =
     (let z1 = (if z_slots z \<noteq> None then clear_pages z [0..<unat (z_page_count z)] else z)
      in z1\<lparr>z_slots := None, z_page_count := 0, z_disk_bytes := 0, z_huge_pages_since := 0, z_memory_used_max := z_memory_used z1\<rparr>)"

datatype zram_attribute =
    ATTR_DISKSIZE | ATTR_INITSTATE | ATTR_RESET | ATTR_ALGORITHM | ATTR_STREAMS | ATTR_LIMIT | ATTR_USED_MAX | ATTR_MM_STAT
  | ATTR_IO_STAT | ATTR_COMPACT | ATTR_DEV | ATTR_SIZE | ATTR_UEVENT

definition attribute_text :: "zram \<Rightarrow> zram_attribute \<Rightarrow> u8 list option" where
  "attribute_text z which =
     (case which of
        ATTR_DISKSIZE \<Rightarrow> Some (put_number [] 256 (z_disk_bytes z))
      | ATTR_INITSTATE \<Rightarrow> Some (put_number [] 256 (if z_slots z \<noteq> None then 1 else 0))
      | ATTR_ALGORITHM \<Rightarrow> Some (put_text [] 256 ''[lz4]'')
      | ATTR_STREAMS \<Rightarrow> Some (put_number [] 256 1)
      | ATTR_LIMIT \<Rightarrow> Some (put_number [] 256 (z_memory_limit z))
      | ATTR_USED_MAX \<Rightarrow> Some (put_number [] 256 (z_memory_used_max z))
      | ATTR_MM_STAT \<Rightarrow>
          Some (put_values [] 256
            [z_stored_pages z * 4096, z_compressed_bytes z, z_memory_used z, z_memory_limit z, z_memory_used_max z, z_same_pages z, 0,
             z_huge_pages z, z_huge_pages_since z])
      | ATTR_IO_STAT \<Rightarrow> Some (put_values [] 256 [z_failed_reads z, z_failed_writes z, z_invalid_io z, z_freed_notices z])
      | ATTR_DEV \<Rightarrow> Some (put_text (put_number [] 256 ZRAM_MAJOR) 256 '':0'')
      | ATTR_SIZE \<Rightarrow> Some (put_number [] 256 (z_page_count z * 8))
      | ATTR_UEVENT \<Rightarrow>
          Some (put_text [] 256 (''MAJOR=252'' @ [CHR 0x0A] @ ''MINOR=0'' @ [CHR 0x0A] @ ''DEVNAME=zram0'' @ [CHR 0x0A] @ ''DEVTYPE=disk''))
      | ATTR_RESET \<Rightarrow> None
      | ATTR_COMPACT \<Rightarrow> None)"

definition attribute_read :: "zram \<Rightarrow> zram_attribute \<Rightarrow> u64 \<Rightarrow> nat \<Rightarrow> u8 list result" where
  "attribute_read z which offset n =
     (case attribute_text z which of
        None \<Rightarrow> Inl EINVAL
      | Some text \<Rightarrow> Inr (text_reply (put_text text 256 [CHR 0x0A]) offset n))"

text \<open>
  What the attributes ask of the rest of the kernel: the number of usable pages, whether the table of slots can be allocated, and
  whether the disk is in use for swapping.
\<close>

record zram_env =
  usable_pages :: u64
  table_room :: "u64 \<Rightarrow> bool"
  in_use :: bool

definition set_disksize :: "zram_env \<Rightarrow> zram \<Rightarrow> u8 list \<Rightarrow> nat result \<times> zram" where
  "set_disksize env z input =
     (case parse_size input of
        None \<Rightarrow> (Inl EINVAL, z)
      | Some value \<Rightarrow>
          let pages = value div 4096
          in if pages = 0 then (Inl EINVAL, z)
             else if pages > usable_pages env * 4 then (Inl ENOMEM, z)
             else if \<not> table_room env (pages * 16) then (Inl ENOMEM, z)
             else if z_slots z \<noteq> None then (Inl EBUSY, z)
             else (Inr (length input),
                   publish_size (z\<lparr>z_slots := Some (replicate (unat pages) empty_slot), z_page_count := pages, z_disk_bytes := pages * 4096\<rparr>)))"

definition set_algorithm :: "zram \<Rightarrow> u8 list \<Rightarrow> nat result" where
  "set_algorithm z input =
     (if rev (dropWhile (\<lambda>c. c = 10 \<or> c = 32) (rev input)) \<noteq> ascii ''lz4'' then Inl EINVAL
      else if z_slots z \<noteq> None then Inl EBUSY
      else Inr (length input))"

definition attribute_write :: "zram_env \<Rightarrow> zram \<Rightarrow> zram_attribute \<Rightarrow> u8 list \<Rightarrow> nat result \<times> zram" where
  "attribute_write env z which input =
     (case which of
        ATTR_DISKSIZE \<Rightarrow> set_disksize env z input
      | ATTR_RESET \<Rightarrow>
          (case parse_size input of
             None \<Rightarrow> (Inl EINVAL, z)
           | Some value \<Rightarrow>
               if value = 0 then (Inl EINVAL, z)
               else if in_use env then (Inl EBUSY, z)
               else (Inr (length input), publish_size (release_all z)))
      | ATTR_ALGORITHM \<Rightarrow> (set_algorithm z input, z)
      | ATTR_STREAMS \<Rightarrow> (Inr (length input), z)
      | ATTR_LIMIT \<Rightarrow>
          (case parse_size input of
             None \<Rightarrow> (Inl EINVAL, z)
           | Some value \<Rightarrow> (Inr (length input), z\<lparr>z_memory_limit := value\<rparr>))
      | ATTR_USED_MAX \<Rightarrow>
          (case parse_size input of
             None \<Rightarrow> (Inl EINVAL, z)
           | Some value \<Rightarrow> if value \<noteq> 0 then (Inl EINVAL, z) else (Inr (length input), z\<lparr>z_memory_used_max := z_memory_used z\<rparr>))
      | ATTR_COMPACT \<Rightarrow> (Inr (length input), z)
      | _ \<Rightarrow> (Inl EINVAL, z))"

end
