(* ===== verification/Zram_Disk.thy ===== *)
theory Zram_Disk
  imports Zram
begin

text \<open>
  The compressed memory disk is a disk: what is written is read back, whatever form the pages are kept in, and the statistics and the
  memory of the slots are exact.
\<close>

section \<open>Words and pages\<close>

text \<open>
  A list as the concatenation of equal pieces.
\<close>

lemma concat_pieces: "length xs = k * n \<Longrightarrow> concat (map (\<lambda>i. take k (drop (k * i) xs)) [0..<n]) = xs"
proof (induction n arbitrary: xs)
  case 0
  then show ?case by simp
next
  case (Suc n)
  have "concat (map (\<lambda>i. take k (drop (k * i) (take (k * n) xs))) [0..<n]) = take (k * n) xs" by (rule Suc.IH) (use Suc.prems in simp)
  moreover have "take k (drop (k * i) (take (k * n) xs)) = take k (drop (k * i) xs)" if "i < n" for i
  proof -
    have "k * i + k \<le> k * n" using that by (metis Suc_leI mult_Suc_right add.commute mult_le_mono2)
    then show ?thesis by (simp add: drop_take min_def)
  qed
  then have "map (\<lambda>i. take k (drop (k * i) (take (k * n) xs))) [0..<n] = map (\<lambda>i. take k (drop (k * i) xs)) [0..<n]" by simp
  ultimately have "concat (map (\<lambda>i. take k (drop (k * i) xs)) [0..<n]) = take (k * n) xs" by simp
  moreover have "take k (drop (k * n) xs) = drop (k * n) xs" using Suc.prems by simp
  ultimately show ?case by simp
qed

lemma same_filled_page:
  assumes "same_filled page = Some v" "length page = 4096"
  shows "concat (replicate 512 (le64_bytes v)) = page"
proof -
  have w: "page_word page i = v" if "i < 512" for i
    using assms(1) that by (cases "i = 0") (auto simp: same_filled_def list_all_iff split: if_split_asm)
  have "take 8 (drop (8 * i) page) = le64_bytes v" if "i < 512" for i
  proof -
    have "length (take 8 (drop (8 * i) page)) = 8" using that assms(2) by simp
    then show ?thesis using w [OF that] le64_bytes_le64 unfolding page_word_def by metis
  qed
  then have "map (\<lambda>i. take 8 (drop (8 * i) page)) [0..<512] = map (\<lambda>i. le64_bytes v) [0..<512]" by (intro map_cong) simp_all
  also have "\<dots> = replicate 512 (le64_bytes v)" by (simp add: map_replicate_const)
  finally show ?thesis using concat_pieces [of page 8 512] assms(2) by simp
qed

section \<open>The state\<close>

definition blob_ok :: "zram_slot \<Rightarrow> u8 list \<Rightarrow> bool" where
  "blob_ok s bs \<longleftrightarrow>
     length bs = unat (slot_size s) \<and>
     (if slot_kind s = ZRAM_RAW then length bs = 4096
      else length bs < 2 ^ 63 \<and> (\<exists>page. length page = 4096 \<and> lz4_decompress bs (replicate 4096 0) = Inr page))"

definition slot_ok :: "zram \<Rightarrow> zram_slot \<Rightarrow> bool" where
  "slot_ok z s \<longleftrightarrow> (holds_blob s \<longrightarrow> (\<exists>bs. z_blobs z (slot_value s) = Some bs \<and> blob_ok s bs))"

definition used_of :: "zram_slot \<Rightarrow> u64" where
  "used_of s = (if holds_blob s then charge (slot_size s) else 0)"

definition bytes_of :: "zram_slot \<Rightarrow> u64" where
  "bytes_of s = (if holds_blob s then ucast (slot_size s) else 0)"

definition kind_of :: "zram_kind \<Rightarrow> zram_slot \<Rightarrow> u64" where
  "kind_of k s = (if slot_kind s = k then 1 else 0)"

definition total_of :: "(zram_slot \<Rightarrow> u64) \<Rightarrow> zram \<Rightarrow> u64" where
  "total_of f z = sum_list (map f (the_slots z))"

definition blob_addresses :: "zram_slot list \<Rightarrow> u64 list" where
  "blob_addresses ss = map slot_value (filter holds_blob ss)"

text \<open>
  The invariant: every slot that holds memory holds its own, with a page in it; no other memory is held; and every statistic is the
  sum it stands for.
\<close>

definition zram_stats :: "zram \<Rightarrow> bool" where
  "zram_stats z \<longleftrightarrow>
     z_memory_used z = total_of used_of z \<and> z_compressed_bytes z = total_of bytes_of z \<and> z_same_pages z = total_of (kind_of ZRAM_SAME) z \<and>
     z_huge_pages z = total_of (kind_of ZRAM_RAW) z \<and> z_stored_pages z = total_of (\<lambda>s. 1 - kind_of ZRAM_EMPTY s) z"

definition zram_ok :: "zram \<Rightarrow> bool" where
  "zram_ok z \<longleftrightarrow>
     (\<forall>s \<in> set (the_slots z). slot_ok z s) \<and> distinct (blob_addresses (the_slots z)) \<and> dom (z_blobs z) = set (blob_addresses (the_slots z)) \<and>
     length (the_slots z) = unat (z_page_count z) \<and> unat (z_page_count z) * 8 < 2 ^ 64 \<and> zram_stats z"

lemma sum_list_upd: "i < length xs \<Longrightarrow> sum_list (xs[i := y]) = sum_list xs - xs ! i + y" for xs :: "'a::ab_group_add list"
  by (induction xs arbitrary: i) (auto simp: nth_Cons algebra_simps split: nat.split)

lemma the_slots_set: "the_slots (set_slot z page s) = (the_slots z)[page := s]"
  by (simp add: the_slots_def set_slot_def split: option.split)

lemma total_of_set: "page < length (the_slots z) \<Longrightarrow> total_of f (set_slot z page s) = total_of f z - f (the_slots z ! page) + f s"
  by (simp add: total_of_def the_slots_set map_update sum_list_upd)

text \<open>
  What an update of one slot does to the addresses in use.
\<close>

lemma blob_addresses_split:
  "page < length ss \<Longrightarrow> blob_addresses ss =
    blob_addresses (take page ss) @ (if holds_blob (ss ! page) then [slot_value (ss ! page)] else []) @ blob_addresses (drop (Suc page) ss)"
  by (subst id_take_nth_drop [of page ss]) (simp_all add: blob_addresses_def)

lemma blob_addresses_update:
  "page < length ss \<Longrightarrow> blob_addresses (ss[page := s]) =
    blob_addresses (take page ss) @ (if holds_blob s then [slot_value s] else []) @ blob_addresses (drop (Suc page) ss)"
  by (simp add: upd_conv_take_nth_drop blob_addresses_def)

lemma blob_addresses_clear:
  assumes "page < length ss" "\<not> holds_blob s" "distinct (blob_addresses ss)"
  shows "distinct (blob_addresses (ss[page := s]))"
    "set (blob_addresses (ss[page := s])) = set (blob_addresses ss) - (if holds_blob (ss ! page) then {slot_value (ss ! page)} else {})"
  using assms blob_addresses_split [OF assms(1)] by (auto simp: blob_addresses_update)

lemma blob_addresses_place:
  assumes "page < length ss" "\<not> holds_blob (ss ! page)" "distinct (blob_addresses ss)"
  shows "holds_blob s \<Longrightarrow> slot_value s \<notin> set (blob_addresses ss) \<Longrightarrow>
      distinct (blob_addresses (ss[page := s])) \<and> set (blob_addresses (ss[page := s])) = insert (slot_value s) (set (blob_addresses ss))"
    "\<not> holds_blob s \<Longrightarrow> blob_addresses (ss[page := s]) = blob_addresses ss"
  using assms blob_addresses_split [OF assms(1)] by (auto simp: blob_addresses_update)

lemma blob_address_in: "page < length ss \<Longrightarrow> holds_blob (ss ! page) \<Longrightarrow> slot_value (ss ! page) \<in> set (blob_addresses ss)"
  by (force simp: blob_addresses_def)

lemma blob_address_other:
  assumes "page < length ss" "q < length ss" "q \<noteq> page" "holds_blob (ss ! page)" "holds_blob (ss ! q)" "distinct (blob_addresses ss)"
  shows "slot_value (ss ! q) \<noteq> slot_value (ss ! page)"
proof -
  have "ss[page := empty_slot] ! q = ss ! q" using assms by simp
  then have "slot_value (ss ! q) \<in> set (blob_addresses (ss[page := empty_slot]))"
    using blob_address_in [of q "ss[page := empty_slot]"] assms by simp
  then show ?thesis using blob_addresses_clear(2) [OF assms(1) _ assms(6), of empty_slot] assms(4) by (auto simp: holds_blob_def empty_slot_def)
qed

section \<open>Clearing and storing\<close>

lemma kind_empty: "slot_kind empty_slot = ZRAM_EMPTY" "\<not> holds_blob empty_slot"
  by (simp_all add: empty_slot_def holds_blob_def)

lemma slot_clear_fields:
  "the_slots (slot_clear z page) = (the_slots z)[page := empty_slot]"
  "z_blobs (slot_clear z page) = (if holds_blob (the_slots z ! page) then (z_blobs z)(slot_value (the_slots z ! page) := None) else z_blobs z)"
  "z_page_count (slot_clear z page) = z_page_count z" "z_memory_limit (slot_clear z page) = z_memory_limit z"
  "z_disk_bytes (slot_clear z page) = z_disk_bytes z" "z_slots (slot_clear z page) = None \<longleftrightarrow> z_slots z = None"
  unfolding slot_clear_def Let_def
  by (simp_all add: the_slots_set) (simp_all add: the_slots_def set_slot_def split: option.split)

lemma slot_clear_stats:
  assumes "zram_stats z" "page < length (the_slots z)"
  shows "zram_stats (slot_clear z page)"
proof -
  have t: "total_of f (slot_clear z page) = total_of f z - f (the_slots z ! page) + f empty_slot" for f
    using assms(2) by (simp add: total_of_def slot_clear_fields map_update sum_list_upd)
  have e: "used_of empty_slot = 0" "bytes_of empty_slot = 0" "kind_of ZRAM_SAME empty_slot = 0" "kind_of ZRAM_RAW empty_slot = 0"
    "kind_of ZRAM_EMPTY empty_slot = 1"
    by (simp_all add: used_of_def bytes_of_def kind_of_def kind_empty)
  show ?thesis
    using assms(1) unfolding zram_stats_def t e
    by (cases "slot_kind (the_slots z ! page)")
      (simp_all add: slot_clear_def Let_def holds_blob_def used_of_def bytes_of_def kind_of_def set_slot_def)
qed

lemma slot_clear_ok:
  assumes "zram_ok z" "page < length (the_slots z)"
  shows "zram_ok (slot_clear z page)"
proof -
  let ?ss = "the_slots z" and ?z = "slot_clear z page"
  have ok: "\<forall>s \<in> set ?ss. slot_ok z s" "distinct (blob_addresses ?ss)" "dom (z_blobs z) = set (blob_addresses ?ss)"
    "length ?ss = unat (z_page_count z)" "unat (z_page_count z) * 8 < 2 ^ 64" "zram_stats z"
    using assms(1) by (simp_all add: zram_ok_def)
  note a = blob_addresses_clear [OF assms(2) kind_empty(2) ok(2)]
  have "slot_ok ?z s" if "s \<in> set (the_slots ?z)" for s
  proof -
    obtain q where q: "q < length ?ss" "s = ?ss[page := empty_slot] ! q" using \<open>s \<in> set (the_slots ?z)\<close> by (auto simp: slot_clear_fields in_set_conv_nth)
    show ?thesis
    proof (cases "q = page")
      case True
      then show ?thesis using q by (simp add: slot_ok_def kind_empty)
    next
      case False
      then have s: "s = ?ss ! q" using q by simp
      then have "slot_ok z s" using ok(1) q(1) by simp
      then show ?thesis
        using blob_address_other [OF assms(2) q(1) False _ _ ok(2)] s by (auto simp: slot_ok_def slot_clear_fields)
    qed
  qed
  moreover have "dom (z_blobs ?z) = set (blob_addresses (the_slots ?z))"
    using a(2) ok(3) by (auto simp: slot_clear_fields)
  ultimately show ?thesis
    using a(1) ok(4,5) slot_clear_stats [OF ok(6) assms(2)] unfolding zram_ok_def by (simp add: slot_clear_fields)
qed

text \<open>
  Filling a slot that is empty.
\<close>

definition slot_placed :: "zram \<Rightarrow> nat \<Rightarrow> zram_slot \<Rightarrow> zram \<Rightarrow> bool" where
  "slot_placed z page s z' \<longleftrightarrow>
     the_slots z' = (the_slots z)[page := s] \<and> z_page_count z' = z_page_count z \<and>
     z_memory_used z' = z_memory_used z + used_of s \<and> z_compressed_bytes z' = z_compressed_bytes z + bytes_of s \<and>
     z_same_pages z' = z_same_pages z + kind_of ZRAM_SAME s \<and> z_huge_pages z' = z_huge_pages z + kind_of ZRAM_RAW s \<and>
     z_stored_pages z' = z_stored_pages z + 1"

lemma slot_placed_ok:
  assumes "zram_ok z" "page < length (the_slots z)" "slot_kind (the_slots z ! page) = ZRAM_EMPTY" "slot_placed z page s z'" "slot_kind s \<noteq> ZRAM_EMPTY"
    and "z_blobs z' = (if holds_blob s then (z_blobs z)(slot_value s := Some bs) else z_blobs z)"
    and "holds_blob s \<Longrightarrow> z_blobs z (slot_value s) = None \<and> blob_ok s bs"
  shows "zram_ok z'"
proof -
  let ?ss = "the_slots z"
  have ok: "\<forall>s \<in> set ?ss. slot_ok z s" "distinct (blob_addresses ?ss)" "dom (z_blobs z) = set (blob_addresses ?ss)"
    "length ?ss = unat (z_page_count z)" "unat (z_page_count z) * 8 < 2 ^ 64" "zram_stats z"
    using assms(1) by (simp_all add: zram_ok_def)
  have nb: "\<not> holds_blob (?ss ! page)" using assms(3) by (simp add: holds_blob_def)
  have ss: "the_slots z' = ?ss[page := s]" using assms(4) by (simp add: slot_placed_def)
  note a = blob_addresses_place [OF assms(2) nb ok(2)]
  have fresh: "holds_blob s \<Longrightarrow> slot_value s \<notin> set (blob_addresses ?ss)" using assms(7) ok(3) by blast
  have "slot_ok z' t" if t: "t \<in> set (the_slots z')" for t
  proof (cases "t = s")
    case True
    then show ?thesis using assms(6,7) by (simp add: slot_ok_def)
  next
    case False
    then have m: "t \<in> set ?ss" using t set_update_subset_insert [of ?ss page s] ss by auto
    then have "slot_ok z t" "holds_blob t \<Longrightarrow> slot_value t \<in> set (blob_addresses ?ss)" using ok(1) by (auto simp: blob_addresses_def)
    then show ?thesis using assms(6) fresh by (auto simp: slot_ok_def)
  qed
  moreover have "distinct (blob_addresses (the_slots z')) \<and> dom (z_blobs z') = set (blob_addresses (the_slots z'))"
    using a fresh ok(2,3) assms(6) ss by (cases "holds_blob s") auto
  moreover have "total_of f z' = total_of f z - f (?ss ! page) + f s" for f
    using assms(2) ss by (simp add: total_of_def map_update sum_list_upd)
  then have "zram_stats z'"
    using ok(6) assms(3,4,5) nb unfolding zram_stats_def slot_placed_def
    by (simp add: used_of_def [of "?ss ! page"] bytes_of_def [of "?ss ! page"] kind_of_def [of _ "?ss ! page"] kind_of_def [of ZRAM_EMPTY s])
  ultimately show ?thesis using ok(4,5) assms(4) ss unfolding zram_ok_def slot_placed_def by simp
qed

section \<open>Pages\<close>

definition page_data :: "zram \<Rightarrow> nat \<Rightarrow> u8 list" where
  "page_data z page = (case slot_load z page of Inl _ \<Rightarrow> [] | Inr data \<Rightarrow> data)"

lemma slot_load_cong:
  assumes "the_slots z' ! page = the_slots z ! page"
    and "holds_blob (the_slots z ! page) \<Longrightarrow> z_blobs z' (slot_value (the_slots z ! page)) = z_blobs z (slot_value (the_slots z ! page))"
  shows "slot_load z' page = slot_load z page"
  using assms by (cases "slot_kind (the_slots z ! page)") (simp_all add: slot_load_def Let_def blob_at_def holds_blob_def)

lemma slot_load_ok:
  assumes "zram_ok z" "page < length (the_slots z)"
  shows "slot_load z page = Inr (page_data z page)" "length (page_data z page) = 4096"
proof -
  let ?s = "the_slots z ! page"
  have s: "slot_ok z ?s" using assms by (simp add: zram_ok_def)
  have "\<exists>data. slot_load z page = Inr data \<and> length data = 4096"
  proof (cases "slot_kind ?s")
    case ZRAM_EMPTY
    then show ?thesis by (simp add: slot_load_def)
  next
    case ZRAM_SAME
    then show ?thesis by (simp add: slot_load_def length_concat sum_list_replicate)
  next
    case ZRAM_PACKED
    then obtain bs where "z_blobs z (slot_value ?s) = Some bs" "blob_ok ?s bs" using s by (auto simp: slot_ok_def holds_blob_def)
    then show ?thesis
      using ZRAM_PACKED by (auto simp: slot_load_def Let_def blob_at_def blob_ok_def tunix_lz4_decompress_def lz4_slice_def)
  next
    case ZRAM_RAW
    then obtain bs where "z_blobs z (slot_value ?s) = Some bs" "blob_ok ?s bs" using s by (auto simp: slot_ok_def holds_blob_def)
    then show ?thesis using ZRAM_RAW by (simp add: slot_load_def Let_def blob_at_def blob_ok_def)
  qed
  then show "slot_load z page = Inr (page_data z page)" "length (page_data z page) = 4096" by (auto simp: page_data_def)
qed

lemma slot_clear_pages:
  assumes "zram_ok z" "page < length (the_slots z)" "q < length (the_slots z)"
  shows "page_data (slot_clear z page) q = (if q = page then replicate 4096 0 else page_data z q)"
proof (cases "q = page")
  case True
  then show ?thesis using assms by (simp add: page_data_def slot_load_def slot_clear_fields kind_empty)
next
  case False
  have d: "distinct (blob_addresses (the_slots z))" using assms(1) by (simp add: zram_ok_def)
  have "slot_load (slot_clear z page) q = slot_load z q"
    by (rule slot_load_cong)
      (use False blob_address_other [OF assms(2,3) False _ _ d] in \<open>auto simp: slot_clear_fields\<close>)
  then show ?thesis using False by (simp add: page_data_def)
qed

text \<open>
  A page as it is packed: the compressed form is one that decompresses to it.
\<close>

lemma pack_page_ok:
  assumes "pack_page data = (kind, source)" "length data = 4096"
  shows "kind = ZRAM_RAW \<and> source = data \<or>
    kind = ZRAM_PACKED \<and> 0 < length source \<and> length source \<le> 3072 \<and> lz4_decompress source (replicate 4096 0) = Inr data"
proof -
  let ?dst = "replicate 4128 0 :: u8 list" and ?t = "replicate 4096 0 :: u16 list"
  obtain n packed t where c: "lz4_compress data ?dst ?t = Some (n, packed, t)" "n \<le> lz4_bound 4096"
    using lz4_compress_Some [of data ?t ?dst] assms(2) by (auto simp: lz4_bound_def saturating_add_def)
  note b = lz4_compress_block [OF c(1)]
  have p: "pack_page data = (if n = 0 \<or> n > 3072 then (ZRAM_RAW, data) else (ZRAM_PACKED, take n packed))"
    using c(1) assms(2) by (simp add: pack_page_def tunix_lz4_compress_def lz4_slice_def)
  have d: "lz4_decompress (take n packed) (replicate 4096 0) = Inr data"
    using lz4_decompress_iff [of "take n packed" "replicate 4096 0" data] b assms(2) by simp
  show ?thesis using p d b assms(1) by (auto split: if_split_asm)
qed

text \<open>
  The allocator gives memory that is not in use.
\<close>

definition fresh_alloc :: "zram_alloc \<Rightarrow> bool" where
  "fresh_alloc alloc \<longleftrightarrow> (\<forall>m n a. alloc m n = Some a \<longrightarrow> m a = None)"

lemma slot_clear_blobs:
  "slot_clear (z\<lparr>z_blobs := m\<rparr>) page =
     (slot_clear z page)\<lparr>z_blobs := (if holds_blob (the_slots z ! page) then m(slot_value (the_slots z ! page) := None) else m)\<rparr>"
  by (simp add: slot_clear_def Let_def set_slot_def the_slots_def)

lemma slot_clear_new_blob:
  assumes "zram_ok z" "page < length (the_slots z)" "z_blobs z blob = None"
  shows "slot_clear (z\<lparr>z_blobs := (z_blobs z)(blob := Some source)\<rparr>) page =
    (slot_clear z page)\<lparr>z_blobs := (z_blobs (slot_clear z page))(blob := Some source)\<rparr>"
proof -
  have "blob \<noteq> slot_value (the_slots z ! page)" if "holds_blob (the_slots z ! page)"
    using blob_address_in [OF assms(2) that] assms(1,3) by (auto simp: zram_ok_def)
  then show ?thesis unfolding slot_clear_blobs by (auto simp: slot_clear_fields fun_upd_twist)
qed

definition blank :: "zram \<Rightarrow> nat \<Rightarrow> bool" where
  "blank z page \<longleftrightarrow> zram_ok z \<and> page < length (the_slots z) \<and> slot_kind (the_slots z ! page) = ZRAM_EMPTY"

lemma slot_placed_pages:
  assumes "blank z page" "slot_placed z page s z'" "q < length (the_slots z)" "q \<noteq> page"
    and "z_blobs z' = (if holds_blob s then (z_blobs z)(slot_value s := Some bs) else z_blobs z)" "holds_blob s \<Longrightarrow> z_blobs z (slot_value s) = None"
  shows "page_data z' q = page_data z q"
proof -
  have "z_blobs z (slot_value (the_slots z ! q)) \<noteq> None" if "holds_blob (the_slots z ! q)"
    using blob_address_in [OF assms(3) that] assms(1) by (auto simp: zram_ok_def blank_def)
  then have "slot_load z' q = slot_load z q"
    by (intro slot_load_cong) (use assms in \<open>auto simp: slot_placed_def\<close>)
  then show ?thesis by (simp add: page_data_def)
qed

lemma slot_store_same:
  assumes "blank z page" "same_filled data = Some v" "length data = 4096"
    and "z' = (set_slot z page \<lparr>slot_value = v, slot_size = 0, slot_kind = ZRAM_SAME\<rparr>)\<lparr>z_same_pages := z_same_pages z + 1, z_stored_pages := z_stored_pages z + 1\<rparr>"
  shows "zram_ok z'" "the_slots z' = (the_slots z)[page := \<lparr>slot_value = v, slot_size = 0, slot_kind = ZRAM_SAME\<rparr>]" "page_data z' page = data"
    "q < length (the_slots z) \<Longrightarrow> q \<noteq> page \<Longrightarrow> page_data z' q = page_data z q"
proof -
  let ?s = "\<lparr>slot_value = v, slot_size = 0, slot_kind = ZRAM_SAME\<rparr>"
  show ss: "the_slots z' = (the_slots z)[page := ?s]" using the_slots_set [of z page ?s] by (simp add: assms(4) the_slots_def)
  have pl: "slot_placed z page ?s z'"
    unfolding slot_placed_def ss by (simp add: assms(4) set_slot_def used_of_def bytes_of_def kind_of_def holds_blob_def)
  have b: "z_blobs z' = z_blobs z" by (simp add: assms(4) set_slot_def)
  show "zram_ok z'"
    using slot_placed_ok [of z page ?s z'] assms(1) pl b by (simp add: blank_def holds_blob_def)
  show "page_data z' page = data"
    using assms(1) same_filled_page [OF assms(2,3)] by (simp add: page_data_def slot_load_def ss blank_def)
  show "q < length (the_slots z) \<Longrightarrow> q \<noteq> page \<Longrightarrow> page_data z' q = page_data z q"
    using slot_placed_pages [OF assms(1) pl] b by (simp add: holds_blob_def)
qed

lemma slot_store_blob:
  assumes "blank z page" "pack_page data = (kind, source)" "length data = 4096" "z_blobs z blob = None"
    and "s = \<lparr>slot_value = blob, slot_size = of_nat (length source), slot_kind = kind\<rparr>" "slot_placed z page s z'"
    and "z_blobs z' = (z_blobs z)(blob := Some source)"
  shows "zram_ok z'" "page_data z' page = data" "q < length (the_slots z) \<Longrightarrow> q \<noteq> page \<Longrightarrow> page_data z' q = page_data z q"
proof -
  note p = pack_page_ok [OF assms(2,3)]
  have h: "holds_blob s" "slot_kind s \<noteq> ZRAM_EMPTY" "slot_value s = blob" using p by (auto simp: assms(5) holds_blob_def)
  have len: "length source < 2 ^ 32" using p assms(3) by auto
  have u: "unat (slot_size s) = length source" using len by (simp add: assms(5) unat_of_nat take_bit_eq_mod)
  have b: "blob_ok s source" using p u assms(3) len by (auto simp: blob_ok_def assms(5))
  show "zram_ok z'"
    by (rule slot_placed_ok [where bs = source]) (use assms(1,4,6,7) h b in \<open>auto simp: blank_def\<close>)
  have ss: "the_slots z' ! page = s" using assms(1,6) by (simp add: slot_placed_def blank_def)
  show "page_data z' page = data"
    using p assms(3,7) u h(3) len unfolding page_data_def slot_load_def Let_def ss
    by (auto simp: assms(5) blob_at_def tunix_lz4_decompress_def lz4_slice_def)
  show "q < length (the_slots z) \<Longrightarrow> q \<noteq> page \<Longrightarrow> page_data z' q = page_data z q"
    using slot_placed_pages [OF assms(1,6), where bs = source] h assms(4,7) by simp
qed

lemma slot_store_ok:
  assumes "zram_ok z" "page < length (the_slots z)" "length data = 4096" "fresh_alloc alloc" "slot_store alloc z page data = (e, z')"
  shows "zram_ok z'" "length (the_slots z') = length (the_slots z)" "z_slots z' = None \<longleftrightarrow> z_slots z = None"
    "z_page_count z' = z_page_count z"
    "q < length (the_slots z) \<Longrightarrow> page_data z' q = (if e = None \<and> q = page then data else page_data z q)"
proof -
  let ?c = "slot_clear z page"
  have bl: "blank ?c page"
    using slot_clear_ok [OF assms(1,2)] assms(2) by (simp add: blank_def slot_clear_fields kind_empty)
  have len: "length (the_slots ?c) = length (the_slots z)" by (simp add: slot_clear_fields)
  have "zram_ok z' \<and> length (the_slots z') = length (the_slots z) \<and> (z_slots z' = None \<longleftrightarrow> z_slots z = None) \<and>
      z_page_count z' = z_page_count z \<and> (\<forall>q < length (the_slots z). page_data z' q = (if e = None \<and> q = page then data else page_data z q))"
  proof (cases "same_filled data")
    case (Some v)
    have z': "e = None" "z' = (set_slot ?c page \<lparr>slot_value = v, slot_size = 0, slot_kind = ZRAM_SAME\<rparr>)
        \<lparr>z_same_pages := z_same_pages ?c + 1, z_stored_pages := z_stored_pages ?c + 1\<rparr>"
      using assms(5) Some by (simp_all add: slot_store_def Let_def set_slot_def)
    note st = slot_store_same [OF bl Some assms(3) z'(2)]
    have "page_data z' q = (if e = None \<and> q = page then data else page_data z q)" if "q < length (the_slots z)" for q
      using st(3,4) len z'(1) slot_clear_pages [OF assms(1,2) that] that by simp
    moreover have "z_slots z' = None \<longleftrightarrow> z_slots z = None" "z_page_count z' = z_page_count z"
      using slot_clear_fields(3,6) [of z page] by (simp_all add: z'(2) set_slot_def)
    ultimately show ?thesis using st(1,2) len by simp
  next
    case None
    obtain kind source where k: "pack_page data = (kind, source)" by fastforce
    let ?s = "\<lambda>blob. \<lparr>slot_value = blob, slot_size = of_nat (length source), slot_kind = kind\<rparr>"
    show ?thesis
    proof (cases "e = None")
      case False
      then have "z' = z" using assms(5) None k by (auto simp: slot_store_def Let_def split: if_split_asm option.split_asm)
      then show ?thesis using assms(1) False by auto
    next
      case True
      then obtain blob where blob: "alloc (z_blobs z) (length source) = Some blob"
        using assms(5) None k by (auto simp: slot_store_def Let_def split: if_split_asm option.split_asm)
      have fresh: "z_blobs z blob = None" using blob assms(4) by (auto simp: fresh_alloc_def)
      let ?n = "?c\<lparr>z_blobs := (z_blobs ?c)(blob := Some source)\<rparr>"
      have run: "\<not> (z_memory_limit z \<noteq> 0 \<and> z_memory_used z - (if holds_blob (the_slots z ! page) then charge (slot_size (the_slots z ! page)) else 0) + charge (of_nat (length source)) > z_memory_limit z)"
        using assms(5) None k True by (auto simp: slot_store_def Let_def split: if_split_asm)
      have z': "z' = (let z2 = set_slot ?n page (?s blob); used = z_memory_used z2 + charge (of_nat (length source));
            z3 = z2\<lparr>z_stored_pages := z_stored_pages z2 + 1, z_compressed_bytes := z_compressed_bytes z2 + ucast (of_nat (length source) :: u32),
              z_memory_used := used, z_memory_used_max := (if used > z_memory_used_max z2 then used else z_memory_used_max z2)\<rparr>
          in if kind = ZRAM_RAW then z3\<lparr>z_huge_pages := z_huge_pages z3 + 1, z_huge_pages_since := z_huge_pages_since z3 + 1\<rparr> else z3)"
        using assms(5) None k blob run True slot_clear_new_blob [OF assms(1,2) fresh, of source] unfolding slot_store_def Let_def
        by (simp split: if_split_asm)
      have hb: "holds_blob (?s blob)" "slot_kind (?s blob) \<noteq> ZRAM_SAME" using pack_page_ok [OF k assms(3)] by (auto simp: holds_blob_def)
      have ss: "the_slots z' = (the_slots ?c)[page := ?s blob]" "z_slots z' = None \<longleftrightarrow> z_slots ?c = None"
        unfolding z' Let_def by (simp_all add: the_slots_def set_slot_def split: option.split)
      have pl: "slot_placed ?c page (?s blob) z'"
        unfolding slot_placed_def ss using hb unfolding z' Let_def
        by (simp add: set_slot_def used_of_def bytes_of_def kind_of_def)
      have bl': "z_blobs z' = (z_blobs ?c)(blob := Some source)" unfolding z' Let_def by (simp add: set_slot_def)
      have fresh': "z_blobs ?c blob = None" using fresh by (simp add: slot_clear_fields)
      note st = slot_store_blob [OF bl k assms(3) fresh' refl pl bl']
      have "page_data z' q = (if e = None \<and> q = page then data else page_data z q)" if "q < length (the_slots z)" for q
        using st(2,3) len True slot_clear_pages [OF assms(1,2) that] that by simp
      moreover have "z_page_count z' = z_page_count z" using pl slot_clear_fields(3) [of z page] by (simp add: slot_placed_def)
      ultimately show ?thesis using st(1) ss len slot_clear_fields(6) [of z page] by simp
    qed
  qed
  then show "zram_ok z'" "length (the_slots z') = length (the_slots z)" "z_slots z' = None \<longleftrightarrow> z_slots z = None"
    "z_page_count z' = z_page_count z"
    "q < length (the_slots z) \<Longrightarrow> page_data z' q = (if e = None \<and> q = page then data else page_data z q)"
    by blast+
qed

section \<open>The disk\<close>

definition zram_disk :: "zram \<Rightarrow> u8 list" where
  "zram_disk z = concat (map (page_data z) [0..<length (the_slots z)])"

lemma pieces_concat:
  assumes "\<And>i. i < n \<Longrightarrow> length (f i) = k"
  shows "length (concat (map f [0..<n])) = k * n" "i < n \<Longrightarrow> take k (drop (k * i) (concat (map f [0..<n]))) = f i"
proof -
  have "length (concat (map f [0..<m])) = k * m" if "m \<le> n" for m
    using that by (induction m) (use assms in simp_all)
  then show len: "length (concat (map f [0..<n])) = k * n" by simp
  show "take k (drop (k * i) (concat (map f [0..<n]))) = f i" if i: "i < n"
  proof -
    have "[0..<n] = [0..<i] @ i # [Suc i..<n]" using i upt_add_eq_append [of 0 i "n - i"] upt_conv_Cons [OF i] by simp
    moreover have "length (concat (map f [0..<i])) = k * i" using \<open>\<And>m. m \<le> n \<Longrightarrow> length (concat (map f [0..<m])) = k * m\<close> i by simp
    ultimately show ?thesis using assms [OF i] by simp
  qed
qed

lemma disk_pages:
  assumes "zram_ok z"
  shows "length (zram_disk z) = 4096 * length (the_slots z)"
    "page < length (the_slots z) \<Longrightarrow> take 4096 (drop (4096 * page) (zram_disk z)) = page_data z page"
  unfolding zram_disk_def by (rule pieces_concat; use slot_load_ok(2) [OF assms] in simp)+

lemma copy_into_piece:
  assumes "length d = k * n" "length data = k" "p < n" "i < n"
  shows "take k (drop (k * i) (copy_into d (k * p) data)) = (if i = p then data else take k (drop (k * i) d))"
proof (rule nth_equalityI)
  have r: "k * m + k \<le> k * n" if "m < n" for m using that by (metis Suc_leI mult_Suc_right add.commute mult_le_mono2)
  have len: "length (copy_into d (k * p) data) = k * n" using assms r [of p] by simp
  then show "length (take k (drop (k * i) (copy_into d (k * p) data))) = length (if i = p then data else take k (drop (k * i) d))"
    using assms r [of i] by simp
  fix j assume "j < length (take k (drop (k * i) (copy_into d (k * p) data)))"
  then have j: "j < k" by simp
  have apart: "\<not> (k * p \<le> k * i + j \<and> k * i + j < k * p + k)" if "i \<noteq> p"
  proof (cases "i < p")
    case True
    then have "k * i + k \<le> k * p" by (metis Suc_leI mult_Suc_right add.commute mult_le_mono2)
    then show ?thesis using j by simp
  next
    case False
    then have "k * p + k \<le> k * i" using that by (metis Suc_leI mult_Suc_right add.commute mult_le_mono2 linorder_neqE_nat)
    then show ?thesis using j by simp
  qed
  show "take k (drop (k * i) (copy_into d (k * p) data)) ! j = (if i = p then data else take k (drop (k * i) d)) ! j"
    using j assms r [of i] r [of p] len apart by (auto simp: nth_copy_into)
qed

lemma disk_update:
  assumes "zram_ok z" "zram_ok z'" "length (the_slots z') = length (the_slots z)" "page < length (the_slots z)" "length data = 4096"
    and "\<And>q. q < length (the_slots z) \<Longrightarrow> page_data z' q = (if q = page then data else page_data z q)"
  shows "zram_disk z' = copy_into (zram_disk z) (4096 * page) data"
proof -
  let ?n = "length (the_slots z)"
  have "map (page_data z') [0..<?n] = map (\<lambda>i. take 4096 (drop (4096 * i) (copy_into (zram_disk z) (4096 * page) data))) [0..<?n]"
    using copy_into_piece [OF disk_pages(1) [OF assms(1)] assms(5,4)] disk_pages(2) [OF assms(1)] assms(6) by (intro map_cong) simp_all
  then have "zram_disk z' = concat (map (\<lambda>i. take 4096 (drop (4096 * i) (copy_into (zram_disk z) (4096 * page) data))) [0..<?n])"
    unfolding zram_disk_def [of z'] assms(3) by (rule arg_cong)
  also have "\<dots> = copy_into (zram_disk z) (4096 * page) data"
    by (rule concat_pieces) (use disk_pages(1) [OF assms(1)] assms(4,5) in simp)
  finally show ?thesis .
qed

lemma disk_same:
  assumes "length (the_slots z') = length (the_slots z)" "\<And>q. q < length (the_slots z) \<Longrightarrow> page_data z' q = page_data z q"
  shows "zram_disk z' = zram_disk z"
proof -
  have "map (page_data z') [0..<length (the_slots z)] = map (page_data z) [0..<length (the_slots z)]" using assms(2) by simp
  then show ?thesis unfolding zram_disk_def assms(1) by (rule arg_cong)
qed

section \<open>Reading and writing\<close>

text \<open>
  The part of a request that lies in one page.
\<close>

lemma request_part:
  fixes lba count n pages :: nat
  assumes "lba + count \<le> 8 * pages" "count \<noteq> 0" "n = min (8 - lba mod 8) count"
  shows "lba div 8 < pages" "0 < n" "n \<le> count" "lba mod 8 + n \<le> 8" "512 * lba = 4096 * (lba div 8) + 512 * (lba mod 8)"
    "lba + n + (count - n) = lba + count" "lba mod 8 = 0 \<Longrightarrow> n = 8 \<or> n = count" "n < count \<Longrightarrow> (lba + n) mod 8 = 0"
proof -
  have lba: "lba = 8 * (lba div 8) + lba mod 8" "lba mod 8 < 8" by simp_all
  show "lba div 8 < pages" "0 < n" "n \<le> count" "lba mod 8 + n \<le> 8" using assms lba by (linarith, auto)
  show "512 * lba = 4096 * (lba div 8) + 512 * (lba mod 8)" using lba(1) by linarith
  show "lba + n + (count - n) = lba + count" "lba mod 8 = 0 \<Longrightarrow> n = 8 \<or> n = count" using assms by auto
  assume "n < count"
  then have "n + lba mod 8 = 8" using assms(3) lba(2) by simp
  then have "(lba mod 8 + n) mod 8 = 0" by (simp add: add.commute)
  then show "(lba + n) mod 8 = 0" unfolding mod_add_left_eq .
qed

lemma zram_read_loop_spec:
  assumes "zram_ok z" "lba + count \<le> 8 * length (the_slots z)"
  shows "zram_read_loop z lba count dst = (Inr (dst @ take (512 * count) (drop (512 * lba) (zram_disk z))), z)"
  using assms
proof (induction z lba count dst rule: zram_read_loop.induct)
  case (1 z lba count dst)
  show ?case
  proof (cases "count = 0")
    case True
    then show ?thesis by (simp add: zram_read_loop.simps)
  next
    case False
    define page where "page = lba div 8"
    define within where "within = lba mod 8"
    define n where "n = min (8 - within) count"
    note r = request_part [OF 1(3) False n_def [unfolded within_def], folded page_def within_def]
    have load: "slot_load z page = Inr (page_data z page)" by (rule slot_load_ok(1) [OF 1(2) r(1)])
    have data: "page_data z page = take 4096 (drop (4096 * page) (zram_disk z))" using disk_pages(2) [OF 1(2) r(1)] by simp
    have piece: "(if within = 0 \<and> n = 8 then page_data z page else take (n * 512) (drop (within * 512) (page_data z page))) =
        take (512 * n) (drop (512 * lba) (zram_disk z))"
    proof -
      have "take (n * 512) (drop (within * 512) (page_data z page)) = take (512 * n) (drop (512 * lba) (zram_disk z))"
        unfolding data r(5) using r(4) by (simp add: drop_take min_def mult.commute add.commute)
      moreover have "within = 0 \<and> n = 8 \<Longrightarrow> page_data z page = take (512 * n) (drop (512 * lba) (zram_disk z))" unfolding data r(5) by simp
      ultimately show ?thesis by simp
    qed
    have "zram_read_loop z lba count dst = zram_read_loop z (lba + n) (count - n) (dst @ take (512 * n) (drop (512 * lba) (zram_disk z)))"
      unfolding zram_read_loop.simps [of z lba count dst] Let_def page_def [symmetric] within_def [symmetric] n_def [symmetric] load sum.case piece
      using False by simp
    moreover have "\<dots> = (Inr ((dst @ take (512 * n) (drop (512 * lba) (zram_disk z))) @ take (512 * (count - n)) (drop (512 * (lba + n)) (zram_disk z))), z)"
      by (rule 1(1) [OF False page_def within_def n_def load piece [symmetric] 1(2)]) (use r(6) 1(3) in simp)
    moreover have "take (512 * n) (drop (512 * lba) (zram_disk z)) @ take (512 * (count - n)) (drop (512 * (lba + n)) (zram_disk z)) =
        take (512 * count) (drop (512 * lba) (zram_disk z))"
      using take_add [of "512 * n" "512 * (count - n)" "drop (512 * lba) (zram_disk z)"] r(3) by (simp add: algebra_simps)
    ultimately show ?thesis by simp
  qed
qed

lemma copy_into_within:
  assumes "4096 * page + 4096 \<le> length d" "off + length piece \<le> 4096"
  shows "copy_into d (4096 * page) (copy_into (take 4096 (drop (4096 * page) d)) off piece) = copy_into d (4096 * page + off) piece"
proof (rule nth_equalityI)
  let ?old = "take 4096 (drop (4096 * page) d)"
  have l: "length ?old = 4096" using assms(1) by simp
  show "length (copy_into d (4096 * page) (copy_into ?old off piece)) = length (copy_into d (4096 * page + off) piece)"
    using assms l by simp
  fix i assume "i < length (copy_into d (4096 * page) (copy_into ?old off piece))"
  then have i: "i < length d" using assms l by simp
  show "copy_into d (4096 * page) (copy_into ?old off piece) ! i = copy_into d (4096 * page + off) piece ! i"
    using assms l i by (auto simp: nth_copy_into)
qed

lemma slot_store_limit: "z_memory_limit (snd (slot_store alloc z page data)) = z_memory_limit z"
  by (simp add: slot_store_def Let_def slot_clear_fields(4) set_slot_def split: option.split prod.split)

text \<open>
  One page of a write.
\<close>

definition written :: "zram \<Rightarrow> nat \<Rightarrow> nat \<Rightarrow> u8 list \<Rightarrow> u8 list" where
  "written z lba n piece =
     (if lba mod 8 \<noteq> 0 \<or> n \<noteq> 8 then copy_into (page_data z (lba div 8)) (lba mod 8 * 512) piece else piece)"

lemma zram_write_part:
  assumes "zram_ok z" "lba + count \<le> 8 * length (the_slots z)" "count \<noteq> 0" "n = min (8 - lba mod 8) count" "length piece = 512 * n"
    and "fresh_alloc alloc" "slot_store alloc z (lba div 8) (written z lba n piece) = (e, z')"
  shows "zram_ok z'" "length (the_slots z') = length (the_slots z)" "z_slots z' = None \<longleftrightarrow> z_slots z = None"
    "e = None \<Longrightarrow> zram_disk z' = copy_into (zram_disk z) (512 * lba) piece" "e \<noteq> None \<Longrightarrow> zram_disk z' = zram_disk z" "z_memory_limit z' = z_memory_limit z"
proof -
  note r = request_part [OF assms(2,3,4)]
  have pd: "length (page_data z (lba div 8)) = 4096" by (rule slot_load_ok(2) [OF assms(1) r(1)])
  have len: "length (written z lba n piece) = 4096" using pd assms(5) r(4) by (simp add: written_def)
  note st = slot_store_ok [OF assms(1) r(1) len assms(6,7)]
  show "zram_ok z'" "length (the_slots z') = length (the_slots z)" "z_slots z' = None \<longleftrightarrow> z_slots z = None" by (fact st(1-3))+
  show "z_memory_limit z' = z_memory_limit z" using slot_store_limit [of alloc z "lba div 8" "written z lba n piece"] assms(7) by simp
  show "zram_disk z' = zram_disk z" if "e \<noteq> None" using that st(5) by (intro disk_same st(2)) auto
  assume e: "e = None"
  have old: "page_data z (lba div 8) = take 4096 (drop (4096 * (lba div 8)) (zram_disk z))" using disk_pages(2) [OF assms(1) r(1)] by simp
  have "zram_disk z' = copy_into (zram_disk z) (4096 * (lba div 8)) (written z lba n piece)"
    by (rule disk_update [OF assms(1) st(1,2) r(1) len]) (use st(5) e in simp)
  also have "\<dots> = copy_into (zram_disk z) (512 * lba) piece"
  proof (cases "lba mod 8 \<noteq> 0 \<or> n \<noteq> 8")
    case True
    have "4096 * (lba div 8) + 4096 \<le> length (zram_disk z)" using disk_pages(1) [OF assms(1)] r(1) by simp
    then have "copy_into (zram_disk z) (4096 * (lba div 8)) (copy_into (page_data z (lba div 8)) (lba mod 8 * 512) piece) =
        copy_into (zram_disk z) (4096 * (lba div 8) + lba mod 8 * 512) piece"
      unfolding old by (rule copy_into_within) (use assms(5) r(4) in simp)
    then show ?thesis unfolding r(5) using True by (simp add: written_def mult.commute)
  next
    case False
    then show ?thesis unfolding r(5) by (simp add: written_def)
  qed
  finally show "zram_disk z' = copy_into (zram_disk z) (512 * lba) piece" .
qed

text \<open>
  The counters of failures and the published sizes are not part of the disk.
\<close>

definition same_disk :: "zram \<Rightarrow> zram \<Rightarrow> bool" where
  "same_disk z z' \<longleftrightarrow>
     z_slots z' = z_slots z \<and> z_blobs z' = z_blobs z \<and> z_page_count z' = z_page_count z \<and> z_memory_used z' = z_memory_used z \<and>
     z_compressed_bytes z' = z_compressed_bytes z \<and> z_same_pages z' = z_same_pages z \<and> z_huge_pages z' = z_huge_pages z \<and>
     z_stored_pages z' = z_stored_pages z"

lemma same_disk_facts:
  assumes "same_disk z z'"
  shows "zram_ok z' \<longleftrightarrow> zram_ok z" "zram_disk z' = zram_disk z" "the_slots z' = the_slots z" "z_slots z' = z_slots z"
proof -
  show ss: "the_slots z' = the_slots z" "z_slots z' = z_slots z" using assms by (simp_all add: same_disk_def the_slots_def)
  show "zram_ok z' \<longleftrightarrow> zram_ok z" using assms by (simp add: zram_ok_def zram_stats_def total_of_def ss same_disk_def slot_ok_def)
  have "slot_load z' q = slot_load z q" for q by (rule slot_load_cong) (use assms ss in \<open>simp_all add: same_disk_def\<close>)
  then show "zram_disk z' = zram_disk z" by (intro disk_same) (simp_all add: ss page_data_def)
qed

lemma same_disk_counters [simp]:
  "same_disk z z" "same_disk z (z\<lparr>z_failed_reads := v\<rparr>)" "same_disk z (z\<lparr>z_failed_writes := v\<rparr>)" "same_disk z (z\<lparr>z_invalid_io := v\<rparr>)"
  "same_disk z (z\<lparr>z_freed_notices := v\<rparr>)" "same_disk z (z\<lparr>z_memory_limit := v\<rparr>)" "same_disk z (z\<lparr>z_memory_used_max := v\<rparr>)"
  "same_disk z (publish_size z)"
  by (simp_all add: same_disk_def publish_size_def)

lemma zram_write_loop_spec:
  assumes "zram_ok z" "lba + count \<le> 8 * length (the_slots z)" "length src = 512 * count" "fresh_alloc alloc"
    and "zram_write_loop alloc z lba count src = (r, z')"
  shows "zram_ok z' \<and> length (the_slots z') = length (the_slots z) \<and> (z_slots z' = None \<longleftrightarrow> z_slots z = None) \<and> z_memory_limit z' = z_memory_limit z \<and>
    (r = Inr () \<longrightarrow> zram_disk z' = copy_into (zram_disk z) (512 * lba) src) \<and>
    (r \<noteq> Inr () \<longrightarrow> (\<exists>k < count. (k = 0 \<or> (lba + k) mod 8 = 0) \<and> zram_disk z' = copy_into (zram_disk z) (512 * lba) (take (512 * k) src)))"
  using assms
proof (induction alloc z lba count src rule: zram_write_loop.induct)
  case (1 alloc z lba count src)
  show ?case
  proof (cases "count = 0")
    case True
    then have "r = Inr ()" "z' = z" "src = []" using 1(4,6) by (simp_all add: zram_write_loop.simps)
    then show ?thesis using 1(2) by simp
  next
    case False
    define page where "page = lba div 8"
    define within where "within = lba mod 8"
    define n where "n = min (8 - within) count"
    define piece where "piece = take (n * 512) src"
    note r = request_part [OF 1(3) False n_def [unfolded within_def]]
    have lp: "length piece = 512 * n" using 1(4) r(3) by (simp add: piece_def)
    define whole where "whole = (if within \<noteq> 0 \<or> n \<noteq> 8 then (case slot_load z page of Inl _ \<Rightarrow> None | Inr old \<Rightarrow> Some (copy_into old (within * 512) piece)) else Some piece)"
    have whole: "whole = Some (written z lba n piece)"
      using slot_load_ok(1) [OF 1(2) r(1)] by (simp add: whole_def written_def page_def within_def)
    obtain e z1 where st: "slot_store alloc z page (written z lba n piece) = (e, z1)" by fastforce
    note part = zram_write_part [OF 1(2,3) False n_def [unfolded within_def] lp 1(5) st [unfolded page_def]]
    have run: "zram_write_loop alloc z lba count src =
        (case e of Some _ \<Rightarrow> (Inl FAILED, z1\<lparr>z_failed_writes := z_failed_writes z1 + 1\<rparr>)
         | None \<Rightarrow> zram_write_loop alloc z1 (lba + n) (count - n) (drop (n * 512) src))"
      unfolding zram_write_loop.simps [of alloc z lba count src] Let_def page_def [symmetric] within_def [symmetric] n_def [symmetric]
        piece_def [symmetric] whole_def [symmetric] whole option.case st
      using False by (simp split: option.split)
    show ?thesis
    proof (cases e)
      case (Some err)
      then have z': "r = Inl FAILED" "z' = z1\<lparr>z_failed_writes := z_failed_writes z1 + 1\<rparr>" using run 1(6) by simp_all
      have sd: "same_disk z1 z'" unfolding z'(2) by simp
      show ?thesis
        using part(1-3,5,6) Some same_disk_facts [OF sd] False z' by (auto intro!: exI [of _ 0])
    next
      case None
      have rest: "zram_write_loop alloc z1 (lba + n) (count - n) (drop (n * 512) src) = (r, z')" using run None 1(6) by simp
      have d1: "zram_disk z1 = copy_into (zram_disk z) (512 * lba) piece" using part(4) None by simp
      have ih: "zram_ok z' \<and> length (the_slots z') = length (the_slots z1) \<and> (z_slots z' = None \<longleftrightarrow> z_slots z1 = None) \<and> z_memory_limit z' = z_memory_limit z1 \<and>
          (r = Inr () \<longrightarrow> zram_disk z' = copy_into (zram_disk z1) (512 * (lba + n)) (drop (n * 512) src)) \<and>
          (r \<noteq> Inr () \<longrightarrow> (\<exists>k < count - n. (k = 0 \<or> (lba + n + k) mod 8 = 0) \<and>
             zram_disk z' = copy_into (zram_disk z1) (512 * (lba + n)) (take (512 * k) (drop (n * 512) src))))"
        by (rule 1(1) [OF False page_def within_def n_def piece_def whole_def whole st [symmetric] None part(1) _ _ 1(5) rest])
          (use part(2) r(3) 1(3,4) in simp_all)
      have room: "512 * lba + 512 * count \<le> length (zram_disk z)" using disk_pages(1) [OF 1(2)] 1(3) by simp
      have join: "copy_into (zram_disk z1) (512 * (lba + n)) (take m (drop (n * 512) src)) = copy_into (zram_disk z) (512 * lba) (take (512 * n + m) src)"
        if "m \<le> 512 * (count - n)" for m
      proof -
        have "take (512 * n + m) src = piece @ take m (drop (n * 512) src)" unfolding take_add piece_def by (simp add: mult.commute)
        moreover have "512 * lba + length (piece @ take m (drop (n * 512) src)) \<le> length (zram_disk z)" using lp room that r(3) by simp
        ultimately show ?thesis using copy_into_append [of "512 * lba" piece "take m (drop (n * 512) src)" "zram_disk z"] lp d1 by (simp add: distrib_left)
      qed
      show ?thesis
      proof (cases "r = Inr ()")
        case True
        then show ?thesis
          using ih part(2,3,6) join [of "512 * (count - n)"] 1(4) r(3) by (simp add: algebra_simps)
      next
        case fail: False
        with ih have "\<exists>k < count - n. (k = 0 \<or> (lba + n + k) mod 8 = 0) \<and>
            zram_disk z' = copy_into (zram_disk z1) (512 * (lba + n)) (take (512 * k) (drop (n * 512) src))" by simp
        then obtain k where "k < count - n \<and> (k = 0 \<or> (lba + n + k) mod 8 = 0) \<and>
            zram_disk z' = copy_into (zram_disk z1) (512 * (lba + n)) (take (512 * k) (drop (n * 512) src))" by (rule exE)
        then have k: "k < count - n" "k = 0 \<or> (lba + n + k) mod 8 = 0"
          "zram_disk z' = copy_into (zram_disk z1) (512 * (lba + n)) (take (512 * k) (drop (n * 512) src))" by simp_all
        have "n + k < count" "n + k = 0 \<or> (lba + (n + k)) mod 8 = 0" using k(1,2) r(8) by (auto simp: add.assoc)
        moreover have "zram_disk z' = copy_into (zram_disk z) (512 * lba) (take (512 * (n + k)) src)"
          using k(1,3) join [of "512 * k"] by (simp add: algebra_simps)
        ultimately have "\<exists>k < count. (k = 0 \<or> (lba + k) mod 8 = 0) \<and> zram_disk z' = copy_into (zram_disk z) (512 * lba) (take (512 * k) src)" by (intro exI [of _ "n + k"] conjI)
        then show ?thesis using ih part(2,3,6) fail by simp
      qed
    qed
  qed
qed

section \<open>Discarding and the attributes\<close>

lemma clear_pages_spec:
  assumes "zram_ok z" "set pages \<subseteq> {..<length (the_slots z)}" "z' = clear_pages z pages"
  shows "zram_ok z' \<and> length (the_slots z') = length (the_slots z) \<and> (z_slots z' = None \<longleftrightarrow> z_slots z = None) \<and> z_page_count z' = z_page_count z \<and>
    (\<forall>q < length (the_slots z). page_data z' q = (if q \<in> set pages then replicate 4096 0 else page_data z q) \<and>
       (q \<in> set pages \<longrightarrow> the_slots z' ! q = empty_slot) \<and> (the_slots z ! q = empty_slot \<longrightarrow> the_slots z' ! q = empty_slot))"
  using assms
proof (induction pages arbitrary: z)
  case Nil
  then show ?case by simp
next
  case (Cons p pages)
  have p: "p < length (the_slots z)" using Cons.prems(2) by simp
  let ?z = "slot_clear z p"
  have len: "length (the_slots ?z) = length (the_slots z)" "the_slots ?z = (the_slots z)[p := empty_slot]" by (simp_all add: slot_clear_fields)
  have "zram_ok z' \<and> length (the_slots z') = length (the_slots ?z) \<and> (z_slots z' = None \<longleftrightarrow> z_slots ?z = None) \<and> z_page_count z' = z_page_count ?z \<and>
      (\<forall>q < length (the_slots ?z). page_data z' q = (if q \<in> set pages then replicate 4096 0 else page_data ?z q) \<and>
         (q \<in> set pages \<longrightarrow> the_slots z' ! q = empty_slot) \<and> (the_slots ?z ! q = empty_slot \<longrightarrow> the_slots z' ! q = empty_slot))"
    by (rule Cons.IH [OF slot_clear_ok [OF Cons.prems(1) p]]) (use Cons.prems(2,3) len in simp_all)
  then show ?case
    using len slot_clear_pages [OF Cons.prems(1) p] slot_clear_fields(3,6) [of z p] p by (auto simp: nth_list_update)
qed

lemma discard_pages_clear:
  "set pages \<subseteq> {..<length (the_slots z)} \<Longrightarrow> \<exists>v. discard_pages z pages = (clear_pages z pages)\<lparr>z_freed_notices := v\<rparr>"
proof (induction pages arbitrary: z)
  case Nil
  then show ?case by (intro exI [of _ "z_freed_notices z"]) simp
next
  case (Cons p pages)
  have c: "slot_clear (z\<lparr>z_freed_notices := v\<rparr>) p = (slot_clear z p)\<lparr>z_freed_notices := v\<rparr>" for z p v
    by (simp add: slot_clear_def Let_def set_slot_def the_slots_def)
  have cs: "clear_pages (z\<lparr>z_freed_notices := v\<rparr>) ps = (clear_pages z ps)\<lparr>z_freed_notices := v\<rparr>" for z v ps
    by (induction ps arbitrary: z) (simp_all add: c)
  let ?z = "slot_clear (if slot_kind (the_slots z ! p) \<noteq> ZRAM_EMPTY then z\<lparr>z_freed_notices := z_freed_notices z + 1\<rparr> else z) p"
  have "length (the_slots ?z) = length (the_slots z)" by (simp add: slot_clear_fields same_disk_facts(3) [of z "z\<lparr>z_freed_notices := v\<rparr>" for v])
  then obtain v where "discard_pages ?z pages = (clear_pages ?z pages)\<lparr>z_freed_notices := v\<rparr>" using Cons.IH [of ?z] Cons.prems by auto
  then show ?case by (auto simp: Let_def c cs)
qed

lemma range_valid_facts:
  assumes "zram_ok z" "range_valid z lba count"
  shows "unat lba + unat count \<le> 8 * length (the_slots z)" "0 < unat count" "unat lba < 8 * length (the_slots z)"
proof -
  let ?n = "z_page_count z * 8"
  have n: "unat ?n = 8 * length (the_slots z)" using assms(1) by (auto simp: zram_ok_def unat_word_ariths)
  have l: "unat lba < unat ?n" using assms(2) by (simp add: range_valid_def word_less_nat_alt)
  have "unat (ucast count :: u64) \<le> unat (?n - lba)" using assms(2) by (simp add: range_valid_def word_le_nat_alt)
  moreover have "unat (?n - lba) = unat ?n - unat lba" using l by (simp add: unat_sub word_le_nat_alt)
  moreover have "unat (ucast count :: u64) = unat count" by (simp add: unsigned_ucast_eq take_bit_nat_eq_self order_less_le_trans [OF unat_u32_less])
  ultimately show "unat lba + unat count \<le> 8 * length (the_slots z)" "unat lba < 8 * length (the_slots z)" using n l by simp_all
  show "0 < unat count" using assms(2) by (simp add: range_valid_def unat_gt_0)
qed

lemma zram_discard_spec:
  assumes "zram_ok z" "range_valid z lba count" "zram_discard z lba count = (r, z')"
  shows "r = Inr ()" "zram_ok z'" "length (the_slots z') = length (the_slots z)" "z_slots z' = None \<longleftrightarrow> z_slots z = None"
    "page < length (the_slots z) \<Longrightarrow>
       page_data z' page = (if unat lba \<le> 8 * page \<and> 8 * page + 8 \<le> unat lba + unat count then replicate 4096 0 else page_data z page)"
proof -
  note v = range_valid_facts [OF assms(1,2)]
  have small: "8 * length (the_slots z) < 2 ^ 64" using assms(1) by (simp add: zram_ok_def)
  have "8 * length (the_slots z) + 7 < 2 ^ 64"
  proof (rule ccontr)
    assume "\<not> 8 * length (the_slots z) + 7 < 2 ^ 64"
    then have "8 * length (the_slots z) + 7 \<ge> 8 * 2305843009213693952" by simp
    then have "length (the_slots z) \<ge> 2305843009213693952" by linarith
    then show False using small by simp
  qed
  then have l7: "unat lba + 7 < 2 ^ 64" using v(3) by simp
  have first: "unat ((lba + 8 - 1) div 8) = (unat lba + 7) div 8"
  proof -
    have "lba + 8 - 1 = lba + 7" by simp
    then show ?thesis using l7 by (simp add: unat_div unat_word_ariths)
  qed
  have c: "unat (ucast count :: u64) = unat count" by (simp add: unsigned_ucast_eq take_bit_nat_eq_self order_less_le_trans [OF unat_u32_less])
  have stop: "unat ((lba + ucast count) div 8) = (unat lba + unat count) div 8"
    using v(1) small by (simp add: unat_div unat_word_ariths c)
  let ?pages = "[(unat lba + 7) div 8..<(unat lba + unat count) div 8]"
  have sub: "set ?pages \<subseteq> {..<length (the_slots z)}" using v(1) by auto
  have run: "zram_discard z lba count = (Inr (), discard_pages z ?pages)"
    unfolding zram_discard_def Let_def first stop using assms(2) by simp
  obtain w where z': "r = Inr ()" "z' = (clear_pages z ?pages)\<lparr>z_freed_notices := w\<rparr>"
    using discard_pages_clear [OF sub] run assms(3) by auto
  note cl = clear_pages_spec [OF assms(1) sub refl]
  have sd: "same_disk (clear_pages z ?pages) z'" unfolding z'(2) by simp
  note sf = same_disk_facts [OF sd]
  show "r = Inr ()" "zram_ok z'" "length (the_slots z') = length (the_slots z)" "z_slots z' = None \<longleftrightarrow> z_slots z = None"
    using z'(1) cl sf by simp_all
  have load: "slot_load z' q = slot_load (clear_pages z ?pages) q" for q
    by (rule slot_load_cong) (use sd sf(3) in \<open>simp_all add: same_disk_def\<close>)
  assume p: "page < length (the_slots z)"
  have "page \<in> set ?pages \<longleftrightarrow> unat lba \<le> 8 * page \<and> 8 * page + 8 \<le> unat lba + unat count" by auto
  then show "page_data z' page = (if unat lba \<le> 8 * page \<and> 8 * page + 8 \<le> unat lba + unat count then replicate 4096 0 else page_data z page)"
    using cl p unfolding page_data_def load by simp
qed

lemma release_all_spec:
  assumes "zram_ok z"
  shows "zram_ok (release_all z)" "z_slots (release_all z) = None" "z_blobs (release_all z) = (\<lambda>_. None)" "z_memory_used (release_all z) = 0"
    "z_compressed_bytes (release_all z) = 0" "z_stored_pages (release_all z) = 0" "z_same_pages (release_all z) = 0" "z_huge_pages (release_all z) = 0"
proof -
  define z1 where "z1 = (if z_slots z \<noteq> None then clear_pages z [0..<unat (z_page_count z)] else z)"
  have n: "length (the_slots z) = unat (z_page_count z)" using assms by (simp add: zram_ok_def)
  have z1: "zram_ok z1 \<and> (\<forall>s \<in> set (the_slots z1). s = empty_slot)"
  proof (cases "z_slots z")
    case None
    then show ?thesis using assms by (simp add: z1_def the_slots_def)
  next
    case (Some ss)
    then have z1: "z1 = clear_pages z [0..<length (the_slots z)]" by (simp add: z1_def n)
    have "set [0..<length (the_slots z)] \<subseteq> {..<length (the_slots z)}" by auto
    then show ?thesis using clear_pages_spec [OF assms _ z1] by (auto simp: in_set_conv_nth)
  qed
  have e: "blob_addresses (the_slots z1) = []" using z1 by (auto simp: blob_addresses_def filter_empty_conv kind_empty)
  then have b: "z_blobs z1 = (\<lambda>_. None)" using z1 by (simp add: zram_ok_def)
  have t: "total_of f z1 = 0" if "f empty_slot = 0" for f
  proof -
    have "\<forall>s \<in> set ss. s = empty_slot \<Longrightarrow> sum_list (map f ss) = 0" for ss using that by (induction ss) auto
    then show ?thesis using z1 unfolding total_of_def by blast
  qed
  have st: "z_memory_used z1 = 0" "z_compressed_bytes z1 = 0" "z_same_pages z1 = 0" "z_huge_pages z1 = 0" "z_stored_pages z1 = 0"
    using z1 t by (simp_all add: zram_ok_def zram_stats_def used_of_def bytes_of_def kind_of_def kind_empty)
  have r: "release_all z = z1\<lparr>z_slots := None, z_page_count := 0, z_disk_bytes := 0, z_huge_pages_since := 0, z_memory_used_max := z_memory_used z1\<rparr>"
    by (simp add: release_all_def z1_def Let_def)
  show "zram_ok (release_all z)"
    using b st unfolding r by (simp add: zram_ok_def zram_stats_def the_slots_def blob_addresses_def total_of_def)
  show "z_slots (release_all z) = None" "z_blobs (release_all z) = (\<lambda>_. None)" "z_memory_used (release_all z) = 0"
    "z_compressed_bytes (release_all z) = 0" "z_stored_pages (release_all z) = 0" "z_same_pages (release_all z) = 0" "z_huge_pages (release_all z) = 0"
    using b st unfolding r by simp_all
qed

lemma set_disksize_ok:
  assumes "zram_ok z" "set_disksize env z input = (r, z')"
  shows "zram_ok z'" "z_memory_limit z' = z_memory_limit z"
proof -
  have "zram_ok z' \<and> z_memory_limit z' = z_memory_limit z"
  proof (cases "z' = z")
    case True
    then show ?thesis using assms(1) by simp
  next
    case False
    then obtain val where v: "parse_size input = Some val" "z_slots z = None"
      "z' = publish_size (z\<lparr>z_slots := Some (replicate (unat (val div 4096)) empty_slot), z_page_count := val div 4096, z_disk_bytes := val div 4096 * 4096\<rparr>)"
      using assms(2) by (auto simp: set_disksize_def Let_def split: option.split_asm if_split_asm)
    let ?ss = "replicate (unat (val div 4096)) empty_slot"
    have ss: "the_slots z' = ?ss" "the_slots z = []" using v(2,3) by (simp_all add: the_slots_def publish_size_def)
    have "unat (val div 4096) * 8 < 2 ^ 64" using unat_u64_less [of val] by (simp add: unat_div)
    moreover have "blob_addresses ?ss = []" by (simp add: blob_addresses_def kind_empty)
    moreover have "sum_list (map f ?ss) = 0" if "f empty_slot = 0" for f :: "zram_slot \<Rightarrow> u64" using that by (simp add: sum_list_replicate)
    ultimately show ?thesis
      using assms(1) v(3) unfolding zram_ok_def zram_stats_def total_of_def ss
      by (simp add: publish_size_def slot_ok_def kind_empty used_of_def bytes_of_def kind_of_def blob_addresses_def)
  qed
  then show "zram_ok z'" "z_memory_limit z' = z_memory_limit z" by simp_all
qed

section \<open>Numbers as text\<close>

lemma put_chars_fits: "length xs + length cs < room \<Longrightarrow> put_chars xs room cs = xs @ cs"
  by (induction cs arbitrary: xs) simp_all

lemma length_digits_of: "n < 10 ^ Suc k \<Longrightarrow> length (digits_of n) \<le> Suc k"
proof (induction k arbitrary: n)
  case 0
  then show ?case by (simp add: digits_of.simps)
next
  case (Suc k)
  have "n div 10 < 10 ^ Suc k" using Suc.prems by (simp add: div_less_iff_less_mult mult.commute)
  then show ?case using Suc.IH [of "n div 10"] by (simp add: digits_of.simps [of n])
qed

lemma digit_byte: "d < 10 \<Longrightarrow> (48 :: u8) \<le> 48 + of_nat d \<and> 48 + of_nat d \<le> (57 :: u8)"
proof -
  assume "d < 10"
  then have "d \<in> set [0..<10]" by simp
  moreover have "list_all (\<lambda>d. (48 :: u8) \<le> 48 + of_nat d \<and> 48 + of_nat d \<le> (57 :: u8)) [0..<10]" by code_simp
  ultimately show ?thesis unfolding list_all_iff by blast
qed

lemma digit_value: "d < 10 \<Longrightarrow> ucast (48 + of_nat d - 48 :: u8) = (of_nat d :: u64)"
  by (simp add: word_unat_eq_iff unsigned_ucast_eq unat_of_nat take_bit_eq_mod)

lemma digits_of_first: "\<exists>c cs. digits_of n = c # cs \<and> 48 \<le> c \<and> c \<le> (57 :: u8)"
proof (induction n rule: digits_of.induct)
  case (1 v)
  show ?case
  proof (cases "v < 10")
    case True
    then show ?thesis using digit_byte by (simp add: digits_of.simps)
  next
    case False
    then show ?thesis using 1 by (auto simp: digits_of.simps [of v])
  qed
qed

abbreviation (input) parse_max :: nat where
  "parse_max \<equiv> 18446744073709551609"

lemma parse_limit: "((-1 - 9) div 10 :: u64) = 1844674407370955160"
  by code_simp

lemma parse_digits_step:
  assumes "d < 10" "v * 10 + d \<le> parse_max"
  shows "parse_digits (of_nat v) ((48 + of_nat d) # cs) = parse_digits (of_nat (v * 10 + d)) cs"
proof -
  have "v \<le> 1844674407370955160" using assms by linarith
  then have "\<not> (of_nat v :: u64) > 1844674407370955160" by (simp add: word_less_nat_alt unat_of_nat take_bit_eq_mod)
  then show ?thesis
    using digit_byte [OF assms(1)] digit_value [OF assms(1)] by (simp add: parse_limit mult.commute)
qed

lemma parse_digits_of: "n \<le> parse_max \<Longrightarrow> parse_digits 0 (digits_of n @ cs) = parse_digits (of_nat n) cs"
proof (induction n arbitrary: cs rule: digits_of.induct)
  case (1 v)
  show ?case
  proof (cases "v < 10")
    case True
    then show ?thesis using parse_digits_step [of v 0 cs] by (simp add: digits_of.simps)
  next
    case False
    have "parse_digits 0 (digits_of v @ cs) = parse_digits (of_nat (v div 10)) ((48 + of_nat (v mod 10)) # cs)"
      using 1(1) [OF False, of "(48 + of_nat (v mod 10)) # cs"] 1(2) False by (simp add: digits_of.simps [of v])
    also have "\<dots> = parse_digits (of_nat (v div 10 * 10 + v mod 10)) cs" by (rule parse_digits_step) (use 1(2) in simp_all)
    finally show ?thesis by simp
  qed
qed

lemma parse_size_digits:
  assumes "unat v \<le> parse_max"
  shows "parse_size (digits_of (unat v) @ [10]) = Some v"
proof -
  obtain c cs where c: "digits_of (unat v) = c # cs" "48 \<le> c" using digits_of_first by blast
  have "c \<noteq> 32 \<and> c \<noteq> 9" using c(2) by auto
  then have drop: "dropWhile (\<lambda>c. c = 32 \<or> c = 9) (digits_of (unat v) @ [10]) = digits_of (unat v) @ [10]" using c(1) by simp
  have parse: "parse_digits 0 (digits_of (unat v) @ [10]) = Some (v, [10])" using parse_digits_of [OF assms, of "[10]"] by (simp add: word_le_nat_alt)
  have suffix: "size_suffix [10] = (0, [10])" by (simp add: size_suffix_def ascii_def)
  show ?thesis unfolding parse_size_def Let_def drop parse by (simp add: suffix c(1))
qed

lemma parse_digits_bound: "parse_digits v cs = Some (w, rest) \<Longrightarrow> unat v \<le> parse_max \<Longrightarrow> unat w \<le> parse_max"
proof (induction v cs rule: parse_digits.induct)
  case (1 v)
  then show ?case by simp
next
  case (2 v c cs)
  show ?case
  proof (cases "48 \<le> c \<and> c \<le> 57")
    case True
    then have le: "unat v \<le> 1844674407370955160" using 2(2) by (auto simp: parse_limit word_less_nat_alt word_le_nat_alt split: if_split_asm)
    have "unat (c - 48) \<le> 9" using True by (auto simp: unat_sub word_le_nat_alt)
    then have "unat (ucast (c - 48) :: u64) \<le> 9" using unat_ucast_le le_trans by blast
    then have "unat (v * 10 + ucast (c - 48)) \<le> parse_max" using le by (simp add: unat_word_ariths)
    then show ?thesis using 2 True by (auto split: if_split_asm)
  next
    case False
    then show ?thesis using 2 by auto
  qed
qed

lemma parse_size_bound:
  assumes "parse_size input = Some v"
  shows "unat v \<le> parse_max"
proof -
  obtain w rest shift rest1 where p: "parse_digits 0 (dropWhile (\<lambda>c. c = 32 \<or> c = 9) input) = Some (w, rest)"
    "size_suffix rest = (shift, rest1)" "\<not> (shift \<noteq> 0 \<and> w > drop_bit shift (-1))" "v = push_bit shift w"
    using assms by (auto simp: parse_size_def Let_def split: option.split_asm prod.split_asm if_split_asm)
  have s: "shift = 0 \<or> shift = 10 \<or> shift = 20 \<or> shift = 30 \<or> shift = 40"
    using p(2) by (auto simp: size_suffix_def split: list.split_asm if_split_asm)
  show ?thesis
  proof (cases "shift = 0")
    case True
    then show ?thesis using p(1,4) parse_digits_bound by simp
  next
    case False
    then have "shift \<le> 40" "10 \<le> shift" "w \<le> drop_bit shift (-1)" using s p(3) by auto
    then have "unat w \<le> unat (drop_bit shift (-1 :: u64))" by (simp add: word_le_nat_alt)
    also have "\<dots> = (2 ^ 64 - 1) div 2 ^ shift"
      unfolding unsigned_drop_bit_eq by (simp add: drop_bit_eq_div unsigned_minus_1_eq_mask mask_eq_exp_minus_1)
    finally have w: "unat w * 2 ^ shift \<le> 2 ^ 64 - 1" by (metis div_le_mono le_trans mult_le_mono1 div_times_less_eq_dividend)
    have "unat v = unat w * 2 ^ shift mod 2 ^ 64"
      unfolding p(4) unsigned_push_bit_eq by (simp add: take_bit_eq_mod push_bit_eq_mult)
    then have v: "unat v = unat w * 2 ^ shift" using w by simp
    have "(2 :: nat) ^ 10 dvd 2 ^ shift" using \<open>10 \<le> shift\<close> by (rule le_imp_power_dvd)
    then have "2 ^ 10 dvd unat v" unfolding v by (rule dvd_mult)
    then obtain k where k: "unat v = 1024 * k" "1024 * k \<le> 2 ^ 64 - 1" using w v by (auto simp: dvd_def)
    have "k < 18014398509481984" by (rule ccontr) (use k(2) in simp)
    then show ?thesis using k(1) by simp
  qed
qed

section \<open>Runs\<close>

text \<open>
  The states the disk can be in: any sequence of requests and writes to its attributes from the start.
\<close>

inductive zram_reach :: "zram_alloc \<Rightarrow> zram \<Rightarrow> bool" for alloc :: zram_alloc where
  reach_start: "zram_reach alloc zram_start"
| reach_read: "zram_reach alloc z \<Longrightarrow> zram_reach alloc (snd (zram_read z lba count))"
| reach_write: "zram_reach alloc z \<Longrightarrow> length src = 512 * unat count \<Longrightarrow> zram_reach alloc (snd (zram_write alloc z lba count src))"
| reach_discard: "zram_reach alloc z \<Longrightarrow> zram_reach alloc (snd (zram_discard z lba count))"
| reach_attribute: "zram_reach alloc z \<Longrightarrow> zram_reach alloc (snd (attribute_write env z which input))"

definition limit_ok :: "zram \<Rightarrow> bool" where
  "limit_ok z \<longleftrightarrow> unat (z_memory_limit z) \<le> parse_max"

lemma zram_read_spec:
  assumes "zram_ok z" "range_valid z lba count"
  shows "zram_read z lba count = (Inr (take (512 * unat count) (drop (512 * unat lba) (zram_disk z))), z)"
  using zram_read_loop_spec [OF assms(1) range_valid_facts(1) [OF assms], of "[]"] assms(2) by (simp add: zram_read_def)

lemma zram_write_spec:
  assumes "zram_ok z" "range_valid z lba count" "length src = 512 * unat count" "fresh_alloc alloc" "zram_write alloc z lba count src = (r, z')"
  shows "zram_ok z'" "length (the_slots z') = length (the_slots z)" "r = Inr () \<Longrightarrow> zram_disk z' = copy_into (zram_disk z) (512 * unat lba) src"
    "r \<noteq> Inr () \<Longrightarrow> \<exists>k < unat count. (k = 0 \<or> (unat lba + k) mod 8 = 0) \<and> zram_disk z' = copy_into (zram_disk z) (512 * unat lba) (take (512 * k) src)"
    "z_memory_limit z' = z_memory_limit z"
  using zram_write_loop_spec [OF assms(1) range_valid_facts(1) [OF assms(1,2)] assms(3,4)] assms(2,5) by (simp_all add: zram_write_def)

lemma read_loop_limit: "z_memory_limit (snd (zram_read_loop z lba count dst)) = z_memory_limit z"
proof (induction z lba count dst rule: zram_read_loop.induct)
  case (1 z lba count dst)
  then show ?case by (subst zram_read_loop.simps) (auto simp: Let_def split: sum.split)
qed

lemma clear_pages_limit: "z_memory_limit (clear_pages z pages) = z_memory_limit z"
  by (induction pages arbitrary: z) (simp_all add: slot_clear_fields)

lemma discard_pages_limit: "z_memory_limit (discard_pages z pages) = z_memory_limit z"
  by (induction pages arbitrary: z) (simp_all add: Let_def slot_clear_fields)

lemma publish_limit: "z_memory_limit (publish_size z) = z_memory_limit z"
  by (simp add: publish_size_def)

lemma attribute_write_ok:
  assumes "zram_ok z" "limit_ok z"
  shows "zram_ok (snd (attribute_write env z which input)) \<and> limit_ok (snd (attribute_write env z which input))"
proof (cases which)
  case ATTR_DISKSIZE
  obtain r z' where "set_disksize env z input = (r, z')" by fastforce
  then show ?thesis using set_disksize_ok [OF assms(1)] assms(2) ATTR_DISKSIZE by (simp add: attribute_write_def limit_ok_def)
next
  case ATTR_RESET
  have "z_memory_limit (release_all z) = z_memory_limit z" by (simp add: release_all_def Let_def clear_pages_limit)
  then show ?thesis
    using release_all_spec(1) [OF assms(1)] assms ATTR_RESET same_disk_facts(1) [OF same_disk_counters(8)] publish_limit
    by (auto simp: attribute_write_def limit_ok_def split: option.split)
next
  case ATTR_LIMIT
  then show ?thesis
    using assms same_disk_facts(1) [of z "z\<lparr>z_memory_limit := v\<rparr>" for v] parse_size_bound
    by (auto simp: attribute_write_def limit_ok_def split: option.split)
next
  case ATTR_USED_MAX
  then show ?thesis
    using assms same_disk_facts(1) [of z "z\<lparr>z_memory_used_max := v\<rparr>" for v]
    by (auto simp: attribute_write_def limit_ok_def split: option.split)
qed (use assms in \<open>simp_all add: attribute_write_def\<close>)

lemma zram_reach_ok:
  assumes "zram_reach alloc z" "fresh_alloc alloc"
  shows "zram_ok z \<and> limit_ok z"
  using assms(1)
proof induction
  case reach_start
  then show ?case
    by (simp add: zram_ok_def zram_stats_def total_of_def the_slots_def zram_start_def blob_addresses_def limit_ok_def)
next
  case (reach_read z lba count)
  show ?case
  proof (cases "range_valid z lba count")
    case True
    then show ?thesis using zram_read_spec reach_read.IH by simp
  next
    case False
    then show ?thesis using reach_read.IH same_disk_facts(1) [of z "z\<lparr>z_invalid_io := v\<rparr>" for v] by (simp add: zram_read_def limit_ok_def)
  qed
next
  case (reach_write z src count lba)
  obtain r z' where w: "zram_write alloc z lba count src = (r, z')" by fastforce
  show ?case
  proof (cases "range_valid z lba count")
    case True
    then show ?thesis using zram_write_spec(1,5) [OF _ True reach_write.hyps(2) assms(2) w] reach_write.IH w by (simp add: limit_ok_def)
  next
    case False
    then show ?thesis using reach_write.IH same_disk_facts(1) [of z "z\<lparr>z_invalid_io := v\<rparr>" for v] by (simp add: zram_write_def limit_ok_def)
  qed
next
  case (reach_discard z lba count)
  obtain r z' where w: "zram_discard z lba count = (r, z')" by fastforce
  show ?case
  proof (cases "range_valid z lba count")
    case True
    moreover have "z_memory_limit z' = z_memory_limit z" using w True by (auto simp: zram_discard_def Let_def discard_pages_limit)
    ultimately show ?thesis using zram_discard_spec(2) [OF _ _ w] reach_discard.IH w by (simp add: limit_ok_def)
  next
    case False
    then show ?thesis using reach_discard.IH by (simp add: zram_discard_def)
  qed
next
  case (reach_attribute z env which input)
  then show ?case using attribute_write_ok by blast
qed

section \<open>Properties\<close>

text \<open>
  C5: The compressed memory disk is a disk. In every state it can reach, a read of a valid range succeeds and returns the bytes of the
  disk, whichever way their pages are kept; a write that succeeds changes exactly the bytes of its range; a write that fails for
  lack of memory has written a prefix of its range that ends at a page, and nothing else; discarding clears the pages
  inside the range and keeps all others.
\<close>

theorem zram_is_disk:
  assumes "fresh_alloc alloc" "zram_reach alloc z" "range_valid z lba count" "length src = 512 * unat count"
  shows "zram_read z lba count = (Inr (take (512 * unat count) (drop (512 * unat lba) (zram_disk z))), z) \<and>
    (case zram_write alloc z lba count src of
       (Inr _, z') \<Rightarrow> zram_disk z' = copy_into (zram_disk z) (512 * unat lba) src
     | (Inl _, z') \<Rightarrow> \<exists>k < unat count. (k = 0 \<or> (unat lba + k) mod 8 = 0) \<and> zram_disk z' = copy_into (zram_disk z) (512 * unat lba) (take (512 * k) src)) \<and>
    (\<forall>page < length (the_slots z). take 4096 (drop (4096 * page) (zram_disk (snd (zram_discard z lba count)))) =
       (if unat lba \<le> 8 * page \<and> 8 * page + 8 \<le> unat lba + unat count then replicate 4096 0 else take 4096 (drop (4096 * page) (zram_disk z))))"
proof -
  have ok: "zram_ok z" using zram_reach_ok [OF assms(2,1)] by simp
  obtain r z' where w: "zram_write alloc z lba count src = (r, z')" by fastforce
  note ws = zram_write_spec [OF ok assms(3,4,1) w]
  have "case (r, z') of
       (Inr _, z') \<Rightarrow> zram_disk z' = copy_into (zram_disk z) (512 * unat lba) src
     | (Inl _, z') \<Rightarrow> \<exists>k < unat count. (k = 0 \<or> (unat lba + k) mod 8 = 0) \<and> zram_disk z' = copy_into (zram_disk z) (512 * unat lba) (take (512 * k) src)"
    using ws(3,4) by (cases r) simp_all
  moreover obtain rd zd where d: "zram_discard z lba count = (rd, zd)" by fastforce
  note ds = zram_discard_spec [OF ok assms(3) d]
  have "take 4096 (drop (4096 * page) (zram_disk zd)) =
      (if unat lba \<le> 8 * page \<and> 8 * page + 8 \<le> unat lba + unat count then replicate 4096 0 else take 4096 (drop (4096 * page) (zram_disk z)))"
    if "page < length (the_slots z)" for page
    using disk_pages(2) [OF ds(2)] disk_pages(2) [OF ok that] ds(3,5) that by simp
  ultimately show ?thesis using zram_read_spec [OF ok assms(3)] w d by simp
qed

definition ex_alloc :: zram_alloc where
  "ex_alloc m n = (if m 4096 = None then Some 4096 else None)"

definition ex_zram :: zram where
  "ex_zram = snd (attribute_write \<lparr>usable_pages = 100, table_room = \<lambda>_. True, in_use = False\<rparr> zram_start ATTR_DISKSIZE (ascii ''8192''))"

lemma ex_zram_facts: "fresh_alloc ex_alloc" "zram_reach ex_alloc ex_zram" "range_valid ex_zram 3 2"
proof -
  show "fresh_alloc ex_alloc" by (simp add: fresh_alloc_def ex_alloc_def)
  show "zram_reach ex_alloc ex_zram" unfolding ex_zram_def by (intro zram_reach.intros)
  show "range_valid ex_zram 3 2" by code_simp
qed

theorem zram_is_disk_witness: "zram_read ex_zram 3 2 = (Inr (take (512 * unat (2 :: u32)) (drop (512 * unat (3 :: u64)) (zram_disk ex_zram))), ex_zram)"
  using zram_is_disk [OF ex_zram_facts, of "replicate 1024 1"] by simp



text \<open>
  The memory limit survives being read and written back: in every state the disk can reach, writing the text read from the attribute
  \<^verbatim>\<open>mem_limit\<close> succeeds and changes nothing.
\<close>

lemma zram_limit_roundtrip:
  assumes "fresh_alloc alloc" "zram_reach alloc z"
  shows "\<exists>bytes. attribute_read z ATTR_LIMIT 0 256 = Inr bytes \<and> attribute_write env z ATTR_LIMIT bytes = (Inr (length bytes), z)"
proof -
  let ?d = "digits_of (unat (z_memory_limit z))"
  have lim: "unat (z_memory_limit z) \<le> parse_max" using zram_reach_ok [OF assms(2,1)] by (simp add: limit_ok_def)
  have len: "length ?d \<le> 20" using length_digits_of [of "unat (z_memory_limit z)" 19] unat_u64_less [of "z_memory_limit z"] by simp
  have "attribute_read z ATTR_LIMIT 0 256 = Inr (?d @ [10])"
    using len by (simp add: attribute_read_def attribute_text_def put_number_def put_text_def ascii_def put_chars_fits text_reply_def)
  moreover have "attribute_write env z ATTR_LIMIT (?d @ [10]) = (Inr (length (?d @ [10])), z)"
    using parse_size_digits [OF lim] by (simp add: attribute_write_def)
  ultimately show ?thesis by blast
qed

end
