(* ===== verification/Crc.thy ===== *)
theory Crc
  imports Prelude
begin

text \<open>
  The checksums of \<^verbatim>\<open>kernel/lib/crc.c\<close>: the lookup tables, the slicing-by-eight CRC-32C, the
  most-significant-bit-first CRC-32 and the reflected CRC-16. A call takes the static tables as
  they are (\<open>crc_tables\<close>), the bytes of its buffer and, for \<open>crc32c\<close>, the buffer's address, whose low
  bits decide how many bytes the first loop consumes. The reference definitions divide bit by bit; the
  lemmas show that the table driven routines compute them.
\<close>

section \<open>Tables and routines\<close>

text \<open>
  \<open>crc32c_table\<close>, \<open>crc32_be_table\<close>, \<open>crc16_table\<close> and \<open>tables_ready\<close> are the static variables of the
  file. The \<open>_bit\<close> functions are the bodies of the three inner loops of \<open>build_tables\<close>; the slice
  loop stores the value of one round as the next table's entry.
\<close>

record crc_tables =
  crc32c_table :: "u32 list list"
  crc32_be_table :: "u32 list"
  crc16_table :: "u16 list"
  tables_ready :: bool

definition crc32c_bit :: "u32 \<Rightarrow> u32" where
  "crc32c_bit value = drop_bit 1 value XOR (0x82F63B78 AND (0 - (value AND 1)))"

definition crc32_be_bit :: "u32 \<Rightarrow> u32" where
  "crc32_be_bit be = push_bit 1 be XOR (0x04C11DB7 AND (0 - drop_bit 31 be))"

definition crc16_bit :: "u16 \<Rightarrow> u16" where
  "crc16_bit small = drop_bit 1 small XOR (0xA001 AND (0 - (small AND 1)))"

definition crc32c_slice :: "u32 list \<Rightarrow> u32 \<Rightarrow> u32" where
  "crc32c_slice t0 value = drop_bit 8 value XOR t0 ! unat (value AND 0xFF)"

definition build_tables :: "crc_tables \<Rightarrow> crc_tables" where
  "build_tables t =
     (let t0 = map (\<lambda>byte. (crc32c_bit ^^ 8) (of_nat byte)) [0..<256];
          be = map (\<lambda>byte. (crc32_be_bit ^^ 8) (push_bit 24 (of_nat byte))) [0..<256];
          small = map (\<lambda>byte. (crc16_bit ^^ 8) (of_nat byte)) [0..<256];
          slices = map (\<lambda>slice. map (\<lambda>byte. (crc32c_slice t0 ^^ slice) (t0 ! byte)) [0..<256]) [0..<8]
      in t\<lparr>crc32c_table := slices, crc32_be_table := be, crc16_table := small, tables_ready := True\<rparr>)"

definition ensure_tables :: "crc_tables \<Rightarrow> crc_tables" where
  "ensure_tables t = (if tables_ready t then t else build_tables t)"

definition crc32c_byte :: "crc_tables \<Rightarrow> u32 \<Rightarrow> u8 \<Rightarrow> u32" where
  "crc32c_byte t crc b =
     drop_bit 8 crc XOR crc32c_table t ! 0 ! unat ((crc XOR ucast b) AND 0xFF)"

text \<open>
  The three loops of \<open>crc32c\<close>: bytes up to the first address divisible by eight, whole
  eight-byte groups, and the remaining bytes. A group is read as one 64-bit little-endian load, whose
  low half is combined with the running value.
\<close>

fun crc32c_head :: "crc_tables \<Rightarrow> u64 \<Rightarrow> u32 \<Rightarrow> u8 list \<Rightarrow> u32 \<times> u8 list" where
  "crc32c_head t addr crc [] = (crc, [])"
| "crc32c_head t addr crc (b # bs) =
     (if addr AND 7 \<noteq> 0 then crc32c_head t (addr + 1) (crc32c_byte t crc b) bs
      else (crc, b # bs))"

definition crc32c_octet ::
  "crc_tables \<Rightarrow> u32 \<Rightarrow> u8 \<Rightarrow> u8 \<Rightarrow> u8 \<Rightarrow> u8 \<Rightarrow> u8 \<Rightarrow> u8 \<Rightarrow> u8 \<Rightarrow> u8 \<Rightarrow> u32" where
  "crc32c_octet t crc b0 b1 b2 b3 b4 b5 b6 b7 =
     (let low = crc XOR le32 b0 b1 b2 b3;
          high = le32 b4 b5 b6 b7
      in crc32c_table t ! 7 ! unat (low AND 0xFF) XOR
         crc32c_table t ! 6 ! unat (drop_bit 8 low AND 0xFF) XOR
         crc32c_table t ! 5 ! unat (drop_bit 16 low AND 0xFF) XOR
         crc32c_table t ! 4 ! unat (drop_bit 24 low) XOR
         crc32c_table t ! 3 ! unat (high AND 0xFF) XOR
         crc32c_table t ! 2 ! unat (drop_bit 8 high AND 0xFF) XOR
         crc32c_table t ! 1 ! unat (drop_bit 16 high AND 0xFF) XOR
         crc32c_table t ! 0 ! unat (drop_bit 24 high))"

fun crc32c_body :: "crc_tables \<Rightarrow> u32 \<Rightarrow> u8 list \<Rightarrow> u32 \<times> u8 list" where
  "crc32c_body t crc (b0 # b1 # b2 # b3 # b4 # b5 # b6 # b7 # bs) =
     crc32c_body t (crc32c_octet t crc b0 b1 b2 b3 b4 b5 b6 b7) bs"
| "crc32c_body t crc bs = (crc, bs)"

definition crc32c :: "crc_tables \<Rightarrow> u64 \<Rightarrow> u32 \<Rightarrow> u8 list \<Rightarrow> u32" where
  "crc32c tables addr crc bytes =
     (let t = ensure_tables tables;
          (crc1, rest1) = crc32c_head t addr crc bytes;
          (crc2, rest2) = crc32c_body t crc1 rest1
      in foldl (crc32c_byte t) crc2 rest2)"

definition crc32_be :: "crc_tables \<Rightarrow> u32 \<Rightarrow> u8 list \<Rightarrow> u32" where
  "crc32_be tables crc bytes =
     (let t = ensure_tables tables
      in foldl (\<lambda>crc b. push_bit 8 crc XOR
                  crc32_be_table t ! unat ((drop_bit 24 crc XOR ucast b) AND 0xFF)) crc bytes)"

definition crc16 :: "crc_tables \<Rightarrow> u16 \<Rightarrow> u8 list \<Rightarrow> u16" where
  "crc16 tables crc bytes =
     (let t = ensure_tables tables
      in foldl (\<lambda>crc b. drop_bit 8 crc XOR crc16_table t ! unat ((crc XOR ucast b) AND 0xFF))
           crc bytes)"

section \<open>Reference definitions\<close>

text \<open>
  Polynomial division one bit at a time: the byte is added to the running value and eight single-bit
  steps follow. \<open>tables_ok\<close> describes the states of the static tables the file can be in: not yet
  built, or built by \<open>build_tables\<close>.
\<close>

definition crc32c_spec :: "u32 \<Rightarrow> u8 list \<Rightarrow> u32" where
  "crc32c_spec = foldl (\<lambda>crc b. (crc32c_bit ^^ 8) (crc XOR ucast b))"

definition crc32_be_spec :: "u32 \<Rightarrow> u8 list \<Rightarrow> u32" where
  "crc32_be_spec = foldl (\<lambda>crc b. (crc32_be_bit ^^ 8) (crc XOR push_bit 24 (ucast b)))"

definition crc16_spec :: "u16 \<Rightarrow> u8 list \<Rightarrow> u16" where
  "crc16_spec = foldl (\<lambda>crc b. (crc16_bit ^^ 8) (crc XOR ucast b))"

definition tables_ok :: "crc_tables \<Rightarrow> bool" where
  "tables_ok t \<longleftrightarrow> (tables_ready t \<longrightarrow> t = build_tables t)"

section \<open>Linear single-bit steps\<close>

text \<open>
  What the table method relies on: a step that is linear over exclusive or. A reflected step shifts an
  even value right; a step that starts at the most significant bit shifts a value with a clear top bit
  left; and an injective step loses no information.
\<close>

locale crc_linear =
  fixes step :: "'a::len word \<Rightarrow> 'a word"
  assumes step_xor: "step (a XOR b) = step a XOR step b"
begin

lemma step_zero: "step 0 = 0"
  using step_xor [of 0 0] by simp

lemma steps_xor: "(step ^^ n) (a XOR b) = (step ^^ n) a XOR (step ^^ n) b"
  by (induction n) (simp_all add: step_xor)

lemma steps_zero: "(step ^^ n) 0 = 0"
  by (induction n) (simp_all add: step_zero)

end

locale crc_reflected = crc_linear +
  assumes step_even: "\<not> bit v 0 \<Longrightarrow> step v = drop_bit 1 v"
begin

lemma steps_clear: "take_bit n v = 0 \<Longrightarrow> (step ^^ n) v = drop_bit n v"
proof (induction n arbitrary: v)
  case 0
  then show ?case by simp
next
  case (Suc n)
  from Suc.prems have b: "\<not> bit v k" if "k < Suc n" for k
    using that by (metis bit_0_eq bit_take_bit_iff bot_apply bot_bool_def)
  then have s: "step v = drop_bit 1 v" using step_even by auto
  have "take_bit n (drop_bit 1 v) = 0"
    by (rule bit_eqI) (auto simp: bit_simps b)
  then have "(step ^^ n) (drop_bit 1 v) = drop_bit n (drop_bit 1 v)" by (rule Suc.IH)
  moreover have "(step ^^ Suc n) v = (step ^^ n) (step v)"
    by (simp only: funpow_Suc_right o_apply)
  ultimately show ?case using s by simp
qed

lemma steps_push: "drop_bit n (push_bit n v) = v \<Longrightarrow> (step ^^ (n + m)) (push_bit n v) = (step ^^ m) v"
  using steps_clear [of n "push_bit n v"] by (simp add: funpow_add add.commute [of n m] take_bit_push_bit)

lemma table_split: "(step ^^ 8) v = drop_bit 8 v XOR (step ^^ 8) (v AND 0xFF)"
proof -
  have v: "v = (v AND 0xFF) XOR (v AND NOT 0xFF)"
    by (rule bit_eqI) (auto simp: bit_simps)
  have "take_bit 8 (v AND NOT 0xFF) = 0"
    unfolding mask_8 by (rule bit_eqI) (auto simp: bit_simps)
  then have "(step ^^ 8) (v AND NOT 0xFF) = drop_bit 8 (v AND NOT 0xFF)"
    by (rule steps_clear)
  also have "\<dots> = drop_bit 8 v"
    unfolding mask_8 by (rule bit_eqI) (auto simp: bit_simps dest: bit_imp_le_length)
  finally show ?thesis
    using steps_xor [of 8 "v AND 0xFF" "v AND NOT 0xFF"] by (simp only: v [symmetric] xor.commute)
qed

lemma byte_step:
  "(step ^^ 8) (crc XOR ucast b) =
     drop_bit 8 crc XOR (step ^^ 8) ((crc XOR ucast (b :: u8)) AND 0xFF)"
proof -
  have "drop_bit 8 (crc XOR ucast b) = drop_bit 8 crc"
    by (rule bit_eqI) (auto simp: bit_simps dest: bit_imp_le_length)
  then show ?thesis using table_split [of "crc XOR ucast b"] by simp
qed

end

locale crc_msb_first = crc_linear step
  for step :: "'a::len word \<Rightarrow> 'a word" +
  assumes step_top: "LENGTH('a) = Suc n \<Longrightarrow> \<not> bit v n \<Longrightarrow> step v = push_bit 1 v"
begin

lemma steps_clear_top:
  "(\<And>k. LENGTH('a) - n \<le> k \<Longrightarrow> \<not> bit v k) \<Longrightarrow> n \<le> LENGTH('a) \<Longrightarrow> (step ^^ n) v = push_bit n v"
proof (induction n arbitrary: v)
  case 0
  then show ?case by simp
next
  case (Suc n)
  have s: "step v = push_bit 1 v"
    using Suc.prems(1) [of "LENGTH('a) - 1"] step_top [of "LENGTH('a) - 1" v] by simp
  have "\<not> bit (push_bit 1 v) k" if "LENGTH('a) - n \<le> k" for k
    using Suc.prems(1) [of "k - 1"] that unfolding bit_push_bit_iff by auto
  then have "(step ^^ n) (push_bit 1 v) = push_bit n (push_bit 1 v)"
    using Suc.prems by (intro Suc.IH) simp_all
  moreover have "(step ^^ Suc n) v = (step ^^ n) (step v)"
    by (simp only: funpow_Suc_right o_apply)
  ultimately show ?case using s by (simp add: ac_simps)
qed

end

locale crc_injective = crc_linear +
  assumes step_nonzero: "step v = 0 \<Longrightarrow> v = 0"
begin

lemma steps_inj: "(step ^^ n) a = (step ^^ n) b \<Longrightarrow> a = b"
proof (induction n arbitrary: a b)
  case 0
  then show ?case by simp
next
  case (Suc n)
  then have "step ((step ^^ n) a XOR (step ^^ n) b) = 0"
    by (simp add: step_xor)
  then have "(step ^^ n) a XOR (step ^^ n) b = 0" by (rule step_nonzero)
  then have "(step ^^ n) a = (step ^^ n) b" by (simp only: xor_eq_0)
  then show ?case by (rule Suc.IH)
qed

lemma fold_inj:
  "foldl (\<lambda>crc b. (step ^^ 8) (crc XOR f b)) c1 bs = foldl (\<lambda>crc b. (step ^^ 8) (crc XOR f b)) c2 bs
     \<Longrightarrow> c1 = c2"
proof (induction bs arbitrary: c1 c2)
  case Nil
  then show ?case by simp
next
  case (Cons b bs)
  then have "(step ^^ 8) (c1 XOR f b) = (step ^^ 8) (c2 XOR f b)" by simp
  then have "c1 XOR f b = c2 XOR f b" by (rule steps_inj)
  then show ?case by (simp only: xor_cancel_right)
qed

end

section \<open>The three polynomials\<close>

lemma crc32c_bit_alt: "crc32c_bit v = drop_bit 1 v XOR (if bit v 0 then 0x82F63B78 else 0)"
  by (simp add: crc32c_bit_def minus_and_one)

lemma crc16_bit_alt: "crc16_bit v = drop_bit 1 v XOR (if bit v 0 then 0xA001 else 0)"
  by (simp add: crc16_bit_def minus_and_one)

lemma drop_bit_top: "drop_bit 31 v = (if bit v 31 then 1 else 0)" for v :: u32
proof (rule bit_eqI)
  fix n
  show "bit (drop_bit 31 v) n = bit (if bit v 31 then 1 else 0 :: u32) n"
    by (cases n) (auto simp: bit_simps dest: bit_imp_le_length)
qed

lemma crc32_be_bit_alt: "crc32_be_bit v = push_bit 1 v XOR (if bit v 31 then 0x04C11DB7 else 0)"
  by (simp add: crc32_be_bit_def drop_bit_top)

interpretation crc32c: crc_reflected crc32c_bit
  by unfold_locales (simp_all add: crc32c_bit_alt drop_bit_xor bit_xor_iff ac_simps)

interpretation crc16: crc_reflected crc16_bit
  by unfold_locales (simp_all add: crc16_bit_alt drop_bit_xor bit_xor_iff ac_simps)

interpretation crc32_be: crc_msb_first crc32_be_bit
proof unfold_locales
  fix n and v :: u32
  assume "LENGTH(32) = Suc n" "\<not> bit v n"
  then have "\<not> bit v 31" by simp
  then show "crc32_be_bit v = push_bit 1 v" by (simp add: crc32_be_bit_alt)
qed (simp add: crc32_be_bit_alt push_bit_xor bit_xor_iff ac_simps)

lemma crc32c_bit_nonzero: "crc32c_bit v = 0 \<Longrightarrow> v = 0"
proof (cases "bit v 0")
  case True
  assume "crc32c_bit v = 0"
  then have "bit (crc32c_bit v) 31 = False" by simp
  moreover have "bit (drop_bit 1 v) 31 = False"
    using bit_imp_le_length [of v 32] by (auto simp: bit_simps)
  moreover have "bit (0x82F63B78 :: u32) 31" by simp
  ultimately show ?thesis using True by (simp add: crc32c_bit_alt bit_xor_iff)
next
  case False
  assume "crc32c_bit v = 0"
  with False have "drop_bit 1 v = 0" by (simp add: crc32c_bit_alt)
  then have "\<not> bit v (Suc n)" for n
    using bit_drop_bit_eq [of 1 v] by (simp add: fun_eq_iff)
  then have "bit v n = bit 0 n" for n
    using False by (cases n) simp_all
  then show ?thesis by (intro bit_eqI) blast
qed

interpretation crc32c_inj: crc_injective crc32c_bit
  by unfold_locales (rule crc32c_bit_nonzero)


section \<open>Slicing by eight\<close>

lemma crc32c_slice_eq:
  assumes "\<And>i. i < 256 \<Longrightarrow> t0 ! i = (crc32c_bit ^^ 8) (of_nat i)"
  shows "crc32c_slice t0 v = (crc32c_bit ^^ 8) v"
  using assms unat_and_255 [of v] crc32c.table_split [of v]
  by (simp add: crc32c_slice_def)

lemma crc32c_slices_eq:
  assumes "\<And>i. i < 256 \<Longrightarrow> t0 ! i = (crc32c_bit ^^ 8) (of_nat i)"
  shows "(crc32c_slice t0 ^^ k) v = (crc32c_bit ^^ (8 * k)) v"
proof -
  have "crc32c_slice t0 = crc32c_bit ^^ 8"
    using crc32c_slice_eq [OF assms] by blast
  then show ?thesis by (simp add: funpow_mult)
qed

lemma crc32c_table_eq:
  assumes "k < 8" "i < 256"
  shows "crc32c_table (build_tables t) ! k ! i = (crc32c_bit ^^ (8 * k + 8)) (of_nat i)"
proof -
  let ?t0 = "map (\<lambda>byte. (crc32c_bit ^^ 8) (of_nat byte)) [0..<256]"
  have "crc32c_table (build_tables t) ! k ! i = (crc32c_slice ?t0 ^^ k) ((crc32c_bit ^^ 8) (of_nat i))"
    using assms by (simp add: build_tables_def Let_def)
  also have "\<dots> = (crc32c_bit ^^ (8 * k)) ((crc32c_bit ^^ 8) (of_nat i))"
    by (rule crc32c_slices_eq) simp
  finally show ?thesis by (simp add: funpow_add)
qed

lemma crc32c_byte_eq:
  "crc32c_byte (build_tables t) crc b = (crc32c_bit ^^ 8) (crc XOR ucast b)"
  using unat_and_255 [of "crc XOR ucast b"] crc32c.byte_step [of crc b]
  by (simp add: crc32c_byte_def crc32c_table_eq)

lemma crc32c_head_eq:
  "crc32c_head (build_tables t) addr crc bs = (c', rest) \<Longrightarrow>
   crc32c_spec c' rest = crc32c_spec crc bs"
  by (induction "build_tables t" addr crc bs arbitrary: c' rest rule: crc32c_head.induct)
    (auto simp: crc32c_spec_def crc32c_byte_eq split: if_splits)

lemma word32_bytes:
  "v = (v AND 0xFF) XOR push_bit 8 (drop_bit 8 v AND 0xFF) XOR push_bit 16 (drop_bit 16 v AND 0xFF)
       XOR push_bit 24 (drop_bit 24 v)" for v :: u32
proof -
  show ?thesis
    unfolding mask_8 by (rule bit_eqI) (auto simp: bit_simps)
qed

lemma drop_push_byte: 
  fixes v :: u32
  shows "drop_bit 8 (push_bit 8 (v AND 0xFF)) = v AND 0xFF" 
   and "drop_bit 16 (push_bit 16 (v AND 0xFF)) = v AND 0xFF"
   and "drop_bit 24 (push_bit 24 (drop_bit 24 v)) = drop_bit 24 v"
proof -
  show "drop_bit 8 (push_bit 8 (v AND 0xFF)) = v AND 0xFF" 
    unfolding mask_8 by (rule bit_eqI) (auto simp: bit_simps)
  show "drop_bit 16 (push_bit 16 (v AND 0xFF)) = v AND 0xFF"
    unfolding mask_8 by (rule bit_eqI) (auto simp: bit_simps)
  show "drop_bit 24 (push_bit 24 (drop_bit 24 v)) = drop_bit 24 v"
    by (rule bit_eqI) (auto simp: bit_simps dest: bit_imp_le_length)
qed

lemma crc32c_word_split:
  "(crc32c_bit ^^ (32 + n)) v =
     (crc32c_bit ^^ (32 + n)) (v AND 0xFF) XOR
     (crc32c_bit ^^ (24 + n)) (drop_bit 8 v AND 0xFF) XOR
     (crc32c_bit ^^ (16 + n)) (drop_bit 16 v AND 0xFF) XOR
     (crc32c_bit ^^ (8 + n)) (drop_bit 24 v)"
proof -
  have "(crc32c_bit ^^ (32 + n)) v = (crc32c_bit ^^ (32 + n)) ((v AND 0xFF) XOR push_bit 8 (drop_bit 8 v AND 0xFF) XOR
      push_bit 16 (drop_bit 16 v AND 0xFF) XOR push_bit 24 (drop_bit 24 v))"
    by (subst word32_bytes) (rule refl)
  also have "\<dots> = (crc32c_bit ^^ (32 + n)) (v AND 0xFF) XOR
     (crc32c_bit ^^ (8 + (24 + n))) (push_bit 8 (drop_bit 8 v AND 0xFF)) XOR
     (crc32c_bit ^^ (16 + (16 + n))) (push_bit 16 (drop_bit 16 v AND 0xFF)) XOR
     (crc32c_bit ^^ (24 + (8 + n))) (push_bit 24 (drop_bit 24 v))"
    by (simp add: crc32c.steps_xor)
  finally show ?thesis
    by (simp only: crc32c.steps_push drop_push_byte)
qed


lemma steps_push_byte:
  assumes "n \<le> 24"
  shows "(crc32c_bit ^^ n) (push_bit n (ucast (b :: u8))) = ucast b"
proof -
  have "drop_bit n (push_bit n (ucast b :: u32)) = ucast b"
    using assms by (intro bit_eqI) (auto simp: bit_simps dest: bit_imp_le_length)
  from crc32c.steps_push [OF this, of 0] show ?thesis by simp
qed

lemma crc32c_spec_word:
  "crc32c_spec crc [b0, b1, b2, b3] =
     (crc32c_bit ^^ 32) (crc XOR le32 b0 b1 b2 b3)"
proof -
  let ?S = "\<lambda>n. crc32c_bit ^^ n"
  have "crc32c_spec crc [b0, b1, b2, b3] =
      ?S 32 crc XOR ?S 32 (ucast b0) XOR ?S 24 (ucast b1) XOR ?S 16 (ucast b2) XOR ?S 8 (ucast b3)"
    by (simp add: crc32c_spec_def crc32c.steps_xor funpow_funpow_add xor.assoc)
  also have "?S 24 (ucast b1) = ?S 32 (push_bit 8 (ucast b1))"
    using steps_push_byte [of 8 b1] funpow_add [of 24 8 crc32c_bit] by simp
  also have "?S 16 (ucast b2) = ?S 32 (push_bit 16 (ucast b2))"
    using steps_push_byte [of 16 b2] funpow_add [of 16 16 crc32c_bit] by simp
  also have "?S 8 (ucast b3) = ?S 32 (push_bit 24 (ucast b3))"
    using steps_push_byte [of 24 b3] funpow_add [of 8 24 crc32c_bit] by simp
  finally show ?thesis
    by (simp add: le32_xor crc32c.steps_xor)
qed

lemma unat_drop_24: "unat (drop_bit 24 v) < 256" for v :: u32
proof -
  have "drop_bit 24 v = drop_bit 24 v AND 0xFF"
    unfolding mask_8 by (rule bit_eqI) (auto simp: bit_simps dest: bit_imp_le_length)
  then show ?thesis using unat_and_255 [of "drop_bit 24 v"] by simp
qed

lemma crc32c_table_word:
  assumes "unat v < 256"
  shows "crc32c_table (build_tables t) ! 0 ! unat v = (crc32c_bit ^^ 8) v"
    "crc32c_table (build_tables t) ! 1 ! unat v = (crc32c_bit ^^ 16) v"
    "crc32c_table (build_tables t) ! 2 ! unat v = (crc32c_bit ^^ 24) v"
    "crc32c_table (build_tables t) ! 3 ! unat v = (crc32c_bit ^^ 32) v"
    "crc32c_table (build_tables t) ! 4 ! unat v = (crc32c_bit ^^ 40) v"
    "crc32c_table (build_tables t) ! 5 ! unat v = (crc32c_bit ^^ 48) v"
    "crc32c_table (build_tables t) ! 6 ! unat v = (crc32c_bit ^^ 56) v"
    "crc32c_table (build_tables t) ! 7 ! unat v = (crc32c_bit ^^ 64) v"
  using assms by (simp_all add: crc32c_table_eq)

lemma crc32c_octet_eq:
  "crc32c_octet (build_tables t) crc b0 b1 b2 b3 b4 b5 b6 b7 =
   crc32c_spec crc [b0, b1, b2, b3, b4, b5, b6, b7]"
proof -
  define low where "low = crc XOR le32 b0 b1 b2 b3"
  define high where "high = le32 b4 b5 b6 b7"
  have "crc32c_octet (build_tables t) crc b0 b1 b2 b3 b4 b5 b6 b7 =
      (crc32c_bit ^^ 64) low XOR (crc32c_bit ^^ 32) high"
    using crc32c_word_split [of 32 low] crc32c_word_split [of 0 high]
    unfolding crc32c_octet_def Let_def low_def [symmetric] high_def [symmetric]
      crc32c_table_word [OF unat_and_255] crc32c_table_word [OF unat_drop_24]
    by (simp add: xor.assoc)
  also have "\<dots> = (crc32c_bit ^^ 32) ((crc32c_bit ^^ 32) low XOR high)"
    unfolding crc32c.steps_xor funpow_funpow_add by simp
  also have "\<dots> = crc32c_spec (crc32c_spec crc [b0, b1, b2, b3]) [b4, b5, b6, b7]"
    by (simp only: crc32c_spec_word low_def high_def)
  finally show ?thesis by (simp add: crc32c_spec_def)
qed

lemma crc32c_body_eq:
  "crc32c_body (build_tables t) crc bs = (c', rest) \<Longrightarrow>
   crc32c_spec c' rest = crc32c_spec crc bs"
  by (induction "build_tables t" crc bs arbitrary: c' rest rule: crc32c_body.induct)
    (auto simp: crc32c_octet_eq crc32c_spec_def)

lemma ensure_tables_ok: "tables_ok t \<Longrightarrow> ensure_tables t = build_tables t"
  by (auto simp: ensure_tables_def tables_ok_def)

lemma crc32c_correct:
  assumes "tables_ok t"
  shows "crc32c t addr crc bytes = crc32c_spec crc bytes"
proof -
  obtain c1 r1 where h: "crc32c_head (build_tables t) addr crc bytes = (c1, r1)" by fastforce
  obtain c2 r2 where b: "crc32c_body (build_tables t) c1 r1 = (c2, r2)" by fastforce
  have eq: "crc32c_byte (build_tables t) = (\<lambda>crc b. (crc32c_bit ^^ 8) (crc XOR ucast b))"
    by (intro ext) (rule crc32c_byte_eq)
  have "crc32c t addr crc bytes = foldl (crc32c_byte (build_tables t)) c2 r2"
    using assms h b by (simp add: crc32c_def ensure_tables_ok)
  also have "\<dots> = crc32c_spec c2 r2"
    by (simp add: crc32c_spec_def eq)
  finally show ?thesis
    using crc32c_head_eq [OF h] crc32c_body_eq [OF b] by simp
qed

lemma crc16_byte_eq:
  "drop_bit 8 crc XOR crc16_table (build_tables t) ! unat ((crc XOR ucast b) AND 0xFF) =
     (crc16_bit ^^ 8) (crc XOR ucast (b :: u8))"
  using unat_and_255 [of "crc XOR ucast b"] crc16.byte_step [of crc b]
  by (simp add: build_tables_def Let_def)

lemma crc32_be_split:
  "(crc32_be_bit ^^ 8) v = push_bit 8 v XOR (crc32_be_bit ^^ 8) (push_bit 24 (drop_bit 24 v))"
proof -
  let ?low = "take_bit 24 v"
  have v: "v = ?low XOR push_bit 24 (drop_bit 24 v)"
    by (rule bit_eqI) (auto simp: bit_simps)
  have "(crc32_be_bit ^^ 8) ?low = push_bit 8 ?low"
    by (rule crc32_be.steps_clear_top) (auto simp: bit_simps)
  also have "\<dots> = push_bit 8 v"
    by (rule bit_eqI) (auto simp: bit_simps)
  finally show ?thesis
    using crc32_be.steps_xor [of 8 ?low "push_bit 24 (drop_bit 24 v)"] by (simp only: v [symmetric])
qed

lemma crc32_be_byte_eq:
  "push_bit 8 crc XOR crc32_be_table (build_tables t) ! unat ((drop_bit 24 crc XOR ucast b) AND 0xFF) =
     (crc32_be_bit ^^ 8) (crc XOR push_bit 24 (ucast (b :: u8)))"
proof -
  let ?i = "(drop_bit 24 crc XOR ucast b) AND 0xFF"
  have i: "drop_bit 24 (crc XOR push_bit 24 (ucast b)) = ?i"
    unfolding mask_8 by (rule bit_eqI) (auto simp: bit_simps dest: bit_imp_le_length)
  have "crc32_be_table (build_tables t) ! unat ?i = (crc32_be_bit ^^ 8) (push_bit 24 ?i)"
    using unat_and_255 [of "drop_bit 24 crc XOR ucast b"] by (simp add: build_tables_def Let_def)
  moreover have "push_bit 8 (crc XOR push_bit 24 (ucast b)) = push_bit 8 crc"
    by (rule bit_eqI) (auto simp: bit_simps)
  moreover have "(crc32_be_bit ^^ 8) (crc XOR push_bit 24 (ucast b)) =
      push_bit 8 (crc XOR push_bit 24 (ucast b)) XOR (crc32_be_bit ^^ 8) (push_bit 24 ?i)"
    using crc32_be_split [of "crc XOR push_bit 24 (ucast b)"] unfolding i .
  ultimately show ?thesis by (simp only:)
qed

lemma crc16_correct: "tables_ok t \<Longrightarrow> crc16 t crc bytes = crc16_spec crc bytes"
  unfolding crc16_def crc16_spec_def Let_def ensure_tables_ok crc16_byte_eq by (rule refl)

lemma crc32_be_correct: "tables_ok t \<Longrightarrow> crc32_be t crc bytes = crc32_be_spec crc bytes"
  unfolding crc32_be_def crc32_be_spec_def Let_def ensure_tables_ok crc32_be_byte_eq by (rule refl)

lemma crc32c_spec_append: "crc32c_spec c (xs @ ys) = crc32c_spec (crc32c_spec c xs) ys"
  by (simp add: crc32c_spec_def)

lemma crc32c_spec_inj: "crc32c_spec c1 bs = crc32c_spec c2 bs \<Longrightarrow> c1 = c2"
  unfolding crc32c_spec_def by (rule crc32c_inj.fold_inj)

lemma crc32c_spec_word_inj:
  assumes "length xs = 4" "length ys = 4" "crc32c_spec c xs = crc32c_spec c ys"
  shows "xs = ys"
proof -
  obtain x0 x1 x2 x3 where x: "xs = [x0, x1, x2, x3]"
    using assms(1) by (auto simp: length_Suc_conv numeral_eq_Suc)
  obtain y0 y1 y2 y3 where y: "ys = [y0, y1, y2, y3]"
    using assms(2) by (auto simp: length_Suc_conv numeral_eq_Suc)
  have "(crc32c_bit ^^ 32) (c XOR le32 x0 x1 x2 x3) = (crc32c_bit ^^ 32) (c XOR le32 y0 y1 y2 y3)"
    using assms(3) by (simp only: x y crc32c_spec_word)
  then have "c XOR le32 x0 x1 x2 x3 = c XOR le32 y0 y1 y2 y3"
    by (rule crc32c_inj.steps_inj)
  then show ?thesis by (simp add: x y xor_cancel_left le32_inject)
qed

section \<open>Properties\<close>

text \<open>
  C32: \<open>crc32c\<close> with its alignment loop, its eight tables and its tail loop returns the bit by bit
  CRC-32C of the buffer, for every buffer, every start address and every initial value, whether
  or not the tables were already built.
\<close>

theorem crc32c_eq_bitwise:
  assumes "tables_ok t"
  shows "crc32c t addr crc bytes = crc32c_spec crc bytes"
  using assms by (rule crc32c_correct)

theorem crc32c_eq_bitwise_witness:
  "let t = \<lparr>crc32c_table = [], crc32_be_table = [], crc16_table = [], tables_ready = False\<rparr>
   in tables_ok t \<and> crc32c t 5 0xFFFFFFFF [1, 2, 3] = crc32c_spec 0xFFFFFFFF [1, 2, 3]"
  using crc32c_eq_bitwise
    [of "\<lparr>crc32c_table = [], crc32_be_table = [], crc16_table = [], tables_ready = False\<rparr>" 5 "0xFFFFFFFF" "[1, 2, 3]"]
  by (simp add: tables_ok_def)

text \<open>
  The table driven \<open>crc32_be\<close> and \<open>crc16\<close> return the bit by bit CRC of the buffer in their
  bit orders, for every buffer and initial value.
\<close>

lemma crc_tables_eq_bitwise:
  assumes "tables_ok t"
  shows "crc32_be t crc bytes = crc32_be_spec crc bytes \<and> crc16 t crc' bytes = crc16_spec crc' bytes"
  using assms by (simp add: crc32_be_correct crc16_correct)

text \<open>
  Two buffers that differ only inside four adjacent bytes have different CRC-32C values: the checksum
  the journal and the metadata blocks carry detects every error burst of up to 32 bits.
\<close>

lemma crc32c_detects_burst:
  assumes "tables_ok t" "length xs = 4" "length ys = 4" "xs \<noteq> ys"
  shows "crc32c t addr crc (pre @ xs @ post) \<noteq> crc32c t addr crc (pre @ ys @ post)"
proof
  assume "crc32c t addr crc (pre @ xs @ post) = crc32c t addr crc (pre @ ys @ post)"
  then have "crc32c_spec (crc32c_spec crc pre) xs = crc32c_spec (crc32c_spec crc pre) ys"
    using assms(1) by (auto simp: crc32c_correct crc32c_spec_append dest: crc32c_spec_inj)
  then show False using crc32c_spec_word_inj assms by blast
qed

end
