(* ===== verification/Jbd2.thy ===== *)
theory Jbd2
  imports Crc
begin

text \<open>
  The journal of the ext4 file system, \<^verbatim>\<open>kernel/fs/jbd2.c\<close>. The state is the \<^verbatim>\<open>struct jbd2_journal\<close> with the device operations it
  was opened with and their context, which every write and flush changes. The static buffers \<^verbatim>\<open>work\<close> and
  \<^verbatim>\<open>scratch\<close> are filled before each use, so they are local values here; a block is the list of its bytes. Checksums
  are the values of \<^verbatim>\<open>crc32c\<close> and \<^verbatim>\<open>crc32_be\<close>, which are the bitwise definitions of the theory \<open>Crc\<close> whatever the
  alignment and the state of the tables. Allocations may fail: \<open>room\<close> says whether.
\<close>

section \<open>Bytes\<close>

abbreviation (input) JBD2_MAGIC :: u32 where "JBD2_MAGIC \<equiv> 0xC03B3998"
abbreviation (input) JBD2_DESCRIPTOR_BLOCK :: u32 where "JBD2_DESCRIPTOR_BLOCK \<equiv> 1"
abbreviation (input) JBD2_COMMIT_BLOCK :: u32 where "JBD2_COMMIT_BLOCK \<equiv> 2"
abbreviation (input) JBD2_SUPERBLOCK_V1 :: u32 where "JBD2_SUPERBLOCK_V1 \<equiv> 3"
abbreviation (input) JBD2_SUPERBLOCK_V2 :: u32 where "JBD2_SUPERBLOCK_V2 \<equiv> 4"
abbreviation (input) JBD2_REVOKE_BLOCK :: u32 where "JBD2_REVOKE_BLOCK \<equiv> 5"
abbreviation (input) JBD2_FLAG_ESCAPE :: u32 where "JBD2_FLAG_ESCAPE \<equiv> 1"
abbreviation (input) JBD2_FLAG_SAME_UUID :: u32 where "JBD2_FLAG_SAME_UUID \<equiv> 2"
abbreviation (input) JBD2_FLAG_LAST_TAG :: u32 where "JBD2_FLAG_LAST_TAG \<equiv> 8"
abbreviation (input) JBD2_COMPAT_CHECKSUM :: u32 where "JBD2_COMPAT_CHECKSUM \<equiv> 0x1"
abbreviation (input) JBD2_INCOMPAT_64BIT :: u32 where "JBD2_INCOMPAT_64BIT \<equiv> 0x2"
abbreviation (input) JBD2_INCOMPAT_CSUM_V2 :: u32 where "JBD2_INCOMPAT_CSUM_V2 \<equiv> 0x8"
abbreviation (input) JBD2_INCOMPAT_CSUM_V3 :: u32 where "JBD2_INCOMPAT_CSUM_V3 \<equiv> 0x10"
abbreviation (input) JBD2_INCOMPAT_FAST_COMMIT :: u32 where "JBD2_INCOMPAT_FAST_COMMIT \<equiv> 0x20"
abbreviation (input) JBD2_INCOMPAT_KNOWN :: u32 where "JBD2_INCOMPAT_KNOWN \<equiv> 0x3F"
abbreviation (input) JBD2_SB_CHECKSUM_AT :: nat where "JBD2_SB_CHECKSUM_AT \<equiv> 0xFC"
abbreviation (input) JBD2_HEADER_BYTES :: nat where "JBD2_HEADER_BYTES \<equiv> 12"
abbreviation (input) JBD2_UUID_BYTES :: nat where "JBD2_UUID_BYTES \<equiv> 16"
abbreviation (input) JBD2_GATHER_BLOCKS :: nat where "JBD2_GATHER_BLOCKS \<equiv> 32"
abbreviation (input) JBD2_WANT_64BIT :: u32 where "JBD2_WANT_64BIT \<equiv> 0x1"
abbreviation (input) JBD2_WANT_CSUM :: u32 where "JBD2_WANT_CSUM \<equiv> 0x2"

type_synonym disk_block = "u8 list"

definition load_be32 :: "u8 list \<Rightarrow> nat \<Rightarrow> u32" where
  "load_be32 b at = push_bit 24 (ucast (b ! at)) OR push_bit 16 (ucast (b ! (at + 1))) OR push_bit 8 (ucast (b ! (at + 2))) OR ucast (b ! (at + 3))"

definition be32_bytes :: "u32 \<Rightarrow> u8 list" where
  "be32_bytes v = [ucast (drop_bit 24 v), ucast (drop_bit 16 v), ucast (drop_bit 8 v), ucast v]"

definition store_be32 :: "u8 list \<Rightarrow> nat \<Rightarrow> u32 \<Rightarrow> u8 list" where
  "store_be32 b at v = copy_into b at (be32_bytes v)"

definition load_be16 :: "u8 list \<Rightarrow> nat \<Rightarrow> u16" where
  "load_be16 b at = push_bit 8 (ucast (b ! at)) OR ucast (b ! (at + 1))"

definition store_be16 :: "u8 list \<Rightarrow> nat \<Rightarrow> u16 \<Rightarrow> u8 list" where
  "store_be16 b at v = copy_into b at [ucast (drop_bit 8 v), ucast v]"

definition load_le16 :: "u8 list \<Rightarrow> nat \<Rightarrow> u16" where
  "load_le16 b at = ucast (b ! at) OR push_bit 8 (ucast (b ! (at + 1)))"

definition load_le32 :: "u8 list \<Rightarrow> nat \<Rightarrow> u32" where
  "load_le32 b at = ucast (b ! at) OR push_bit 8 (ucast (b ! (at + 1))) OR push_bit 16 (ucast (b ! (at + 2))) OR push_bit 24 (ucast (b ! (at + 3)))"

section \<open>The journal\<close>

text \<open>
  The operations of the device, \<^verbatim>\<open>struct jbd2_journal_ops\<close>: they return whether they succeeded and the device after them.
\<close>

record 'c jbd2_ops =
  read_op :: "'c \<Rightarrow> u64 \<Rightarrow> disk_block option"
  write_op :: "'c \<Rightarrow> u64 \<Rightarrow> disk_block \<Rightarrow> bool \<times> 'c"
  map_op :: "'c \<Rightarrow> u32 \<Rightarrow> u64 option"
  flush_op :: "('c \<Rightarrow> bool \<times> 'c) option"
  write_run_op :: "('c \<Rightarrow> u64 \<Rightarrow> disk_block list \<Rightarrow> bool \<times> 'c) option"

record revoke_entry =
  r_block :: u64
  r_sequence :: u32

text \<open>
  \<open>mapped\<close> holds the \<^verbatim>\<open>mapped_count\<close> disk addresses known, \<open>gather\<close> the \<^verbatim>\<open>gather_count\<close> blocks collected.
\<close>

record 'c jbd2_journal =
  jops :: "'c jbd2_ops"
  jctx :: 'c
  block_size :: nat
  busy :: bool
  maxlen :: u32
  log_first :: u32
  log_last :: u32
  log_sequence :: u32
  log_start :: u32
  compat :: u32
  incompat :: u32
  uuid :: "u8 list"
  csum_seed :: u32
  fast_commit_pending :: bool
  mapped :: "u64 list"
  open_for_writes :: bool
  gather :: "disk_block list"
  gather_start :: u64
  revokes :: "revoke_entry list"
  revoke_count :: u32
  revoke_capacity :: u32

definition has_csum :: "'c jbd2_journal \<Rightarrow> bool" where
  "has_csum j \<longleftrightarrow> incompat j AND (JBD2_INCOMPAT_CSUM_V2 OR JBD2_INCOMPAT_CSUM_V3) \<noteq> 0"

definition has_csum_v3 :: "'c jbd2_journal \<Rightarrow> bool" where
  "has_csum_v3 j \<longleftrightarrow> incompat j AND JBD2_INCOMPAT_CSUM_V3 \<noteq> 0"

definition has_64bit :: "'c jbd2_journal \<Rightarrow> bool" where
  "has_64bit j \<longleftrightarrow> incompat j AND JBD2_INCOMPAT_64BIT \<noteq> 0"

definition tag_bytes :: "'c jbd2_journal \<Rightarrow> nat" where
  "tag_bytes j =
     (if has_csum_v3 j then 16
      else
        let size = (if incompat j AND JBD2_INCOMPAT_CSUM_V2 \<noteq> 0 then 12 + 2 else 12)
        in if has_64bit j then size else size - 4)"

definition tail_bytes :: "'c jbd2_journal \<Rightarrow> nat" where
  "tail_bytes j = (if has_csum j then 4 else 0)"

definition block_csum :: "'c jbd2_journal \<Rightarrow> disk_block \<Rightarrow> nat \<Rightarrow> u32" where
  "block_csum j b at = crc32c_spec (csum_seed j) (store_be32 b at 0)"

definition data_csum :: "'c jbd2_journal \<Rightarrow> u32 \<Rightarrow> disk_block \<Rightarrow> u32" where
  "data_csum j sequence data = crc32c_spec (crc32c_spec (csum_seed j) (be32_bytes sequence)) data"

definition needs_escape :: "disk_block \<Rightarrow> bool" where
  "needs_escape data \<longleftrightarrow> load_be32 data 0 = JBD2_MAGIC"

definition log_step :: "'c jbd2_journal \<Rightarrow> u32 \<Rightarrow> u32" where
  "log_step j position = (let p = position + 1 in if p \<ge> log_last j then log_first j else p)"

section \<open>Access to the device\<close>

definition log_locate :: "'c jbd2_journal \<Rightarrow> u32 \<Rightarrow> u64 option" where
  "log_locate j file_block =
     (if unat file_block < length (mapped j) \<and> mapped j ! unat file_block \<noteq> 0 then Some (mapped j ! unat file_block)
      else case map_op (jops j) (jctx j) file_block of
             None \<Rightarrow> None
           | Some disk \<Rightarrow> if disk = 0 then None else Some disk)"

definition log_read :: "'c jbd2_journal \<Rightarrow> u32 \<Rightarrow> disk_block option" where
  "log_read j file_block =
     (case log_locate j file_block of None \<Rightarrow> None | Some disk \<Rightarrow> read_op (jops j) (jctx j) disk)"

definition device_write :: "'c jbd2_journal \<Rightarrow> u64 \<Rightarrow> disk_block \<Rightarrow> bool \<times> 'c jbd2_journal" where
  "device_write j disk data = (case write_op (jops j) (jctx j) disk data of (ok, c) \<Rightarrow> (ok, j\<lparr>jctx := c\<rparr>))"

definition log_write :: "'c jbd2_journal \<Rightarrow> u32 \<Rightarrow> disk_block \<Rightarrow> bool \<times> 'c jbd2_journal" where
  "log_write j file_block data =
     (case log_locate j file_block of None \<Rightarrow> (False, j) | Some disk \<Rightarrow> device_write j disk data)"

definition device_flush :: "'c jbd2_journal \<Rightarrow> bool \<times> 'c jbd2_journal" where
  "device_flush j =
     (case flush_op (jops j) of
        None \<Rightarrow> (True, j)
      | Some f \<Rightarrow> (case f (jctx j) of (ok, c) \<Rightarrow> (ok, j\<lparr>jctx := c\<rparr>)))"

definition put_header :: "disk_block \<Rightarrow> u32 \<Rightarrow> u32 \<Rightarrow> disk_block" where
  "put_header b type sequence = store_be32 (store_be32 (store_be32 b 0 JBD2_MAGIC) 4 type) 8 sequence"

definition seal_superblock :: "'c jbd2_journal \<Rightarrow> disk_block \<Rightarrow> disk_block" where
  "seal_superblock j b =
     (if \<not> has_csum j then b
      else
        let b1 = store_be32 (b[80 := 4]) JBD2_SB_CHECKSUM_AT 0
        in store_be32 b1 JBD2_SB_CHECKSUM_AT (crc32c_spec 0xFFFFFFFF (take 1024 b1)))"

text \<open>
  The image of the superblock that \<^verbatim>\<open>write_journal_superblock\<close> builds from the one it reads.
\<close>

definition superblock_image :: "'c jbd2_journal \<Rightarrow> disk_block \<Rightarrow> u32 \<Rightarrow> u32 \<Rightarrow> disk_block" where
  "superblock_image j b start sequence =
     (let b1 = store_be32 (store_be32 b 24 sequence) 28 start
      in if load_be32 b1 4 = JBD2_SUPERBLOCK_V2
         then seal_superblock j (store_be32 (store_be32 b1 36 (compat j)) 40 (incompat j))
         else b1)"

definition write_journal_superblock :: "'c jbd2_journal \<Rightarrow> u32 \<Rightarrow> u32 \<Rightarrow> bool \<times> 'c jbd2_journal" where
  "write_journal_superblock j start sequence =
     (case log_read j 0 of
        None \<Rightarrow> (False, j)
      | Some b \<Rightarrow>
          (case log_write j 0 (superblock_image j b start sequence) of
             (False, j') \<Rightarrow> (False, j')
           | (True, j') \<Rightarrow> (True, j'\<lparr>log_start := start, log_sequence := sequence\<rparr>)))"

definition revokes_clear :: "'c jbd2_journal \<Rightarrow> 'c jbd2_journal" where
  "revokes_clear j = j\<lparr>revokes := [], revoke_count := 0, revoke_capacity := 0\<rparr>"

text \<open>
  Closing frees the journal; the device is what remains.
\<close>

definition jbd2_journal_close :: "'c jbd2_journal \<Rightarrow> 'c" where
  "jbd2_journal_close j = jctx (revokes_clear j)"

definition tags_per_descriptor :: "'c jbd2_journal \<Rightarrow> nat" where
  "tags_per_descriptor j = (block_size j - JBD2_HEADER_BYTES - tail_bytes j) div tag_bytes j"

definition jbd2_journal_capacity :: "'c jbd2_journal \<Rightarrow> u32" where
  "jbd2_journal_capacity j =
     (let space = log_last j - log_first j;
          tags = of_nat (tags_per_descriptor j);
          usable = (if space > 2 then space - 2 else 0)
      in usable - (usable + tags) div (tags + 1))"

definition jbd2_journal_pending_fast_commit :: "'c jbd2_journal \<Rightarrow> bool" where
  "jbd2_journal_pending_fast_commit j = fast_commit_pending j"

fun write_each :: "'c jbd2_journal \<Rightarrow> u64 \<Rightarrow> disk_block list \<Rightarrow> bool \<times> 'c jbd2_journal" where
  "write_each j block [] = (True, j)"
| "write_each j block (b # bs) =
     (case device_write j block b of
        (False, j') \<Rightarrow> (False, j')
      | (True, j') \<Rightarrow> write_each j' (block + 1) bs)"

definition write_run :: "'c jbd2_journal \<Rightarrow> u64 \<Rightarrow> disk_block list \<Rightarrow> bool \<times> 'c jbd2_journal" where
  "write_run j block blocks =
     (case write_run_op (jops j) of
        Some f \<Rightarrow> (case f (jctx j) block blocks of (ok, c) \<Rightarrow> (ok, j\<lparr>jctx := c\<rparr>))
      | None \<Rightarrow> write_each j block blocks)"

section \<open>Opening\<close>

definition blank_journal :: "'c jbd2_ops \<Rightarrow> 'c \<Rightarrow> nat \<Rightarrow> 'c jbd2_journal" where
  "blank_journal os c bs =
     \<lparr>jops = os, jctx = c, block_size = bs, busy = False, maxlen = 0, log_first = 0, log_last = 0, log_sequence = 0, log_start = 0,
      compat = 0, incompat = 0, uuid = replicate JBD2_UUID_BYTES 0, csum_seed = 0, fast_commit_pending = False, mapped = [],
      open_for_writes = False, gather = [], gather_start = 0, revokes = [], revoke_count = 0, revoke_capacity = 0\<rparr>"

definition read_features :: "'c jbd2_journal \<Rightarrow> disk_block \<Rightarrow> 'c jbd2_journal option" where
  "read_features j b =
     (if load_be32 b 4 \<noteq> JBD2_SUPERBLOCK_V2 then Some j
      else
        let j1 = j\<lparr>compat := load_be32 b 36, incompat := load_be32 b 40\<rparr>
        in if incompat j1 AND NOT JBD2_INCOMPAT_KNOWN \<noteq> 0 then None
           else
             let j2 = j1\<lparr>uuid := take JBD2_UUID_BYTES (drop 48 b)\<rparr>
             in if has_csum j2 \<and>
                  (b ! 80 \<noteq> 4 \<or>
                   crc32c_spec 0xFFFFFFFF (take 1024 (store_be32 b JBD2_SB_CHECKSUM_AT 0)) \<noteq> load_be32 b JBD2_SB_CHECKSUM_AT)
                then None else Some j2)"

definition read_geometry :: "'c jbd2_journal \<Rightarrow> disk_block \<Rightarrow> 'c jbd2_journal option" where
  "read_geometry j b =
     (let j1 = j\<lparr>csum_seed := crc32c_spec 0xFFFFFFFF (uuid j), maxlen := load_be32 b 16, log_first := load_be32 b 20,
                  log_sequence := load_be32 b 24, log_start := load_be32 b 28, log_last := load_be32 b 16\<rparr>;
          fast = (if load_be32 b 84 = 0 then 256 else load_be32 b 84)
      in if incompat j AND JBD2_INCOMPAT_FAST_COMMIT \<noteq> 0 \<and> fast \<ge> maxlen j1 then None
         else
           let j2 = (if incompat j AND JBD2_INCOMPAT_FAST_COMMIT \<noteq> 0 then j1\<lparr>log_last := maxlen j1 - fast\<rparr> else j1)
           in if log_last j2 < 8 \<or> log_first j2 = 0 \<or> log_first j2 + 4 \<ge> log_last j2 then None
              else Some (if log_sequence j2 = 0 then j2\<lparr>log_sequence := 1\<rparr> else j2))"

definition load_superblock :: "'c jbd2_journal \<Rightarrow> disk_block \<Rightarrow> 'c jbd2_journal option" where
  "load_superblock j b =
     (if load_be32 b 0 \<noteq> JBD2_MAGIC then None
      else if load_be32 b 4 \<noteq> JBD2_SUPERBLOCK_V1 \<and> load_be32 b 4 \<noteq> JBD2_SUPERBLOCK_V2 then None
      else if unat (load_be32 b 12) \<noteq> block_size j then None
      else case read_features j b of None \<Rightarrow> None | Some j1 \<Rightarrow> read_geometry j1 b)"

fun map_log :: "'c jbd2_ops \<Rightarrow> 'c \<Rightarrow> nat list \<Rightarrow> u64 list" where
  "map_log os c [] = []"
| "map_log os c (i # is) =
     (case map_op os c (of_nat i) of
        None \<Rightarrow> []
      | Some disk \<Rightarrow> if disk = 0 then [] else disk # map_log os c is)"

text \<open>
  The three allocations of \<^verbatim>\<open>jbd2_journal_open\<close> succeed or not.
\<close>

definition jbd2_journal_open :: "'c jbd2_ops \<Rightarrow> 'c \<Rightarrow> nat \<Rightarrow> bool \<Rightarrow> bool \<Rightarrow> bool \<Rightarrow> 'c jbd2_journal option" where
  "jbd2_journal_open os c bs room room_mapped room_gather =
     (if bs < 1024 \<or> bs > 4096 \<or> \<not> room then None
      else case map_op os c 0 of
             None \<Rightarrow> None
           | Some home \<Rightarrow>
               if home = 0 then None
               else case read_op os c home of
                      None \<Rightarrow> None
                    | Some b \<Rightarrow>
                        (case load_superblock (blank_journal os c bs) b of
                           None \<Rightarrow> None
                         | Some j \<Rightarrow>
                             if \<not> room_mapped \<or> \<not> room_gather then None
                             else
                               let disks = map_log os c [0..<unat (maxlen j)]
                               in if length disks < unat (maxlen j) then None else Some (j\<lparr>mapped := disks\<rparr>)))"

section \<open>The revoke table\<close>

definition revoke_hash :: "u64 \<Rightarrow> u32" where
  "revoke_hash block = ucast (drop_bit 32 (block * 0x9E3779B97F4A7C15))"

text \<open>
  The probing loop looks at one slot after the other. It has seen every slot after as many steps as there are slots, so
  the result is \<open>None\<close> exactly when the loop never ends.
\<close>

fun revoke_probe :: "nat \<Rightarrow> revoke_entry list \<Rightarrow> u32 \<Rightarrow> u32 \<Rightarrow> u64 \<Rightarrow> u32 option" where
  "revoke_probe 0 table wrap at block = None"
| "revoke_probe (Suc n) table wrap at block =
     (if r_block (table ! unat at) \<noteq> 0 \<and> r_block (table ! unat at) \<noteq> block
      then revoke_probe n table wrap ((at + 1) AND wrap) block
      else Some at)"

definition revoke_slot :: "revoke_entry list \<Rightarrow> u32 \<Rightarrow> u64 \<Rightarrow> u32 option" where
  "revoke_slot table capacity block =
     (let wrap = capacity - 1
      in revoke_probe (unat capacity) table wrap (revoke_hash block AND wrap) block)"

definition empty_entry :: revoke_entry where
  "empty_entry = \<lparr>r_block = 0, r_sequence = 0\<rparr>"

fun rehash :: "revoke_entry list \<Rightarrow> u32 \<Rightarrow> revoke_entry list \<Rightarrow> revoke_entry list option" where
  "rehash table capacity [] = Some table"
| "rehash table capacity (e # es) =
     (if r_block e = 0 then rehash table capacity es
      else case revoke_slot table capacity (r_block e) of
             None \<Rightarrow> None
           | Some at \<Rightarrow> rehash (table[unat at := e]) capacity es)"

text \<open>
  How a call ends: with status 0, with an error, or not at all.
\<close>

datatype jbd2_status = J_ok | J_failed | J_hangs

definition revoke_grow :: "(u32 \<Rightarrow> bool) \<Rightarrow> 'c jbd2_journal \<Rightarrow> jbd2_status \<times> 'c jbd2_journal" where
  "revoke_grow room j =
     (if \<not> (revoke_count j + 1) * 2 > revoke_capacity j then (J_ok, j)
      else
        let capacity = (if revoke_capacity j \<noteq> 0 then revoke_capacity j * 2 else 256)
        in if \<not> room capacity then (J_failed, j)
           else case rehash (replicate (unat capacity) empty_entry) capacity (take (unat (revoke_capacity j)) (revokes j)) of
                  None \<Rightarrow> (J_hangs, j)
                | Some table \<Rightarrow> (J_ok, j\<lparr>revokes := table, revoke_capacity := capacity\<rparr>))"

definition revoke_remember :: "(u32 \<Rightarrow> bool) \<Rightarrow> 'c jbd2_journal \<Rightarrow> u64 \<Rightarrow> u32 \<Rightarrow> jbd2_status \<times> 'c jbd2_journal" where
  "revoke_remember room j block sequence =
     (if block = 0 then (J_ok, j)
      else case revoke_grow room j of
             (J_ok, j1) \<Rightarrow>
               (case revoke_slot (revokes j1) (revoke_capacity j1) block of
                  None \<Rightarrow> (J_hangs, j1)
                | Some at \<Rightarrow>
                    let entry = revokes j1 ! unat at
                    in if r_block entry = 0
                       then (J_ok, j1\<lparr>revokes := (revokes j1)[unat at := \<lparr>r_block = block, r_sequence = sequence\<rparr>],
                                      revoke_count := revoke_count j1 + 1\<rparr>)
                       else if sint (r_sequence entry - sequence) < 0
                       then (J_ok, j1\<lparr>revokes := (revokes j1)[unat at := entry\<lparr>r_sequence := sequence\<rparr>]\<rparr>)
                       else (J_ok, j1))
           | (st, j1) \<Rightarrow> (st, j1))"

definition revoked :: "'c jbd2_journal \<Rightarrow> u64 \<Rightarrow> u32 \<Rightarrow> bool option" where
  "revoked j block sequence =
     (if revoke_capacity j = 0 \<or> block = 0 then Some False
      else case revoke_slot (revokes j) (revoke_capacity j) block of
             None \<Rightarrow> None
           | Some at \<Rightarrow>
               let entry = revokes j ! unat at
               in Some (r_block entry = block \<and> sint (r_sequence entry - sequence) \<ge> 0))"

definition revoke_targets :: "'c jbd2_journal \<Rightarrow> disk_block \<Rightarrow> nat \<Rightarrow> u64 list" where
  "revoke_targets j b used =
     (let record_bytes = (if has_64bit j then 8 else 4)
      in map (\<lambda>k. let at = JBD2_HEADER_BYTES + 4 + k * record_bytes
                  in if has_64bit j then push_bit 32 (ucast (load_be32 b at)) OR ucast (load_be32 b (at + 4))
                     else ucast (load_be32 b at))
           [0..<(used - (JBD2_HEADER_BYTES + 4)) div record_bytes])"

fun remember_all :: "(u32 \<Rightarrow> bool) \<Rightarrow> 'c jbd2_journal \<Rightarrow> u64 list \<Rightarrow> u32 \<Rightarrow> jbd2_status \<times> 'c jbd2_journal" where
  "remember_all room j [] sequence = (J_ok, j)"
| "remember_all room j (t # ts) sequence =
     (case revoke_remember room j t sequence of
        (J_ok, j1) \<Rightarrow> remember_all room j1 ts sequence
      | (st, j1) \<Rightarrow> (st, j1))"

definition collect_revokes :: "(u32 \<Rightarrow> bool) \<Rightarrow> 'c jbd2_journal \<Rightarrow> disk_block \<Rightarrow> u32 \<Rightarrow> jbd2_status \<times> 'c jbd2_journal" where
  "collect_revokes room j b sequence =
     (if has_csum j \<and> block_csum j b (block_size j - 4) \<noteq> load_be32 b (block_size j - 4) then (J_failed, j)
      else
        let used = unat (load_be32 b JBD2_HEADER_BYTES)
        in if used < JBD2_HEADER_BYTES + 4 \<or> used > block_size j - tail_bytes j then (J_failed, j)
           else remember_all room j (revoke_targets j b used) sequence)"

section \<open>Recovery\<close>

record tag =
  target :: u64
  tag_flags :: u32
  tag_checksum :: u32

definition read_tag :: "'c jbd2_journal \<Rightarrow> disk_block \<Rightarrow> nat \<Rightarrow> tag \<times> nat" where
  "read_tag j b at =
     (let low = ucast (load_be32 b at);
          flags = (if has_csum_v3 j then load_be32 b (at + 4) else ucast (load_be16 b (at + 6)));
          checksum = (if has_csum_v3 j then load_be32 b (at + 12) else ucast (load_be16 b (at + 4)));
          goal = (if has_64bit j then low OR push_bit 32 (ucast (load_be32 b (at + 8))) else low)
      in (\<lparr>target = goal, tag_flags = flags, tag_checksum = checksum\<rparr>,
          if flags AND JBD2_FLAG_SAME_UUID = 0 then tag_bytes j + JBD2_UUID_BYTES else tag_bytes j))"

definition commit_valid :: "'c jbd2_journal \<Rightarrow> disk_block \<Rightarrow> u32 \<Rightarrow> bool" where
  "commit_valid j b checksum \<longleftrightarrow>
     (if has_csum j then block_csum j b 16 = load_be32 b 16
      else if compat j AND JBD2_COMPAT_CHECKSUM = 0 then True
      else if b ! 12 \<noteq> 1 \<or> b ! 13 \<noteq> 4 then True
      else load_be32 b 16 = checksum)"

definition replay_block :: "'c jbd2_journal \<Rightarrow> tag \<Rightarrow> u32 \<Rightarrow> u32 \<Rightarrow> bool \<times> 'c jbd2_journal" where
  "replay_block j tag position sequence =
     (case log_read j position of
        None \<Rightarrow> (False, j)
      | Some b \<Rightarrow>
          let sum = data_csum j sequence b
          in if has_csum j \<and> (if has_csum_v3 j then sum else sum AND 0xFFFF) \<noteq> tag_checksum tag then (True, j)
             else device_write j (target tag) (if tag_flags tag AND JBD2_FLAG_ESCAPE \<noteq> 0 then store_be32 b 0 JBD2_MAGIC else b))"

text \<open>
  The tags of a descriptor block from an offset on.
\<close>

lemma tag_bytes_pos: "0 < tag_bytes j"
  by (simp add: tag_bytes_def Let_def)

lemma read_tag_size: "read_tag j b at = (t, bytes) \<Longrightarrow> 0 < bytes"
  using tag_bytes_pos [of j] by (auto simp: read_tag_def Let_def split: if_split_asm)

function descriptor_tags :: "'c jbd2_journal \<Rightarrow> disk_block \<Rightarrow> nat \<Rightarrow> tag list" where
  "descriptor_tags j b at =
     (if at + tag_bytes j \<le> block_size j - tail_bytes j
      then case read_tag j b at of
             (t, bytes) \<Rightarrow>
               if tag_flags t AND JBD2_FLAG_LAST_TAG \<noteq> 0 then [t] else t # descriptor_tags j b (at + bytes)
      else [])"
  by pat_completeness auto

termination
proof (relation "measure (\<lambda>(j, b, at). block_size j - at)", goal_cases)
  case (2 j b at t bytes)
  then have "0 < bytes" "at < block_size j" using tag_bytes_pos [of j] read_tag_size [of j b at t bytes] by simp_all
  then show ?case by simp
qed simp

declare descriptor_tags.simps [simp del]

datatype jbd2_pass = PASS_SCAN | PASS_REVOKE | PASS_REPLAY

text \<open>
  The loop over the tags of a descriptor block, with the checksum of the oldest format when it is verified.
\<close>

definition sum_block :: "'c jbd2_journal \<Rightarrow> jbd2_pass \<Rightarrow> u32 \<Rightarrow> u32 \<Rightarrow> u32 option" where
  "sum_block j pass position checksum =
     (if pass = PASS_SCAN \<and> \<not> has_csum j \<and> compat j AND JBD2_COMPAT_CHECKSUM \<noteq> 0
      then map_option (crc32_be_spec checksum) (log_read j position)
      else Some checksum)"

definition replay_tag :: "'c jbd2_journal \<Rightarrow> jbd2_pass \<Rightarrow> tag \<Rightarrow> u32 \<Rightarrow> u32 \<Rightarrow> jbd2_status \<times> 'c jbd2_journal" where
  "replay_tag j pass t position sequence =
     (if pass \<noteq> PASS_REPLAY then (J_ok, j)
      else case revoked j (target t) sequence of
             None \<Rightarrow> (J_hangs, j)
           | Some True \<Rightarrow> (J_ok, j)
           | Some False \<Rightarrow> (case replay_block j t position sequence of (ok, j') \<Rightarrow> (if ok then J_ok else J_failed, j')))"

fun walk_tags :: "'c jbd2_journal \<Rightarrow> jbd2_pass \<Rightarrow> u32 \<Rightarrow> tag list \<Rightarrow> u32 \<Rightarrow> u32 \<Rightarrow> jbd2_status \<times> 'c jbd2_journal \<times> u32 \<times> u32" where
  "walk_tags j pass sequence [] position checksum = (J_ok, j, position, checksum)"
| "walk_tags j pass sequence (t # ts) position checksum =
     (case sum_block j pass position checksum of
        None \<Rightarrow> (J_failed, j, position, checksum)
      | Some checksum' \<Rightarrow>
          (case replay_tag j pass t position sequence of
             (J_ok, j') \<Rightarrow> walk_tags j' pass sequence ts (log_step j' position) checksum'
           | (st, j') \<Rightarrow> (st, j', position, checksum')))"

text \<open>
  The loop of \<^verbatim>\<open>walk_log\<close>; the first argument is its guard. It gives the sequence number at which it stopped.
\<close>

fun walk_loop ::
    "nat \<Rightarrow> (u32 \<Rightarrow> bool) \<Rightarrow> 'c jbd2_journal \<Rightarrow> jbd2_pass \<Rightarrow> u32 \<Rightarrow> u32 \<Rightarrow> u32 \<Rightarrow> u32 \<Rightarrow> jbd2_status \<times> 'c jbd2_journal \<times> u32" where
  "walk_loop 0 room j pass stop position sequence checksum = (J_ok, j, sequence)"
| "walk_loop (Suc guard) room j pass stop position sequence checksum =
     (if pass \<noteq> PASS_SCAN \<and> sequence = stop then (J_ok, j, sequence)
      else case log_read j position of
             None \<Rightarrow> (J_failed, j, sequence)
           | Some b \<Rightarrow>
               if load_be32 b 0 \<noteq> JBD2_MAGIC \<or> load_be32 b 8 \<noteq> sequence then (J_ok, j, sequence)
               else if load_be32 b 4 = JBD2_COMMIT_BLOCK then
                 (if pass = PASS_SCAN \<and> \<not> commit_valid j b checksum then (J_ok, j, sequence)
                  else walk_loop guard room j pass stop (log_step j position) (sequence + 1) 0xFFFFFFFF)
               else if load_be32 b 4 = JBD2_REVOKE_BLOCK then
                 (case (if pass = PASS_REVOKE then collect_revokes room j b sequence else (J_ok, j)) of
                    (J_ok, j') \<Rightarrow> walk_loop guard room j' pass stop (log_step j' position) sequence checksum
                  | (st, j') \<Rightarrow> (st, j', sequence))
               else if load_be32 b 4 \<noteq> JBD2_DESCRIPTOR_BLOCK then (J_ok, j, sequence)
               else if has_csum j \<and> block_csum j b (block_size j - 4) \<noteq> load_be32 b (block_size j - 4) then (J_ok, j, sequence)
               else
                 let checksum' = (if \<not> has_csum j \<and> compat j AND JBD2_COMPAT_CHECKSUM \<noteq> 0 \<and> pass = PASS_SCAN
                                  then crc32_be_spec checksum b else checksum);
                     tags = descriptor_tags j b JBD2_HEADER_BYTES
                 in case walk_tags j pass sequence tags (log_step j position) checksum' of
                      (J_ok, j', position', checksum'') \<Rightarrow>
                        if tags = [] then (J_failed, j', sequence)
                        else walk_loop guard room j' pass stop position' sequence checksum''
                    | (st, j', _, _) \<Rightarrow> (st, j', sequence))"

declare walk_loop.simps [simp del]

definition walk_log :: "(u32 \<Rightarrow> bool) \<Rightarrow> 'c jbd2_journal \<Rightarrow> jbd2_pass \<Rightarrow> u32 \<Rightarrow> jbd2_status \<times> 'c jbd2_journal \<times> u32" where
  "walk_log room j pass stop =
     (case walk_loop (unat (log_last j + 1)) room j pass stop (log_start j) (log_sequence j) 0xFFFFFFFF of
        (st, j', sequence) \<Rightarrow> (st, j', if st = J_ok \<and> pass = PASS_SCAN then sequence else stop))"

definition check_fast_commit :: "'c jbd2_journal \<Rightarrow> u32 \<Rightarrow> 'c jbd2_journal" where
  "check_fast_commit j next_sequence =
     (if incompat j AND JBD2_INCOMPAT_FAST_COMMIT = 0 then j
      else case log_read j (log_last j) of
             None \<Rightarrow> j
           | Some b \<Rightarrow>
               if load_le16 b 0 = 9 \<and> load_le16 b 2 \<ge> 8 \<and> load_le32 b 8 = next_sequence
               then j\<lparr>fast_commit_pending := True\<rparr> else j)"

text \<open>
  The two later passes and the flush after them, and the update of the superblock that ends recovery.
\<close>

definition replay_log :: "(u32 \<Rightarrow> bool) \<Rightarrow> 'c jbd2_journal \<Rightarrow> u32 \<Rightarrow> jbd2_status \<times> 'c jbd2_journal" where
  "replay_log room j stop =
     (case walk_log room j PASS_REVOKE stop of
        (J_ok, j1, _) \<Rightarrow>
          (case walk_log room j1 PASS_REPLAY stop of
             (J_ok, j2, _) \<Rightarrow> (case device_flush j2 of (ok, j3) \<Rightarrow> (if ok then J_ok else J_failed, j3))
           | (st, j2, _) \<Rightarrow> (st, j2))
      | (st, j1, _) \<Rightarrow> (st, j1))"

definition retire_log :: "'c jbd2_journal \<Rightarrow> u32 \<Rightarrow> jbd2_status \<times> 'c jbd2_journal" where
  "retire_log j stop =
     (case write_journal_superblock j 0 stop of
        (False, j1) \<Rightarrow> (J_failed, j1)
      | (True, j1) \<Rightarrow> (case device_flush j1 of (ok, j2) \<Rightarrow> (if ok then J_ok else J_failed, j2)))"

definition jbd2_journal_recover :: "(u32 \<Rightarrow> bool) \<Rightarrow> 'c jbd2_journal \<Rightarrow> jbd2_status \<times> 'c jbd2_journal" where
  "jbd2_journal_recover room j =
     (if log_start j = 0 then (J_ok, j)
      else case walk_log room (revokes_clear (j\<lparr>busy := True\<rparr>)) PASS_SCAN (log_sequence j) of
             (st, j1, stop) \<Rightarrow>
               let j2 = (if st = J_ok then check_fast_commit j1 stop else j1)
               in if st = J_ok \<and> fast_commit_pending j2 then (J_failed, j2\<lparr>busy := False\<rparr>)
                  else
                    (case (if st = J_ok \<and> stop \<noteq> log_sequence j2 then replay_log room j2 stop else (st, j2)) of
                       (st3, j3) \<Rightarrow>
                         (case (if st3 = J_ok then retire_log j3 stop else (st3, j3)) of
                            (st4, j4) \<Rightarrow> (st4, (revokes_clear j4)\<lparr>busy := False\<rparr>))))"

section \<open>Writing\<close>

definition begin_features :: "'c jbd2_journal \<Rightarrow> u32 \<Rightarrow> 'c jbd2_journal" where
  "begin_features j wanted =
     (let j1 = (if wanted AND JBD2_WANT_64BIT \<noteq> 0 then j\<lparr>incompat := incompat j OR JBD2_INCOMPAT_64BIT\<rparr> else j)
      in if wanted AND JBD2_WANT_CSUM \<noteq> 0
         then j1\<lparr>compat := compat j1 AND NOT JBD2_COMPAT_CHECKSUM,
                 incompat := (incompat j1 AND NOT JBD2_INCOMPAT_CSUM_V2) OR JBD2_INCOMPAT_CSUM_V3\<rparr>
         else j1)"

definition jbd2_journal_begin :: "'c jbd2_journal \<Rightarrow> u32 \<Rightarrow> bool \<times> 'c jbd2_journal" where
  "jbd2_journal_begin j wanted =
     (if busy j then (False, j)
      else if open_for_writes j then (True, j)
      else case log_read j 0 of
             None \<Rightarrow> (False, j)
           | Some b \<Rightarrow>
               let j1 = (if load_be32 b 4 = JBD2_SUPERBLOCK_V2 then begin_features j wanted else j)
               in case write_journal_superblock j1 (log_first j1) (log_sequence j1) of
                    (False, j2) \<Rightarrow> (False, j2)
                  | (True, j2) \<Rightarrow>
                      (case device_flush j2 of
                         (False, j3) \<Rightarrow> (False, j3)
                       | (True, j3) \<Rightarrow> (True, j3\<lparr>open_for_writes := True\<rparr>)))"

definition jbd2_journal_end :: "'c jbd2_journal \<Rightarrow> bool \<times> 'c jbd2_journal" where
  "jbd2_journal_end j =
     (if \<not> open_for_writes j then (True, j)
      else case write_journal_superblock j 0 (log_sequence j) of
             (False, j1) \<Rightarrow> (False, j1)
           | (True, j1) \<Rightarrow>
               (case device_flush j1 of
                  (False, j2) \<Rightarrow> (False, j2)
                | (True, j2) \<Rightarrow> (True, j2\<lparr>open_for_writes := False\<rparr>)))"

definition gather_flush :: "'c jbd2_journal \<Rightarrow> bool \<times> 'c jbd2_journal" where
  "gather_flush j =
     (if gather j = [] then (True, j)
      else case write_run j (gather_start j) (gather j) of (ok, j') \<Rightarrow> (ok, j'\<lparr>gather := []\<rparr>))"

definition gather_add :: "'c jbd2_journal \<Rightarrow> u64 \<Rightarrow> disk_block \<Rightarrow> bool \<times> 'c jbd2_journal" where
  "gather_add j disk data =
     (case (if gather j \<noteq> [] \<and>
              (disk \<noteq> gather_start j + of_nat (length (gather j)) \<or> length (gather j) = JBD2_GATHER_BLOCKS)
            then gather_flush j else (True, j)) of
        (False, j') \<Rightarrow> (False, j')
      | (True, j') \<Rightarrow>
          let j1 = (if gather j' = [] then j'\<lparr>gather_start := disk\<rparr> else j')
          in (True, j1\<lparr>gather := gather j1 @ [data]\<rparr>))"

definition write_log_block :: "'c jbd2_journal \<Rightarrow> u32 \<Rightarrow> disk_block \<Rightarrow> bool \<times> 'c jbd2_journal \<times> u32" where
  "write_log_block j position data =
     (case log_locate j position of
        None \<Rightarrow> (False, j, position)
      | Some disk \<Rightarrow>
          (case gather_add j disk data of
             (False, j') \<Rightarrow> (False, j', position)
           | (True, j') \<Rightarrow> (True, j', log_step j' position)))"

definition put_tag :: "'c jbd2_journal \<Rightarrow> disk_block \<Rightarrow> nat \<Rightarrow> u64 \<Rightarrow> u32 \<Rightarrow> u32 \<Rightarrow> disk_block \<Rightarrow> disk_block" where
  "put_tag j b at goal flags sequence data =
     (let b1 = store_be32 b at (ucast goal)
      in if has_csum_v3 j
         then store_be32 (store_be32 (store_be32 b1 (at + 4) flags) (at + 8) (ucast (drop_bit 32 goal)))
                (at + 12) (data_csum j sequence data)
         else
           let b2 = store_be16 b1 (at + 4) (if has_csum j then ucast (data_csum j sequence data) else 0);
               b3 = store_be16 b2 (at + 6) (ucast flags)
           in if has_64bit j then store_be32 b3 (at + 8) (ucast (drop_bit 32 goal)) else b3)"

definition flags_for :: "disk_block \<Rightarrow> bool \<Rightarrow> u32" where
  "flags_for data final =
     (let f1 = (if needs_escape data then JBD2_FLAG_SAME_UUID OR JBD2_FLAG_ESCAPE else JBD2_FLAG_SAME_UUID)
      in if final then f1 OR JBD2_FLAG_LAST_TAG else f1)"

type_synonym log_item = "u64 \<times> disk_block"

fun put_tags :: "'c jbd2_journal \<Rightarrow> u32 \<Rightarrow> disk_block \<Rightarrow> nat \<Rightarrow> log_item list \<Rightarrow> disk_block" where
  "put_tags j sequence b at [] = b"
| "put_tags j sequence b at ((goal, data) # items) =
     put_tags j sequence (put_tag j b at goal (flags_for data (items = [])) sequence data) (at + tag_bytes j) items"

definition descriptor_block :: "'c jbd2_journal \<Rightarrow> u32 \<Rightarrow> log_item list \<Rightarrow> disk_block" where
  "descriptor_block j sequence items =
     (let b = put_tags j sequence (put_header (replicate (block_size j) 0) JBD2_DESCRIPTOR_BLOCK sequence) JBD2_HEADER_BYTES items
      in if has_csum j then store_be32 b (block_size j - 4) (block_csum j b (block_size j - 4)) else b)"

definition log_image :: "disk_block \<Rightarrow> disk_block" where
  "log_image data = (if needs_escape data then store_be32 data 0 0 else data)"

definition sum_v1 :: "'c jbd2_journal \<Rightarrow> bool" where
  "sum_v1 j \<longleftrightarrow> \<not> has_csum j \<and> compat j AND JBD2_COMPAT_CHECKSUM \<noteq> 0"

fun log_data :: "'c jbd2_journal \<Rightarrow> u32 \<Rightarrow> u32 \<Rightarrow> log_item list \<Rightarrow> bool \<times> 'c jbd2_journal \<times> u32 \<times> u32" where
  "log_data j position checksum [] = (True, j, position, checksum)"
| "log_data j position checksum ((goal, data) # items) =
     (let source = log_image data;
          checksum' = (if sum_v1 j then crc32_be_spec checksum source else checksum)
      in case write_log_block j position source of
           (False, j', position') \<Rightarrow> (False, j', position', checksum')
         | (True, j', position') \<Rightarrow> log_data j' position' checksum' items)"

text \<open>
  The loop over the batches of one descriptor block each. Every batch takes at least one item, so the number of items
  bounds the turns.
\<close>

fun log_batches :: "nat \<Rightarrow> 'c jbd2_journal \<Rightarrow> u32 \<Rightarrow> u32 \<Rightarrow> u32 \<Rightarrow> log_item list \<Rightarrow> bool \<times> 'c jbd2_journal \<times> u32 \<times> u32" where
  "log_batches n j sequence position checksum [] = (True, j, position, checksum)"
| "log_batches 0 j sequence position checksum items = (False, j, position, checksum)"
| "log_batches (Suc n) j sequence position checksum items =
     (let batch = take (tags_per_descriptor j) items;
          b = descriptor_block j sequence batch;
          checksum1 = (if sum_v1 j then crc32_be_spec checksum b else checksum)
      in case write_log_block j position b of
           (False, j1, position1) \<Rightarrow> (False, j1, position1, checksum1)
         | (True, j1, position1) \<Rightarrow>
             (case log_data j1 position1 checksum1 batch of
                (False, j2, position2, checksum2) \<Rightarrow> (False, j2, position2, checksum2)
              | (True, j2, position2, checksum2) \<Rightarrow>
                  log_batches n j2 sequence position2 checksum2 (drop (tags_per_descriptor j) items)))"

definition commit_block :: "'c jbd2_journal \<Rightarrow> u32 \<Rightarrow> u64 \<Rightarrow> u32 \<Rightarrow> disk_block" where
  "commit_block j sequence now checksum =
     (let seconds = now div 1000000000;
          b1 = put_header (replicate (block_size j) 0) JBD2_COMMIT_BLOCK sequence;
          b2 = store_be32 (store_be32 (store_be32 b1 48 (ucast (drop_bit 32 seconds))) 52 (ucast seconds)) 56 (ucast (now mod 1000000000))
      in if has_csum j then store_be32 b2 16 (block_csum j b2 16)
         else if sum_v1 j then store_be32 (b2[12 := 1, 13 := 4]) 16 checksum
         else b2)"

definition gather_sync :: "'c jbd2_journal \<Rightarrow> bool \<times> 'c jbd2_journal" where
  "gather_sync j = (case gather_flush j of (False, j') \<Rightarrow> (False, j') | (True, j') \<Rightarrow> device_flush j')"

definition log_transaction :: "u64 \<Rightarrow> 'c jbd2_journal \<Rightarrow> log_item list \<Rightarrow> bool \<times> 'c jbd2_journal" where
  "log_transaction now j items =
     (case log_batches (length items) j (log_sequence j) (log_first j) 0xFFFFFFFF items of
        (False, j1, _, _) \<Rightarrow> (False, j1)
      | (True, j1, position, checksum) \<Rightarrow>
          (case gather_sync j1 of
             (False, j2) \<Rightarrow> (False, j2)
           | (True, j2) \<Rightarrow>
               (case log_write j2 position (commit_block j2 (log_sequence j) now checksum) of
                  (False, j3) \<Rightarrow> (False, j3)
                | (True, j3) \<Rightarrow> device_flush j3)))"

fun gather_all :: "'c jbd2_journal \<Rightarrow> log_item list \<Rightarrow> bool \<times> 'c jbd2_journal" where
  "gather_all j [] = (True, j)"
| "gather_all j ((goal, data) # items) =
     (case gather_add j goal data of
        (False, j') \<Rightarrow> (False, j')
      | (True, j') \<Rightarrow> gather_all j' items)"

definition checkpoint :: "'c jbd2_journal \<Rightarrow> log_item list \<Rightarrow> bool \<times> 'c jbd2_journal" where
  "checkpoint j items =
     (case gather_all j items of
        (False, j1) \<Rightarrow> (False, j1)
      | (True, j1) \<Rightarrow>
          (case gather_sync j1 of
             (False, j2) \<Rightarrow> (False, j2)
           | (True, j2) \<Rightarrow>
               (case write_journal_superblock j2 (log_first j2) (log_sequence j2 + 1) of
                  (False, j3) \<Rightarrow> (False, j3)
                | (True, j3) \<Rightarrow> device_flush j3)))"

text \<open>
  The loop over the transactions; \<open>now\<close> gives the time each of them reads.
\<close>

fun commit_batches :: "nat \<Rightarrow> (nat \<Rightarrow> u64) \<Rightarrow> nat \<Rightarrow> 'c jbd2_journal \<Rightarrow> log_item list \<Rightarrow> bool \<times> 'c jbd2_journal" where
  "commit_batches n now capacity j [] = (True, j)"
| "commit_batches 0 now capacity j items = (False, j)"
| "commit_batches (Suc n) now capacity j items =
     (case log_transaction (now n) j (take capacity items) of
        (False, j1) \<Rightarrow> (False, j1)
      | (True, j1) \<Rightarrow>
          (case checkpoint j1 (take capacity items) of
             (False, j2) \<Rightarrow> (False, j2)
           | (True, j2) \<Rightarrow> commit_batches n now capacity j2 (drop capacity items)))"

definition jbd2_journal_commit :: "(nat \<Rightarrow> u64) \<Rightarrow> 'c jbd2_journal \<Rightarrow> log_item list \<Rightarrow> bool \<times> 'c jbd2_journal" where
  "jbd2_journal_commit now j items =
     (if busy j \<or> \<not> open_for_writes j then (False, j)
      else if items = [] then (True, j)
      else if jbd2_journal_capacity j = 0 then (False, j)
      else case commit_batches (length items) now (unat (jbd2_journal_capacity j)) (j\<lparr>busy := True\<rparr>) items of
             (ok, j1) \<Rightarrow> (ok, j1\<lparr>busy := False\<rparr>))"

end
