(* ===== verification/Jbd2_Blocks.thy ===== *)
theory Jbd2_Blocks
  imports Jbd2
begin

text \<open>
  What the journal writes is what recovery reads: stores and loads of big-endian numbers, tags, descriptor blocks, commit blocks and
  the superblock.
\<close>

section \<open>Loads and stores\<close>

named_theorems be_simps \<open>loads from stored blocks\<close>

lemma load_be32_le32: "load_be32 b at = le32 (b ! (at + 3)) (b ! (at + 2)) (b ! (at + 1)) (b ! at)"
  by (simp add: load_be32_def le32_def or.assoc or.commute or.left_commute)

lemma load_be16_le16: "load_be16 b at = le16 (b ! (at + 1)) (b ! at)"
  by (simp add: load_be16_def le16_def or.commute)

lemma length_be32_bytes [simp]: "length (be32_bytes v) = 4"
  by (simp add: be32_bytes_def)

lemma length_store [simp]:
  "at + 4 \<le> length b \<Longrightarrow> length (store_be32 b at v) = length b"
  "at + 2 \<le> length b \<Longrightarrow> length (store_be16 b at w) = length b"
  by (simp_all add: store_be32_def store_be16_def)

lemma nth_store_be32_other:
  "at + 4 \<le> length b \<Longrightarrow> i < length b \<Longrightarrow> i < at \<or> at + 4 \<le> i \<Longrightarrow> store_be32 b at v ! i = b ! i"
  by (auto simp: store_be32_def nth_copy_into)

lemma nth_store_be16_other:
  "at + 2 \<le> length b \<Longrightarrow> i < length b \<Longrightarrow> i < at \<or> at + 2 \<le> i \<Longrightarrow> store_be16 b at v ! i = b ! i"
  by (auto simp: store_be16_def nth_copy_into)

lemma load_store_be32 [be_simps]: "at + 4 \<le> length b \<Longrightarrow> load_be32 (store_be32 b at v) at = v"
  by (simp add: load_be32_le32 store_be32_def nth_copy_into be32_bytes_def numeral_3_eq_3 numeral_2_eq_2)
    (simp add: byte_simps)

lemma load_store_be16 [be_simps]: "at + 2 \<le> length b \<Longrightarrow> load_be16 (store_be16 b at v) at = v"
  by (simp add: load_be16_le16 store_be16_def nth_copy_into byte_simps)

lemma load_be32_cong: "(\<And>i. at \<le> i \<Longrightarrow> i < at + 4 \<Longrightarrow> b ! i = b' ! i) \<Longrightarrow> load_be32 b at = load_be32 b' at"
  by (simp add: load_be32_def)

lemma load_be16_cong: "(\<And>i. at \<le> i \<Longrightarrow> i < at + 2 \<Longrightarrow> b ! i = b' ! i) \<Longrightarrow> load_be16 b at = load_be16 b' at"
  by (simp add: load_be16_def)

lemma load_other [be_simps]:
  "at + 4 \<le> length b \<Longrightarrow> at' + 4 \<le> length b \<Longrightarrow> at' + 4 \<le> at \<or> at + 4 \<le> at' \<Longrightarrow> load_be32 (store_be32 b at v) at' = load_be32 b at'"
  "at + 2 \<le> length b \<Longrightarrow> at' + 4 \<le> length b \<Longrightarrow> at' + 4 \<le> at \<or> at + 2 \<le> at' \<Longrightarrow> load_be32 (store_be16 b at w) at' = load_be32 b at'"
  "at + 4 \<le> length b \<Longrightarrow> at' + 2 \<le> length b \<Longrightarrow> at' + 2 \<le> at \<or> at + 4 \<le> at' \<Longrightarrow> load_be16 (store_be32 b at v) at' = load_be16 b at'"
  "at + 2 \<le> length b \<Longrightarrow> at' + 2 \<le> length b \<Longrightarrow> at' + 2 \<le> at \<or> at + 2 \<le> at' \<Longrightarrow> load_be16 (store_be16 b at w) at' = load_be16 b at'"
     apply (rule load_be32_cong, rule nth_store_be32_other; linarith)
    apply (rule load_be32_cong, rule nth_store_be16_other; linarith)
   apply (rule load_be16_cong, rule nth_store_be32_other; linarith)
  apply (rule load_be16_cong, rule nth_store_be16_other; linarith)
  done

lemma load_be32_update [be_simps]: "i < at \<or> at + 4 \<le> i \<Longrightarrow> load_be32 (b[i := v]) at = load_be32 b at"
  by (rule load_be32_cong) auto

lemma store_store_be32: "at + 4 \<le> length b \<Longrightarrow> store_be32 (store_be32 b at v) at w = store_be32 b at w"
  by (simp add: store_be32_def copy_into_def)

lemma store_load_be32: "at + 4 \<le> length b \<Longrightarrow> load_be32 b at = v \<Longrightarrow> store_be32 b at v = b"
proof (rule nth_equalityI)
  assume h: "at + 4 \<le> length b" "load_be32 b at = v"
  show "length (store_be32 b at v) = length b" using h by simp
  fix i assume "i < length (store_be32 b at v)"
  then have i: "i < length b" using h by simp
  show "store_be32 b at v ! i = b ! i"
  proof (cases "i < at \<or> at + 4 \<le> i")
    case True
    then show ?thesis by (rule nth_store_be32_other [OF h(1) i])
  next
    case False
    then consider "i = at" | "i = at + 1" | "i = at + 2" | "i = at + 3" by linarith
    then show ?thesis
      using h i by cases (simp_all add: load_be32_le32 store_be32_def nth_copy_into be32_bytes_def h(2) [symmetric] byte_simps numeral_3_eq_3 numeral_2_eq_2)
  qed
qed

section \<open>Checksums of blocks\<close>

lemma block_csum_sealed:
  assumes "at + 4 \<le> length b"
  shows "block_csum j (store_be32 b at (block_csum j b at)) at = load_be32 (store_be32 b at (block_csum j b at)) at"
  using assms by (simp add: block_csum_def store_store_be32 load_store_be32)

section \<open>Tags\<close>

lemma tag_bytes_min: "8 \<le> tag_bytes j" "has_csum_v3 j \<Longrightarrow> tag_bytes j = 16" "has_64bit j \<Longrightarrow> 12 \<le> tag_bytes j" "tag_bytes j \<le> 16"
  by (simp_all add: tag_bytes_def Let_def)

lemma has_csum_v3_csum: "has_csum_v3 j \<Longrightarrow> has_csum j"
  unfolding has_csum_v3_def has_csum_def
proof
  assume a: "incompat j AND 16 \<noteq> 0" and z: "incompat j AND (8 OR 16) = 0"
  have "incompat j AND 16 = (incompat j AND (8 OR 16)) AND 16" by (simp add: and.assoc)
  with a z show False by simp
qed

text \<open>
  A journal without the 64-bit feature has room for 32 bits of a block number.
\<close>

definition target_fits :: "'c jbd2_journal \<Rightarrow> u64 \<Rightarrow> bool" where
  "target_fits j goal \<longleftrightarrow> has_64bit j \<or> drop_bit 32 goal = 0"

definition tag_for :: "'c jbd2_journal \<Rightarrow> u32 \<Rightarrow> log_item \<Rightarrow> bool \<Rightarrow> tag" where
  "tag_for j sequence item final =
     \<lparr>target = fst item, tag_flags = flags_for (snd item) final,
      tag_checksum = (if has_csum_v3 j then data_csum j sequence (snd item)
                      else if has_csum j then data_csum j sequence (snd item) AND 0xFFFF else 0)\<rparr>"

lemma join_halves: "(ucast (ucast (v :: u64) :: u32) :: u64) OR push_bit 32 (ucast (ucast (drop_bit 32 v) :: u32) :: u64) = v"
proof (rule bit_word_eqI)
  fix n assume "n < LENGTH(64)"
  then consider "n < 32" | "32 \<le> n" "n < 64" by fastforce
  then show "bit ((ucast (ucast v :: u32) :: u64) OR push_bit 32 (ucast (ucast (drop_bit 32 v) :: u32))) n = bit v n"
    by cases (auto simp: bit_or_iff bit_push_bit_iff bit_unsigned_iff bit_drop_bit_eq)
qed

lemma low_half: "drop_bit 32 (v :: u64) = 0 \<Longrightarrow> ucast (ucast v :: u32) = v"
  using join_halves [of v] by simp

lemma ucast_16_and: "ucast (ucast (v :: u32) :: u16) = v AND 0xFFFF"
proof -
  have "(0xFFFF :: u32) = mask 16" by (simp add: mask_eq_exp_minus_1)
  then show ?thesis by (auto simp: bit_eq_iff bit_unsigned_iff bit_and_iff bit_mask_iff)
qed

lemma flags_for_cases:
  "flags_for d final \<in> {2, 3, 10, 11}" "flags_for d final AND 2 \<noteq> 0" "(flags_for d final AND 8 \<noteq> 0) = final"
  "(flags_for d final AND 1 \<noteq> 0) = needs_escape d" "ucast (ucast (flags_for d final) :: u16) = flags_for d final"
  by (simp_all add: flags_for_def Let_def)

lemma length_put_tag [simp]:
  assumes "at + tag_bytes j \<le> length b"
  shows "length (put_tag j b at goal flags sequence data) = length b"
proof -
  have "at + 8 \<le> length b" "has_csum_v3 j \<Longrightarrow> at + 16 \<le> length b" "has_64bit j \<Longrightarrow> at + 12 \<le> length b"
    using assms tag_bytes_min [of j] by auto
  then show ?thesis by (cases "has_csum_v3 j"; cases "has_64bit j") (simp_all add: put_tag_def Let_def)
qed

lemma nth_put_tag_other:
  assumes "at + tag_bytes j \<le> length b" "i < length b" "i < at \<or> at + tag_bytes j \<le> i"
  shows "put_tag j b at goal flags sequence data ! i = b ! i"
proof -
  have "at + 8 \<le> length b" "has_csum_v3 j \<Longrightarrow> at + 16 \<le> length b" "has_64bit j \<Longrightarrow> at + 12 \<le> length b"
    "i < at \<or> at + 8 \<le> i" "has_csum_v3 j \<Longrightarrow> i < at \<or> at + 16 \<le> i" "has_64bit j \<Longrightarrow> i < at \<or> at + 12 \<le> i"
    using assms tag_bytes_min [of j] by auto
  then show ?thesis using assms(2)
    by (cases "i < at"; cases "has_csum_v3 j"; cases "has_64bit j") (simp_all add: put_tag_def Let_def nth_store_be32_other nth_store_be16_other)
qed

lemma read_put_tag:
  assumes "at + tag_bytes j \<le> length b" "target_fits j goal"
  shows "read_tag j (put_tag j b at goal (flags_for data final) sequence data) at = (tag_for j sequence (goal, data) final, tag_bytes j)"
proof -
  have room: "at + 8 \<le> length b" "has_csum_v3 j \<Longrightarrow> at + 16 \<le> length b" "has_64bit j \<Longrightarrow> at + 12 \<le> length b"
    using assms(1) tag_bytes_min [of j] by auto
  have low: "\<not> has_64bit j \<Longrightarrow> ucast (ucast goal :: u32) = goal"
    using assms(2) by (simp add: target_fits_def low_half)
  show ?thesis
    using room low flags_for_cases(2,5) [of data final]
    by (cases "has_csum_v3 j"; cases "has_64bit j")
      (simp_all add: read_tag_def put_tag_def tag_for_def Let_def be_simps join_halves ucast_16_and)
qed

lemma read_tag_cong:
  assumes "\<And>i. at \<le> i \<Longrightarrow> i < at + tag_bytes j \<Longrightarrow> b ! i = b' ! i"
  shows "read_tag j b at = read_tag j b' at"
proof -
  have a: "b ! i = b' ! i" if "at \<le> i" "i < at + 8" for i
    using that tag_bytes_min(1) [of j] by (intro assms) auto
  have c: "b ! i = b' ! i" if "at \<le> i" "i < at + 16" "has_csum_v3 j" for i
    using that tag_bytes_min(2) [of j] by (intro assms) auto
  have d: "b ! i = b' ! i" if "at \<le> i" "i < at + 12" "has_64bit j" for i
    using that tag_bytes_min(3) [of j] by (intro assms) auto
  have "load_be32 b at = load_be32 b' at" "load_be16 b (at + 4) = load_be16 b' (at + 4)" "load_be16 b (at + 6) = load_be16 b' (at + 6)"
    by (rule load_be32_cong load_be16_cong; rule a; simp)+
  moreover have "load_be32 b (at + 4) = load_be32 b' (at + 4)" "load_be32 b (at + 12) = load_be32 b' (at + 12)" if "has_csum_v3 j"
    by (rule load_be32_cong; rule c [OF _ _ that]; simp)+
  moreover have "load_be32 b (at + 8) = load_be32 b' (at + 8)" if "has_64bit j"
    by (rule load_be32_cong; rule d [OF _ _ that]; simp)
  ultimately show ?thesis by (simp add: read_tag_def Let_def)
qed

lemma length_put_tags [simp]:
  "at + length items * tag_bytes j \<le> length b \<Longrightarrow> length (put_tags j sequence b at items) = length b"
proof (induction items arbitrary: b at)
  case (Cons item items)
  obtain goal data where item: "item = (goal, data)" by (cases item)
  have "at + tag_bytes j \<le> length b" "at + tag_bytes j + length items * tag_bytes j \<le> length b"
    using Cons.prems by simp_all
  then show ?case using Cons.IH by (simp add: item)
qed simp

lemma nth_put_tags_other:
  "at + length items * tag_bytes j \<le> length b \<Longrightarrow> i < length b \<Longrightarrow> i < at \<or> at + length items * tag_bytes j \<le> i \<Longrightarrow>
     put_tags j sequence b at items ! i = b ! i"
proof (induction items arbitrary: b at)
  case (Cons item items)
  obtain goal data where item: "item = (goal, data)" by (cases item)
  have "at + tag_bytes j \<le> length b" "at + tag_bytes j + length items * tag_bytes j \<le> length b"
    "i < at \<or> at + tag_bytes j \<le> i" "i < at + tag_bytes j \<or> at + tag_bytes j + length items * tag_bytes j \<le> i"
    using Cons.prems by auto
  then show ?case using Cons.IH Cons.prems(2) by (simp add: item nth_put_tag_other)
qed simp

fun tags_for :: "'c jbd2_journal \<Rightarrow> u32 \<Rightarrow> log_item list \<Rightarrow> tag list" where
  "tags_for j sequence [] = []"
| "tags_for j sequence (item # items) = tag_for j sequence item (items = []) # tags_for j sequence items"

lemma descriptor_tags_put_tags:
  assumes "at + length items * tag_bytes j \<le> block_size j - tail_bytes j" "length b = block_size j" "length b' = block_size j"
    "\<forall>(goal, data) \<in> set items. target_fits j goal" "items \<noteq> []"
    "\<And>i. at \<le> i \<Longrightarrow> i < at + length items * tag_bytes j \<Longrightarrow> b' ! i = put_tags j sequence b at items ! i"
  shows "descriptor_tags j b' at = tags_for j sequence items"
  using assms
proof (induction items arbitrary: b at)
  case (Cons item items)
  obtain goal data where item: "item = (goal, data)" by (cases item)
  let ?b = "put_tag j b at goal (flags_for data (items = [])) sequence data"
  have len: "at + tag_bytes j \<le> length b" "at + tag_bytes j + length items * tag_bytes j \<le> block_size j - tail_bytes j"
    using Cons.prems(1,2) by simp_all
  have len': "length ?b = block_size j" using len(1) Cons.prems(2) by simp
  have "read_tag j b' at = read_tag j ?b at"
  proof (rule read_tag_cong)
    fix i assume i: "at \<le> i" "i < at + tag_bytes j"
    then have "b' ! i = put_tags j sequence ?b (at + tag_bytes j) items ! i"
      using Cons.prems(6) [of i] by (simp add: item)
    also have "\<dots> = ?b ! i" by (rule nth_put_tags_other) (use i len len' in auto)
    finally show "b' ! i = ?b ! i" .
  qed
  also have "\<dots> = (tag_for j sequence item (items = []), tag_bytes j)"
    using read_put_tag [OF len(1)] Cons.prems(4) by (simp add: item)
  finally have read: "read_tag j b' at = (tag_for j sequence item (items = []), tag_bytes j)" .
  have fits: "at + tag_bytes j \<le> block_size j - tail_bytes j" using len(2) by linarith
  have last_tag: "(tag_flags (tag_for j sequence item (items = [])) AND 8 \<noteq> 0) = (items = [])"
    by (simp add: tag_for_def flags_for_cases)
  show ?case
  proof (cases "items = []")
    case True
    then show ?thesis using read fits last_tag by (simp add: descriptor_tags.simps [of j b' at])
  next
    case False
    have "descriptor_tags j b' (at + tag_bytes j) = tags_for j sequence items"
      by (rule Cons.IH [OF len(2) len' Cons.prems(3)]) (use Cons.prems(4,6) False in \<open>auto simp: item\<close>)
    then show ?thesis using read fits last_tag False by (simp add: descriptor_tags.simps [of j b' at])
  qed
qed simp

section \<open>Blocks of the log\<close>

definition sized :: "'c jbd2_journal \<Rightarrow> bool" where
  "sized j \<longleftrightarrow> 1024 \<le> block_size j \<and> block_size j \<le> 4096"

lemma tail_bytes_le: "tail_bytes j \<le> 4"
  by (simp add: tail_bytes_def)

lemma tags_fit: "sized j \<Longrightarrow> n \<le> tags_per_descriptor j \<Longrightarrow> 12 + n * tag_bytes j \<le> block_size j - tail_bytes j"
proof -
  assume h: "sized j" "n \<le> tags_per_descriptor j"
  have "n * tag_bytes j \<le> tags_per_descriptor j * tag_bytes j" using h(2) by simp
  also have "\<dots> \<le> block_size j - 12 - tail_bytes j" by (simp add: tags_per_descriptor_def)
  finally show ?thesis using h(1) tail_bytes_le [of j] by (auto simp: sized_def)
qed

lemma tags_per_descriptor_pos: "sized j \<Longrightarrow> 0 < tags_per_descriptor j" "sized j \<Longrightarrow> tags_per_descriptor j < 2 ^ 31"
proof -
  assume s: "sized j"
  have "16 \<le> block_size j - 12 - tail_bytes j" using s tail_bytes_le [of j] by (auto simp: sized_def)
  then have "tag_bytes j \<le> block_size j - 12 - tail_bytes j" using tag_bytes_min(4) [of j] by linarith
  then show "0 < tags_per_descriptor j" using tag_bytes_pos [of j] by (simp add: tags_per_descriptor_def div_greater_zero_iff)
  have "tags_per_descriptor j \<le> block_size j - 12 - tail_bytes j" by (simp add: tags_per_descriptor_def)
  then show "tags_per_descriptor j < 2 ^ 31" using s by (auto simp: sized_def)
qed

lemma put_header_loads:
  assumes "12 \<le> length b"
  shows "length (put_header b kind sequence) = length b" "load_be32 (put_header b kind sequence) 0 = JBD2_MAGIC"
    "load_be32 (put_header b kind sequence) 4 = kind" "load_be32 (put_header b kind sequence) 8 = sequence"
  using assms by (simp_all add: put_header_def be_simps)

text \<open>
  The header of a block of the log, and the blocks that begin a descriptor and a commit of a transaction.
\<close>

definition headed :: "disk_block \<Rightarrow> u32 \<Rightarrow> u32 \<Rightarrow> bool" where
  "headed b kind sequence \<longleftrightarrow> load_be32 b 0 = JBD2_MAGIC \<and> load_be32 b 4 = kind \<and> load_be32 b 8 = sequence"

lemma descriptor_block_facts:
  assumes "sized j" "items \<noteq> []" "length items \<le> tags_per_descriptor j" "\<forall>(goal, data) \<in> set items. target_fits j goal"
  shows "length (descriptor_block j sequence items) = block_size j" "headed (descriptor_block j sequence items) JBD2_DESCRIPTOR_BLOCK sequence"
    "has_csum j \<Longrightarrow> block_csum j (descriptor_block j sequence items) (block_size j - 4) =
       load_be32 (descriptor_block j sequence items) (block_size j - 4)"
    "descriptor_tags j (descriptor_block j sequence items) 12 = tags_for j sequence items"
proof -
  let ?h = "put_header (replicate (block_size j) 0) 1 sequence"
  let ?b = "put_tags j sequence ?h 12 items" and ?d = "descriptor_block j sequence items"
  have size: "1024 \<le> block_size j" using assms(1) by (simp add: sized_def)
  have fit: "12 + length items * tag_bytes j \<le> block_size j - tail_bytes j" by (rule tags_fit [OF assms(1,3)])
  have len: "length ?h = block_size j" using size by (simp add: put_header_loads)
  have lenb: "length ?b = block_size j" using fit len by simp
  have d: "?d = (if has_csum j then store_be32 ?b (block_size j - 4) (block_csum j ?b (block_size j - 4)) else ?b)"
    by (simp add: descriptor_block_def Let_def)
  show lend: "length ?d = block_size j" using lenb size by (simp add: d)
  have low: "?d ! i = ?b ! i" if "i < block_size j - tail_bytes j" for i
    using that lenb size by (cases "has_csum j") (simp_all add: d tail_bytes_def nth_store_be32_other)
  have "?b ! i = ?h ! i" if "i < 12" for i
    by (rule nth_put_tags_other) (use that len fit size in auto)
  then have head: "?d ! i = ?h ! i" if "i < 12" for i using low that fit by simp
  have "load_be32 ?d k = load_be32 ?h k" if "k + 4 \<le> 12" for k
    by (rule load_be32_cong) (use head that in auto)
  then show "headed ?d 1 sequence" using size by (simp add: headed_def put_header_loads)
  show "block_csum j ?d (block_size j - 4) = load_be32 ?d (block_size j - 4)" if "has_csum j"
    using that block_csum_sealed [of "block_size j - 4" ?b j] lenb size by (simp add: d)
  show "descriptor_tags j ?d 12 = tags_for j sequence items"
    by (rule descriptor_tags_put_tags [OF fit len lend assms(4,2)]) (use low fit in auto)
qed

lemma commit_block_facts:
  assumes "sized j"
  shows "length (commit_block j sequence now checksum) = block_size j" "headed (commit_block j sequence now checksum) JBD2_COMMIT_BLOCK sequence"
    "(sum_v1 j \<Longrightarrow> checksum' = checksum) \<Longrightarrow> commit_valid j (commit_block j sequence now checksum) checksum'"
proof -
  define seconds where "seconds = now div 1000000000"
  define b where "b = store_be32 (store_be32 (store_be32 (put_header (replicate (block_size j) 0) 2 sequence) 48 (ucast (drop_bit 32 seconds)))
    52 (ucast seconds)) 56 (ucast (now mod 1000000000))"
  have size: "1024 \<le> block_size j" using assms by (simp add: sized_def)
  have len: "length b = block_size j" using size by (simp add: b_def put_header_loads)
  have head: "load_be32 b 0 = JBD2_MAGIC" "load_be32 b 4 = 2" "load_be32 b 8 = sequence"
    using size by (simp_all add: b_def be_simps put_header_loads)
  have c: "commit_block j sequence now checksum =
      (if has_csum j then store_be32 b 16 (block_csum j b 16) else if sum_v1 j then store_be32 (b[12 := 1, 13 := 4]) 16 checksum else b)"
    by (simp add: commit_block_def Let_def b_def seconds_def)
  show "length (commit_block j sequence now checksum) = block_size j" using len size by (simp add: c)
  show "headed (commit_block j sequence now checksum) 2 sequence"
    unfolding headed_def using head len size by (simp add: c be_simps)
  have "commit_valid j (store_be32 b 16 (block_csum j b 16)) checksum'" if "has_csum j"
    using that block_csum_sealed [of 16 b j] len size by (simp add: commit_valid_def)
  then show "commit_valid j (commit_block j sequence now checksum) checksum'" if "sum_v1 j \<Longrightarrow> checksum' = checksum"
    using that len size unfolding c by (auto simp: commit_valid_def sum_v1_def load_store_be32)
qed

lemma log_image_facts:
  assumes "4 \<le> length d"
  shows "length (log_image d) = length d" "load_be32 (log_image d) 0 \<noteq> JBD2_MAGIC"
    "(if needs_escape d then store_be32 (log_image d) 0 JBD2_MAGIC else log_image d) = d"
  using assms by (auto simp: log_image_def needs_escape_def load_store_be32 store_store_be32 store_load_be32)

section \<open>The superblock\<close>

text \<open>
  The block that opening reads as this journal, apart from the start and the sequence number.
\<close>

definition image_ok :: "'c jbd2_journal \<Rightarrow> disk_block \<Rightarrow> bool" where
  "image_ok j b \<longleftrightarrow>
     length b = block_size j \<and> load_be32 b 0 = JBD2_MAGIC \<and> (load_be32 b 4 = JBD2_SUPERBLOCK_V1 \<or> load_be32 b 4 = JBD2_SUPERBLOCK_V2) \<and>
     unat (load_be32 b 12) = block_size j \<and>
     (load_be32 b 4 = JBD2_SUPERBLOCK_V1 \<longrightarrow> compat j = 0 \<and> incompat j = 0 \<and> uuid j = replicate 16 0) \<and>
     (load_be32 b 4 = JBD2_SUPERBLOCK_V2 \<longrightarrow> uuid j = take 16 (drop 48 b) \<and> incompat j AND NOT JBD2_INCOMPAT_KNOWN = 0) \<and>
     csum_seed j = crc32c_spec 0xFFFFFFFF (uuid j) \<and> load_be32 b 16 = maxlen j \<and> load_be32 b 20 = log_first j \<and>
     log_last j = (if incompat j AND JBD2_INCOMPAT_FAST_COMMIT \<noteq> 0
                   then maxlen j - (if load_be32 b 84 = 0 then 256 else load_be32 b 84) else maxlen j) \<and>
     (incompat j AND JBD2_INCOMPAT_FAST_COMMIT \<noteq> 0 \<longrightarrow> (if load_be32 b 84 = 0 then 256 else load_be32 b 84) < maxlen j) \<and>
     8 \<le> log_last j \<and> log_first j \<noteq> 0 \<and> log_first j + 4 < log_last j"

definition describes :: "'c jbd2_journal \<Rightarrow> disk_block \<Rightarrow> u32 \<Rightarrow> u32 \<Rightarrow> bool" where
  "describes j b start sequence \<longleftrightarrow>
     image_ok j b \<and> load_be32 b 28 = start \<and> load_be32 b 24 = sequence \<and> sequence \<noteq> 0 \<and>
     (load_be32 b 4 = JBD2_SUPERBLOCK_V2 \<longrightarrow> compat j = load_be32 b 36 \<and> incompat j = load_be32 b 40 \<and>
        (has_csum j \<longrightarrow> b ! 80 = 4 \<and> crc32c_spec 0xFFFFFFFF (take 1024 (store_be32 b 0xFC 0)) = load_be32 b 0xFC))"

lemma load_superblock_describes:
  assumes "describes j b start sequence"
  shows "load_superblock (blank_journal os c (block_size j)) b =
    Some ((blank_journal os c (block_size j))\<lparr>compat := compat j, incompat := incompat j, uuid := uuid j, csum_seed := csum_seed j,
      maxlen := maxlen j, log_first := log_first j, log_last := log_last j, log_sequence := sequence, log_start := start\<rparr>)"
proof -
  note d = assms [unfolded describes_def image_ok_def]
  let ?blank = "blank_journal os c (block_size j)"
  have feat: "read_features ?blank b = Some (?blank\<lparr>compat := compat j, incompat := incompat j, uuid := uuid j\<rparr>)"
  proof (cases "load_be32 b 4 = JBD2_SUPERBLOCK_V2")
    case True
    then have f: "load_be32 b 36 = compat j" "load_be32 b 40 = incompat j" "take 16 (drop 48 b) = uuid j" "incompat j AND NOT 0x3F = 0"
      "has_csum j \<Longrightarrow> b ! 80 = 4 \<and> crc32c_spec 0xFFFFFFFF (take 1024 (store_be32 b 0xFC 0)) = load_be32 b 0xFC"
      using d by auto
    have "has_csum (?blank\<lparr>compat := compat j, incompat := incompat j, uuid := uuid j\<rparr>) = has_csum j" by (simp add: has_csum_def)
    then show ?thesis using True f by (simp add: read_features_def Let_def)
  next
    case False
    then have "compat j = 0" "incompat j = 0" "uuid j = replicate 16 0" using d by auto
    with False show ?thesis by (simp add: read_features_def blank_journal_def)
  qed
  have geo: "log_last j \<ge> 8" "log_first j \<noteq> 0" "\<not> log_first j + 4 \<ge> log_last j" using d by auto
  have "read_geometry (?blank\<lparr>compat := compat j, incompat := incompat j, uuid := uuid j\<rparr>) b =
    Some (?blank\<lparr>compat := compat j, incompat := incompat j, uuid := uuid j, csum_seed := csum_seed j,
      maxlen := maxlen j, log_first := log_first j, log_last := log_last j, log_sequence := sequence, log_start := start\<rparr>)"
  proof (cases "incompat j AND JBD2_INCOMPAT_FAST_COMMIT = 0")
    case True
    then have "log_last j = maxlen j" using d by simp
    with True d geo show ?thesis by (simp add: read_geometry_def Let_def blank_journal_def not_less)
  next
    case False
    then have "log_last j = maxlen j - (if load_be32 b 84 = 0 then 256 else load_be32 b 84)"
      "\<not> (if load_be32 b 84 = 0 then 256 else load_be32 b 84) \<ge> maxlen j" using d by auto
    with False d geo show ?thesis by (simp add: read_geometry_def Let_def blank_journal_def not_less)
  qed
  then show ?thesis using d feat by (auto simp: load_superblock_def blank_journal_def)
qed

lemma nth_seal_superblock: "1024 \<le> length b \<Longrightarrow> i < 80 \<or> 80 < i \<and> i < 0xFC \<Longrightarrow> seal_superblock j b ! i = b ! i"
  by (auto simp: seal_superblock_def Let_def nth_store_be32_other)

lemma length_seal_superblock: "1024 \<le> length b \<Longrightarrow> length (seal_superblock j b) = length b"
  by (simp add: seal_superblock_def Let_def)

lemma load_seal_superblock: "1024 \<le> length b \<Longrightarrow> at + 4 \<le> 80 \<or> 80 < at \<and> at + 4 \<le> 0xFC \<Longrightarrow> load_be32 (seal_superblock j b) at = load_be32 b at"
  by (rule load_be32_cong, rule nth_seal_superblock) auto

lemma seal_superblock_ok:
  assumes "1024 \<le> length b" "has_csum j"
  shows "seal_superblock j b ! 80 = 4"
    "crc32c_spec 0xFFFFFFFF (take 1024 (store_be32 (seal_superblock j b) 0xFC 0)) = load_be32 (seal_superblock j b) 0xFC"
  using assms by (simp_all add: seal_superblock_def Let_def store_store_be32 load_store_be32 nth_store_be32_other)

lemma describes_image:
  assumes "image_ok j b" "sized j" "sequence \<noteq> 0"
  shows "describes j (superblock_image j b start sequence) start sequence"
proof -
  let ?b1 = "store_be32 (store_be32 b 24 sequence) 28 start"
  let ?b2 = "store_be32 (store_be32 ?b1 36 (compat j)) 40 (incompat j)"
  note ok = assms(1) [unfolded image_ok_def]
  have len: "1024 \<le> length b" "length b = block_size j" using assms(2) ok by (simp_all add: sized_def)
  have uuid: "take 16 (drop 48 ?b2) = take 16 (drop 48 b)"
    by (rule nth_equalityI) (use len in \<open>simp_all add: nth_store_be32_other\<close>)
  have uuids: "take 16 (drop 48 (seal_superblock j ?b2)) = take 16 (drop 48 ?b2)"
    by (rule nth_equalityI) (use len in \<open>simp_all add: nth_seal_superblock length_seal_superblock\<close>)
  show ?thesis
  proof (cases "load_be32 b 4 = JBD2_SUPERBLOCK_V2")
    case True
    then have img: "superblock_image j b start sequence = seal_superblock j ?b2" using len by (simp add: superblock_image_def Let_def be_simps)
    have loads: "load_be32 (seal_superblock j ?b2) 0 = load_be32 b 0" "load_be32 (seal_superblock j ?b2) 4 = 4"
      "load_be32 (seal_superblock j ?b2) 12 = load_be32 b 12" "load_be32 (seal_superblock j ?b2) 16 = load_be32 b 16"
      "load_be32 (seal_superblock j ?b2) 20 = load_be32 b 20" "load_be32 (seal_superblock j ?b2) 24 = sequence"
      "load_be32 (seal_superblock j ?b2) 28 = start" "load_be32 (seal_superblock j ?b2) 36 = compat j"
      "load_be32 (seal_superblock j ?b2) 40 = incompat j" "load_be32 (seal_superblock j ?b2) 84 = load_be32 b 84"
      using len True by (simp_all add: load_seal_superblock be_simps)
    have "length (seal_superblock j ?b2) = block_size j" using len by (simp add: length_seal_superblock)
    moreover have "has_csum j \<longrightarrow> seal_superblock j ?b2 ! 80 = 4 \<and>
        crc32c_spec 0xFFFFFFFF (take 1024 (store_be32 (seal_superblock j ?b2) 0xFC 0)) = load_be32 (seal_superblock j ?b2) 0xFC"
      using seal_superblock_ok [of ?b2 j] len by simp
    moreover have "take 16 (drop 48 (seal_superblock j ?b2)) = uuid j" "incompat j AND NOT 0x3F = 0" using uuid uuids ok True by auto
    ultimately show ?thesis
      unfolding describes_def image_ok_def img loads using ok assms(3) by (intro conjI impI; simp)
  next
    case False
    then have img: "superblock_image j b start sequence = ?b1" using len by (simp add: superblock_image_def Let_def be_simps)
    have loads: "load_be32 ?b1 0 = load_be32 b 0" "load_be32 ?b1 4 = load_be32 b 4"
      "load_be32 ?b1 12 = load_be32 b 12" "load_be32 ?b1 16 = load_be32 b 16"
      "load_be32 ?b1 20 = load_be32 b 20" "load_be32 ?b1 24 = sequence" "load_be32 ?b1 28 = start" "load_be32 ?b1 84 = load_be32 b 84"
      using len by (simp_all add: be_simps)
    show ?thesis
      unfolding describes_def image_ok_def img loads using ok assms(3) False len by (intro conjI impI; simp)
  qed
qed

lemma open_image_ok:
  assumes "load_superblock (blank_journal os c bs) b = Some j" "length b = bs"
  shows "image_ok j b" "block_size j = bs" "log_sequence j \<noteq> 0"
proof -
  let ?blank = "blank_journal os c bs"
  obtain j1 where f: "read_features ?blank b = Some j1" "read_geometry j1 b = Some j" "load_be32 b 0 = JBD2_MAGIC"
    "load_be32 b 4 = JBD2_SUPERBLOCK_V1 \<or> load_be32 b 4 = JBD2_SUPERBLOCK_V2" "unat (load_be32 b 12) = bs"
    using assms(1) by (auto simp: load_superblock_def blank_journal_def split: if_split_asm option.split_asm)
  have g: "block_size j = block_size j1" "compat j = compat j1" "incompat j = incompat j1" "uuid j = uuid j1" "log_sequence j \<noteq> 0"
    "csum_seed j = crc32c_spec 0xFFFFFFFF (uuid j1)" "maxlen j = load_be32 b 16" "log_first j = load_be32 b 20"
    "8 \<le> log_last j" "log_first j \<noteq> 0" "log_first j + 4 < log_last j"
    "log_last j = (if incompat j AND JBD2_INCOMPAT_FAST_COMMIT \<noteq> 0
                   then maxlen j - (if load_be32 b 84 = 0 then 256 else load_be32 b 84) else maxlen j)"
    "incompat j AND JBD2_INCOMPAT_FAST_COMMIT \<noteq> 0 \<longrightarrow> (if load_be32 b 84 = 0 then 256 else load_be32 b 84) < maxlen j"
    using f(2) unfolding read_geometry_def Let_def by (auto simp: not_le not_less split: if_split_asm)
  have h: "block_size j1 = bs" "load_be32 b 4 \<noteq> JBD2_SUPERBLOCK_V2 \<Longrightarrow> compat j1 = 0 \<and> incompat j1 = 0 \<and> uuid j1 = replicate 16 0"
    "load_be32 b 4 = JBD2_SUPERBLOCK_V2 \<Longrightarrow> uuid j1 = take 16 (drop 48 b) \<and> incompat j1 AND NOT JBD2_INCOMPAT_KNOWN = 0"
    using f(1) by (auto simp: read_features_def Let_def blank_journal_def split: if_split_asm)
  show "block_size j = bs" "log_sequence j \<noteq> 0" using g h by simp_all
  show "image_ok j b" unfolding image_ok_def using f g h assms(2) by auto
qed

end
