(* ===== verification/Jbd2_Disk.thy ===== *)
theory Jbd2_Disk
  imports Jbd2_Blocks
begin

text \<open>
  A disk with a volatile write cache, and what the writing half of the journal sends to it. A block is written as a whole; a write may reach the
  medium at any time, and has reached it once a later flush has returned. The device operations of the
  journal are interpreted by recording the writes and flushes.
\<close>

section \<open>The disk\<close>

datatype disk_event = Put u64 disk_block | Sync

type_synonym disk_content = "u64 \<Rightarrow> disk_block"

record disk =
  medium :: disk_content
  events :: "disk_event list"
  placing :: "u32 \<Rightarrow> u64 option"

fun apply_event :: "disk_content \<Rightarrow> disk_event \<Rightarrow> disk_content" where
  "apply_event d (Put a b) = d(a := b)"
| "apply_event d Sync = d"

definition content_after :: "disk_content \<Rightarrow> disk_event list \<Rightarrow> disk_content" where
  "content_after = foldl apply_event"

definition content :: "disk \<Rightarrow> disk_content" where
  "content c = content_after (medium c) (events c)"

fun puts_from :: "u64 \<Rightarrow> disk_block list \<Rightarrow> disk_event list" where
  "puts_from a [] = []"
| "puts_from a (b # bs) = Put a b # puts_from (a + 1) bs"

definition record_events :: "disk \<Rightarrow> disk_event list \<Rightarrow> disk" where
  "record_events c es = c\<lparr>events := events c @ es\<rparr>"

definition disk_ops :: "disk jbd2_ops" where
  "disk_ops =
     \<lparr>read_op = (\<lambda>c a. Some (content c a)), write_op = (\<lambda>c a b. (True, record_events c [Put a b])), map_op = (\<lambda>c p. placing c p),
      flush_op = Some (\<lambda>c. (True, record_events c [Sync])),
      write_run_op = Some (\<lambda>c a bs. (True, record_events c (puts_from a bs)))\<rparr>"

text \<open>
  What the medium may hold when the power fails: for every block its content at the last flush or any content written to it since.
\<close>

fun cache_step :: "disk_content \<times> (u64 \<Rightarrow> disk_block set) \<Rightarrow> disk_event \<Rightarrow> disk_content \<times> (u64 \<Rightarrow> disk_block set)" where
  "cache_step (d, p) (Put a b) = (d(a := b), p(a := insert b (p a)))"
| "cache_step (d, p) Sync = (d, (\<lambda>a. {d a}))"

definition cache_after :: "disk_content \<Rightarrow> disk_event list \<Rightarrow> disk_content \<times> (u64 \<Rightarrow> disk_block set)" where
  "cache_after d es = foldl cache_step (d, (\<lambda>a. {d a})) es"

definition crash_in :: "disk_content \<Rightarrow> disk_event list \<Rightarrow> disk_content \<Rightarrow> bool" where
  "crash_in d es d' \<longleftrightarrow> (\<exists>sent todo. es = sent @ todo \<and> (\<forall>a. d' a \<in> snd (cache_after d sent) a))"

lemma content_after_simps [simp]:
  "content_after d [] = d" "content_after d (Put a b # es) = content_after (d(a := b)) es" "content_after d (Sync # es) = content_after d es"
  "content_after d (es @ fs) = content_after (content_after d es) fs"
  by (simp_all add: content_after_def)

lemma content_record [simp]: "content (record_events c es) = content_after (content c) es"
  "medium (record_events c es) = medium c" "placing (record_events c es) = placing c" "events (record_events c es) = events c @ es"
  "record_events (record_events c es) fs = record_events c (es @ fs)"
  by (simp_all add: content_def record_events_def)

lemma cache_after_fst: "fst (foldl cache_step (d, p) es) = content_after d es"
proof (induction es arbitrary: d p)
  case (Cons e es)
  then show ?case by (cases e) (simp_all del: fun_upd_apply)
qed simp

fun is_put :: "disk_event \<Rightarrow> bool" where
  "is_put (Put a b) = True"
| "is_put Sync = False"

lemma cache_puts: "list_all is_put es \<Longrightarrow> snd (foldl cache_step (d, p) es) a = p a \<union> {b. Put a b \<in> set es}"
proof (induction es arbitrary: d p)
  case (Cons e es)
  then show ?case by (cases e) auto
qed simp

text \<open>
  A power failure in a run of writes that is followed by a flush: during the writes, or after them with the writes on the medium.
\<close>

lemma crash_in_puts:
  assumes "list_all is_put ws" "crash_in d (ws @ Sync # es) d'"
  shows "(\<forall>a. d' a = d a \<or> Put a (d' a) \<in> set ws) \<or> crash_in (content_after d ws) es d'"
proof -
  obtain sent todo where e: "ws @ Sync # es = sent @ todo" and d': "\<forall>a. d' a \<in> snd (cache_after d sent) a"
    using assms(2) by (auto simp: crash_in_def)
  show ?thesis
  proof (cases "length sent \<le> length ws")
    case True
    then have p: "sent = take (length sent) ws" using e by (metis append_eq_append_conv_if append_take_drop_id)
    then have "list_all is_put sent" using assms(1) by (metis append_take_drop_id list_all_append)
    then have "\<forall>a. d' a \<in> {d a} \<union> {b. Put a b \<in> set sent}" using d' by (simp add: cache_after_def cache_puts)
    moreover have "set sent \<subseteq> set ws" using p by (metis set_take_subset)
    ultimately show ?thesis by blast
  next
    case False
    then obtain rest where p: "sent = ws @ Sync # rest" "es = rest @ todo"
      using e by (auto simp: append_eq_append_conv2 Cons_eq_append_conv)
    obtain v q where "foldl cache_step (d, \<lambda>a. {d a}) ws = (v, q)" by fastforce
    moreover from this have "v = content_after d ws" using cache_after_fst [of d "\<lambda>a. {d a}" ws] by simp
    ultimately have "cache_after d sent = cache_after (content_after d ws) rest"
      by (simp add: cache_after_def p(1))
    then show ?thesis using d' p(2) by (auto simp: crash_in_def)
  qed
qed

lemma crash_in_Nil: "crash_in d [] d' \<longleftrightarrow> d' = d"
  by (auto simp: crash_in_def cache_after_def)

section \<open>Journals on the disk\<close>

text \<open>
  \<open>flow\<close> is what has been sent to the disk and what still waits in the gather buffer. An operation that \<open>emits\<close> events changes nothing else.
\<close>

definition flow :: "disk jbd2_journal \<Rightarrow> disk_event list" where
  "flow j = events (jctx j) @ puts_from (gather_start j) (gather j)"

definition emits :: "disk jbd2_journal \<Rightarrow> disk_event list \<Rightarrow> disk jbd2_journal \<Rightarrow> bool" where
  "emits j es j' \<longleftrightarrow> (\<exists>c g s. j' = j\<lparr>jctx := (jctx j)\<lparr>events := c\<rparr>, gather := g, gather_start := s\<rparr>) \<and> flow j' = flow j @ es"

definition on_disk :: "disk jbd2_journal \<Rightarrow> bool" where
  "on_disk j \<longleftrightarrow> jops j = disk_ops"

lemma emitsI: "j' = j\<lparr>jctx := (jctx j)\<lparr>events := c\<rparr>, gather := g, gather_start := s\<rparr> \<Longrightarrow> flow j' = flow j @ es \<Longrightarrow> emits j es j'"
  unfolding emits_def by blast

lemma emits_refl: "emits j [] j"
  by (rule emitsI [where c = "events (jctx j)" and g = "gather j" and s = "gather_start j"]) simp_all

lemma emits_trans: "emits j es j' \<Longrightarrow> emits j' fs j'' \<Longrightarrow> emits j (es @ fs) j''"
  unfolding emits_def by auto (metis (no_types, lifting))

lemma emits_fields:
  assumes "emits j es j'"
  shows "jops j' = jops j" "block_size j' = block_size j" "busy j' = busy j" "maxlen j' = maxlen j" "log_first j' = log_first j"
    "log_last j' = log_last j" "log_sequence j' = log_sequence j" "log_start j' = log_start j" "compat j' = compat j"
    "incompat j' = incompat j" "uuid j' = uuid j" "csum_seed j' = csum_seed j" "mapped j' = mapped j"
    "open_for_writes j' = open_for_writes j" "revokes j' = revokes j" "revoke_count j' = revoke_count j"
    "revoke_capacity j' = revoke_capacity j" "fast_commit_pending j' = fast_commit_pending j"
    "medium (jctx j') = medium (jctx j)" "placing (jctx j') = placing (jctx j)" "flow j' = flow j @ es"
  using assms unfolding emits_def by auto

text \<open>
  Two journals with the same geometry and features read and write the same blocks.
\<close>

definition same_format :: "'c jbd2_journal \<Rightarrow> 'c jbd2_journal \<Rightarrow> bool" where
  "same_format j j' \<longleftrightarrow>
     block_size j' = block_size j \<and> maxlen j' = maxlen j \<and> log_first j' = log_first j \<and> log_last j' = log_last j \<and>
     compat j' = compat j \<and> incompat j' = incompat j \<and> uuid j' = uuid j \<and> csum_seed j' = csum_seed j \<and> mapped j' = mapped j"

lemma same_format_flags:
  assumes "same_format j j'"
  shows "has_csum j' = has_csum j" "has_csum_v3 j' = has_csum_v3 j" "has_64bit j' = has_64bit j" "tag_bytes j' = tag_bytes j"
    "tail_bytes j' = tail_bytes j" "block_csum j' = block_csum j" "data_csum j' = data_csum j" "log_step j' = log_step j"
    "tags_per_descriptor j' = tags_per_descriptor j" "jbd2_journal_capacity j' = jbd2_journal_capacity j" "sum_v1 j' = sum_v1 j"
    "sized j' = sized j" "block_size j' = block_size j" "target_fits j' = target_fits j"
  using assms
  by (simp_all add: same_format_def has_csum_def has_csum_v3_def has_64bit_def tag_bytes_def tail_bytes_def block_csum_def data_csum_def
      log_step_def tags_per_descriptor_def jbd2_journal_capacity_def sum_v1_def sized_def target_fits_def Let_def fun_eq_iff)

lemma same_format_tags:
  assumes "same_format j j'"
  shows "read_tag j' = read_tag j" "put_tag j' = put_tag j" "tag_for j' = tag_for j" "commit_valid j' = commit_valid j"
    "commit_block j' = commit_block j" "seal_superblock j' = seal_superblock j" "superblock_image j' = superblock_image j"
    "image_ok j' = image_ok j" "describes j' = describes j"
  using assms same_format_flags [OF assms]
  by (simp_all add: same_format_def read_tag_def put_tag_def tag_for_def commit_valid_def commit_block_def seal_superblock_def
      superblock_image_def image_ok_def describes_def Let_def fun_eq_iff)

lemma same_format_put_tags: "same_format j j' \<Longrightarrow> put_tags j' sequence b at items = put_tags j sequence b at items"
proof (induction items arbitrary: b at)
  case (Cons item items)
  then show ?case by (cases item) (simp add: same_format_flags same_format_tags)
qed simp

lemma same_format_descriptor: "same_format j j' \<Longrightarrow> descriptor_block j' = descriptor_block j"
  by (simp add: descriptor_block_def same_format_flags same_format_put_tags Let_def fun_eq_iff)

lemma same_format_descriptor_tags: "same_format j j' \<Longrightarrow> descriptor_tags j' b at = descriptor_tags j b at"
proof (induction j b at rule: descriptor_tags.induct)
  case (1 j b at)
  then show ?case
    unfolding descriptor_tags.simps [of j' b at] descriptor_tags.simps [of j b at] same_format_flags [OF 1(2)] same_format_tags [OF 1(2)]
    by (auto split: prod.split)
qed

lemma emits_format: "emits j es j' \<Longrightarrow> same_format j j'"
  by (simp add: same_format_def emits_fields)

section \<open>Writing to the log\<close>

text \<open>
  The journal opened on the disk: all its blocks are known, distinct and not block 0, and the log lies inside.
\<close>

definition placed :: "disk jbd2_journal \<Rightarrow> bool" where
  "placed j \<longleftrightarrow> on_disk j \<and> sized j \<and> length (mapped j) = unat (maxlen j) \<and> 0 \<notin> set (mapped j) \<and> distinct (mapped j) \<and>
     0 < unat (log_first j) \<and> unat (log_first j) + 4 < unat (log_last j) \<and> unat (log_last j) \<le> unat (maxlen j) \<and> unat (maxlen j) < 2 ^ 31 \<and>
     (incompat j AND JBD2_INCOMPAT_FAST_COMMIT \<noteq> 0 \<longrightarrow> unat (log_last j) < unat (maxlen j)) \<and>
     (\<forall>i < unat (maxlen j). placing (jctx j) (of_nat i) = Some (mapped j ! i))"

lemma placedD:
  assumes "placed j"
  shows "jops j = disk_ops" "sized j" "length (mapped j) = unat (maxlen j)" "distinct (mapped j)" "0 < unat (log_first j)"
    "unat (log_first j) + 4 < unat (log_last j)" "unat (log_last j) \<le> unat (maxlen j)"
    "on_disk j" "unat (maxlen j) < 2 ^ 31"
  using assms by (simp_all add: placed_def on_disk_def)

lemma emits_placed: "placed j \<Longrightarrow> emits j es j' \<Longrightarrow> placed j'"
  unfolding placed_def on_disk_def by (simp add: emits_fields same_format_flags(12) [OF emits_format])

definition log_addr :: "'c jbd2_journal \<Rightarrow> u32 \<Rightarrow> u64" where
  "log_addr j p = mapped j ! unat p"

lemma log_locate_placed: "placed j \<Longrightarrow> unat p < unat (maxlen j) \<Longrightarrow> log_locate j p = Some (log_addr j p)"
proof -
  assume p: "placed j" "unat p < unat (maxlen j)"
  then have "mapped j ! unat p \<in> set (mapped j)" "0 \<notin> set (mapped j)" by (simp_all add: placed_def)
  then have "mapped j ! unat p \<noteq> 0" by metis
  then show ?thesis using p by (simp add: log_locate_def log_addr_def placed_def)
qed

lemma log_read_placed: "placed j \<Longrightarrow> unat p < unat (maxlen j) \<Longrightarrow> log_read j p = Some (content (jctx j) (log_addr j p))"
  by (simp add: log_read_def log_locate_placed placedD disk_ops_def)

lemma device_write_disk: "on_disk j \<Longrightarrow> device_write j a b = (True, j\<lparr>jctx := record_events (jctx j) [Put a b]\<rparr>)"
  by (simp add: device_write_def on_disk_def disk_ops_def)

lemma device_flush_disk: "on_disk j \<Longrightarrow> device_flush j = (True, j\<lparr>jctx := record_events (jctx j) [Sync]\<rparr>)"
  by (simp add: device_flush_def on_disk_def disk_ops_def)

lemma emits_record:
  assumes "gather j = []"
  shows "emits j es (j\<lparr>jctx := record_events (jctx j) es\<rparr>)"
  by (rule emitsI [where c = "events (jctx j) @ es" and g = "gather j" and s = "gather_start j"]) (simp_all add: record_events_def flow_def assms)

lemma puts_from_append: "puts_from a (bs @ [b]) = puts_from a bs @ [Put (a + of_nat (length bs)) b]"
  by (induction bs arbitrary: a) (simp_all add: add.assoc)

lemma gather_flush_disk:
  assumes "on_disk j"
  obtains j' where "gather_flush j = (True, j')" "emits j [] j'" "gather j' = []"
proof (cases "gather j = []")
  case True
  then show thesis using that [of j] emits_refl by (simp add: gather_flush_def)
next
  case False
  let ?j = "j\<lparr>jctx := record_events (jctx j) (puts_from (gather_start j) (gather j)), gather := []\<rparr>"
  have "gather_flush j = (True, ?j)" using False assms by (simp add: gather_flush_def write_run_def on_disk_def disk_ops_def)
  moreover have "emits j [] ?j"
    by (rule emitsI [where c = "events (jctx j) @ puts_from (gather_start j) (gather j)" and g = "[]" and s = "gather_start j"])
      (simp_all add: record_events_def flow_def)
  ultimately show thesis using that by simp
qed

lemma gather_add_disk:
  assumes "on_disk j"
  obtains j' where "gather_add j a b = (True, j')" "emits j [Put a b] j'"
proof -
  let ?full = "gather j \<noteq> [] \<and> (a \<noteq> gather_start j + of_nat (length (gather j)) \<or> length (gather j) = 32)"
  obtain j1 where j1: "(if ?full then gather_flush j else (True, j)) = (True, j1)" "emits j [] j1"
    "gather j1 \<noteq> [] \<longrightarrow> a = gather_start j1 + of_nat (length (gather j1))"
  proof (cases ?full)
    case True
    obtain j1 where "gather_flush j = (True, j1)" "emits j [] j1" "gather j1 = []" by (rule gather_flush_disk [OF assms])
    with True show thesis by (intro that [of j1]) simp_all
  next
    case False
    then have "(if ?full then gather_flush j else (True, j)) = (True, j)" "gather j \<noteq> [] \<longrightarrow> a = gather_start j + of_nat (length (gather j))"
      by auto
    then show thesis using that emits_refl by blast
  qed
  let ?s = "if gather j1 = [] then a else gather_start j1"
  let ?j = "j1\<lparr>gather := gather j1 @ [b], gather_start := ?s\<rparr>"
  have "gather_add j a b = (True, ?j)" unfolding gather_add_def j1(1) by simp
  moreover have "emits j1 [Put a b] ?j"
    by (rule emitsI [where c = "events (jctx j1)" and g = "gather j1 @ [b]" and s = ?s]) (use j1(3) in \<open>simp_all add: flow_def puts_from_append\<close>)
  ultimately show thesis using that emits_trans [OF j1(2)] by (metis append_Nil)
qed

lemma gather_sync_disk:
  assumes "on_disk j"
  obtains j' where "gather_sync j = (True, j')" "emits j [Sync] j'" "gather j' = []"
proof -
  obtain j1 where j1: "gather_flush j = (True, j1)" "emits j [] j1" "gather j1 = []" by (rule gather_flush_disk [OF assms])
  have d: "on_disk j1" using assms j1(2) by (simp add: on_disk_def emits_fields)
  show thesis
  proof (rule that)
    show "gather_sync j = (True, j1\<lparr>jctx := record_events (jctx j1) [Sync]\<rparr>)" by (simp add: gather_sync_def j1(1) device_flush_disk [OF d])
    show "emits j [Sync] (j1\<lparr>jctx := record_events (jctx j1) [Sync]\<rparr>)"
      using emits_trans [OF j1(2) emits_record [OF j1(3)]] by (metis append_Nil)
  qed (simp add: j1(3))
qed

definition log_pos :: "'c jbd2_journal \<Rightarrow> nat \<Rightarrow> u32" where
  "log_pos j n = log_first j + of_nat n"

lemma unat_log_pos: "unat (log_first j) + n < 2 ^ 32 \<Longrightarrow> unat (log_pos j n) = unat (log_first j) + n"
proof -
  assume "unat (log_first j) + n < 2 ^ 32"
  moreover from this have "unat (of_nat n :: u32) = n" by (simp add: unat_of_nat take_bit_eq_mod)
  ultimately show ?thesis by (simp add: log_pos_def unat_word_ariths)
qed

lemma log_pos_inside:
  assumes "unat (log_first j) + n < unat (log_last j)"
  shows "unat (log_pos j n) = unat (log_first j) + n"
  using assms unat_u32_less [of "log_last j"] by (intro unat_log_pos) linarith

lemma log_step_pos:
  assumes "unat (log_first j) + Suc n < unat (log_last j)"
  shows "log_step j (log_pos j n) = log_pos j (Suc n)"
proof -
  have "log_pos j n + 1 = log_pos j (Suc n)" by (simp add: log_pos_def)
  moreover have "\<not> log_last j \<le> log_pos j (Suc n)" using log_pos_inside [OF assms] assms by (simp add: word_le_nat_alt)
  ultimately show ?thesis by (simp add: log_step_def)
qed

lemma same_format_pos: "same_format j j' \<Longrightarrow> log_pos j' = log_pos j" "same_format j j' \<Longrightarrow> log_addr j' = log_addr j"
  by (simp_all add: same_format_def log_pos_def log_addr_def fun_eq_iff)

lemma write_log_block_disk:
  assumes "placed j" "unat (log_first j) + Suc n < unat (log_last j)"
  obtains j' where "write_log_block j (log_pos j n) b = (True, j', log_pos j (Suc n))" "emits j [Put (log_addr j (log_pos j n)) b] j'"
proof -
  have p: "unat (log_pos j n) < unat (maxlen j)" using log_pos_inside [of j n] assms placedD(7) [OF assms(1)] by simp
  obtain j' where j': "gather_add j (log_addr j (log_pos j n)) b = (True, j')" "emits j [Put (log_addr j (log_pos j n)) b] j'"
    by (rule gather_add_disk [OF placedD(8) [OF assms(1)]])
  show thesis
    by (rule that [OF _ j'(2)])
      (simp add: write_log_block_def log_locate_placed [OF assms(1) p] j'(1) same_format_flags(8) [OF emits_format [OF j'(2)]] log_step_pos [OF assms(2)])
qed

fun log_puts :: "'c jbd2_journal \<Rightarrow> nat \<Rightarrow> disk_block list \<Rightarrow> disk_event list" where
  "log_puts j n [] = []"
| "log_puts j n (b # bs) = Put (log_addr j (log_pos j n)) b # log_puts j (Suc n) bs"

lemma log_puts_append: "log_puts j n (bs @ cs) = log_puts j n bs @ log_puts j (n + length bs) cs"
  by (induction bs arbitrary: n) simp_all

lemma same_format_log_puts: "same_format j j' \<Longrightarrow> log_puts j' n bs = log_puts j n bs"
  by (induction bs arbitrary: n) (simp_all add: same_format_pos)

definition sum_blocks :: "'c jbd2_journal \<Rightarrow> u32 \<Rightarrow> disk_block list \<Rightarrow> u32" where
  "sum_blocks j checksum bs = (if sum_v1 j then foldl crc32_be_spec checksum bs else checksum)"

lemma same_format_sum_blocks: "same_format j j' \<Longrightarrow> sum_blocks j' = sum_blocks j"
  by (simp add: sum_blocks_def same_format_flags fun_eq_iff)

abbreviation log_images :: "log_item list \<Rightarrow> disk_block list" where
  "log_images items \<equiv> map (\<lambda>item. log_image (snd item)) items"

lemma log_data_disk:
  assumes "placed j" "unat (log_first j) + n + length items < unat (log_last j)"
  obtains j' where "log_data j (log_pos j n) checksum items = (True, j', log_pos j (n + length items), sum_blocks j checksum (log_images items))"
    "emits j (log_puts j n (log_images items)) j'"
  using assms
proof (induction items arbitrary: j n checksum thesis)
  case Nil
  show ?case by (rule Nil.prems(1) [of j]) (simp_all add: emits_refl sum_blocks_def)
next
  case (Cons item items)
  obtain goal data where item: "item = (goal, data)" by (cases item)
  let ?b = "log_image data" and ?ck = "if sum_v1 j then crc32_be_spec checksum (log_image data) else checksum"
  obtain j1 where j1: "write_log_block j (log_pos j n) ?b = (True, j1, log_pos j (Suc n))" "emits j [Put (log_addr j (log_pos j n)) ?b] j1"
  proof -
    have "unat (log_first j) + Suc n < unat (log_last j)" using Cons.prems(3) by simp
    from write_log_block_disk [OF Cons.prems(2) this] show thesis using that .
  qed
  have f: "same_format j j1" by (rule emits_format [OF j1(2)])
  have fit: "unat (log_first j1) + Suc n + length items < unat (log_last j1)" using Cons.prems(3) f by (simp add: same_format_def)
  obtain j2 where j2: "log_data j1 (log_pos j1 (Suc n)) ?ck items = (True, j2, log_pos j1 (Suc n + length items), sum_blocks j1 ?ck (log_images items))"
    "emits j1 (log_puts j1 (Suc n) (log_images items)) j2"
    by (rule Cons.IH [OF _ emits_placed [OF Cons.prems(2) j1(2)] fit])
  show ?case
  proof (rule Cons.prems(1))
    show "log_data j (log_pos j n) checksum (item # items) =
        (True, j2, log_pos j (n + length (item # items)), sum_blocks j checksum (log_images (item # items)))"
      using j1(1) j2(1) by (simp add: item Let_def same_format_pos [OF f] same_format_sum_blocks [OF f] sum_blocks_def)
    show "emits j (log_puts j n (log_images (item # items))) j2"
      using emits_trans [OF j1(2) j2(2)] by (simp add: item same_format_log_puts [OF f])
  qed
qed

fun log_blocks :: "nat \<Rightarrow> 'c jbd2_journal \<Rightarrow> u32 \<Rightarrow> log_item list \<Rightarrow> disk_block list" where
  "log_blocks n j sequence [] = []"
| "log_blocks 0 j sequence items = []"
| "log_blocks (Suc n) j sequence items =
     descriptor_block j sequence (take (tags_per_descriptor j) items) # log_images (take (tags_per_descriptor j) items) @
       log_blocks n j sequence (drop (tags_per_descriptor j) items)"

lemma same_format_log_blocks: "same_format j j' \<Longrightarrow> log_blocks n j' sequence items = log_blocks n j sequence items"
  by (induction n j sequence items rule: log_blocks.induct) (simp_all add: same_format_descriptor same_format_flags)

lemma log_batches_disk:
  assumes "placed j" "length items \<le> m" "unat (log_first j) + n + length (log_blocks m j sequence items) < unat (log_last j)"
  obtains j' where "log_batches m j sequence (log_pos j n) checksum items =
      (True, j', log_pos j (n + length (log_blocks m j sequence items)), sum_blocks j checksum (log_blocks m j sequence items))"
    "emits j (log_puts j n (log_blocks m j sequence items)) j'"
  using assms
proof (induction m arbitrary: j items n checksum thesis)
  case 0
  show ?case by (rule 0(1) [of j]) (use 0(3) in \<open>simp_all add: emits_refl sum_blocks_def\<close>)
next
  case (Suc m)
  show ?case
  proof (cases items)
    case Nil
    show ?thesis by (rule Suc.prems(1) [of j]) (simp_all add: Nil emits_refl sum_blocks_def)
  next
    case (Cons i rest)
    let ?t = "tags_per_descriptor j"
    let ?batch = "take ?t items" and ?rest = "drop ?t items"
    let ?d = "descriptor_block j sequence ?batch"
    let ?ck = "if sum_v1 j then crc32_be_spec checksum ?d else checksum"
    have bl: "log_blocks (Suc m) j sequence items = ?d # log_images ?batch @ log_blocks m j sequence ?rest"
      unfolding Cons by simp
    have t: "0 < ?t" using tags_per_descriptor_pos(1) placedD(2) [OF Suc.prems(2)] by blast
    have fit: "unat (log_first j) + n + Suc (length ?batch + length (log_blocks m j sequence ?rest)) < unat (log_last j)"
      using Suc.prems(4) by (simp add: bl)
    obtain j1 where j1: "write_log_block j (log_pos j n) ?d = (True, j1, log_pos j (Suc n))" "emits j [Put (log_addr j (log_pos j n)) ?d] j1"
    proof -
      have "unat (log_first j) + Suc n < unat (log_last j)" using fit by simp
      from write_log_block_disk [OF Suc.prems(2) this] show thesis using that .
    qed
    have f1: "same_format j j1" by (rule emits_format [OF j1(2)])
    have fit1: "unat (log_first j1) + Suc n + length ?batch < unat (log_last j1)" using fit f1 by (simp add: same_format_def)
    obtain j2 where j2: "log_data j1 (log_pos j1 (Suc n)) ?ck ?batch =
        (True, j2, log_pos j1 (Suc n + length ?batch), sum_blocks j1 ?ck (log_images ?batch))"
      "emits j1 (log_puts j1 (Suc n) (log_images ?batch)) j2"
      by (rule log_data_disk [OF emits_placed [OF Suc.prems(2) j1(2)] fit1])
    have f2: "same_format j j2" using f1 emits_format [OF j2(2)] by (simp add: same_format_def)
    have p2: "placed j2" by (rule emits_placed [OF emits_placed [OF Suc.prems(2) j1(2)] j2(2)])
    let ?k = "Suc n + length ?batch" and ?ck2 = "sum_blocks j1 ?ck (log_images ?batch)"
    have l2: "length ?rest \<le> m" using Suc.prems(3) t by simp
    have fit2: "unat (log_first j2) + ?k + length (log_blocks m j2 sequence ?rest) < unat (log_last j2)"
      using fit f2 by (simp add: same_format_def same_format_log_blocks [OF f2])
    obtain j3 where j3: "log_batches m j2 sequence (log_pos j2 ?k) ?ck2 ?rest =
        (True, j3, log_pos j2 (?k + length (log_blocks m j2 sequence ?rest)), sum_blocks j2 ?ck2 (log_blocks m j2 sequence ?rest))"
      "emits j2 (log_puts j2 ?k (log_blocks m j2 sequence ?rest)) j3"
      by (rule Suc.IH [OF _ p2 l2 fit2])
    note same = same_format_pos [OF f1] same_format_pos [OF f2] same_format_sum_blocks [OF f1] same_format_sum_blocks [OF f2]
      same_format_log_blocks [OF f2] same_format_log_puts [OF f1] same_format_log_puts [OF f2] same_format_flags(9) [OF f2]
    show ?thesis
    proof (rule Suc.prems(1))
      have sums: "sum_blocks j ?ck2 (log_blocks m j sequence ?rest) = sum_blocks j checksum (log_blocks (Suc m) j sequence items)"
        unfolding bl same by (simp add: sum_blocks_def)
      have len: "?k + length (log_blocks m j sequence ?rest) = n + length (log_blocks (Suc m) j sequence items)"
        unfolding bl by simp
      have "log_batches (Suc m) j sequence (log_pos j n) checksum items =
          (case log_data j1 (log_pos j (Suc n)) ?ck ?batch of
             (False, j2, position2, checksum2) \<Rightarrow> (False, j2, position2, checksum2)
           | (True, j2, position2, checksum2) \<Rightarrow> log_batches m j2 sequence position2 checksum2 ?rest)"
        using j1(1) unfolding Cons by (simp add: Let_def)
      also have "\<dots> = log_batches m j2 sequence (log_pos j2 ?k) ?ck2 ?rest"
        using j2(1) by (simp add: same)
      also have "\<dots> = (True, j3, log_pos j (n + length (log_blocks (Suc m) j sequence items)),
          sum_blocks j checksum (log_blocks (Suc m) j sequence items))"
        using j3(1) sums len by (simp only: same)
      finally show "log_batches (Suc m) j sequence (log_pos j n) checksum items = \<dots>" .
      show "emits j (log_puts j n (log_blocks (Suc m) j sequence items)) j3"
        using emits_trans [OF emits_trans [OF j1(2) j2(2)] j3(2)] by (simp add: bl same log_puts_append)
    qed
  qed
qed

text \<open>
  What a whole transaction sends to the disk.
\<close>

lemma flow_gathered: "gather j = [] \<Longrightarrow> flow j = events (jctx j)"
  by (simp add: flow_def)

lemma log_write_disk:
  assumes "placed j" "unat p < unat (maxlen j)"
  shows "log_write j p b = (True, j\<lparr>jctx := record_events (jctx j) [Put (log_addr j p) b]\<rparr>)"
  using assms by (simp add: log_write_def log_locate_placed device_write_disk placedD(8))

lemma write_journal_superblock_disk:
  assumes "placed j"
  shows "write_journal_superblock j start sequence =
    (True, j\<lparr>jctx := record_events (jctx j) [Put (log_addr j 0) (superblock_image j (content (jctx j) (log_addr j 0)) start sequence)],
       log_start := start, log_sequence := sequence\<rparr>)"
proof -
  have "unat (0 :: u32) < unat (maxlen j)" using placedD(6,7) [OF assms] by simp
  then show ?thesis by (simp add: write_journal_superblock_def log_read_placed [OF assms] log_write_disk [OF assms])
qed

definition commit_events :: "'c jbd2_journal \<Rightarrow> u64 \<Rightarrow> log_item list \<Rightarrow> disk_event list" where
  "commit_events j now items =
     (let bl = log_blocks (length items) j (log_sequence j) items
      in log_puts j 0 bl @
         [Sync, Put (log_addr j (log_pos j (length bl))) (commit_block j (log_sequence j) now (sum_blocks j 0xFFFFFFFF bl)), Sync])"

lemma log_transaction_disk:
  assumes "placed j" "unat (log_first j) + length (log_blocks (length items) j (log_sequence j) items) < unat (log_last j)"
  obtains j' where "log_transaction now j items = (True, j')" "emits j (commit_events j now items) j'" "gather j' = []"
proof -
  let ?bl = "log_blocks (length items) j (log_sequence j) items"
  obtain j1 where j1: "log_batches (length items) j (log_sequence j) (log_pos j 0) 0xFFFFFFFF items =
      (True, j1, log_pos j (0 + length ?bl), sum_blocks j 0xFFFFFFFF ?bl)" "emits j (log_puts j 0 ?bl) j1"
    by (rule log_batches_disk [OF assms(1) order_refl, of 0]) (use assms(2) in simp_all)
  have p1: "placed j1" by (rule emits_placed [OF assms(1) j1(2)])
  obtain j2 where j2: "gather_sync j1 = (True, j2)" "emits j1 [Sync] j2" "gather j2 = []"
    by (rule gather_sync_disk [OF placedD(8) [OF p1]])
  have p2: "placed j2" by (rule emits_placed [OF p1 j2(2)])
  have f: "same_format j j2" using emits_format [OF j1(2)] emits_format [OF j2(2)] by (simp add: same_format_def)
  let ?p = "log_pos j (length ?bl)" and ?b = "commit_block j (log_sequence j) now (sum_blocks j 0xFFFFFFFF ?bl)"
  have inside: "unat ?p < unat (maxlen j2)"
    using log_pos_inside [OF assms(2)] assms(2) placedD(7) [OF assms(1)] f by (simp add: same_format_def)
  let ?j3 = "j2\<lparr>jctx := record_events (jctx j2) [Put (log_addr j ?p) ?b]\<rparr>"
  have w: "log_write j2 ?p ?b = (True, ?j3)" using log_write_disk [OF p2 inside] by (simp add: same_format_pos [OF f])
  have d3: "on_disk ?j3" using placedD(8) [OF p2] by (simp add: on_disk_def)
  let ?j4 = "j2\<lparr>jctx := record_events (jctx j2) [Put (log_addr j ?p) ?b, Sync]\<rparr>"
  have "log_transaction now j items = (True, ?j4)"
    using j1(1) j2(1) w device_flush_disk [OF d3] by (simp add: log_transaction_def log_pos_def [of j 0] same_format_tags(5) [OF f])
  moreover have "emits j (commit_events j now items) ?j4"
    using emits_trans [OF emits_trans [OF j1(2) j2(2)] emits_record [OF j2(3), of "[Put (log_addr j ?p) ?b, Sync]"]]
    by (simp add: commit_events_def Let_def)
  ultimately show thesis using that j2(3) by simp
qed

definition item_puts :: "log_item list \<Rightarrow> disk_event list" where
  "item_puts items = map (\<lambda>(a, b). Put a b) items"

lemma gather_all_disk:
  assumes "on_disk j"
  obtains j' where "gather_all j items = (True, j')" "emits j (item_puts items) j'"
  using assms
proof (induction items arbitrary: j thesis)
  case Nil
  show ?case by (rule Nil(1) [of j]) (simp_all add: emits_refl item_puts_def)
next
  case (Cons item items)
  obtain a b where item: "item = (a, b)" by (cases item)
  obtain j1 where j1: "gather_add j a b = (True, j1)" "emits j [Put a b] j1" by (rule gather_add_disk [OF Cons.prems(2)])
  have d1: "on_disk j1" using Cons.prems(2) j1(2) by (simp add: on_disk_def emits_fields)
  obtain j2 where j2: "gather_all j1 items = (True, j2)" "emits j1 (item_puts items) j2" by (rule Cons.IH [OF _ d1])
  show ?case
    by (rule Cons.prems(1) [of j2]) (use j1 j2 emits_trans [OF j1(2) j2(2)] in \<open>simp_all add: item item_puts_def\<close>)
qed

lemma checkpoint_disk:
  assumes "placed j" "gather j = []"
  obtains j1 where
    "checkpoint j items = (True, j1\<lparr>log_start := log_first j, log_sequence := log_sequence j + 1\<rparr>)" "gather j1 = []"
    "emits j (item_puts items @ [Sync,
       Put (log_addr j 0) (superblock_image j (content_after (content (jctx j)) (item_puts items) (log_addr j 0)) (log_first j) (log_sequence j + 1)),
       Sync]) j1"
proof -
  obtain j1 where j1: "gather_all j items = (True, j1)" "emits j (item_puts items) j1" by (rule gather_all_disk [OF placedD(8) [OF assms(1)]])
  have p1: "placed j1" by (rule emits_placed [OF assms(1) j1(2)])
  obtain j2 where j2: "gather_sync j1 = (True, j2)" "emits j1 [Sync] j2" "gather j2 = []"
    by (rule gather_sync_disk [OF placedD(8) [OF p1]])
  have e2: "emits j (item_puts items @ [Sync]) j2" by (rule emits_trans [OF j1(2) j2(2)])
  have p2: "placed j2" by (rule emits_placed [OF p1 j2(2)])
  have f: "same_format j j2" by (rule emits_format [OF e2])
  have c2: "content (jctx j2) = content_after (content (jctx j)) (item_puts items)"
    using emits_fields(19,21) [OF e2] flow_gathered [OF assms(2)] flow_gathered [OF j2(3)] by (simp add: content_def)
  let ?b = "superblock_image j (content_after (content (jctx j)) (item_puts items) (log_addr j 0)) (log_first j) (log_sequence j + 1)"
  let ?j3 = "j2\<lparr>jctx := record_events (jctx j2) [Put (log_addr j 0) ?b], log_start := log_first j, log_sequence := log_sequence j + 1\<rparr>"
  have w: "write_journal_superblock j2 (log_first j2) (log_sequence j2 + 1) = (True, ?j3)"
    using write_journal_superblock_disk [OF p2, of "log_first j2" "log_sequence j2 + 1"]
    by (simp add: same_format_pos [OF f] same_format_tags(7) [OF f] c2 emits_fields(5,7) [OF e2])
  have d3: "on_disk ?j3" using placedD(8) [OF p2] by (simp add: on_disk_def)
  let ?j4 = "j2\<lparr>jctx := record_events (jctx j2) [Put (log_addr j 0) ?b, Sync]\<rparr>"
  show thesis
  proof (rule that)
    show "checkpoint j items = (True, ?j4\<lparr>log_start := log_first j, log_sequence := log_sequence j + 1\<rparr>)"
      using j1(1) j2(1) w device_flush_disk [OF d3] by (simp add: checkpoint_def)
    show "gather ?j4 = []" by (simp add: j2(3))
    show "emits j (item_puts items @ [Sync, Put (log_addr j 0) ?b, Sync]) ?j4"
      using emits_trans [OF e2 emits_record [OF j2(3), of "[Put (log_addr j 0) ?b, Sync]"]] by simp
  qed
qed

section \<open>Capacity\<close>

lemma length_log_blocks:
  "0 < tags_per_descriptor j \<Longrightarrow> length items \<le> m \<Longrightarrow>
     length (log_blocks m j sequence items) =
       length items + (length items + tags_per_descriptor j - 1) div tags_per_descriptor j"
proof (induction m j sequence items rule: log_blocks.induct)
  case (3 m j sequence i rest)
  let ?t = "tags_per_descriptor j" and ?items = "i # rest"
  have ih: "length (log_blocks m j sequence (drop ?t ?items)) = length (drop ?t ?items) + (length (drop ?t ?items) + ?t - 1) div ?t"
    using 3 by simp
  have len: "length (log_blocks (Suc m) j sequence ?items) =
      1 + (min (length ?items) ?t + (length (drop ?t ?items) + (length (drop ?t ?items) + ?t - 1) div ?t))"
    using ih by simp
  show ?case
  proof (cases "length ?items \<le> ?t")
    case True
    then have "(length ?items + ?t - 1) div ?t = 1" using 3(2)
      by (intro div_nat_eqI) simp_all
    moreover have "(?t - 1) div ?t = 0" using 3(2) by simp
    ultimately show ?thesis using len True by (simp add: min_absorb1)
  next
    case False
    then have "(length ?items + ?t - 1) div ?t = Suc ((length ?items - ?t + ?t - 1) div ?t)"
      using 3(2) div_add_self2 [of ?t "length ?items - 1"] by simp
    then show ?thesis using len False by (simp add: min_absorb2)
  qed
qed simp_all

lemma ceiling_fits:
  fixes n u t :: nat
  assumes "0 < t" "n \<le> u - (u + t) div (t + 1)"
  shows "n + (n + t - 1) div t \<le> u"
proof -
  let ?q = "(u + t) div (t + 1)"
  have "u + t < (t + 1) * (?q + 1)" using dividend_less_times_div [of "t + 1" "u + t"] by simp
  then have "u \<le> ?q * t + ?q" by (simp add: algebra_simps)
  then have "n \<le> ?q * t" using assms(2) by linarith
  then have "n + t - 1 < t * (?q + 1)" using assms(1) by (simp add: algebra_simps)
  then have "(n + t - 1) div t < ?q + 1" by (simp add: less_mult_imp_div_less mult.commute)
  moreover have "?q \<le> u \<or> n = 0" using assms(2) by linarith
  ultimately show ?thesis using assms by (cases "n = 0") auto
qed

lemma unat_capacity:
  assumes "sized j" "unat (log_first j) + 4 < unat (log_last j)" "unat (log_last j) < 2 ^ 31"
  defines "u \<equiv> unat (log_last j) - unat (log_first j) - 2" and "t \<equiv> tags_per_descriptor j"
  shows "unat (jbd2_journal_capacity j) = u - (u + t) div (t + 1)" "0 < unat (jbd2_journal_capacity j)"
proof -
  have t: "0 < t" "t < 2 ^ 31" using tags_per_descriptor_pos [OF assms(1)] by (simp_all add: t_def)
  have ut: "unat (of_nat t :: u32) = t" using t by (simp add: unat_of_nat take_bit_eq_mod)
  have sp: "unat (log_last j - log_first j) = unat (log_last j) - unat (log_first j)"
    using assms(2) by (intro unat_sub) (simp add: word_le_nat_alt)
  have gt: "log_last j - log_first j > 2" using assms(2) by (simp add: word_less_nat_alt sp)
  have us: "unat (log_last j - log_first j - 2) = u"
    using gt by (subst unat_sub) (simp_all add: sp u_def word_le_nat_alt word_less_nat_alt)
  have sum: "unat (log_last j - log_first j - 2 + of_nat t) = u + t" "unat ((of_nat t :: u32) + 1) = t + 1"
    using t assms(3) by (simp_all add: unat_word_ariths ut us u_def)
  have q: "unat ((log_last j - log_first j - 2 + of_nat t) div ((of_nat t :: u32) + 1)) = (u + t) div (t + 1)"
    by (simp add: unat_div sum)
  have u: "2 < u" using assms(2) by (simp add: u_def)
  have "(u + t) div (t + 1) < u"
    using u t by (intro less_mult_imp_div_less) (auto simp: algebra_simps)
  then have less: "(u + t) div (t + 1) \<le> u" by simp
  have cap: "jbd2_journal_capacity j = log_last j - log_first j - 2 - (log_last j - log_first j - 2 + of_nat t) div (of_nat t + 1)"
    using gt by (simp add: jbd2_journal_capacity_def Let_def t_def)
  show "unat (jbd2_journal_capacity j) = u - (u + t) div (t + 1)"
  proof -
    have "unat (log_last j - log_first j - 2 - (log_last j - log_first j - 2 + of_nat t) div (of_nat t + 1)) =
        unat (log_last j - log_first j - 2) - unat ((log_last j - log_first j - 2 + of_nat t) div (of_nat t + 1))"
      by (rule unat_sub) (simp only: word_le_nat_alt q us less)
    then show ?thesis unfolding cap q us .
  qed
  then show "0 < unat (jbd2_journal_capacity j)" using \<open>(u + t) div (t + 1) < u\<close> by simp
qed

lemma capacity_fits:
  assumes "placed j" "length items \<le> unat (jbd2_journal_capacity j)"
  shows "unat (log_first j) + length (log_blocks (length items) j sequence items) + 2 \<le> unat (log_last j)"
proof -
  have g: "sized j" "unat (log_first j) + 4 < unat (log_last j)" "unat (log_last j) < 2 ^ 31"
    using placedD [OF assms(1)] by linarith+
  have t: "0 < tags_per_descriptor j" by (rule tags_per_descriptor_pos(1) [OF g(1)])
  have "length (log_blocks (length items) j sequence items) \<le> unat (log_last j) - unat (log_first j) - 2"
    unfolding length_log_blocks [OF t order_refl]
    by (rule ceiling_fits [OF t]) (use assms(2) in \<open>simp only: unat_capacity(1) [OF g]\<close>)
  then show ?thesis using g(2) by linarith
qed

end
