(* ===== verification/Jbd2_Recover.thy ===== *)
theory Jbd2_Recover
  imports Jbd2_Disk
begin

text \<open>
  Recovery from what the disk holds: opening finds the journal its superblock describes; a log without a commit block for the next
  transaction is dropped; a log with a whole transaction is replayed.
\<close>

section \<open>Opening\<close>

definition disk_of :: "disk_content \<Rightarrow> (u32 \<Rightarrow> u64 option) \<Rightarrow> disk" where
  "disk_of d place = \<lparr>medium = d, events = [], placing = place\<rparr>"

lemma content_disk_of [simp]: "content (disk_of d place) = d" "events (disk_of d place) = []" "placing (disk_of d place) = place"
  "medium (disk_of d place) = d"
  by (simp_all add: disk_of_def content_def)

lemma map_log_all:
  assumes "\<forall>i \<in> set ks. placing c (of_nat i) = Some (m i) \<and> m i \<noteq> 0"
  shows "map_log disk_ops c ks = map m ks"
  using assms by (induction ks) (simp_all add: disk_ops_def)

text \<open>
  The journal opened on a disk: the same journal as \<open>j\<close>, idle.
\<close>

definition reopened :: "disk jbd2_journal \<Rightarrow> disk_content \<Rightarrow> u32 \<Rightarrow> u32 \<Rightarrow> disk jbd2_journal" where
  "reopened j d start sequence =
     (blank_journal disk_ops (disk_of d (placing (jctx j))) (block_size j))\<lparr>compat := compat j, incompat := incompat j, uuid := uuid j,
       csum_seed := csum_seed j, maxlen := maxlen j, log_first := log_first j, log_last := log_last j, log_sequence := sequence,
       log_start := start, mapped := mapped j\<rparr>"

lemma reopened_fields:
  "same_format j (reopened j d start sequence)" "jops (reopened j d start sequence) = disk_ops"
  "jctx (reopened j d start sequence) = disk_of d (placing (jctx j))" "log_start (reopened j d start sequence) = start"
  "log_sequence (reopened j d start sequence) = sequence" "gather (reopened j d start sequence) = []"
  "revoke_capacity (reopened j d start sequence) = 0" "fast_commit_pending (reopened j d start sequence) = False"
  by (simp_all add: reopened_def same_format_def blank_journal_def)

lemma placed_format:
  assumes "placed j" "same_format j j'" "jops j' = disk_ops" "placing (jctx j') = placing (jctx j)"
  shows "placed j'"
  using assms same_format_flags(12) [OF assms(2)] unfolding placed_def on_disk_def same_format_def by simp

lemma open_reopened:
  assumes "placed j" "describes j (d (log_addr j 0)) start sequence"
  shows "jbd2_journal_open disk_ops (disk_of d (placing (jctx j))) (block_size j) True True True = Some (reopened j d start sequence)"
proof -
  have p: "\<forall>i < unat (maxlen j). placing (jctx j) (of_nat i) = Some (mapped j ! i)" "length (mapped j) = unat (maxlen j)"
    "0 \<notin> set (mapped j)" "0 < unat (maxlen j)" "1024 \<le> block_size j" "block_size j \<le> 4096"
    using assms(1) by (auto simp: placed_def sized_def)
  have nz: "mapped j ! i \<noteq> 0" if "i < unat (maxlen j)" for i using p(2,3) that by (metis nth_mem)
  have zero: "placing (jctx j) 0 = Some (log_addr j 0)" using p(1,4) by (auto simp: log_addr_def)
  have "map_log disk_ops (disk_of d (placing (jctx j))) [0..<unat (maxlen j)] = map (\<lambda>i. mapped j ! i) [0..<unat (maxlen j)]"
    by (rule map_log_all) (use p(1) nz in auto)
  also have "\<dots> = mapped j" using p(2) by (metis map_nth)
  finally have ml: "map_log disk_ops (disk_of d (placing (jctx j))) [0..<unat (maxlen j)] = mapped j" .
  have ops: "map_op disk_ops (disk_of d (placing (jctx j))) 0 = Some (log_addr j 0)"
    "read_op disk_ops (disk_of d (placing (jctx j))) (log_addr j 0) = Some (d (log_addr j 0))"
    by (simp_all add: disk_ops_def zero)
  have "log_addr j 0 \<noteq> 0" using nz [OF p(4)] by (simp add: log_addr_def)
  then show ?thesis
    using p load_superblock_describes [OF assms(2), of disk_ops "disk_of d (placing (jctx j))"] ml
    by (simp add: jbd2_journal_open_def ops reopened_def Let_def)
qed

section \<open>Scanning\<close>

definition in_log :: "'c jbd2_journal \<Rightarrow> u32 \<Rightarrow> bool" where
  "in_log j p \<longleftrightarrow> unat (log_first j) \<le> unat p \<and> unat p < unat (log_last j)"

lemma log_step_in_log:
  assumes "placed j" "in_log j p"
  shows "in_log j (log_step j p)"
proof (cases "p + 1 \<ge> log_last j")
  case True
  then show ?thesis using placedD(6) [OF assms(1)] by (simp add: log_step_def in_log_def)
next
  case False
  have "unat p + 1 < 2 ^ 32" using assms(2) unat_u32_less [of "log_last j"] by (simp add: in_log_def)
  then have "unat (p + 1) = unat p + 1" by (simp add: unat_word_ariths)
  with False assms(2) show ?thesis by (simp add: log_step_def in_log_def word_le_nat_alt)
qed

lemma log_read_in_log: "placed j \<Longrightarrow> in_log j p \<Longrightarrow> log_read j p = Some (content (jctx j) (log_addr j p))"
  using placedD(7) [of j] by (intro log_read_placed) (auto simp: in_log_def)

lemma descriptor_tags_nonempty:
  assumes "sized j"
  shows "descriptor_tags j b 12 \<noteq> []"
proof -
  have "12 + tag_bytes j \<le> block_size j - tail_bytes j" using assms tag_bytes_min(4) [of j] tail_bytes_le [of j] by (auto simp: sized_def)
  then show ?thesis by (subst descriptor_tags.simps) (simp split: prod.split)
qed

lemma walk_tags_quiet:
  assumes "placed j" "pass \<noteq> PASS_REPLAY" "in_log j p"
  obtains p' ck' where "walk_tags j pass sequence ts p ck = (J_ok, j, p', ck')" "in_log j p'"
  using assms
proof (induction ts arbitrary: p ck thesis)
  case (Cons t ts)
  obtain ck1 where "sum_block j pass p ck = Some ck1"
    using log_read_in_log [OF Cons.prems(2,4)] by (cases "sum_block j pass p ck") (auto simp: sum_block_def split: if_split_asm)
  moreover have "replay_tag j pass t p sequence = (J_ok, j)" using Cons.prems(3) by (simp add: replay_tag_def)
  moreover obtain p' ck' where "walk_tags j pass sequence ts (log_step j p) ck1 = (J_ok, j, p', ck')" "in_log j p'"
    by (rule Cons.IH [OF _ Cons.prems(2,3) log_step_in_log [OF Cons.prems(2,4)]])
  ultimately show ?case by (intro Cons.prems(1)) simp_all
qed simp

lemma scan_passive: "PASS_SCAN \<noteq> PASS_REPLAY"
  by simp

definition no_commit :: "'c jbd2_journal \<Rightarrow> disk_content \<Rightarrow> u32 \<Rightarrow> bool" where
  "no_commit j d sequence \<longleftrightarrow> (\<forall>p. in_log j p \<longrightarrow> \<not> headed (d (log_addr j p)) JBD2_COMMIT_BLOCK sequence)"

lemma scan_no_commit:
  assumes "placed j" "no_commit j (content (jctx j)) sequence" "in_log j p"
  shows "walk_loop guard room j PASS_SCAN stop p sequence ck = (J_ok, j, sequence)"
  using assms(3)
proof (induction guard arbitrary: p ck)
  case 0
  show ?case by (simp add: walk_loop.simps)
next
  case (Suc guard)
  let ?b = "content (jctx j) (log_addr j p)"
  have "load_be32 ?b 0 = JBD2_MAGIC \<Longrightarrow> load_be32 ?b 8 = sequence \<Longrightarrow> load_be32 ?b 4 \<noteq> 2"
    using assms(2) Suc.prems by (auto simp: no_commit_def headed_def)
  moreover obtain p' ck' where
    "walk_tags j PASS_SCAN sequence (descriptor_tags j ?b 12) (log_step j p)
       (if \<not> has_csum j \<and> compat j AND JBD2_COMPAT_CHECKSUM \<noteq> 0 then crc32_be_spec ck ?b else ck) = (J_ok, j, p', ck')" "in_log j p'"
    by (rule walk_tags_quiet [OF assms(1) scan_passive log_step_in_log [OF assms(1) Suc.prems]])
  ultimately show ?case
    using Suc.IH [OF log_step_in_log [OF assms(1) Suc.prems]] Suc.IH descriptor_tags_nonempty [OF placedD(2) [OF assms(1)], of ?b]
      log_read_in_log [OF assms(1) Suc.prems]
    by (simp add: walk_loop.simps Let_def)
qed

section \<open>Replaying\<close>

text \<open>
  Blocks that can be journalled: of the right size, outside the journal, and with a number the tags can hold.
\<close>

definition item_fits :: "'c jbd2_journal \<Rightarrow> log_item \<Rightarrow> bool" where
  "item_fits j item \<longleftrightarrow> length (snd item) = block_size j \<and> fst item \<notin> set (mapped j) \<and> target_fits j (fst item)"

text \<open>
  A block is replayed when the checksum of its tag, that of the block, is the checksum of its copy in the log. Where the two are the same
  block nothing can differ; a block that has to be escaped has another copy.
\<close>

definition intact :: "'c jbd2_journal \<Rightarrow> u32 \<Rightarrow> log_item \<Rightarrow> bool" where
  "intact j sequence item \<longleftrightarrow>
     (let logged = data_csum j sequence (log_image (snd item)); tagged = data_csum j sequence (snd item)
      in has_csum j \<longrightarrow> (if has_csum_v3 j then logged = tagged else logged AND 0xFFFF = tagged AND 0xFFFF))"

definition item_ok :: "'c jbd2_journal \<Rightarrow> log_item \<Rightarrow> bool" where
  "item_ok j item \<longleftrightarrow> item_fits j item \<and> (has_csum j \<longrightarrow> \<not> needs_escape (snd item))"

abbreviation kept :: "'c jbd2_journal \<Rightarrow> u32 \<Rightarrow> log_item list \<Rightarrow> log_item list" where
  "kept j sequence items \<equiv> filter (intact j sequence) items"

lemma item_ok_fits: "\<forall>item \<in> set items. item_ok j item \<Longrightarrow> \<forall>item \<in> set items. item_fits j item"
  by (simp add: item_ok_def)

lemma kept_ok: "\<forall>item \<in> set items. item_ok j item \<Longrightarrow> kept j sequence items = items"
  by (intro filter_True) (auto simp: item_ok_def intact_def log_image_def Let_def)

lemma same_format_item_fits: "same_format j j' \<Longrightarrow> item_fits j' = item_fits j"
  by (simp add: item_fits_def same_format_flags fun_eq_iff) (simp add: same_format_def)

lemma same_format_item_ok: "same_format j j' \<Longrightarrow> item_ok j' = item_ok j"
  by (simp add: item_ok_def same_format_item_fits same_format_flags fun_eq_iff)

lemma same_format_intact: "same_format j j' \<Longrightarrow> intact j' = intact j"
  by (simp add: intact_def same_format_flags fun_eq_iff)

lemma log_addr_mapped: "placed j \<Longrightarrow> in_log j p \<Longrightarrow> log_addr j p \<in> set (mapped j)"
  using placedD(3,7) [of j] by (auto simp: log_addr_def in_log_def)

lemma replay_block_item:
  assumes "placed j" "in_log j p" "item_fits j item" "content (jctx j) (log_addr j p) = log_image (snd item)"
  shows "replay_block j (tag_for j sequence item final) p sequence =
    (True, if intact j sequence item then j\<lparr>jctx := record_events (jctx j) [Put (fst item) (snd item)]\<rparr> else j)"
proof -
  have len: "4 \<le> length (snd item)" using assms(3) placedD(2) [OF assms(1)] by (simp add: item_fits_def sized_def)
  have "has_csum_v3 j \<Longrightarrow> has_csum j" by (rule has_csum_v3_csum)
  then show ?thesis
    using log_read_in_log [OF assms(1,2)] assms(4) log_image_facts(3) [OF len] device_write_disk [OF placedD(8) [OF assms(1)]]
    by (auto simp: replay_block_def tag_for_def Let_def flags_for_cases intact_def)
qed

text \<open>
  The log holds a list of blocks from a position on.
\<close>

definition holds_log :: "'c jbd2_journal \<Rightarrow> disk_content \<Rightarrow> nat \<Rightarrow> disk_block list \<Rightarrow> bool" where
  "holds_log j d n bs \<longleftrightarrow> unat (log_first j) + n + length bs < unat (log_last j) \<and> (\<forall>i < length bs. d (log_addr j (log_pos j (n + i))) = bs ! i)"

lemma holds_log_Cons: "holds_log j d n (b # bs) \<longleftrightarrow> d (log_addr j (log_pos j n)) = b \<and> holds_log j d (Suc n) bs"
  by (auto simp: holds_log_def less_Suc_eq_0_disj)

lemma holds_log_append: "holds_log j d n (bs @ cs) \<longleftrightarrow> holds_log j d n bs \<and> holds_log j d (n + length bs) cs"
proof (induction bs arbitrary: n)
  case (Cons b bs)
  then show ?case by (simp add: holds_log_Cons)
qed (auto simp: holds_log_def)

lemma in_log_pos: "unat (log_first j) + n < unat (log_last j) \<Longrightarrow> in_log j (log_pos j n)"
  by (simp add: in_log_def log_pos_inside)

lemma holds_log_frame:
  assumes "holds_log j d n bs" "placed j" "\<And>a. a \<in> set (mapped j) \<Longrightarrow> d' a = d a" "same_format j j'"
  shows "holds_log j' d' n bs"
proof -
  have "d' (log_addr j (log_pos j (n + i))) = d (log_addr j (log_pos j (n + i)))" if "i < length bs" for i
    using that assms(1) by (intro assms(3) log_addr_mapped [OF assms(2)] in_log_pos) (simp add: holds_log_def)
  then show ?thesis using assms(1,4) by (simp add: holds_log_def same_format_pos [OF assms(4)] same_format_def)
qed

text \<open>
  What replaying adds to the disk.
\<close>

definition replayed :: "jbd2_pass \<Rightarrow> disk jbd2_journal \<Rightarrow> log_item list \<Rightarrow> disk jbd2_journal" where
  "replayed pass j items = (if pass = PASS_REPLAY then j\<lparr>jctx := record_events (jctx j) (item_puts items)\<rparr> else j)"

lemma replayed_format: "same_format j (replayed pass j items)"
  by (simp add: replayed_def same_format_def)

lemma replayed_fields [simp]:
  "jops (replayed pass j items) = jops j" "placing (jctx (replayed pass j items)) = placing (jctx j)"
  "revoke_capacity (replayed pass j items) = revoke_capacity j" "log_sequence (replayed pass j items) = log_sequence j"
  "fast_commit_pending (replayed pass j items) = fast_commit_pending j"
  by (simp_all add: replayed_def)

lemma placed_replayed: "placed j \<Longrightarrow> placed (replayed pass j items)"
  by (rule placed_format [OF _ replayed_format]) (simp_all add: placedD)

lemma content_item_puts: "a \<notin> fst ` set items \<Longrightarrow> content_after d (item_puts items) a = d a"
proof (induction items arbitrary: d)
  case (Cons item items)
  then show ?case by (cases item) (simp add: item_puts_def)
qed (simp add: item_puts_def)

lemma replayed_content:
  assumes "\<forall>item \<in> set items. item_fits j item" "a \<in> set (mapped j)"
  shows "content (jctx (replayed pass j items)) a = content (jctx j) a"
  using assms content_item_puts [of a items "content (jctx j)"] by (auto simp: replayed_def item_fits_def)

lemma replayed_append: "replayed pass (replayed pass j items) items' = replayed pass j (items @ items')"
  by (simp add: replayed_def item_puts_def)

definition sum_pass :: "'c jbd2_journal \<Rightarrow> jbd2_pass \<Rightarrow> u32 \<Rightarrow> disk_block list \<Rightarrow> u32" where
  "sum_pass j pass checksum bs = (if pass = PASS_SCAN then sum_blocks j checksum bs else checksum)"

lemma same_format_sum_pass: "same_format j j' \<Longrightarrow> sum_pass j' = sum_pass j"
  by (simp add: sum_pass_def same_format_sum_blocks fun_eq_iff)

lemma sum_pass_append: "sum_pass j pass ck (bs @ cs) = sum_pass j pass (sum_pass j pass ck bs) cs"
  by (simp add: sum_pass_def sum_blocks_def)

lemma sum_block_image:
  assumes "placed j" "in_log j p"
  shows "sum_block j pass p ck = Some (sum_pass j pass ck [content (jctx j) (log_addr j p)])"
  using log_read_in_log [OF assms] by (simp add: sum_block_def sum_pass_def sum_blocks_def sum_v1_def)

lemma walk_tags_items:
  assumes "placed j" "\<forall>item \<in> set items. item_fits j item" "revoke_capacity j = 0"
    "holds_log j (content (jctx j)) n (log_images items)"
  shows "walk_tags j pass sequence (tags_for j sequence items) (log_pos j n) ck =
    (J_ok, replayed pass j (kept j sequence items), log_pos j (n + length items), sum_pass j pass ck (log_images items))"
  using assms
proof (induction items arbitrary: j n ck)
  case Nil
  show ?case by (simp add: replayed_def item_puts_def record_events_def sum_pass_def sum_blocks_def)
next
  case (Cons item items)
  define one where "one = kept j sequence [item]"
  let ?j = "replayed pass j one"
  have f: "same_format j ?j" by (rule replayed_format)
  have here: "content (jctx j) (log_addr j (log_pos j n)) = log_image (snd item)" and
    rest: "holds_log j (content (jctx j)) (Suc n) (log_images items)" using Cons.prems(4) by (simp_all add: holds_log_Cons)
  have inside: "in_log j (log_pos j n)" "unat (log_first j) + Suc n < unat (log_last j)"
    using rest by (auto simp: holds_log_def intro!: in_log_pos)
  have ok: "item_fits j item" "\<forall>i \<in> set one. item_fits j i" using Cons.prems(2) by (simp_all add: one_def)
  have "revoked j (target (tag_for j sequence item (items = []))) sequence = Some False" using Cons.prems(3) by (simp add: revoked_def)
  then have replay: "replay_tag j pass (tag_for j sequence item (items = [])) (log_pos j n) sequence = (J_ok, ?j)"
    using replay_block_item [OF Cons.prems(1) inside(1) ok(1) here, of sequence "items = []"]
    by (cases item) (simp add: one_def replay_tag_def replayed_def item_puts_def record_events_def)
  have step: "log_step ?j (log_pos j n) = log_pos ?j (Suc n)"
    using log_step_pos [OF inside(2)] by (simp add: same_format_flags(8) [OF f] same_format_pos [OF f])
  have IH: "walk_tags ?j pass sequence (tags_for ?j sequence items) (log_pos ?j (Suc n)) (sum_pass j pass ck [log_image (snd item)]) =
      (J_ok, replayed pass ?j (kept ?j sequence items), log_pos ?j (Suc n + length items),
       sum_pass ?j pass (sum_pass j pass ck [log_image (snd item)]) (log_images items))"
  proof (rule Cons.IH)
    show "placed ?j" by (rule placed_replayed [OF Cons.prems(1)])
    show "\<forall>item \<in> set items. item_fits ?j item" using Cons.prems(2) by (simp add: same_format_item_fits [OF f])
    show "holds_log ?j (content (jctx ?j)) (Suc n) (log_images items)"
      by (rule holds_log_frame [OF rest Cons.prems(1) replayed_content [OF ok(2)] f])
  qed (simp add: Cons.prems(3))
  have tags: "tags_for ?j sequence items = tags_for j sequence items"
    by (induction items) (simp_all add: same_format_tags(3) [OF f])
  show ?case
    using IH replay sum_block_image [OF Cons.prems(1) inside(1), of pass ck]
    by (simp add: here step tags same_format_pos [OF f] same_format_sum_pass [OF f] same_format_intact [OF f] replayed_append
        sum_pass_append [symmetric]) (simp add: one_def)
qed

lemma tags_for_Nil [simp]: "tags_for j sequence items = [] \<longleftrightarrow> items = []"
  by (cases items) simp_all

lemma walk_descriptor:
  assumes "placed j" "\<forall>item \<in> set items. item_fits j item" "revoke_capacity j = 0" "items \<noteq> []" "length items \<le> tags_per_descriptor j"
    "holds_log j (content (jctx j)) n (descriptor_block j sequence items # log_images items)" "pass \<noteq> PASS_SCAN \<longrightarrow> sequence \<noteq> stop"
  shows "walk_loop (Suc guard) room j pass stop (log_pos j n) sequence ck =
    walk_loop guard room (replayed pass j (kept j sequence items)) pass stop (log_pos j (n + Suc (length items))) sequence
      (sum_pass j pass ck (descriptor_block j sequence items # log_images items))"
proof -
  let ?b = "descriptor_block j sequence items"
  have here: "content (jctx j) (log_addr j (log_pos j n)) = ?b" and rest: "holds_log j (content (jctx j)) (Suc n) (log_images items)"
    using assms(6) by (simp_all add: holds_log_Cons)
  have inside: "in_log j (log_pos j n)" "unat (log_first j) + Suc n < unat (log_last j)"
    using rest by (auto simp: holds_log_def intro!: in_log_pos)
  have fits: "\<forall>(goal, data) \<in> set items. target_fits j goal" using assms(2) by (auto simp: item_fits_def)
  note d = descriptor_block_facts [OF placedD(2) [OF assms(1)] assms(4,5) fits, of sequence]
  have head: "load_be32 ?b 0 = JBD2_MAGIC" "load_be32 ?b 4 = 1" "load_be32 ?b 8 = sequence" using d(2) by (simp_all add: headed_def)
  have sum: "(if \<not> has_csum j \<and> compat j AND JBD2_COMPAT_CHECKSUM \<noteq> 0 \<and> pass = PASS_SCAN then crc32_be_spec ck ?b else ck) = sum_pass j pass ck [?b]"
    by (simp add: sum_pass_def sum_blocks_def sum_v1_def)
  have tags: "walk_tags j pass sequence (tags_for j sequence items) (log_step j (log_pos j n)) (sum_pass j pass ck [?b]) =
      (J_ok, replayed pass j (kept j sequence items), log_pos j (n + Suc (length items)), sum_pass j pass ck (?b # log_images items))"
    using walk_tags_items [OF assms(1-3) rest, of pass sequence "sum_pass j pass ck [?b]"]
    by (simp add: log_step_pos [OF inside(2)] sum_pass_append [symmetric])
  have csum: "\<not> (has_csum j \<and> block_csum j ?b (block_size j - 4) \<noteq> load_be32 ?b (block_size j - 4))" using d(3) by blast
  have read: "log_read j (log_pos j n) = Some ?b" using log_read_in_log [OF assms(1) inside(1)] here by simp
  have stop: "\<not> (pass \<noteq> PASS_SCAN \<and> sequence = stop)" using assms(7) by blast
  show ?thesis
    unfolding walk_loop.simps(2) if_not_P [OF stop] read option.case head sum d(4) if_not_P [OF csum]
    using tags assms(4) by (simp add: Let_def)
qed

fun log_turns :: "nat \<Rightarrow> nat \<Rightarrow> log_item list \<Rightarrow> nat" where
  "log_turns n t [] = 0"
| "log_turns 0 t items = 0"
| "log_turns (Suc n) t items = Suc (log_turns n t (drop t items))"

lemma log_turns_le: "log_turns n (tags_per_descriptor j) items \<le> length (log_blocks n j sequence items)"
  by (induction n j sequence items rule: log_blocks.induct) simp_all

lemma walk_blocks:
  assumes "placed j" "\<forall>item \<in> set items. item_fits j item" "revoke_capacity j = 0" "length items \<le> m"
    "holds_log j (content (jctx j)) n (log_blocks m j sequence items)" "pass \<noteq> PASS_SCAN \<longrightarrow> sequence \<noteq> stop"
  shows "walk_loop (log_turns m (tags_per_descriptor j) items + guard) room j pass stop (log_pos j n) sequence ck =
    walk_loop guard room (replayed pass j (kept j sequence items)) pass stop (log_pos j (n + length (log_blocks m j sequence items))) sequence
      (sum_pass j pass ck (log_blocks m j sequence items))"
  using assms
proof (induction m arbitrary: j items n ck)
  case 0
  then show ?case by (simp add: replayed_def item_puts_def record_events_def sum_pass_def sum_blocks_def)
next
  case (Suc m)
  show ?case
  proof (cases items)
    case Nil
    then show ?thesis by (simp add: replayed_def item_puts_def record_events_def sum_pass_def sum_blocks_def)
  next
    case (Cons i rest)
    let ?t = "tags_per_descriptor j"
    let ?batch = "take ?t items" and ?rest = "drop ?t items"
    let ?d = "descriptor_block j sequence ?batch" and ?j = "replayed pass j (kept j sequence ?batch)"
    have bl: "log_blocks (Suc m) j sequence items = ?d # log_images ?batch @ log_blocks m j sequence ?rest" unfolding Cons by simp
    have turns: "log_turns (Suc m) ?t items = Suc (log_turns m ?t ?rest)" unfolding Cons by simp
    have t: "0 < ?t" by (rule tags_per_descriptor_pos(1) [OF placedD(2) [OF Suc.prems(1)]])
    have ok: "\<forall>item \<in> set ?batch. item_fits j item" "\<forall>item \<in> set ?rest. item_fits j item"
      "\<forall>item \<in> set (kept j sequence ?batch). item_fits j item"
      using Suc.prems(2) by (auto dest: in_set_takeD in_set_dropD)
    have ne: "?batch \<noteq> []" "length ?batch \<le> ?t" using t by (simp_all add: Cons)
    have h: "holds_log j (content (jctx j)) n (?d # log_images ?batch)"
      "holds_log j (content (jctx j)) (n + Suc (length ?batch)) (log_blocks m j sequence ?rest)"
      using Suc.prems(5) holds_log_append [of j "content (jctx j)" n "?d # log_images ?batch"] unfolding bl by simp_all
    have f: "same_format j ?j" by (rule replayed_format)
    have h2: "holds_log ?j (content (jctx ?j)) (n + Suc (length ?batch)) (log_blocks m ?j sequence ?rest)"
      unfolding same_format_log_blocks [OF f]
      by (rule holds_log_frame [OF h(2) Suc.prems(1) replayed_content [OF ok(3)] f])
    have "walk_loop (log_turns (Suc m) ?t items + guard) room j pass stop (log_pos j n) sequence ck =
        walk_loop (log_turns m ?t ?rest + guard) room ?j pass stop (log_pos ?j (n + Suc (length ?batch))) sequence
          (sum_pass j pass ck (?d # log_images ?batch))"
      unfolding turns add_Suc walk_descriptor [OF Suc.prems(1) ok(1) Suc.prems(3) ne h(1) Suc.prems(6)] same_format_pos [OF f] ..
    also have "\<dots> = walk_loop guard room (replayed pass ?j (kept ?j sequence ?rest)) pass stop
        (log_pos ?j (n + Suc (length ?batch) + length (log_blocks m ?j sequence ?rest))) sequence
          (sum_pass ?j pass (sum_pass j pass ck (?d # log_images ?batch)) (log_blocks m ?j sequence ?rest))"
      using Suc.IH [OF placed_replayed [OF Suc.prems(1)] _ _ _ h2 Suc.prems(6)] ok(2) Suc.prems(3,4) t
      by (simp add: same_format_item_fits [OF f] same_format_flags(9) [OF f])
    also have "\<dots> = walk_loop guard room (replayed pass j (kept j sequence items)) pass stop (log_pos j (n + length (log_blocks (Suc m) j sequence items))) sequence
      (sum_pass j pass ck (log_blocks (Suc m) j sequence items))"
      unfolding same_format_intact [OF f] replayed_append filter_append [symmetric] append_take_drop_id same_format_pos [OF f] same_format_sum_pass [OF f] same_format_log_blocks [OF f]
        sum_pass_append [symmetric] bl by (simp add: ac_simps)
    finally show ?thesis .
  qed
qed

section \<open>Whole transactions\<close>

definition holds_transaction :: "'c jbd2_journal \<Rightarrow> disk_content \<Rightarrow> u32 \<Rightarrow> log_item list \<Rightarrow> bool" where
  "holds_transaction j d sequence items \<longleftrightarrow>
     (let bl = log_blocks (length items) j sequence items
      in holds_log j d 0 bl \<and> unat (log_first j) + length bl + 2 \<le> unat (log_last j) \<and>
         (\<exists>now. d (log_addr j (log_pos j (length bl))) = commit_block j sequence now (sum_blocks j 0xFFFFFFFF bl)))"

lemma walk_commit:
  assumes "placed j" "in_log j p" "content (jctx j) (log_addr j p) = commit_block j sequence now checksum"
    "pass \<noteq> PASS_SCAN \<longrightarrow> sequence \<noteq> stop" "pass = PASS_SCAN \<longrightarrow> sum_v1 j \<longrightarrow> ck = checksum"
  shows "walk_loop (Suc guard) room j pass stop p sequence ck = walk_loop guard room j pass stop (log_step j p) (sequence + 1) 0xFFFFFFFF"
proof -
  let ?b = "commit_block j sequence now checksum"
  note c = commit_block_facts [OF placedD(2) [OF assms(1)], where sequence = sequence and now = now and checksum = checksum]
  have head: "load_be32 ?b 0 = JBD2_MAGIC" "load_be32 ?b 4 = 2" "load_be32 ?b 8 = sequence" using c(2) by (simp_all add: headed_def)
  have valid: "\<not> (pass = PASS_SCAN \<and> \<not> commit_valid j ?b ck)" using c(3) [where checksum' = ck] assms(5) by blast
  have stop: "\<not> (pass \<noteq> PASS_SCAN \<and> sequence = stop)" using assms(4) by blast
  have read: "log_read j p = Some ?b" using log_read_in_log [OF assms(1,2)] assms(3) by simp
  show ?thesis
    unfolding walk_loop.simps(2) if_not_P [OF stop] read option.case head if_not_P [OF valid] by simp
qed

lemma walk_stop: "pass \<noteq> PASS_SCAN \<Longrightarrow> walk_loop guard room j pass stop p stop ck = (J_ok, j, stop)"
  by (cases guard) (simp_all add: walk_loop.simps)

lemma unat_guard: "placed j \<Longrightarrow> unat (log_last j + 1) = unat (log_last j) + 1"
  using placedD(7,9) [of j] by (simp add: unat_word_ariths)

lemma walk_transaction:
  assumes "placed j" "\<forall>item \<in> set items. item_fits j item" "revoke_capacity j = 0" "holds_transaction j (content (jctx j)) sequence items"
    "pass \<noteq> PASS_SCAN \<longrightarrow> sequence \<noteq> stop"
  obtains guard p where "in_log j p"
    "walk_loop (unat (log_last j + 1)) room j pass stop (log_first j) sequence 0xFFFFFFFF =
       walk_loop guard room (replayed pass j (kept j sequence items)) pass stop p (sequence + 1) 0xFFFFFFFF"
proof -
  let ?bl = "log_blocks (length items) j sequence items" and ?t = "tags_per_descriptor j"
  obtain now where h: "holds_log j (content (jctx j)) 0 ?bl" "unat (log_first j) + length ?bl + 2 \<le> unat (log_last j)"
    "content (jctx j) (log_addr j (log_pos j (length ?bl))) = commit_block j sequence now (sum_blocks j 0xFFFFFFFF ?bl)"
    using assms(4) by (auto simp: holds_transaction_def Let_def)
  have inside: "in_log j (log_pos j (length ?bl))" by (rule in_log_pos) (use h(2) in simp)
  let ?j = "replayed pass j (kept j sequence items)"
  have f: "same_format j ?j" by (rule replayed_format)
  have fits: "\<forall>item \<in> set (kept j sequence items). item_fits j item" using assms(2) by simp
  have here: "content (jctx ?j) (log_addr ?j (log_pos j (length ?bl))) = commit_block ?j sequence now (sum_blocks j 0xFFFFFFFF ?bl)"
    using replayed_content [OF fits log_addr_mapped [OF assms(1) inside], of pass] h(3)
    by (simp add: same_format_pos [OF f] same_format_tags(5) [OF f])
  define guard where "guard = unat (log_last j) - log_turns (length items) ?t items"
  have g: "unat (log_last j + 1) = log_turns (length items) ?t items + Suc guard"
    using log_turns_le [of "length items" j items sequence] h(2) unat_guard [OF assms(1)] by (simp add: guard_def)
  have "walk_loop (unat (log_last j + 1)) room j pass stop (log_pos j 0) sequence 0xFFFFFFFF =
      walk_loop (Suc guard) room ?j pass stop (log_pos j (0 + length ?bl)) sequence (sum_pass j pass 0xFFFFFFFF ?bl)"
    unfolding g by (rule walk_blocks [OF assms(1-3) order_refl h(1) assms(5)])
  also have "\<dots> = walk_loop guard room ?j pass stop (log_step ?j (log_pos j (length ?bl))) (sequence + 1) 0xFFFFFFFF"
    unfolding add_0
  proof (rule walk_commit [OF placed_replayed [OF assms(1)] _ here assms(5)])
    show "in_log ?j (log_pos j (length ?bl))" using inside f by (simp add: in_log_def same_format_def)
  qed (simp add: sum_pass_def)
  finally have "walk_loop (unat (log_last j + 1)) room j pass stop (log_first j) sequence 0xFFFFFFFF =
      walk_loop guard room ?j pass stop (log_step j (log_pos j (length ?bl))) (sequence + 1) 0xFFFFFFFF"
    by (simp add: same_format_flags(8) [OF f] log_pos_def [of j 0])
  then show thesis by (rule that [OF log_step_in_log [OF assms(1) inside]])
qed

lemma walk_log_transaction:
  assumes "placed j" "\<forall>item \<in> set items. item_fits j item" "revoke_capacity j = 0" "holds_transaction j (content (jctx j)) (log_sequence j) items"
    "log_start j = log_first j"
  shows "no_commit j (content (jctx j)) (log_sequence j + 1) \<Longrightarrow> walk_log room j PASS_SCAN stop = (J_ok, j, log_sequence j + 1)"
    "pass \<noteq> PASS_SCAN \<Longrightarrow> walk_log room j pass (log_sequence j + 1) = (J_ok, replayed pass j (kept j (log_sequence j) items), log_sequence j + 1)"
proof -
  assume nc: "no_commit j (content (jctx j)) (log_sequence j + 1)"
  obtain guard p where w: "in_log j p" "walk_loop (unat (log_last j + 1)) room j PASS_SCAN stop (log_first j) (log_sequence j) 0xFFFFFFFF =
      walk_loop guard room (replayed PASS_SCAN j (kept j (log_sequence j) items)) PASS_SCAN stop p (log_sequence j + 1) 0xFFFFFFFF"
    using walk_transaction [OF assms(1-4), of PASS_SCAN] by blast
  have "replayed PASS_SCAN j (kept j (log_sequence j) items) = j" by (simp add: replayed_def)
  then show "walk_log room j PASS_SCAN stop = (J_ok, j, log_sequence j + 1)"
    using w(2) scan_no_commit [OF assms(1) nc w(1)] assms(5) by (simp add: walk_log_def)
next
  assume pass: "pass \<noteq> PASS_SCAN"
  obtain guard p where "walk_loop (unat (log_last j + 1)) room j pass (log_sequence j + 1) (log_first j) (log_sequence j) 0xFFFFFFFF =
      walk_loop guard room (replayed pass j (kept j (log_sequence j) items)) pass (log_sequence j + 1) p (log_sequence j + 1) 0xFFFFFFFF"
  proof -
    have ne: "pass \<noteq> PASS_SCAN \<longrightarrow> log_sequence j \<noteq> log_sequence j + 1" by simp
    show thesis by (rule walk_transaction [OF assms(1-4) ne, of room]) (rule that)
  qed
  then show "walk_log room j pass (log_sequence j + 1) = (J_ok, replayed pass j (kept j (log_sequence j) items), log_sequence j + 1)"
    using pass assms(5) by (simp add: walk_log_def walk_stop)
qed

lemma walk_log_nothing:
  assumes "placed j" "no_commit j (content (jctx j)) (log_sequence j)" "log_start j = log_first j"
  shows "walk_log room j PASS_SCAN stop = (J_ok, j, log_sequence j)"
proof -
  have "in_log j (log_first j)" using placedD(6) [OF assms(1)] by (simp add: in_log_def)
  from scan_no_commit [OF assms(1,2) this] show ?thesis by (simp add: walk_log_def assms(3))
qed

definition no_fast :: "'c jbd2_journal \<Rightarrow> disk_content \<Rightarrow> u32 \<Rightarrow> bool" where
  "no_fast j d sequence \<longleftrightarrow> incompat j AND JBD2_INCOMPAT_FAST_COMMIT = 0 \<or>
     (let b = d (log_addr j (log_last j)) in \<not> (load_le16 b 0 = 9 \<and> load_le16 b 2 \<ge> 8 \<and> load_le32 b 8 = sequence))"

lemma check_fast_commit_none:
  assumes "placed j" "no_fast j (content (jctx j)) sequence"
  shows "check_fast_commit j sequence = j"
proof (cases "incompat j AND JBD2_INCOMPAT_FAST_COMMIT = 0")
  case False
  then have "unat (log_last j) < unat (maxlen j)" using assms(1) by (simp add: placed_def)
  then show ?thesis using assms(2) False by (auto simp: check_fast_commit_def log_read_placed [OF assms(1)] no_fast_def Let_def)
qed (simp add: check_fast_commit_def)

section \<open>Recovery\<close>

lemma retire_log_disk:
  assumes "placed j"
  shows "retire_log j sequence = (J_ok, j\<lparr>jctx := record_events (jctx j)
     [Put (log_addr j 0) (superblock_image j (content (jctx j) (log_addr j 0)) 0 sequence), Sync], log_start := 0, log_sequence := sequence\<rparr>)"
proof -
  let ?j = "j\<lparr>jctx := record_events (jctx j) [Put (log_addr j 0) (superblock_image j (content (jctx j) (log_addr j 0)) 0 sequence)],
    log_start := 0, log_sequence := sequence\<rparr>"
  have "on_disk ?j" using placedD(8) [OF assms] by (simp add: on_disk_def)
  from device_flush_disk [OF this] show ?thesis
    by (simp add: retire_log_def write_journal_superblock_disk [OF assms])
qed

text \<open>
  The journal a recovery works on.
\<close>

definition recovering :: "disk jbd2_journal \<Rightarrow> disk jbd2_journal" where
  "recovering j = revokes_clear (j\<lparr>busy := True\<rparr>)"

lemma recovering_facts:
  "same_format j (recovering j)" "jctx (recovering j) = jctx j" "jops (recovering j) = jops j" "log_start (recovering j) = log_start j"
  "log_sequence (recovering j) = log_sequence j" "revoke_capacity (recovering j) = 0"
  "fast_commit_pending (recovering j) = fast_commit_pending j"
  by (simp_all add: recovering_def revokes_clear_def same_format_def)

lemma placed_recovering: "placed j \<Longrightarrow> placed (recovering j)"
  by (rule placed_format [OF _ recovering_facts(1)]) (simp_all add: recovering_facts placedD)

definition retired :: "disk jbd2_journal \<Rightarrow> u32 \<Rightarrow> disk_event list" where
  "retired j sequence = [Put (log_addr j 0) (superblock_image j (content (jctx j) (log_addr j 0)) 0 sequence), Sync]"

lemma recover_nothing:
  assumes "placed j" "log_start j = log_first j" "fast_commit_pending j = False" "no_commit j (content (jctx j)) (log_sequence j)"
    "no_fast j (content (jctx j)) (log_sequence j)"
  obtains j' where "jbd2_journal_recover room j = (J_ok, j')" "jctx j' = record_events (jctx j) (retired j (log_sequence j))"
    "same_format j j'" "log_sequence j' = log_sequence j" "jops j' = jops j" "gather j' = gather j" "busy j' = False"
    "open_for_writes j' = open_for_writes j"
proof -
  let ?j = "recovering j"
  note f = recovering_facts [of j]
  have p: "placed ?j" by (rule placed_recovering [OF assms(1)])
  have nz: "log_start j \<noteq> 0" using placedD(5) [OF assms(1)] assms(2) by auto
  have nc: "no_commit ?j (content (jctx ?j)) (log_sequence ?j)" "no_fast ?j (content (jctx ?j)) (log_sequence ?j)"
    using assms(4,5) f(1) by (simp_all add: f no_commit_def no_fast_def in_log_def same_format_pos [OF f(1)] same_format_def)
  have st: "log_start ?j = log_first ?j" using assms(2) f(1) by (simp add: f same_format_def)
  have scan: "walk_log room ?j PASS_SCAN (log_sequence j) = (J_ok, ?j, log_sequence j)"
    using walk_log_nothing [OF p nc(1) st] by (simp add: f)
  have fc: "check_fast_commit ?j (log_sequence j) = ?j" using check_fast_commit_none [OF p nc(2)] by (simp add: f)
  let ?r = "?j\<lparr>jctx := record_events (jctx j) (retired j (log_sequence j)), log_start := 0\<rparr>"
  have "retire_log ?j (log_sequence j) = (J_ok, ?r)"
    by (simp add: retire_log_disk [OF p] f retired_def same_format_pos [OF f(1)] same_format_tags(7) [OF f(1)])
  then have "jbd2_journal_recover room j = (J_ok, (revokes_clear ?r)\<lparr>busy := False\<rparr>)"
    using nz scan fc assms(3) unfolding jbd2_journal_recover_def recovering_def [symmetric] by (simp add: f Let_def)
  then show thesis
    by (rule that) (use f(1) in \<open>simp_all add: f revokes_clear_def same_format_def recovering_def\<close>)
qed

lemma recover_transaction:
  assumes "placed j" "log_start j = log_first j" "fast_commit_pending j = False" "holds_transaction j (content (jctx j)) (log_sequence j) items"
    "\<forall>item \<in> set items. item_fits j item" "no_commit j (content (jctx j)) (log_sequence j + 1)"
    "no_fast j (content (jctx j)) (log_sequence j + 1)"
  obtains j' where "jbd2_journal_recover room j = (J_ok, j')"
    "jctx j' = record_events (jctx j) (item_puts (kept j (log_sequence j) items) @ Sync # retired j (log_sequence j + 1))"
    "same_format j j'" "log_sequence j' = log_sequence j + 1" "jops j' = jops j" "gather j' = gather j" "busy j' = False"
    "open_for_writes j' = open_for_writes j"
proof -
  let ?j = "recovering j" and ?s = "log_sequence j + 1"
  note f = recovering_facts [of j]
  have p: "placed ?j" by (rule placed_recovering [OF assms(1)])
  have nz: "log_start j \<noteq> 0" using placedD(5) [OF assms(1)] assms(2) by auto
  have nc: "no_commit ?j (content (jctx ?j)) (log_sequence ?j + 1)" "no_fast ?j (content (jctx ?j)) (log_sequence ?j + 1)"
    using assms(6,7) f(1) by (simp_all add: f no_commit_def no_fast_def in_log_def same_format_pos [OF f(1)] same_format_def)
  have st: "log_start ?j = log_first ?j" using assms(2) f(1) by (simp add: f same_format_def)
  have ok: "\<forall>item \<in> set items. item_fits ?j item" using assms(5) by (simp add: same_format_item_fits [OF f(1)])
  have tr: "holds_transaction ?j (content (jctx ?j)) (log_sequence ?j) items"
    using assms(4) f(1)
    by (simp add: holds_transaction_def holds_log_def f same_format_pos [OF f(1)] same_format_log_blocks [OF f(1)]
        same_format_tags(5) [OF f(1)] same_format_sum_blocks [OF f(1)] same_format_def Let_def)
  note w = walk_log_transaction [OF p ok f(6) tr st, unfolded same_format_intact [OF f(1)] f(5)]
  have scan: "walk_log room ?j PASS_SCAN (log_sequence j) = (J_ok, ?j, ?s)" using w(1) [OF nc(1) [unfolded f(5)]] by simp
  have fc: "check_fast_commit ?j ?s = ?j" using check_fast_commit_none [OF p nc(2)] by (simp add: f)
  let ?q = "replayed PASS_REPLAY ?j (kept j (log_sequence j) items)"
  have pq: "placed ?q" by (rule placed_replayed [OF p])
  let ?q1 = "?j\<lparr>jctx := record_events (jctx j) (item_puts (kept j (log_sequence j) items) @ [Sync])\<rparr>"
  have "device_flush ?q = (True, ?q1)" using device_flush_disk [OF placedD(8) [OF pq]] by (simp add: replayed_def f)
  then have replay: "replay_log room ?j ?s = (J_ok, ?q1)"
    using w(2) [of PASS_REVOKE] w(2) [of PASS_REPLAY] by (simp add: replay_log_def f) (simp add: replayed_def)
  have pq1: "placed ?q1" by (rule placed_format [OF p]) (simp_all add: same_format_def f placedD [OF assms(1)])
  have fq: "same_format j ?q1" using f(1) by (simp add: same_format_def)
  have inside: "log_addr j 0 \<in> set (mapped j)"
    using placedD(3,6,7) [OF assms(1)] by (simp add: log_addr_def)
  then have sa: "content (jctx ?q1) (log_addr j 0) = content (jctx j) (log_addr j 0)"
    using replayed_content [of "kept j (log_sequence j) items" j "log_addr j 0" PASS_REPLAY] assms(5) by (simp add: replayed_def)
  let ?r = "?j\<lparr>jctx := record_events (jctx j) (item_puts (kept j (log_sequence j) items) @ Sync # retired j ?s), log_start := 0, log_sequence := ?s\<rparr>"
  have "retire_log ?q1 ?s = (J_ok, ?r)"
    using sa by (simp add: retire_log_disk [OF pq1] same_format_pos [OF fq] same_format_tags(7) [OF fq] retired_def)
  then have "jbd2_journal_recover room j = (J_ok, (revokes_clear ?r)\<lparr>busy := False\<rparr>)"
    using nz scan fc assms(3) replay unfolding jbd2_journal_recover_def recovering_def [symmetric] by (simp add: f Let_def)
  then show thesis
    by (rule that) (use f(1) in \<open>simp_all add: f revokes_clear_def same_format_def recovering_def\<close>)
qed

end
