(* ===== verification/Jbd2_Crash.thy ===== *)
theory Jbd2_Crash
  imports Jbd2_Recover
begin

text \<open>
  Crash consistency of the journal: whatever the disk holds after a power failure during a commit or a recovery, recovery gives the blocks outside the
  journal the contents before a transaction or after it.
\<close>

section \<open>Disks that recover\<close>

definition agree :: "'c jbd2_journal \<Rightarrow> disk_content \<Rightarrow> disk_content \<Rightarrow> bool" where
  "agree j d h \<longleftrightarrow> (\<forall>a. a \<notin> set (mapped j) \<longrightarrow> d a = h a)"

text \<open>
  The disks that a power failure leaves and that recover to \<open>h\<close>: the log is empty, or it has no commit block for its transaction, or it holds a whole
  transaction that gives \<open>h\<close>.
\<close>

definition closed_log :: "disk jbd2_journal \<Rightarrow> disk_content \<Rightarrow> disk_content \<Rightarrow> bool" where
  "closed_log j d h \<longleftrightarrow> (\<exists>s. describes j (d (log_addr j 0)) 0 s) \<and> agree j d h"

definition open_log :: "disk jbd2_journal \<Rightarrow> disk_content \<Rightarrow> disk_content \<Rightarrow> bool" where
  "open_log j d h \<longleftrightarrow> (\<exists>s. describes j (d (log_addr j 0)) (log_first j) s \<and> no_commit j d s \<and> no_fast j d s) \<and> agree j d h"

definition full_log :: "disk jbd2_journal \<Rightarrow> disk_content \<Rightarrow> disk_content \<Rightarrow> bool" where
  "full_log j d h \<longleftrightarrow>
     (\<exists>s items. describes j (d (log_addr j 0)) (log_first j) s \<and> s + 1 \<noteq> 0 \<and> holds_transaction j d s items \<and> (\<forall>item \<in> set items. item_ok j item) \<and>
        no_commit j d (s + 1) \<and> no_fast j d (s + 1) \<and> agree j (content_after d (item_puts items)) h)"

definition recoverable :: "disk jbd2_journal \<Rightarrow> disk_content \<Rightarrow> disk_content \<Rightarrow> bool" where
  "recoverable j d h \<longleftrightarrow> closed_log j d h \<or> open_log j d h \<or> full_log j d h"

lemma super_mapped: "placed j \<Longrightarrow> log_addr j 0 \<in> set (mapped j)"
  using placedD(3,6,7) [of j] by (simp add: log_addr_def)

lemma super_not_logged:
  assumes "placed j" "in_log j p"
  shows "log_addr j p \<noteq> log_addr j 0"
proof
  assume "log_addr j p = log_addr j 0"
  then have "unat p = 0"
    using assms placedD(3,4,5,7) [OF assms(1)] nth_eq_iff_index_eq [of "mapped j" "unat p" 0] by (auto simp: log_addr_def in_log_def)
  then show False using assms placedD(5) [OF assms(1)] by (simp add: in_log_def)
qed

lemma content_after_single: "content_after d [Put a b, Sync] = d(a := b)"
  by simp

text \<open>
  A power failure while the superblock is written leaves the old one or the new one.
\<close>

lemma crash_in_superblock:
  assumes "crash_in d [Put a b, Sync] d'"
  shows "d' = d \<or> d' = d(a := b)"
proof -
  have "(\<forall>x. d' x = d x \<or> Put x (d' x) \<in> set [Put a b]) \<or> crash_in (content_after d [Put a b]) [] d'"
    using crash_in_puts [of "[Put a b]" d "[]" d'] assms by simp
  then show ?thesis
  proof
    assume "\<forall>x. d' x = d x \<or> Put x (d' x) \<in> set [Put a b]"
    then have x: "d' x = d x \<or> x = a \<and> d' x = b" for x by auto
    show ?thesis
    proof (cases "d' a = b")
      case True
      then have "d' = d(a := b)" using x by (auto simp: fun_eq_iff)
      then show ?thesis by simp
    next
      case False
      then have "d' = d" using x by (auto simp: fun_eq_iff)
      then show ?thesis by simp
    qed
  qed (simp add: crash_in_Nil)
qed

lemma agree_mapped: "a \<in> set (mapped j) \<Longrightarrow> agree j (d(a := b)) h \<longleftrightarrow> agree j d h"
  by (auto simp: agree_def)

lemma describes_retired:
  assumes "placed j" "describes j b start s" "s' \<noteq> 0"
  shows "describes j (superblock_image j b start' s') start' s'"
  using assms describes_image [OF _ placedD(2) [OF assms(1)]] by (simp add: describes_def)

lemma retired_crash:
  assumes "placed j" "describes j (d (log_addr j 0)) start s" "s' \<noteq> 0" "agree j d h"
    "crash_in d [Put (log_addr j 0) (superblock_image j (d (log_addr j 0)) 0 s'), Sync] d'"
  shows "d' = d \<or> closed_log j d' h"
  using crash_in_superblock [OF assms(5)]
proof
  assume "d' = d(log_addr j 0 := superblock_image j (d (log_addr j 0)) 0 s')"
  then have "closed_log j d' h"
    using describes_retired [OF assms(1-3)] assms(4) super_mapped [OF assms(1)] by (auto simp: closed_log_def agree_mapped)
  then show ?thesis by simp
qed simp

lemma content_after_item_puts_cong:
  assumes "d' a = d a \<or> a \<in> fst ` set items"
  shows "content_after d' (item_puts items) a = content_after d (item_puts items) a"
  using assms
proof (induction items arbitrary: d d')
  case (Cons item items)
  obtain x b where item: "item = (x, b)" by (cases item)
  have "(d'(x := b)) a = (d(x := b)) a \<or> a \<in> fst ` set items" using Cons.prems by (auto simp: item)
  then have "content_after (d'(x := b)) (item_puts items) a = content_after (d(x := b)) (item_puts items) a" by (rule Cons.IH)
  then show ?case by (simp add: item item_puts_def)
qed (simp add: item_puts_def)

lemma content_after_puts_cases: "content_after d (item_puts items) a = d a \<or> Put a (content_after d (item_puts items) a) \<in> set (item_puts items)"
proof (induction items arbitrary: d)
  case (Cons item items)
  obtain x b where item: "item = (x, b)" by (cases item)
  have "content_after (d(x := b)) (item_puts items) a = (d(x := b)) a \<or>
      Put a (content_after (d(x := b)) (item_puts items) a) \<in> set (item_puts items)" by (rule Cons.IH)
  then show ?case by (auto simp: item item_puts_def)
qed (simp add: item_puts_def)

lemma list_all_item_puts [simp]: "list_all is_put (item_puts items)"
  by (induction items) (auto simp: item_puts_def)

lemma Put_item_puts: "Put a b \<in> set (item_puts items) \<Longrightarrow> a \<in> fst ` set items"
  by (force simp: item_puts_def)

lemma frame_mapped:
  assumes "placed j" "\<And>a. a \<in> set (mapped j) \<Longrightarrow> d' a = d a"
  shows "no_commit j d' s = no_commit j d s" "no_fast j d' s = no_fast j d s" "holds_transaction j d' s items = holds_transaction j d s items"
proof -
  have l: "d' (log_addr j p) = d (log_addr j p)" if "in_log j p" for p by (rule assms(2) [OF log_addr_mapped [OF assms(1) that]])
  show "no_commit j d' s = no_commit j d s" using l by (auto simp: no_commit_def)
  show "no_fast j d' s = no_fast j d s"
  proof (cases "incompat j AND JBD2_INCOMPAT_FAST_COMMIT = 0")
    case False
    then have "log_addr j (log_last j) \<in> set (mapped j)" using assms(1) by (simp add: placed_def log_addr_def)
    then show ?thesis by (simp add: no_fast_def assms(2))
  qed (simp add: no_fast_def)
  have "holds_log j d' n bs = holds_log j d n bs" for n bs
    by (auto intro: holds_log_frame [OF _ assms(1)] simp: same_format_def assms(2))
  moreover have "d' (log_addr j (log_pos j n)) = d (log_addr j (log_pos j n))" if "unat (log_first j) + n + 2 \<le> unat (log_last j)" for n
    by (rule l, rule in_log_pos) (use that in simp)
  ultimately show "holds_transaction j d' s items = holds_transaction j d s items"
    unfolding holds_transaction_def Let_def by metis
qed

text \<open>
  What recovery does on such a disk, and what a power failure during it leaves.
\<close>

definition recovers_to :: "disk jbd2_journal \<Rightarrow> (u32 \<Rightarrow> bool) \<Rightarrow> disk_content \<Rightarrow> disk_content \<Rightarrow> bool" where
  "recovers_to j room d h \<longleftrightarrow>
     (\<exists>jo jr. jbd2_journal_open disk_ops (disk_of d (placing (jctx j))) (block_size j) True True True = Some jo \<and>
        jbd2_journal_recover room jo = (J_ok, jr) \<and> agree j (content (jctx jr)) h)"

lemma reopened_no_commit:
  "no_commit (reopened j d st s) d' s' = no_commit j d' s'" "no_fast (reopened j d st s) d' s' = no_fast j d' s'"
  "holds_transaction (reopened j d st s) d' s' items = holds_transaction j d' s' items"
  "item_ok (reopened j d st s) = item_ok j"
proof -
  note f = reopened_fields(1) [of j d st s]
  show "no_commit (reopened j d st s) d' s' = no_commit j d' s'" "no_fast (reopened j d st s) d' s' = no_fast j d' s'"
    using f by (simp_all add: no_commit_def no_fast_def in_log_def same_format_pos [OF f] same_format_def)
  show "holds_transaction (reopened j d st s) d' s' items = holds_transaction j d' s' items"
    using f by (simp add: holds_transaction_def holds_log_def same_format_pos [OF f] same_format_log_blocks [OF f]
        same_format_tags(5) [OF f] same_format_sum_blocks [OF f] same_format_def Let_def)
  show "item_ok (reopened j d st s) = item_ok j" by (rule same_format_item_ok [OF f])
qed

lemma placed_reopened: "placed j \<Longrightarrow> placed (reopened j d st s)"
  by (rule placed_format [OF _ reopened_fields(1)]) (simp_all add: reopened_fields)

lemma recover_closed:
  assumes "placed j" "closed_log j d h"
  obtains jo jr where "jbd2_journal_open disk_ops (disk_of d (placing (jctx j))) (block_size j) True True True = Some jo"
    "jbd2_journal_recover room jo = (J_ok, jr)" "jctx jr = disk_of d (placing (jctx j))" "agree j d h"
proof -
  obtain s where s: "describes j (d (log_addr j 0)) 0 s" "agree j d h" using assms(2) by (auto simp: closed_log_def)
  have r: "jbd2_journal_recover room (reopened j d 0 s) = (J_ok, reopened j d 0 s)" by (simp add: jbd2_journal_recover_def reopened_fields)
  show thesis by (rule that [OF open_reopened [where d = d, OF assms(1) s(1)] r reopened_fields(3) s(2)])
qed

lemma recover_open:
  assumes "placed j" "open_log j d h"
  obtains jo jr s where "jbd2_journal_open disk_ops (disk_of d (placing (jctx j))) (block_size j) True True True = Some jo"
    "jbd2_journal_recover room jo = (J_ok, jr)" "describes j (d (log_addr j 0)) (log_first j) s"
    "jctx jr = record_events (disk_of d (placing (jctx j))) [Put (log_addr j 0) (superblock_image j (d (log_addr j 0)) 0 s), Sync]"
proof -
  obtain s where s: "describes j (d (log_addr j 0)) (log_first j) s" "no_commit j d s" "no_fast j d s"
    using assms(2) by (auto simp: open_log_def)
  let ?jo = "reopened j d (log_first j) s"
  note f = reopened_fields [of j d "log_first j" s]
  have st: "log_start ?jo = log_first ?jo" using f(1) by (simp add: f same_format_def)
  have nc: "no_commit ?jo (content (jctx ?jo)) (log_sequence ?jo)" "no_fast ?jo (content (jctx ?jo)) (log_sequence ?jo)"
    using s(2,3) by (simp_all add: f reopened_no_commit)
  obtain jr where r: "jbd2_journal_recover room ?jo = (J_ok, jr)" "jctx jr = record_events (jctx ?jo) (retired ?jo (log_sequence ?jo))"
    by (rule recover_nothing [OF placed_reopened [OF assms(1)] st f(8) nc])
  show thesis
    by (rule that [OF open_reopened [where d = d, OF assms(1) s(1)] r(1) s(1)])
      (simp add: r(2) f retired_def same_format_pos [OF f(1)] same_format_tags(7) [OF f(1)])
qed

lemma recover_full:
  assumes "placed j" "full_log j d h"
  obtains jo jr s items where "jbd2_journal_open disk_ops (disk_of d (placing (jctx j))) (block_size j) True True True = Some jo"
    "jbd2_journal_recover room jo = (J_ok, jr)" "describes j (d (log_addr j 0)) (log_first j) s" "s + 1 \<noteq> 0"
    "holds_transaction j d s items" "\<forall>item \<in> set items. item_ok j item" "no_commit j d (s + 1)" "no_fast j d (s + 1)"
    "agree j (content_after d (item_puts items)) h"
    "jctx jr = record_events (disk_of d (placing (jctx j)))
       (item_puts items @ Sync # [Put (log_addr j 0) (superblock_image j (d (log_addr j 0)) 0 (s + 1)), Sync])"
proof -
  obtain s items where s: "describes j (d (log_addr j 0)) (log_first j) s" "s + 1 \<noteq> 0" "holds_transaction j d s items"
    "\<forall>item \<in> set items. item_ok j item" "no_commit j d (s + 1)" "no_fast j d (s + 1)" "agree j (content_after d (item_puts items)) h"
    using assms(2) by (auto simp: full_log_def)
  let ?jo = "reopened j d (log_first j) s"
  note f = reopened_fields [of j d "log_first j" s]
  have st: "log_start ?jo = log_first ?jo" using f(1) by (simp add: f same_format_def)
  have hyps: "holds_transaction ?jo (content (jctx ?jo)) (log_sequence ?jo) items" "\<forall>item \<in> set items. item_ok ?jo item"
    "no_commit ?jo (content (jctx ?jo)) (log_sequence ?jo + 1)" "no_fast ?jo (content (jctx ?jo)) (log_sequence ?jo + 1)"
    using s(3-6) by (simp_all add: f reopened_no_commit)
  obtain jr where r: "jbd2_journal_recover room ?jo = (J_ok, jr)"
    "jctx jr = record_events (jctx ?jo) (item_puts items @ Sync # retired ?jo (log_sequence ?jo + 1))"
    by (rule recover_transaction [OF placed_reopened [OF assms(1)] st f(8) hyps(1) item_ok_fits [OF hyps(2)] hyps(3,4)])
      (simp add: kept_ok [OF hyps(2)])
  show thesis
    by (rule that [OF open_reopened [where d = d, OF assms(1) s(1)] r(1) s])
      (simp add: r(2) f retired_def same_format_pos [OF f(1)] same_format_tags(7) [OF f(1)])
qed

lemma recoverable_recovers:
  assumes "placed j" "recoverable j d h"
  shows "recovers_to j room d h"
  using assms(2) unfolding recoverable_def
proof (elim disjE)
  assume "closed_log j d h"
  from recover_closed [OF assms(1) this, of room] show ?thesis unfolding recovers_to_def by (metis content_disk_of(1))
next
  assume o: "open_log j d h"
  then have "agree j d h" by (simp add: open_log_def)
  then show ?thesis
    using recover_open [OF assms(1) o, of room] super_mapped [OF assms(1)] unfolding recovers_to_def
    by (metis content_record(1) content_disk_of(1) content_after_single agree_mapped)
next
  assume fl: "full_log j d h"
  obtain jo jr s items where r: "jbd2_journal_open disk_ops (disk_of d (placing (jctx j))) (block_size j) True True True = Some jo"
    "jbd2_journal_recover room jo = (J_ok, jr)" "agree j (content_after d (item_puts items)) h"
    "jctx jr = record_events (disk_of d (placing (jctx j)))
       (item_puts items @ Sync # [Put (log_addr j 0) (superblock_image j (d (log_addr j 0)) 0 (s + 1)), Sync])"
    by (rule recover_full [OF assms(1) fl])
  have "agree j (content (jctx jr)) h" using r(3) super_mapped [OF assms(1)] by (simp add: r(4) agree_mapped)
  then show ?thesis using r(1,2) unfolding recovers_to_def by blast
qed

text \<open>
  Any number of power failures during recovery.
\<close>

inductive crashes_again :: "disk jbd2_journal \<Rightarrow> (u32 \<Rightarrow> bool) \<Rightarrow> disk_content \<Rightarrow> disk_content \<Rightarrow> bool" for j room d where
  none: "crashes_again j room d d"
| again: "crashes_again j room d d1 \<Longrightarrow>
    jbd2_journal_open disk_ops (disk_of d1 (placing (jctx j))) (block_size j) True True True = Some jo \<Longrightarrow>
    jbd2_journal_recover room jo = (st, jr) \<Longrightarrow> crash_in d1 (events (jctx jr)) d2 \<Longrightarrow> crashes_again j room d d2"

lemma full_log_crash:
  assumes "placed j" "describes j (d (log_addr j 0)) (log_first j) s" "s + 1 \<noteq> 0" "holds_transaction j d s items"
    "\<forall>item \<in> set items. item_ok j item" "no_commit j d (s + 1)" "no_fast j d (s + 1)" "agree j (content_after d (item_puts items)) h"
    "\<forall>a. d' a = d a \<or> Put a (d' a) \<in> set (item_puts items)"
  shows "full_log j d' h"
proof -
  have m: "d' a = d a" if "a \<in> set (mapped j)" for a
    using that assms(5,9) by (auto dest!: Put_item_puts simp: item_ok_def item_fits_def)
  have "content_after d' (item_puts items) a = content_after d (item_puts items) a" for a
    by (rule content_after_item_puts_cong) (use assms(9) in \<open>auto dest: Put_item_puts\<close>)
  then have "agree j (content_after d' (item_puts items)) h" using assms(8) by (simp add: agree_def)
  moreover have "describes j (d' (log_addr j 0)) (log_first j) s" using assms(2) m [OF super_mapped [OF assms(1)]] by simp
  moreover have "holds_transaction j d' s items" "no_commit j d' (s + 1)" "no_fast j d' (s + 1)"
    using assms(4,6,7) frame_mapped [where d = d and d' = d', OF assms(1) m] by simp_all
  ultimately show ?thesis unfolding full_log_def using assms(3,5) by blast
qed

lemma recoverable_crash:
  assumes "placed j" "recoverable j d h" "jbd2_journal_open disk_ops (disk_of d (placing (jctx j))) (block_size j) True True True = Some jo"
    "jbd2_journal_recover room jo = (st, jr)" "crash_in d (events (jctx jr)) d'"
  shows "recoverable j d' h"
  using assms(2) unfolding recoverable_def
proof (elim disjE)
  assume c: "closed_log j d h"
  have "jctx jr = disk_of d (placing (jctx j))" by (rule recover_closed [OF assms(1) c, of room]) (use assms(3,4) in auto)
  then have "d' = d" using assms(5) by (simp add: crash_in_Nil)
  with c show "closed_log j d' h \<or> open_log j d' h \<or> full_log j d' h" by simp
next
  assume o: "open_log j d h"
  obtain s where s: "describes j (d (log_addr j 0)) (log_first j) s"
    "jctx jr = record_events (disk_of d (placing (jctx j))) [Put (log_addr j 0) (superblock_image j (d (log_addr j 0)) 0 s), Sync]"
    by (rule recover_open [OF assms(1) o, of room]) (use assms(3,4) in auto)
  have "d' = d \<or> closed_log j d' h"
    using retired_crash [where d = d and s' = s and h = h and d' = d', OF assms(1) s(1)] s assms(5) o by (simp add: describes_def open_log_def)
  with o show "closed_log j d' h \<or> open_log j d' h \<or> full_log j d' h" by auto
next
  assume fl: "full_log j d h"
  obtain s items where s: "describes j (d (log_addr j 0)) (log_first j) s" "s + 1 \<noteq> 0"
    "holds_transaction j d s items" "\<forall>item \<in> set items. item_ok j item" "no_commit j d (s + 1)" "no_fast j d (s + 1)"
    "agree j (content_after d (item_puts items)) h"
    "jctx jr = record_events (disk_of d (placing (jctx j)))
       (item_puts items @ Sync # [Put (log_addr j 0) (superblock_image j (d (log_addr j 0)) 0 (s + 1)), Sync])"
    by (rule recover_full [OF assms(1) fl, of room]) (use assms(3,4) in auto)
  let ?d = "content_after d (item_puts items)"
  have sa: "?d (log_addr j 0) = d (log_addr j 0)"
    using s(4) super_mapped [OF assms(1)] by (intro content_item_puts) (auto simp: item_ok_def item_fits_def)
  have "(\<forall>a. d' a = d a \<or> Put a (d' a) \<in> set (item_puts items)) \<or>
      crash_in ?d [Put (log_addr j 0) (superblock_image j (d (log_addr j 0)) 0 (s + 1)), Sync] d'"
    using crash_in_puts [of "item_puts items" d _ d'] assms(5) s(8) by simp
  then show "closed_log j d' h \<or> open_log j d' h \<or> full_log j d' h"
  proof
    assume "\<forall>a. d' a = d a \<or> Put a (d' a) \<in> set (item_puts items)"
    from full_log_crash [OF assms(1) s(1-7) this] show ?thesis by simp
  next
    assume c: "crash_in ?d [Put (log_addr j 0) (superblock_image j (d (log_addr j 0)) 0 (s + 1)), Sync] d'"
    have d: "describes j (?d (log_addr j 0)) (log_first j) s" using s(1) sa by simp
    have "d' = ?d \<or> closed_log j d' h"
      by (rule retired_crash [where d = ?d, OF assms(1) d s(2,7)]) (use c sa in simp)
    moreover have "full_log j ?d h"
      by (rule full_log_crash [OF assms(1) s(1-7)]) (simp add: content_after_puts_cases)
    ultimately show ?thesis by auto
  qed
qed

lemma crashes_again_recoverable: "crashes_again j room d d' \<Longrightarrow> placed j \<Longrightarrow> recoverable j d h \<Longrightarrow> recoverable j d' h"
  by (induction rule: crashes_again.induct) (auto intro: recoverable_crash)

section \<open>Commits\<close>

text \<open>
  Every commit block in the log belongs to an earlier transaction.
\<close>

definition fresh :: "'c jbd2_journal \<Rightarrow> disk_content \<Rightarrow> u32 \<Rightarrow> bool" where
  "fresh j d n \<longleftrightarrow> (\<forall>p s. in_log j p \<longrightarrow> headed (d (log_addr j p)) JBD2_COMMIT_BLOCK s \<longrightarrow> s < n) \<and> (\<forall>s \<ge> n. no_fast j d s)"

lemma freshD: "fresh j d n \<Longrightarrow> n \<le> s \<Longrightarrow> no_commit j d s" "fresh j d n \<Longrightarrow> n \<le> s \<Longrightarrow> no_fast j d s"
  by (fastforce simp: fresh_def no_commit_def)+

lemma log_addr_inj:
  assumes "placed j" "unat p < unat (maxlen j)" "unat q < unat (maxlen j)" "log_addr j p = log_addr j q"
  shows "p = q"
proof -
  have "unat p = unat q" using assms placedD(3,4) [OF assms(1)] by (simp add: log_addr_def nth_eq_iff_index_eq)
  then show ?thesis by (simp add: word_unat_eq_iff)
qed

lemma last_not_logged:
  assumes "placed j" "in_log j p" "incompat j AND JBD2_INCOMPAT_FAST_COMMIT \<noteq> 0"
  shows "log_addr j p \<noteq> log_addr j (log_last j)"
proof
  assume "log_addr j p = log_addr j (log_last j)"
  moreover have "unat (log_last j) < unat (maxlen j)" "unat p < unat (maxlen j)" using assms by (auto simp: placed_def in_log_def)
  ultimately have "p = log_last j" using log_addr_inj [OF assms(1)] by blast
  then show False using assms(2) by (simp add: in_log_def)
qed

text \<open>
  Only blocks of the log change, and none of them becomes a commit block, or only that of transaction \<open>n\<close> does.
\<close>

lemma fresh_logged:
  assumes "placed j" "fresh j d n" "n \<le> n'"
    "\<And>a. d' a = d a \<or> (\<exists>p. in_log j p \<and> a = log_addr j p \<and> (\<forall>s. headed (d' a) JBD2_COMMIT_BLOCK s \<longrightarrow> s < n'))"
  shows "fresh j d' n'"
proof -
  have "s < n'" if "in_log j p" "headed (d' (log_addr j p)) 2 s" for p s
  proof (cases "d' (log_addr j p) = d (log_addr j p)")
    case True
    then have "s < n" using that assms(2) unfolding fresh_def by simp
    then show ?thesis using assms(3) by (rule order_less_le_trans)
  next
    case False
    then show ?thesis using that(2) assms(4) [of "log_addr j p"] by blast
  qed
  moreover have "no_fast j d' s" if "n' \<le> s" for s
  proof (cases "incompat j AND JBD2_INCOMPAT_FAST_COMMIT = 0")
    case False
    then have "d' (log_addr j (log_last j)) = d (log_addr j (log_last j))" using assms(4) last_not_logged [OF assms(1)] by metis
    moreover have "no_fast j d s" using assms(2,3) that by (meson freshD(2) order_trans)
    ultimately show ?thesis by (simp add: no_fast_def)
  qed (simp add: no_fast_def)
  ultimately show ?thesis by (simp add: fresh_def)
qed

lemma fresh_frame:
  assumes "placed j" "fresh j d n" "\<And>a. a \<in> set (mapped j) \<Longrightarrow> a \<noteq> log_addr j 0 \<Longrightarrow> d' a = d a"
  shows "fresh j d' n"
proof -
  have l: "d' (log_addr j p) = d (log_addr j p)" if "in_log j p" for p
    by (rule assms(3) [OF log_addr_mapped [OF assms(1) that] super_not_logged [OF assms(1) that]])
  have "no_fast j d' s = no_fast j d s" for s
  proof (cases "incompat j AND JBD2_INCOMPAT_FAST_COMMIT = 0")
    case False
    then have i: "unat (log_last j) < unat (maxlen j)" using assms(1) by (simp add: placed_def)
    have "log_addr j (log_last j) \<noteq> log_addr j 0"
    proof
      assume "log_addr j (log_last j) = log_addr j 0"
      then have "log_last j = 0" by (rule log_addr_inj [OF assms(1) i, rotated]) (use i in simp)
      then show False using placedD(6) [OF assms(1)] by simp
    qed
    moreover have "log_addr j (log_last j) \<in> set (mapped j)" using i placedD(3) [OF assms(1)] by (simp add: log_addr_def)
    ultimately show ?thesis by (simp add: no_fast_def assms(3))
  qed (simp add: no_fast_def)
  then show ?thesis using assms(2) l unfolding fresh_def by metis
qed

lemma log_blocks_not_commit:
  assumes "placed j" "\<forall>item \<in> set items. item_fits j item" "length items \<le> m" "b \<in> set (log_blocks m j sequence items)"
  shows "\<not> headed b JBD2_COMMIT_BLOCK s"
  using assms(2-4)
proof (induction m arbitrary: items)
  case 0
  then show ?case by simp
next
  case (Suc m)
  let ?t = "tags_per_descriptor j"
  have t: "0 < ?t" by (rule tags_per_descriptor_pos(1) [OF placedD(2) [OF assms(1)]])
  obtain i rest where items: "items = i # rest" using Suc.prems(3) by (cases items) auto
  have ok: "\<forall>item \<in> set (take ?t items). item_fits j item" "\<forall>item \<in> set (drop ?t items). item_fits j item"
    using Suc.prems(1) by (auto dest: in_set_takeD in_set_dropD)
  consider "b = descriptor_block j sequence (take ?t items)" | item where "item \<in> set (take ?t items)" "b = log_image (snd item)"
    | "b \<in> set (log_blocks m j sequence (drop ?t items))"
    using Suc.prems(3) unfolding items log_blocks.simps by auto
  then show ?case
  proof cases
    case 1
    have "\<forall>(goal, data) \<in> set (take ?t items). target_fits j goal" using ok(1) by (auto simp: item_fits_def)
    moreover have "take ?t items \<noteq> []" "length (take ?t items) \<le> ?t" using t by (simp_all add: items)
    ultimately have "headed b 1 sequence" unfolding 1 using descriptor_block_facts(2) placedD(2) [OF assms(1)] by blast
    then show ?thesis by (simp add: headed_def)
  next
    case 2
    have "4 \<le> length (snd item)" using ok(1) 2(1) placedD(2) [OF assms(1)] by (auto simp: item_fits_def sized_def)
    then show ?thesis using log_image_facts(2) 2(2) by (simp add: headed_def)
  next
    case 3
    then show ?thesis using Suc.IH [OF ok(2)] Suc.prems(2) t by (simp add: items)
  qed
qed

lemma Put_log_puts: "Put a b \<in> set (log_puts j n bs) \<Longrightarrow> \<exists>i < length bs. a = log_addr j (log_pos j (n + i)) \<and> b = bs ! i"
proof (induction bs arbitrary: n)
  case (Cons c bs)
  show ?case
  proof (cases "Put a b = Put (log_addr j (log_pos j n)) c")
    case True
    then show ?thesis by (intro exI [of _ 0]) simp
  next
    case False
    then have "Put a b \<in> set (log_puts j (Suc n) bs)" using Cons.prems by auto
    from Cons.IH [OF this] obtain i where "i < length bs" "a = log_addr j (log_pos j (Suc n + i))" "b = bs ! i" by blast
    then show ?thesis by (intro exI [of _ "Suc i"]) simp
  qed
qed simp

lemma list_all_log_puts [simp]: "list_all is_put (log_puts j n bs)"
  by (induction bs arbitrary: n) simp_all

lemma content_after_puts:
  "list_all is_put ws \<Longrightarrow> content_after d ws a = d a \<or> Put a (content_after d ws a) \<in> set ws"
proof (induction ws arbitrary: d)
  case (Cons w ws)
  then obtain x b where w: "w = Put x b" by (cases w) auto
  have "content_after (d(x := b)) ws a = (d(x := b)) a \<or> Put a (content_after (d(x := b)) ws a) \<in> set ws"
    by (rule Cons.IH) (use Cons.prems in simp)
  then show ?case by (auto simp: w split: if_split_asm)
qed simp

lemma holds_log_puts:
  assumes "placed j" "unat (log_first j) + n + length bs < unat (log_last j)"
  shows "holds_log j (content_after d (log_puts j n bs)) n bs"
  using assms(2)
proof (induction bs arbitrary: n d)
  case (Cons b bs)
  let ?d = "d(log_addr j (log_pos j n) := b)"
  have "Put (log_addr j (log_pos j n)) x \<notin> set (log_puts j (Suc n) bs)" for x
  proof
    assume "Put (log_addr j (log_pos j n)) x \<in> set (log_puts j (Suc n) bs)"
    then obtain i where i: "i < length bs" "log_addr j (log_pos j n) = log_addr j (log_pos j (Suc n + i))" using Put_log_puts by metis
    have u: "unat (log_pos j n) = unat (log_first j) + n" "unat (log_pos j (Suc n + i)) = unat (log_first j) + (Suc n + i)"
      using Cons.prems i(1) by (intro log_pos_inside; simp)+
    then have "log_pos j n = log_pos j (Suc n + i)"
      using Cons.prems i placedD(7) [OF assms(1)] by (intro log_addr_inj [OF assms(1)]) simp_all
    with u show False by simp
  qed
  then have "content_after ?d (log_puts j (Suc n) bs) (log_addr j (log_pos j n)) = b"
    using content_after_puts [of "log_puts j (Suc n) bs" ?d "log_addr j (log_pos j n)"] by auto
  moreover have "holds_log j (content_after ?d (log_puts j (Suc n) bs)) (Suc n) bs"
    using Cons.prems by (intro Cons.IH) simp
  ultimately show ?case by (simp add: holds_log_Cons)
qed (simp add: holds_log_def)

text \<open>
  The journal between commits: the superblock on the disk describes it, and nothing in the log can be taken for a commit of the
  transaction to come.
\<close>

definition ready :: "disk jbd2_journal \<Rightarrow> bool" where
  "ready j \<longleftrightarrow> placed j \<and> gather j = [] \<and> describes j (content (jctx j) (log_addr j 0)) (log_first j) (log_sequence j) \<and>
     fresh j (content (jctx j)) (log_sequence j)"

text \<open>
  While the blocks of a transaction are written to the log, the log stays without a commit for it.
\<close>

lemma logging_crash:
  assumes "placed j" "describes j (d (log_addr j 0)) (log_first j) n" "fresh j d n" "\<forall>item \<in> set items. item_fits j item"
    "unat (log_first j) + length (log_blocks (length items) j n items) + 2 \<le> unat (log_last j)"
    "\<And>a. d' a = d a \<or> Put a (d' a) \<in> set (log_puts j 0 (log_blocks (length items) j n items))"
  shows "open_log j d' d" "fresh j d' n" "d' (log_addr j 0) = d (log_addr j 0)" "agree j d' d"
proof -
  let ?bl = "log_blocks (length items) j n items"
  have c: "d' a = d a \<or> (\<exists>p. in_log j p \<and> a = log_addr j p \<and> (\<forall>s. headed (d' a) 2 s \<longrightarrow> s < n))" for a
  proof (cases "d' a = d a")
    case False
    then have "Put a (d' a) \<in> set (log_puts j 0 ?bl)" using assms(6) by blast
    then obtain i where i: "i < length ?bl" "a = log_addr j (log_pos j (0 + i))" "d' a = ?bl ! i" using Put_log_puts by metis
    have "in_log j (log_pos j i)" by (rule in_log_pos) (use i(1) assms(5) in simp)
    moreover have "\<not> headed (d' a) 2 s" for s
      unfolding i(3) by (rule log_blocks_not_commit [OF assms(1,4) order_refl nth_mem [OF i(1)]])
    ultimately show ?thesis using i(2) by auto
  qed simp
  show fr: "fresh j d' n" by (rule fresh_logged [OF assms(1,3) order_refl c])
  show sa: "d' (log_addr j 0) = d (log_addr j 0)" using c super_not_logged [OF assms(1)] by metis
  show ag: "agree j d' d" unfolding agree_def using c log_addr_mapped [OF assms(1)] by metis
  show "open_log j d' d" unfolding open_log_def using assms(2) sa freshD [OF fr order_refl] ag by auto
qed

definition transaction_events :: "disk jbd2_journal \<Rightarrow> disk_content \<Rightarrow> u32 \<Rightarrow> u64 \<Rightarrow> log_item list \<Rightarrow> disk_event list" where
  "transaction_events j d n now items =
     (let bl = log_blocks (length items) j n items
      in log_puts j 0 bl @
         Sync # [Put (log_addr j (log_pos j (length bl))) (commit_block j n now (sum_blocks j 0xFFFFFFFF bl))] @
         Sync # item_puts items @ Sync # [Put (log_addr j 0) (superblock_image j (d (log_addr j 0)) (log_first j) (n + 1)), Sync])"

lemma less_plus_one: "(n :: u32) + 1 \<noteq> 0 \<Longrightarrow> n < n + 1"
proof -
  assume nz: "n + 1 \<noteq> 0"
  have "unat n + 1 \<noteq> 2 ^ 32"
  proof
    assume "unat n + 1 = 2 ^ 32"
    then have "unat (n + 1) = 0" by (simp add: unat_word_ariths)
    then show False using nz by (simp add: unat_eq_0)
  qed
  then have "unat n + 1 < 2 ^ 32" using unat_u32_less [of n] by linarith
  then have "unat (n + 1) = unat n + 1" by (simp add: unat_word_ariths)
  then show ?thesis by (simp add: word_less_nat_alt)
qed

text \<open>
  The four states a transaction goes through on the disk, and the power failures on the way.
\<close>

lemma transaction_states:
  fixes now :: u64
  assumes "placed j" "describes j (d (log_addr j 0)) (log_first j) n" "fresh j d n" "\<forall>item \<in> set items. item_fits j item"
    "unat (log_first j) + length (log_blocks (length items) j n items) + 2 \<le> unat (log_last j)" "n + 1 \<noteq> 0"
  defines "bl \<equiv> log_blocks (length items) j n items"
  defines "d1 \<equiv> content_after d (log_puts j 0 bl)"
  defines "d2 \<equiv> d1(log_addr j (log_pos j (length bl)) := commit_block j n now (sum_blocks j 0xFFFFFFFF bl))"
  shows "open_log j d1 d" "fresh j d2 (n + 1)" "d2 (log_addr j 0) = d (log_addr j 0)"
    "agree j d2 d" "holds_transaction j d2 n items"
proof -
  let ?c = "log_pos j (length bl)" and ?cb = "commit_block j n now (sum_blocks j 0xFFFFFFFF bl)"
  have p1: "d1 a = d a \<or> Put a (d1 a) \<in> set (log_puts j 0 (log_blocks (length items) j n items))" for a
    unfolding d1_def bl_def by (rule content_after_puts) simp
  note l = logging_crash [OF assms(1-5) p1]
  show "open_log j d1 d" by (rule l(1))
  have inside: "in_log j ?c" by (rule in_log_pos) (use assms(5) in \<open>simp add: bl_def\<close>)
  have chead: "headed ?cb 2 s \<longleftrightarrow> s = n" for s
    using commit_block_facts(2) [OF placedD(2) [OF assms(1)]] by (auto simp: headed_def)
  have n: "n < n + 1" by (rule less_plus_one [OF assms(6)])
  show fr: "fresh j d2 (n + 1)"
    by (rule fresh_logged [OF assms(1) l(2)]) (use n inside chead in \<open>auto simp: d2_def\<close>)
  show sa: "d2 (log_addr j 0) = d (log_addr j 0)" using l(3) super_not_logged [OF assms(1) inside] by (auto simp: d2_def)
  show ag: "agree j d2 d" using l(4) log_addr_mapped [OF assms(1) inside] by (simp add: d2_def agree_mapped)
  have "holds_log j d1 0 bl" unfolding d1_def by (rule holds_log_puts [OF assms(1)]) (use assms(5) in \<open>simp add: bl_def\<close>)
  moreover have "log_addr j (log_pos j i) \<noteq> log_addr j ?c" if "i < length bl" for i
  proof
    assume e: "log_addr j (log_pos j i) = log_addr j ?c"
    have u: "unat (log_pos j i) = unat (log_first j) + i" "unat ?c = unat (log_first j) + length bl"
      using that assms(5) by (intro log_pos_inside; simp add: bl_def)+
    then have "log_pos j i = ?c"
      using that assms(5) placedD(7) [OF assms(1)] by (intro log_addr_inj [OF assms(1) _ _ e]) (simp_all add: bl_def)
    with u that show False by simp
  qed
  ultimately have "holds_log j d2 0 bl" by (simp add: holds_log_def d2_def)
  then show ht: "holds_transaction j d2 n items"
    using assms(5) unfolding holds_transaction_def Let_def bl_def [symmetric] by (auto simp: d2_def)
qed

lemma transaction_crash:
  fixes now :: u64
  assumes "placed j" "describes j (d (log_addr j 0)) (log_first j) n" "fresh j d n" "\<forall>item \<in> set items. item_ok j item"
    "unat (log_first j) + length (log_blocks (length items) j n items) + 2 \<le> unat (log_last j)" "n + 1 \<noteq> 0"
  defines "h \<equiv> content_after d (item_puts items)" and "e \<equiv> content_after d (transaction_events j d n now items)"
  shows "describes j (e (log_addr j 0)) (log_first j) (n + 1)" "fresh j e (n + 1)" "agree j e h"
    "crash_in d (transaction_events j d n now items) d' \<Longrightarrow> recoverable j d' d \<or> recoverable j d' h"
proof -
  define bl where "bl = log_blocks (length items) j n items"
  define d1 where "d1 = content_after d (log_puts j 0 bl)"
  define cp where "cp = log_addr j (log_pos j (length bl))"
  define cb where "cb = commit_block j n now (sum_blocks j 0xFFFFFFFF bl)"
  define d2 where "d2 = d1(cp := cb)"
  define d3 where "d3 = content_after d2 (item_puts items)"
  let ?sa = "log_addr j 0"
  define sb where "sb = superblock_image j (d ?sa) (log_first j) (n + 1)"
  note t = transaction_states(1) [where j = j and d = d and n = n and items = items, OF assms(1-3) item_ok_fits [OF assms(4)] assms(5,6), folded bl_def,
      folded d1_def]
    transaction_states(2-5) [where j = j and d = d and n = n and items = items and now = now,
      OF assms(1-3) item_ok_fits [OF assms(4)] assms(5,6), folded bl_def, folded d1_def cp_def cb_def, folded d2_def]
  have ev: "transaction_events j d n now items = log_puts j 0 bl @ Sync # [Put cp cb] @ Sync # item_puts items @ Sync # [Put ?sa sb, Sync]"
    by (simp add: transaction_events_def Let_def bl_def cp_def cb_def sb_def)
  have e: "e = d3(?sa := sb)" by (simp add: e_def ev d1_def d2_def d3_def)
  have m3: "d3 a = d2 a" if "a \<in> set (mapped j)" for a
    unfolding d3_def using that assms(4) by (intro content_item_puts) (auto simp: item_ok_def item_fits_def)
  have sa3: "d3 ?sa = d ?sa" using m3 [OF super_mapped [OF assms(1)]] t(3) by simp
  have desc: "describes j (d2 ?sa) (log_first j) n" using assms(2) t(3) by simp
  have nc: "no_commit j d2 (n + 1)" "no_fast j d2 (n + 1)" by (rule freshD [OF t(2) order_refl])+
  have ag3: "agree j d3 h" unfolding d3_def h_def using t(4) unfolding agree_def by (metis content_after_item_puts_cong)
  have full: "full_log j x h" if "\<forall>a. x a = d2 a \<or> Put a (x a) \<in> set (item_puts items)" for x
    by (rule full_log_crash [where d = d2 and s = n, OF assms(1) desc assms(6) t(5) assms(4) nc ag3 [unfolded d3_def] that])
  have full3: "full_log j d3 h" by (rule full) (simp add: d3_def content_after_puts_cases)
  show desc4: "describes j (e ?sa) (log_first j) (n + 1)"
    using describes_retired [where b = "d ?sa", OF assms(1,2,6)] by (simp add: e sb_def)
  show fr4: "fresh j e (n + 1)" by (rule fresh_frame [OF assms(1) t(2)]) (simp add: e m3)
  show ag4: "agree j e h" using ag3 super_mapped [OF assms(1)] by (simp add: e agree_mapped)
  have open4: "open_log j e h" unfolding open_log_def using desc4 freshD [OF fr4 order_refl] ag4 by blast
  assume "crash_in d (transaction_events j d n now items) d'"
  then consider "\<forall>a. d' a = d a \<or> Put a (d' a) \<in> set (log_puts j 0 bl)"
    | "crash_in d1 ([Put cp cb] @ Sync # item_puts items @ Sync # [Put ?sa sb, Sync]) d'"
    using crash_in_puts [of "log_puts j 0 bl" d] unfolding ev d1_def by fastforce
  then show "recoverable j d' d \<or> recoverable j d' h"
  proof cases
    case 1
    then have "open_log j d' d" using logging_crash(1) [where d = d and d' = d', OF assms(1-3) item_ok_fits [OF assms(4)] assms(5)] unfolding bl_def by blast
    then show ?thesis by (simp add: recoverable_def)
  next
    case 2
    then consider "\<forall>a. d' a = d1 a \<or> Put a (d' a) \<in> set [Put cp cb]" | "crash_in d2 (item_puts items @ Sync # [Put ?sa sb, Sync]) d'"
      using crash_in_puts [of "[Put cp cb]" d1] unfolding d2_def by fastforce
    then show ?thesis
    proof cases
      case 1
      then have x: "d' a = d1 a \<or> a = cp \<and> d' a = cb" for a by auto
      have "d' = d1 \<or> d' = d2"
      proof (cases "d' cp = cb")
        case True
        then have "d' = d2" using x by (auto simp: d2_def fun_eq_iff)
        then show ?thesis by simp
      next
        case False
        then have "d' = d1" using x by (auto simp: fun_eq_iff)
        then show ?thesis by simp
      qed
      then show ?thesis using t(1) full [of d2] by (auto simp: recoverable_def)
    next
      case 2
      then consider "\<forall>a. d' a = d2 a \<or> Put a (d' a) \<in> set (item_puts items)" | "crash_in d3 [Put ?sa sb, Sync] d'"
        using crash_in_puts [of "item_puts items" d2] unfolding d3_def by fastforce
      then show ?thesis
      proof cases
        case 1
        from full [OF this] show ?thesis by (simp add: recoverable_def)
      next
        case 2
        from crash_in_superblock [OF this] show ?thesis using full3 open4 e by (auto simp: recoverable_def)
      qed
    qed
  qed
qed

section \<open>Sequences of transactions\<close>

lemma readyD:
  assumes "ready j"
  shows "placed j" "gather j = []" "describes j (content (jctx j) (log_addr j 0)) (log_first j) (log_sequence j)"
    "fresh j (content (jctx j)) (log_sequence j)"
  using assms by (simp_all add: ready_def)

lemma same_format_state:
  assumes "same_format j j'"
  shows "fresh j' = fresh j" "no_commit j' = no_commit j" "no_fast j' = no_fast j" "agree j' = agree j"
    "holds_transaction j' d s items = holds_transaction j d s items"
proof -
  show nf: "no_fast j' = no_fast j" "no_commit j' = no_commit j"
    using assms by (simp_all add: no_fast_def no_commit_def in_log_def fun_eq_iff same_format_pos [OF assms] same_format_def)
  show "fresh j' = fresh j"
    using assms by (simp add: fresh_def fun_eq_iff nf in_log_def same_format_pos [OF assms]) (simp add: same_format_def)
  show "agree j' = agree j" using assms by (simp add: agree_def same_format_def fun_eq_iff)
  show "holds_transaction j' d s items = holds_transaction j d s items"
    using assms by (simp add: holds_transaction_def holds_log_def same_format_pos [OF assms] same_format_log_blocks [OF assms]
        same_format_tags(5) [OF assms] same_format_sum_blocks [OF assms] same_format_def Let_def)
qed

lemma recoverable_format:
  fixes j j' :: "disk jbd2_journal"
  assumes "same_format j j'"
  shows "recoverable j' d h = recoverable j d h"
proof -
  have "log_first j' = log_first j" using assms by (simp add: same_format_def)
  then show ?thesis
    unfolding recoverable_def closed_log_def open_log_def full_log_def same_format_state [OF assms] same_format_pos(2) [OF assms]
      same_format_tags(9) [OF assms] same_format_item_ok [OF assms] by simp
qed

lemma agree_trans: "agree j d h \<Longrightarrow> agree j h h' \<Longrightarrow> agree j d h'"
  by (simp add: agree_def)

lemma recoverable_agree: "recoverable j d h \<Longrightarrow> agree j h h' \<Longrightarrow> recoverable j d h'"
  unfolding recoverable_def closed_log_def open_log_def full_log_def using agree_trans by blast

lemma agree_item_puts: "agree j d h \<Longrightarrow> agree j (content_after d (item_puts items)) (content_after h (item_puts items))"
  unfolding agree_def by (metis content_after_item_puts_cong)

lemma crash_in_append:
  assumes "crash_in d (xs @ Sync # ys) d'"
  shows "crash_in d (xs @ [Sync]) d' \<or> crash_in (content_after d xs) ys d'"
proof -
  obtain sent todo where e: "xs @ Sync # ys = sent @ todo" and d': "\<forall>a. d' a \<in> snd (cache_after d sent) a"
    using assms by (auto simp: crash_in_def)
  show ?thesis
  proof (cases "length sent \<le> length xs")
    case True
    then have "sent = take (length sent) xs" using e by (metis append_eq_append_conv_if append_take_drop_id)
    then have "xs @ [Sync] = sent @ (drop (length sent) xs @ [Sync])" by (metis append.assoc append_take_drop_id)
    then show ?thesis using d' unfolding crash_in_def by blast
  next
    case False
    then obtain rest where p: "sent = xs @ Sync # rest" "ys = rest @ todo"
      using e by (auto simp: append_eq_append_conv2 Cons_eq_append_conv)
    obtain v q where "foldl cache_step (d, \<lambda>a. {d a}) xs = (v, q)" by fastforce
    moreover from this have "v = content_after d xs" using cache_after_fst [of d "\<lambda>a. {d a}" xs] by simp
    ultimately have "cache_after d sent = cache_after (content_after d xs) rest" by (simp add: cache_after_def p(1))
    then show ?thesis using d' p(2) by (auto simp: crash_in_def)
  qed
qed

lemma commit_step:
  assumes "ready j" "\<forall>item \<in> set items. item_ok j item" "length items \<le> unat (jbd2_journal_capacity j)" "log_sequence j + 1 \<noteq> 0"
  obtains j1 j2 where "log_transaction now j items = (True, j1)" "checkpoint j1 items = (True, j2)" "ready j2" "same_format j j2"
    "events (jctx j2) = events (jctx j) @ transaction_events j (content (jctx j)) (log_sequence j) now items"
    "medium (jctx j2) = medium (jctx j)" "placing (jctx j2) = placing (jctx j)" "log_sequence j2 = log_sequence j + 1"
    "busy j2 = busy j" "open_for_writes j2 = open_for_writes j"
proof -
  let ?d = "content (jctx j)" and ?n = "log_sequence j" and ?sa = "log_addr j 0"
  note r = readyD [OF assms(1)]
  have fit: "unat (log_first j) + length (log_blocks (length items) j ?n items) + 2 \<le> unat (log_last j)"
    by (rule capacity_fits [OF r(1) assms(3)])
  obtain j1 where j1: "log_transaction now j items = (True, j1)" "emits j (commit_events j now items) j1" "gather j1 = []"
    by (rule log_transaction_disk [OF r(1), of items now]) (use fit in simp_all)
  have p1: "placed j1" by (rule emits_placed [OF r(1) j1(2)])
  have f1: "same_format j j1" by (rule emits_format [OF j1(2)])
  have c1: "content (jctx j1) = content_after ?d (commit_events j now items)" "events (jctx j1) = events (jctx j) @ commit_events j now items"
    using emits_fields(19,21) [OF j1(2)] flow_gathered [OF r(2)] flow_gathered [OF j1(3)] by (simp_all add: content_def)
  let ?sb = "superblock_image j (?d ?sa) (log_first j) (?n + 1)"
  note t = transaction_states(3) [where j = j and d = ?d and n = ?n and items = items and now = now, OF r(1,3,4) item_ok_fits [OF assms(2)] fit assms(4)]
  have sa: "content_after (content (jctx j1)) (item_puts items) ?sa = ?d ?sa"
  proof -
    have "content_after (content (jctx j1)) (item_puts items) ?sa = content (jctx j1) ?sa"
      using assms(2) super_mapped [OF r(1)] by (intro content_item_puts) (auto simp: item_ok_def item_fits_def)
    also have "\<dots> = ?d ?sa" using t by (simp add: c1 commit_events_def Let_def)
    finally show ?thesis .
  qed
  obtain j2 where j2: "checkpoint j1 items = (True, j2\<lparr>log_start := log_first j1, log_sequence := log_sequence j1 + 1\<rparr>)" "gather j2 = []"
    "emits j1 (item_puts items @ [Sync,
       Put (log_addr j1 0) (superblock_image j1 (content_after (content (jctx j1)) (item_puts items) (log_addr j1 0)) (log_first j1) (log_sequence j1 + 1)),
       Sync]) j2"
    by (rule checkpoint_disk [OF p1 j1(3)])
  note e1 = emits_fields [OF j1(2)]
  have j2': "emits j1 (item_puts items @ [Sync, Put ?sa ?sb, Sync]) j2"
    using j2(3) by (simp add: e1 same_format_pos [OF f1] same_format_tags(7) [OF f1] sa)
  note e2 = emits_fields [OF j2']
  let ?j = "j2\<lparr>log_start := log_first j1, log_sequence := log_sequence j1 + 1\<rparr>"
  have ev: "events (jctx ?j) = events (jctx j) @ transaction_events j ?d ?n now items"
    using e2(21) flow_gathered [OF j1(3)] flow_gathered [OF j2(2)] c1(2)
    by (simp add: transaction_events_def commit_events_def Let_def)
  have f: "same_format j ?j" using f1 emits_format [OF j2'] by (simp add: same_format_def)
  have content: "content (jctx ?j) = content_after ?d (transaction_events j ?d ?n now items)"
    using ev by (simp add: content_def e1 e2)
  note c = transaction_crash [where j = j and d = ?d and n = ?n and items = items and now = now, OF r(1,3,4) assms(2) fit assms(4)]
  have "placed ?j" by (rule placed_format [OF r(1) f]) (simp_all add: e1 e2 placedD(1) [OF r(1)])
  then have "ready ?j"
    unfolding ready_def same_format_state [OF f] same_format_tags(9) [OF f] same_format_pos(2) [OF f] content
    using c(1,2) j2(2) e1 e2 by simp
  then show thesis using that [OF j1(1) j2(1) _ f ev] by (simp add: e1 e2)
qed

lemma transaction_events_sync: "\<exists>xs. transaction_events j d n now items = xs @ [Sync]"
  by (simp add: transaction_events_def Let_def)

text \<open>
  Where a commit can be cut: after all items, or after a number of full transactions.
\<close>

definition cut_at :: "nat \<Rightarrow> 'a list \<Rightarrow> nat \<Rightarrow> bool" where
  "cut_at capacity items m \<longleftrightarrow> m = length items \<or> m < length items \<and> capacity dvd m"

lemma cut_at_drop:
  assumes "cut_at capacity (drop capacity items) m"
  shows "cut_at capacity items (length (take capacity items) + m)"
    "take (length (take capacity items) + m) items = take capacity items @ take m (drop capacity items)"
proof -
  show "take (length (take capacity items) + m) items = take capacity items @ take m (drop capacity items)"
    by (cases "length items \<le> capacity") (simp_all add: take_add)
  show "cut_at capacity items (length (take capacity items) + m)"
  proof (cases "length items \<le> capacity")
    case False
    then show ?thesis using assms by (auto simp: cut_at_def min_absorb2)
  qed (use assms in \<open>simp add: cut_at_def\<close>)
qed

lemma cut_at_first: "items \<noteq> [] \<Longrightarrow> cut_at capacity items 0" "cut_at capacity items (length (take capacity items))"
  by (auto simp: cut_at_def min_def)

lemma ready_recoverable: "ready j \<Longrightarrow> recoverable j (content (jctx j)) (content (jctx j))"
  unfolding recoverable_def open_log_def using readyD freshD by (metis agree_def order_refl)

lemma commit_batches_disk:
  assumes "ready j" "\<forall>item \<in> set items. item_ok j item" "length items \<le> n" "unat (log_sequence j) + length items < 2 ^ 32"
    "capacity = unat (jbd2_journal_capacity j)"
  obtains j' es where "commit_batches n now capacity j items = (True, j')" "ready j'" "same_format j j'"
    "events (jctx j') = events (jctx j) @ es" "medium (jctx j') = medium (jctx j)" "placing (jctx j') = placing (jctx j)"
    "busy j' = busy j" "open_for_writes j' = open_for_writes j"
    "agree j (content (jctx j')) (content_after (content (jctx j)) (item_puts items))" "es \<noteq> [] \<longrightarrow> last es = Sync"
    "\<forall>d'. crash_in (content (jctx j)) es d' \<longrightarrow>
       (\<exists>m. cut_at capacity items m \<and> recoverable j d' (content_after (content (jctx j)) (item_puts (take m items))))"
  using assms
proof (induction n arbitrary: j items thesis)
  case 0
  show ?case
    by (rule 0(1) [of j "[]"])
      (use 0(2,4) ready_recoverable [OF 0(2)] in \<open>auto simp: same_format_def agree_def item_puts_def crash_in_Nil cut_at_def\<close>)
next
  case (Suc n)
  show ?case
  proof (cases "items = []")
    case True
    show ?thesis
      by (rule Suc.prems(1) [of j "[]"])
        (use True ready_recoverable [OF Suc.prems(2)] in \<open>auto simp: Suc.prems(2) same_format_def agree_def item_puts_def crash_in_Nil cut_at_def\<close>)
  next
    case False
    let ?b = "take capacity items" and ?r = "drop capacity items" and ?d = "content (jctx j)"
    note r = readyD [OF Suc.prems(2)]
    have "unat (log_first j) + 4 < unat (log_last j)" "unat (log_last j) < 2 ^ 31" using placedD [OF r(1)] by linarith+
    then have cap: "0 < capacity" using unat_capacity(2) [OF placedD(2) [OF r(1)]] Suc.prems(6) by simp
    have ok: "\<forall>item \<in> set ?b. item_ok j item" "\<forall>item \<in> set ?r. item_ok j item"
      using Suc.prems(3) by (auto dest: in_set_takeD in_set_dropD)
    have len: "length ?b \<le> unat (jbd2_journal_capacity j)" using Suc.prems(6) by simp
    have "0 < length items" using False by simp
    then have "unat (log_sequence j) + 1 < 2 ^ 32" using Suc.prems(5) by linarith
    then have u: "unat (log_sequence j + 1) = unat (log_sequence j) + 1" by (simp add: unat_word_ariths)
    then have nz: "log_sequence j + 1 \<noteq> 0" by (metis add_is_0 one_neq_zero unat_0)
    obtain j1 j2 where s: "log_transaction (now n) j ?b = (True, j1)" "checkpoint j1 ?b = (True, j2)" "ready j2" "same_format j j2"
      "events (jctx j2) = events (jctx j) @ transaction_events j ?d (log_sequence j) (now n) ?b"
      "medium (jctx j2) = medium (jctx j)" "placing (jctx j2) = placing (jctx j)" "log_sequence j2 = log_sequence j + 1"
      "busy j2 = busy j" "open_for_writes j2 = open_for_writes j"
      by (rule commit_step [OF Suc.prems(2) ok(1) len nz])
    let ?T = "transaction_events j ?d (log_sequence j) (now n) ?b"
    have fit: "unat (log_first j) + length (log_blocks (length ?b) j (log_sequence j) ?b) + 2 \<le> unat (log_last j)"
      by (rule capacity_fits [OF r(1) len])
    note c = transaction_crash [where j = j and d = ?d and n = "log_sequence j" and items = ?b and now = "now n", OF r(1,3,4) ok(1) fit nz]
    have c2: "content (jctx j2) = content_after ?d ?T" by (simp add: content_def s)
    have ag: "agree j (content (jctx j2)) (content_after ?d (item_puts ?b))" using c(3) c2 by simp
    have h1: "\<forall>item \<in> set ?r. item_ok j2 item" using ok(2) by (simp add: same_format_item_ok [OF s(4)])
    have h2: "length ?r \<le> n" using Suc.prems(4) cap False by (cases items) simp_all
    have h3: "unat (log_sequence j2) + length ?r < 2 ^ 32"
      using Suc.prems(5) u s(8) cap False by (cases items; cases capacity) simp_all
    have h4: "capacity = unat (jbd2_journal_capacity j2)" using Suc.prems(6) by (simp add: same_format_flags(10) [OF s(4)])
    obtain j3 es where t: "commit_batches n now capacity j2 ?r = (True, j3)" "ready j3" "same_format j2 j3"
      "events (jctx j3) = events (jctx j2) @ es" "medium (jctx j3) = medium (jctx j2)" "placing (jctx j3) = placing (jctx j2)"
      "busy j3 = busy j2" "open_for_writes j3 = open_for_writes j2"
      "agree j2 (content (jctx j3)) (content_after (content (jctx j2)) (item_puts ?r))" "es \<noteq> [] \<longrightarrow> last es = Sync"
      "\<forall>d'. crash_in (content (jctx j2)) es d' \<longrightarrow>
         (\<exists>m. cut_at capacity ?r m \<and> recoverable j2 d' (content_after (content (jctx j2)) (item_puts (take m ?r))))"
      by (rule Suc.IH [OF _ s(3) h1 h2 h3 h4])
    have join: "content_after (content_after ?d (item_puts ?b)) (item_puts xs) = content_after ?d (item_puts (?b @ xs))" for xs
      by (simp add: item_puts_def)
    show ?thesis
    proof (rule Suc.prems(1) [of j3 "?T @ es"])
      show "commit_batches (Suc n) now capacity j items = (True, j3)" using s(1,2) t(1) False by (cases items) simp_all
      show "same_format j j3" using s(4) t(3) by (simp add: same_format_def)
      show "agree j (content (jctx j3)) (content_after ?d (item_puts items))"
        using agree_trans [OF t(9) [unfolded same_format_state [OF s(4)]] agree_item_puts [OF ag, of ?r]] by (simp add: join)
      show "?T @ es \<noteq> [] \<longrightarrow> last (?T @ es) = Sync"
        using t(10) transaction_events_sync [of j ?d "log_sequence j" "now n" ?b] by (metis last_append last_snoc)
      show "\<forall>d'. crash_in ?d (?T @ es) d' \<longrightarrow>
         (\<exists>m. cut_at capacity items m \<and> recoverable j d' (content_after ?d (item_puts (take m items))))"
      proof (intro allI impI)
        fix d' assume crash: "crash_in ?d (?T @ es) d'"
        obtain xs where xs: "?T = xs @ [Sync]" using transaction_events_sync by blast
        have "crash_in ?d ?T d' \<or> crash_in (content (jctx j2)) es d'"
          using crash_in_append [of ?d xs es d'] crash unfolding c2 xs by simp
        then show "\<exists>m. cut_at capacity items m \<and> recoverable j d' (content_after ?d (item_puts (take m items)))"
        proof
          assume "crash_in ?d ?T d'"
          from c(4) [OF this] show ?thesis
          proof
            assume "recoverable j d' ?d"
            then show ?thesis using cut_at_first(1) [OF False] by (intro exI [of _ 0]) (simp add: item_puts_def)
          next
            assume "recoverable j d' (content_after ?d (item_puts ?b))"
            moreover have "take (length ?b) items = ?b" by (simp add: min_def)
            ultimately show ?thesis using cut_at_first(2) by metis
          qed
        next
          assume "crash_in (content (jctx j2)) es d'"
          then obtain m where m: "cut_at capacity ?r m" "recoverable j d' (content_after (content (jctx j2)) (item_puts (take m ?r)))"
            using t(11) recoverable_format [OF s(4)] by metis
          have "recoverable j d' (content_after (content_after ?d (item_puts ?b)) (item_puts (take m ?r)))"
            by (rule recoverable_agree [OF m(2) agree_item_puts [OF ag]])
          then have "recoverable j d' (content_after ?d (item_puts (take (length ?b + m) items)))"
            unfolding join cut_at_drop(2) [OF m(1)] .
          then show ?thesis using cut_at_drop(1) [OF m(1)] by blast
        qed
      qed
    qed (use s t in simp_all)
  qed
qed

text \<open>
  All that has been written is on the medium.
\<close>

definition synced :: "disk \<Rightarrow> bool" where
  "synced c \<longleftrightarrow> cache_after (medium c) (events c) = (content c, (\<lambda>a. {content c a}))"

text \<open>
  A power failure after the state \<open>c\<close> and not after the state \<open>c'\<close>.
\<close>

definition crash_during :: "disk \<Rightarrow> disk \<Rightarrow> disk_content \<Rightarrow> bool" where
  "crash_during c c' d \<longleftrightarrow>
     (\<exists>sent todo. events c' = events c @ sent @ todo \<and> (\<forall>a. d a \<in> snd (cache_after (medium c) (events c @ sent)) a))"

lemma cache_after_synced: "synced c \<Longrightarrow> cache_after (medium c) (events c @ es) = cache_after (content c) es"
  by (simp add: synced_def cache_after_def)

lemma crash_during_synced:
  assumes "synced c" "events c' = events c @ es"
  shows "crash_during c c' d \<longleftrightarrow> crash_in (content c) es d"
  unfolding crash_during_def crash_in_def cache_after_synced [OF assms(1)] using assms(2) by auto

lemma synced_after:
  assumes "medium c' = medium c" "events c' = events c @ es" "es \<noteq> [] \<longrightarrow> last es = Sync" "synced c"
  shows "synced c'"
proof (cases "es = []")
  case True
  then show ?thesis using assms by (simp add: synced_def content_def)
next
  case False
  then have es: "es = butlast es @ [Sync]" using assms(3) by (metis append_butlast_last_id)
  obtain v q where "foldl cache_step (content c, \<lambda>a. {content c a}) (butlast es) = (v, q)" by fastforce
  moreover from this have v: "v = content_after (content c) (butlast es)"
    using cache_after_fst [of "content c" "\<lambda>a. {content c a}" "butlast es"] by simp
  moreover have "content c' = content_after (content c) (butlast es)"
    by (simp add: content_def assms(1,2)) (subst es, simp)
  ultimately have "cache_after (content c) es = (content c', (\<lambda>a. {content c' a}))"
    by (subst es) (simp add: cache_after_def)
  then show ?thesis using cache_after_synced [OF assms(4), of es] by (simp add: synced_def assms(1,2))
qed

lemma ready_busy: "ready (j\<lparr>busy := b\<rparr>) = ready j" "item_ok (j\<lparr>busy := b\<rparr>) = item_ok j"
  "jbd2_journal_capacity (j\<lparr>busy := b\<rparr>) = jbd2_journal_capacity j" "recoverable (j\<lparr>busy := b\<rparr>) d h = recoverable j d h"
proof -
  have f: "same_format j (j\<lparr>busy := b\<rparr>)" by (simp add: same_format_def)
  show "item_ok (j\<lparr>busy := b\<rparr>) = item_ok j" by (rule same_format_item_ok [OF f])
  show "jbd2_journal_capacity (j\<lparr>busy := b\<rparr>) = jbd2_journal_capacity j" by (rule same_format_flags(10) [OF f])
  show "recoverable (j\<lparr>busy := b\<rparr>) d h = recoverable j d h" by (rule recoverable_format [OF f])
  have "placed (j\<lparr>busy := b\<rparr>) = placed j"
    using same_format_flags(12) [OF f] by (simp add: placed_def on_disk_def)
  then show "ready (j\<lparr>busy := b\<rparr>) = ready j"
    unfolding ready_def same_format_state [OF f] same_format_tags(9) [OF f] same_format_pos(2) [OF f] by simp
qed

lemma jbd2_commit_disk:
  assumes "ready j" "\<not> busy j" "open_for_writes j" "\<forall>item \<in> set items. item_ok j item" "unat (log_sequence j) + length items < 2 ^ 32"
  obtains j' es where "jbd2_journal_commit now j items = (True, j')" "ready j'" "same_format j j'" "\<not> busy j'" "open_for_writes j'"
    "events (jctx j') = events (jctx j) @ es" "medium (jctx j') = medium (jctx j)" "placing (jctx j') = placing (jctx j)"
    "agree j (content (jctx j')) (content_after (content (jctx j)) (item_puts items))" "es \<noteq> [] \<longrightarrow> last es = Sync"
    "\<forall>d'. crash_in (content (jctx j)) es d' \<longrightarrow>
       (\<exists>m. cut_at (unat (jbd2_journal_capacity j)) items m \<and> recoverable j d' (content_after (content (jctx j)) (item_puts (take m items))))"
proof (cases "items = []")
  case True
  show thesis
    by (rule that [of j "[]"])
      (use assms True ready_recoverable [OF assms(1)] in
        \<open>auto simp: jbd2_journal_commit_def same_format_def agree_def item_puts_def crash_in_Nil cut_at_def\<close>)
next
  case False
  let ?j = "j\<lparr>busy := True\<rparr>"
  have g: "sized j" "unat (log_first j) + 4 < unat (log_last j)" "unat (log_last j) < 2 ^ 31" using placedD [OF readyD(1) [OF assms(1)]] by linarith+
  have cap: "jbd2_journal_capacity j \<noteq> 0" using unat_capacity(2) [OF g] by auto
  obtain j1 es where c: "commit_batches (length items) now (unat (jbd2_journal_capacity j)) ?j items = (True, j1)" "ready j1" "same_format ?j j1"
    "events (jctx j1) = events (jctx ?j) @ es" "medium (jctx j1) = medium (jctx ?j)" "placing (jctx j1) = placing (jctx ?j)"
    "busy j1 = busy ?j" "open_for_writes j1 = open_for_writes ?j"
    "agree ?j (content (jctx j1)) (content_after (content (jctx ?j)) (item_puts items))" "es \<noteq> [] \<longrightarrow> last es = Sync"
    "\<forall>d'. crash_in (content (jctx ?j)) es d' \<longrightarrow>
       (\<exists>m. cut_at (unat (jbd2_journal_capacity j)) items m \<and> recoverable ?j d' (content_after (content (jctx ?j)) (item_puts (take m items))))"
    by (rule commit_batches_disk [of ?j items "length items" "unat (jbd2_journal_capacity j)" now])
      (use assms in \<open>simp_all add: ready_busy\<close>)
  show thesis
  proof (rule that [of "j1\<lparr>busy := False\<rparr>" es])
    show "jbd2_journal_commit now j items = (True, j1\<lparr>busy := False\<rparr>)"
      using c(1) assms(2,3) False cap by (simp add: jbd2_journal_commit_def)
    show "ready (j1\<lparr>busy := False\<rparr>)" using c(2) by (simp add: ready_busy)
  qed (use c assms(3) in \<open>simp_all add: same_format_def agree_def ready_busy\<close>)
qed

end
