(* ===== verification/Jbd2_Contract.thy ===== *)
theory Jbd2_Contract
  imports Jbd2_Crash
begin

text \<open>
  The contract of the journal with the file system, and the blocks it does not protect.
\<close>

section \<open>Beginning\<close>

lemma begin_features_fields:
  "block_size (begin_features j w) = block_size j" "maxlen (begin_features j w) = maxlen j" "log_first (begin_features j w) = log_first j"
  "log_last (begin_features j w) = log_last j" "uuid (begin_features j w) = uuid j" "csum_seed (begin_features j w) = csum_seed j"
  "mapped (begin_features j w) = mapped j" "jops (begin_features j w) = jops j" "jctx (begin_features j w) = jctx j"
  "gather (begin_features j w) = gather j" "log_sequence (begin_features j w) = log_sequence j" "busy (begin_features j w) = busy j"
  by (simp_all add: begin_features_def Let_def)

lemma begin_features_fast: "incompat (begin_features j w) AND JBD2_INCOMPAT_FAST_COMMIT = incompat j AND JBD2_INCOMPAT_FAST_COMMIT"
  by (simp add: begin_features_def Let_def bit.conj_disj_distrib2 and.assoc)

lemma begin_features_known:
  assumes "incompat j AND NOT JBD2_INCOMPAT_KNOWN = 0"
  shows "incompat (begin_features j w) AND NOT JBD2_INCOMPAT_KNOWN = 0"
proof -
  have "(incompat j AND NOT 8) AND NOT 0x3F = (incompat j AND NOT 0x3F) AND NOT 8" by (simp only: ac_simps)
  then have "(incompat j AND NOT 8) AND NOT 0x3F = 0" using assms by simp
  then show ?thesis using assms by (simp add: begin_features_def Let_def bit.conj_disj_distrib2 and.assoc)
qed

lemma begin_features_image:
  assumes "image_ok j b" "load_be32 b 4 = JBD2_SUPERBLOCK_V2"
  shows "image_ok (begin_features j w) b"
  using assms begin_features_known [of j w] unfolding image_ok_def begin_features_fields begin_features_fast by auto

text \<open>
  A journal that has been opened and recovered: idle, with nothing in the log that could be taken for its next transaction.
\<close>

definition idle :: "disk jbd2_journal \<Rightarrow> bool" where
  "idle j \<longleftrightarrow> placed j \<and> gather j = [] \<and> \<not> busy j \<and> \<not> open_for_writes j \<and> log_sequence j \<noteq> 0 \<and>
     image_ok j (content (jctx j) (log_addr j 0)) \<and> fresh j (content (jctx j)) (log_sequence j)"

lemma begin_disk:
  assumes "idle j" "synced (jctx j)"
  obtains j' where "jbd2_journal_begin j wanted = (True, j')" "ready j'" "synced (jctx j')" "\<not> busy j'" "open_for_writes j'"
    "mapped j' = mapped j" "agree j (content (jctx j')) (content (jctx j))" "log_sequence j' = log_sequence j"
    "same_format (if load_be32 (content (jctx j) (log_addr j 0)) 4 = JBD2_SUPERBLOCK_V2 then begin_features j wanted else j) j'"
proof -
  let ?b = "content (jctx j) (log_addr j 0)"
  define j1 where "j1 = (if load_be32 ?b 4 = JBD2_SUPERBLOCK_V2 then begin_features j wanted else j)"
  note i = assms(1) [unfolded idle_def]
  have same: "block_size j1 = block_size j" "maxlen j1 = maxlen j" "log_first j1 = log_first j" "log_last j1 = log_last j" "mapped j1 = mapped j"
    "jops j1 = jops j" "jctx j1 = jctx j" "gather j1 = gather j" "log_sequence j1 = log_sequence j" "busy j1 = busy j"
    "incompat j1 AND 0x20 = incompat j AND 0x20"
    by (simp_all add: j1_def begin_features_fields begin_features_fast)
  have p1: "placed j1" using i same unfolding placed_def on_disk_def sized_def by simp
  have addr: "log_addr j1 = log_addr j" by (simp add: log_addr_def same fun_eq_iff)
  have img: "image_ok j1 ?b" using i by (auto simp: j1_def intro: begin_features_image)
  let ?sb = "superblock_image j1 ?b (log_first j1) (log_sequence j1)"
  have sb: "describes j1 ?sb (log_first j1) (log_sequence j1)"
    by (rule describes_image [OF img placedD(2) [OF p1]]) (use i same in simp)
  let ?j2 = "j1\<lparr>jctx := record_events (jctx j) [Put (log_addr j 0) ?sb], log_start := log_first j1, log_sequence := log_sequence j1\<rparr>"
  have w: "write_journal_superblock j1 (log_first j1) (log_sequence j1) = (True, ?j2)"
    using write_journal_superblock_disk [OF p1] by (simp add: same addr)
  have d2: "on_disk ?j2" using placedD(8) [OF p1] by (simp add: on_disk_def)
  let ?es = "[Put (log_addr j 0) ?sb, Sync]"
  let ?j3 = "j1\<lparr>jctx := record_events (jctx j) ?es, log_start := log_first j1, open_for_writes := True\<rparr>"
  have read: "log_read j 0 = Some ?b" using i placedD(6,7) [of j] by (intro log_read_placed) auto
  have run: "jbd2_journal_begin j wanted = (True, ?j3)"
    using i read w device_flush_disk [OF d2] by (simp add: jbd2_journal_begin_def j1_def [symmetric] Let_def)
  have f: "same_format j1 ?j3" by (simp add: same_format_def)
  have p3: "placed ?j3" by (rule placed_format [OF p1 f]) (simp_all add: same placedD(1) [OF p1, simplified same])
  have c3: "content (jctx ?j3) = (content (jctx j))(log_addr j 0 := ?sb)" by simp
  have pj: "placed j" using i by simp
  have fj: "fresh j1 = fresh j"
    by (simp add: fresh_def fun_eq_iff no_fast_def in_log_def log_addr_def same)
  have fr: "fresh j1 (content (jctx ?j3)) (log_sequence j)"
    unfolding fj by (rule fresh_frame [OF pj, of "content (jctx j)"]) (use i in auto)
  have "ready ?j3"
    unfolding ready_def same_format_state(1) [OF f] same_format_tags(9) [OF f] same_format_pos(2) [OF f]
    using p3 i sb fr by (simp add: same addr)
  moreover have "synced (jctx ?j3)" by (rule synced_after [OF _ _ _ assms(2), of _ ?es]) simp_all
  moreover have "agree j (content (jctx ?j3)) (content (jctx j))" using super_mapped [OF pj] by (simp add: agree_def)
  ultimately show thesis by (intro that [OF run]) (use i f in \<open>simp_all add: same j1_def [symmetric]\<close>)
qed

section \<open>Escaped blocks\<close>

lemma data_csum_escape:
  assumes "4 \<le> length data" "needs_escape data"
  shows "data_csum j sequence (log_image data) \<noteq> data_csum j sequence data"
proof
  assume eq: "data_csum j sequence (log_image data) = data_csum j sequence data"
  let ?c = "crc32c_spec (csum_seed j) (be32_bytes sequence)"
  have d: "data = be32_bytes JBD2_MAGIC @ drop 4 data" "log_image data = be32_bytes 0 @ drop 4 data"
    using assms store_load_be32 [of 0 data JBD2_MAGIC] by (simp_all add: needs_escape_def log_image_def store_be32_def copy_into_def)
  have "crc32c_spec (crc32c_spec ?c (be32_bytes 0)) (drop 4 data) = crc32c_spec (crc32c_spec ?c (be32_bytes JBD2_MAGIC)) (drop 4 data)"
    using eq unfolding data_csum_def by (metis d crc32c_spec_append)
  then have "crc32c_spec ?c (be32_bytes 0) = crc32c_spec ?c (be32_bytes JBD2_MAGIC)" by (rule crc32c_spec_inj)
  then have "be32_bytes 0 = be32_bytes JBD2_MAGIC" by (intro crc32c_spec_word_inj) simp_all
  then show False by (simp add: be32_bytes_def)
qed

lemma kept_v3:
  assumes "sized j" "has_csum_v3 j" "\<forall>item \<in> set items. item_fits j item"
  shows "kept j sequence items = filter (\<lambda>item. \<not> needs_escape (snd item)) items"
proof (rule filter_cong [OF refl])
  fix item assume "item \<in> set items"
  then have len: "4 \<le> length (snd item)" using assms(1,3) by (auto simp: item_fits_def sized_def)
  show "intact j sequence item \<longleftrightarrow> \<not> needs_escape (snd item)"
    using data_csum_escape [OF len, of j sequence] assms(2) has_csum_v3_csum [OF assms(2)]
    by (cases "needs_escape (snd item)") (simp_all add: intact_def Let_def log_image_def)
qed

text \<open>
  Recovery of a committed transaction replays the blocks whose checksum matches their copy in the log and reports success.
\<close>

lemma recover_kept:
  assumes "placed j" "describes j (d (log_addr j 0)) (log_first j) s" "holds_transaction j d s items" "\<forall>item \<in> set items. item_fits j item"
    "no_commit j d (s + 1)" "no_fast j d (s + 1)" "agree j d h"
  shows "recovers_to j room d (content_after h (item_puts (kept j s items)))"
proof -
  let ?jo = "reopened j d (log_first j) s"
  note f = reopened_fields [of j d "log_first j" s]
  have st: "log_start ?jo = log_first ?jo" using f(1) by (simp add: f same_format_def)
  have hyps: "holds_transaction ?jo (content (jctx ?jo)) (log_sequence ?jo) items" "\<forall>item \<in> set items. item_fits ?jo item"
    "no_commit ?jo (content (jctx ?jo)) (log_sequence ?jo + 1)" "no_fast ?jo (content (jctx ?jo)) (log_sequence ?jo + 1)"
    using assms(3-6) by (simp_all add: f reopened_no_commit same_format_item_fits [OF f(1)])
  obtain jr where r: "jbd2_journal_recover room ?jo = (J_ok, jr)"
    "jctx jr = record_events (jctx ?jo) (item_puts (kept ?jo (log_sequence ?jo) items) @ Sync # retired ?jo (log_sequence ?jo + 1))"
    by (rule recover_transaction [OF placed_reopened [OF assms(1)] st f(8) hyps])
  have "agree j (content (jctx jr)) (content_after h (item_puts (kept j s items)))"
    using agree_item_puts [OF assms(7), of "kept j s items"] super_mapped [OF assms(1)]
    by (simp add: r(2) f retired_def same_format_pos [OF f(1)] same_format_intact [OF f(1)] agree_mapped)
  then show ?thesis unfolding recovers_to_def using open_reopened [where d = d, OF assms(1,2)] r(1) by blast
qed

text \<open>
  A commit of one transaction writes the log, and makes the commit block durable before anything else happens.
\<close>

lemma commit_logs:
  assumes "ready j" "\<not> busy j" "open_for_writes j" "items \<noteq> []" "length items \<le> unat (jbd2_journal_capacity j)"
  obtains j' t rest where "jbd2_journal_commit now j items = (True, j')" "events (jctx j') = events (jctx j) @ commit_events j t items @ rest"
proof -
  let ?j = "j\<lparr>busy := True\<rparr>" and ?t = "now (length items - 1)"
  have f: "same_format j ?j" by (simp add: same_format_def)
  have r: "placed ?j" "gather ?j = []" using readyD [of ?j] assms(1) by (simp_all add: ready_busy)
  have fit: "unat (log_first ?j) + length (log_blocks (length items) ?j (log_sequence ?j) items) < unat (log_last ?j)"
    using capacity_fits [OF r(1), of items "log_sequence ?j"] assms(5) by (simp add: ready_busy)
  obtain j1 where j1: "log_transaction ?t ?j items = (True, j1)" "emits ?j (commit_events ?j ?t items) j1" "gather j1 = []"
    by (rule log_transaction_disk [OF r(1) fit])
  obtain j2 es where j2: "checkpoint j1 items = (True, j2\<lparr>log_start := log_first j1, log_sequence := log_sequence j1 + 1\<rparr>)" "gather j2 = []"
    "emits j1 es j2"
    by (rule checkpoint_disk [OF emits_placed [OF r(1) j1(2)] j1(3)])
  let ?j2 = "j2\<lparr>log_start := log_first j1, log_sequence := log_sequence j1 + 1\<rparr>"
  obtain n where n: "length items = Suc n" using assms(4) by (cases items) simp_all
  have "jbd2_journal_capacity j \<noteq> 0" using assms(5) n by auto
  then have "jbd2_journal_commit now j items = (True, ?j2\<lparr>busy := False\<rparr>)"
    using assms(2-5) j1(1) j2(1) n by (cases items) (simp_all add: jbd2_journal_commit_def)
  moreover have "commit_events ?j ?t items = commit_events j ?t items"
    by (simp add: commit_events_def same_format_log_blocks [OF f] same_format_pos [OF f] same_format_tags(5) [OF f]
        same_format_sum_blocks [OF f] same_format_log_puts [OF f] Let_def)
  then have "events (jctx (?j2\<lparr>busy := False\<rparr>)) = events (jctx j) @ commit_events j ?t items @ es"
    using emits_fields(21) [OF j1(2)] emits_fields(21) [OF j2(3)] flow_gathered [OF r(2)] flow_gathered [OF j1(3)] flow_gathered [OF j2(2)] by simp
  ultimately show thesis by (rule that)
qed

lemma crash_after_sync: "crash_in d (xs @ Sync # ys) (content_after d xs)"
proof -
  obtain v q where "foldl cache_step (d, \<lambda>a. {d a}) xs = (v, q)" by fastforce
  moreover from this have "v = content_after d xs" using cache_after_fst [of d "\<lambda>a. {d a}" xs] by simp
  ultimately have "snd (cache_after d (xs @ [Sync])) = (\<lambda>a. {content_after d xs a})" by (simp add: cache_after_def)
  then show ?thesis unfolding crash_in_def by (intro exI [of _ "xs @ [Sync]"] exI [of _ ys]) simp
qed

section \<open>An example journal\<close>

text \<open>
  A journal of 16 blocks of 1024 bytes at the disk addresses 100 to 115, without checksums, whose next transaction has the number 5. \<open>start\<close> is 0
  for an empty log.
\<close>

definition ex_super :: "u32 \<Rightarrow> disk_block" where
  "ex_super start =
     store_be32 (store_be32 (store_be32 (store_be32 (store_be32 (store_be32 (store_be32 (replicate 1024 0) 0 JBD2_MAGIC) 4 3) 12 1024) 16 16) 20 1) 24 5) 28 start"

definition ex_place :: "u32 \<Rightarrow> u64 option" where
  "ex_place p = (if p < 16 then Some (100 + ucast p) else None)"

definition ex_disk :: "u32 \<Rightarrow> disk_content" where
  "ex_disk start a = (if a = 100 then ex_super start else replicate 1024 0)"

definition ex_journal :: "u32 \<Rightarrow> disk jbd2_journal" where
  "ex_journal start =
     (blank_journal disk_ops (disk_of (ex_disk start) ex_place) 1024)\<lparr>maxlen := 16, log_first := 1, log_last := 16, log_sequence := 5,
       log_start := start, csum_seed := crc32c_spec 0xFFFFFFFF (replicate 16 0), mapped := map (\<lambda>i. 100 + of_nat i) [0..<16],
       open_for_writes := (start \<noteq> 0)\<rparr>"

definition ex_items :: "log_item list" where
  "ex_items = [(7, replicate 1024 1), (9, replicate 1024 2)]"

lemma load_be32_zeros: "at + 4 \<le> n \<Longrightarrow> load_be32 (replicate n 0) at = 0"
  by (simp add: load_be32_def)

lemma ex_journal_fields [simp]:
  "jops (ex_journal st) = disk_ops" "jctx (ex_journal st) = disk_of (ex_disk st) ex_place" "block_size (ex_journal st) = 1024"
  "maxlen (ex_journal st) = 16" "log_first (ex_journal st) = 1" "log_last (ex_journal st) = 16" "log_sequence (ex_journal st) = 5"
  "compat (ex_journal st) = 0" "incompat (ex_journal st) = 0" "uuid (ex_journal st) = replicate 16 0"
  "csum_seed (ex_journal st) = crc32c_spec 0xFFFFFFFF (replicate 16 0)" "gather (ex_journal st) = []" "busy (ex_journal st) = False"
  "open_for_writes (ex_journal st) = (st \<noteq> 0)" "mapped (ex_journal st) = map (\<lambda>i. 100 + of_nat i) [0..<16]"
  by (simp_all add: ex_journal_def blank_journal_def)

lemma ex_mapped: "(map (\<lambda>i. 100 + of_nat i) [0..<16] :: u64 list) = [100, 101, 102, 103, 104, 105, 106, 107, 108, 109, 110, 111, 112, 113, 114, 115]"
  by code_simp

lemma ex_placed: "placed (ex_journal st)"
proof -
  have "ex_place (of_nat i) = Some (map (\<lambda>i. 100 + of_nat i) [0..<16] ! i)" if "i < 16" for i
  proof -
    have "unat (of_nat i :: u32) = i" using that by (simp add: unat_of_nat take_bit_eq_mod)
    then have "(of_nat i :: u32) < 16" "ucast (of_nat i :: u32) = (of_nat i :: u64)"
      using that by (simp_all add: word_less_nat_alt word_unat_eq_iff unsigned_ucast_eq unat_of_nat take_bit_eq_mod)
    then show ?thesis using that by (simp add: ex_place_def)
  qed
  moreover have "distinct (map (\<lambda>i. 100 + of_nat i :: u64) [0..<16])" "0 \<notin> set (map (\<lambda>i. 100 + of_nat i :: u64) [0..<16])"
    unfolding ex_mapped by simp_all
  ultimately show "placed (ex_journal st)"
    by (simp add: placed_def on_disk_def sized_def del: set_map)
qed

lemma ex_super_loads:
  "length (ex_super st) = 1024" "load_be32 (ex_super st) 0 = JBD2_MAGIC" "load_be32 (ex_super st) 4 = 3" "load_be32 (ex_super st) 12 = 1024"
  "load_be32 (ex_super st) 16 = 16" "load_be32 (ex_super st) 20 = 1" "load_be32 (ex_super st) 24 = 5" "load_be32 (ex_super st) 28 = st"
  by (simp_all add: ex_super_def be_simps)

lemma ex_image: "image_ok (ex_journal st) (ex_super st)" "describes (ex_journal st) (ex_super st) st 5"
  by (simp_all add: describes_def image_ok_def ex_super_loads)

lemma ex_addr: "log_addr (ex_journal st) 0 = 100" "in_log (ex_journal st) p \<Longrightarrow> log_addr (ex_journal st) p \<noteq> 100"
proof -
  show a: "log_addr (ex_journal st) 0 = 100" by (simp add: log_addr_def)
  show "log_addr (ex_journal st) p \<noteq> 100" if "in_log (ex_journal st) p"
    using super_not_logged [OF ex_placed(1) that] a by simp
qed

lemma ex_fresh: "fresh (ex_journal st) (ex_disk st) 5"
  unfolding fresh_def no_fast_def headed_def
  using ex_addr(2) by (auto simp: ex_disk_def load_be32_zeros)

lemma ex_ready: "ready (ex_journal 1)" "synced (jctx (ex_journal 1))" "idle (ex_journal 0)" "synced (jctx (ex_journal 0))"
  using ex_placed(1) ex_fresh ex_image
  by (simp_all add: ready_def idle_def synced_def cache_after_def ex_addr ex_disk_def [of _ 100])

lemma ex_items_ok: "\<forall>item \<in> set ex_items. item_ok (ex_journal 1) item"
  unfolding ex_items_def item_ok_def item_fits_def ex_journal_fields ex_mapped
  by (simp add: target_fits_def has_csum_def)

text \<open>
  The same journal with a superblock of version 2, opened with checksums, and two blocks of which the first begins with the magic number.
\<close>

definition ex_journal_v2 :: "disk jbd2_journal" where
  "ex_journal_v2 = (ex_journal 0)\<lparr>jctx := disk_of ((ex_disk 0)(100 := store_be32 (ex_super 0) 4 4)) ex_place\<rparr>"

definition ex_escaped :: "log_item list" where
  "ex_escaped = [(7, store_be32 (replicate 1024 0) 0 JBD2_MAGIC), (9, replicate 1024 2)]"

lemma ex_v2_idle: "idle ex_journal_v2" "synced (jctx ex_journal_v2)"
proof -
  let ?b = "store_be32 (ex_super 0) 4 4"
  have same: "same_format (ex_journal 0) ex_journal_v2" by (simp add: ex_journal_v2_def same_format_def)
  have p: "placed ex_journal_v2" using ex_placed(1) [of 0] by (simp add: ex_journal_v2_def placed_def on_disk_def sized_def)
  have addr: "log_addr ex_journal_v2 0 = 100" using ex_addr(1) [of 0] by (simp add: same_format_pos [OF same])
  have uuid: "take 16 (drop 48 ?b) = replicate 16 0" by (simp add: ex_super_def store_be32_def copy_into_def take_replicate)
  have img: "image_ok ex_journal_v2 ?b"
    using ex_super_loads [of 0] uuid by (simp add: image_ok_def ex_journal_v2_def be_simps)
  have "fresh ex_journal_v2 (content (jctx ex_journal_v2)) 5"
    unfolding same_format_state(1) [OF same] using ex_fresh [of 0]
    by (rule fresh_frame [OF ex_placed(1)]) (simp add: ex_journal_v2_def ex_addr)
  then show "idle ex_journal_v2" using p img addr by (simp add: idle_def ex_journal_v2_def)
  show "synced (jctx ex_journal_v2)" by (simp add: ex_journal_v2_def synced_def cache_after_def)
qed

lemma ex_v3:
  obtains j where "ready j" "synced (jctx j)" "\<not> busy j" "open_for_writes j" "has_csum_v3 j" "log_sequence j = 5"
    "\<forall>item \<in> set ex_escaped. item_fits j item" "length ex_escaped \<le> unat (jbd2_journal_capacity j)"
proof -
  obtain j where j: "ready j" "synced (jctx j)" "\<not> busy j" "open_for_writes j" "mapped j = mapped ex_journal_v2"
    "log_sequence j = log_sequence ex_journal_v2"
    "same_format (if load_be32 (content (jctx ex_journal_v2) (log_addr ex_journal_v2 0)) 4 = JBD2_SUPERBLOCK_V2
       then begin_features ex_journal_v2 JBD2_WANT_CSUM else ex_journal_v2) j"
    by (rule begin_disk [OF ex_v2_idle])
  have "log_addr ex_journal_v2 0 = 100" by (simp add: ex_journal_v2_def log_addr_def)
  then have f: "same_format (begin_features ex_journal_v2 JBD2_WANT_CSUM) j"
    using j(7) by (simp add: ex_journal_v2_def be_simps ex_super_loads)
  have fields: "block_size j = 1024" "incompat j = 0x10" "maxlen j = 16" "log_first j = 1" "log_last j = 16"
    "mapped j = map (\<lambda>i. 100 + of_nat i) [0..<16]"
    using f by (simp_all add: same_format_def begin_features_def ex_journal_v2_def)
  show thesis
  proof (rule that [OF j(1-4)])
    show "has_csum_v3 j" by (simp add: has_csum_v3_def fields)
    show "log_sequence j = 5" using j(6) by (simp add: ex_journal_v2_def)
    show "\<forall>item \<in> set ex_escaped. item_fits j item"
      unfolding ex_escaped_def item_fits_def fields ex_mapped by (simp add: target_fits_def)
    show "length ex_escaped \<le> unat (jbd2_journal_capacity j)"
      by (simp add: ex_escaped_def jbd2_journal_capacity_def tags_per_descriptor_def tag_bytes_def tail_bytes_def has_csum_def has_csum_v3_def
          has_64bit_def fields)
  qed
qed

section \<open>Properties\<close>

text \<open>
  C1: A commit is atomic under power failures, on a disk that carries out every read, write and flush, while the sequence numbers do not wrap, and for
  blocks that do not begin with the journal's magic number where the journal has checksums. Whatever the disk holds when the power fails during a commit, recovery, interrupted by any
  number of further power failures, ends well and leaves outside the journal exactly the first \<open>m\<close> blocks of the commit written, where \<open>m\<close> is all of them or a multiple of the
  journal's capacity. A commit that fits into the journal is all or nothing.
\<close>

theorem jbd2_crash_atomic:
  assumes "ready j" "synced (jctx j)" "\<not> busy j" "open_for_writes j" "\<forall>item \<in> set items. item_ok j item"
    "unat (log_sequence j) + length items < 2 ^ 32" "jbd2_journal_commit now j items = (ok, j')" "crash_during (jctx j) (jctx j') d"
  shows "\<exists>m. (m = length items \<or> m < length items \<and> unat (jbd2_journal_capacity j) dvd m) \<and>
    (\<forall>d'. crashes_again j room d d' \<longrightarrow> recovers_to j room d' (content_after (content (jctx j)) (item_puts (take m items))))"
proof -
  obtain j1 es where c: "jbd2_journal_commit now j items = (True, j1)" "events (jctx j1) = events (jctx j) @ es"
    "\<forall>d'. crash_in (content (jctx j)) es d' \<longrightarrow>
       (\<exists>m. cut_at (unat (jbd2_journal_capacity j)) items m \<and> recoverable j d' (content_after (content (jctx j)) (item_puts (take m items))))"
    by (rule jbd2_commit_disk [OF assms(1,3-6)])
  have "crash_in (content (jctx j)) es d" using assms(7,8) c(1) crash_during_synced [OF assms(2) c(2)] by simp
  then obtain m where m: "cut_at (unat (jbd2_journal_capacity j)) items m"
    "recoverable j d (content_after (content (jctx j)) (item_puts (take m items)))" using c(3) by blast
  have "recovers_to j room d' (content_after (content (jctx j)) (item_puts (take m items)))" if "crashes_again j room d d'" for d'
    by (rule recoverable_recovers [OF readyD(1) [OF assms(1)] crashes_again_recoverable [OF that readyD(1) [OF assms(1)] m(2)]])
  then show ?thesis using m(1) unfolding cut_at_def by blast
qed

theorem jbd2_crash_atomic_witness:
  "ready (ex_journal 1) \<and> list_all (item_ok (ex_journal 1)) ex_items \<and>
   (\<exists>ok j'. jbd2_journal_commit (\<lambda>_. 0) (ex_journal 1) ex_items = (ok, j') \<and> crash_during (jctx (ex_journal 1)) (jctx j') (ex_disk 1)) \<and>
   (\<exists>m. recovers_to (ex_journal 1) (\<lambda>_. True) (ex_disk 1) (content_after (ex_disk 1) (item_puts (take m ex_items))))"
proof -
  obtain j' es where c: "jbd2_journal_commit (\<lambda>_. 0) (ex_journal 1) ex_items = (True, j')"
    "events (jctx j') = events (jctx (ex_journal 1)) @ es"
    by (rule jbd2_commit_disk [OF ex_ready(1) _ _ ex_items_ok, of "\<lambda>_. 0"]) (simp_all add: ex_items_def)
  have crash: "crash_during (jctx (ex_journal 1)) (jctx j') (ex_disk 1)"
    unfolding crash_during_synced [OF ex_ready(2) c(2)] crash_in_def by (intro exI [of _ "[]"] exI [of _ es]) (simp add: cache_after_def)
  have "\<exists>m. (m = length ex_items \<or> m < length ex_items \<and> unat (jbd2_journal_capacity (ex_journal 1)) dvd m) \<and>
    (\<forall>d'. crashes_again (ex_journal 1) (\<lambda>_. True) (ex_disk 1) d' \<longrightarrow>
      recovers_to (ex_journal 1) (\<lambda>_. True) d' (content_after (content (jctx (ex_journal 1))) (item_puts (take m ex_items))))"
    by (rule jbd2_crash_atomic [OF ex_ready(1,2) _ _ ex_items_ok _ c(1) crash]) (simp_all add: ex_items_def)
  then obtain m where "recovers_to (ex_journal 1) (\<lambda>_. True) (ex_disk 1) (content_after (content (jctx (ex_journal 1))) (item_puts (take m ex_items)))"
    using crashes_again.none [of "ex_journal 1" "\<lambda>_. True" "ex_disk 1"] by blast
  then have "\<exists>m. recovers_to (ex_journal 1) (\<lambda>_. True) (ex_disk 1) (content_after (ex_disk 1) (item_puts (take m ex_items)))" by auto
  then show ?thesis using ex_ready(1) ex_items_ok [folded list_all_iff] c(1) crash by blast
qed

text \<open>
  C3: On such a disk and for such blocks, a commit succeeds, puts every block at its place with everything on the medium when it returns, and leaves the journal ready for the next
  one; nothing else outside the journal changes.
\<close>

theorem jbd2_commit_durable:
  assumes "ready j" "synced (jctx j)" "\<not> busy j" "open_for_writes j" "\<forall>item \<in> set items. item_ok j item"
    "unat (log_sequence j) + length items < 2 ^ 32"
  shows "\<exists>j'. jbd2_journal_commit now j items = (True, j') \<and> ready j' \<and> synced (jctx j') \<and> \<not> busy j' \<and> open_for_writes j' \<and>
    agree j (content (jctx j')) (content_after (content (jctx j)) (item_puts items))"
proof -
  obtain j1 es where c: "jbd2_journal_commit now j items = (True, j1)" "ready j1" "\<not> busy j1" "open_for_writes j1"
    "events (jctx j1) = events (jctx j) @ es" "medium (jctx j1) = medium (jctx j)"
    "agree j (content (jctx j1)) (content_after (content (jctx j)) (item_puts items))" "es \<noteq> [] \<longrightarrow> last es = Sync"
    by (rule jbd2_commit_disk [OF assms(1,3-6)])
  have "synced (jctx j1)" by (rule synced_after [OF c(6,5,8) assms(2)])
  with c show ?thesis by blast
qed

theorem jbd2_commit_durable_witness:
  "\<exists>j'. jbd2_journal_commit (\<lambda>_. 0) (ex_journal 1) ex_items = (True, j') \<and> ready j' \<and>
     agree (ex_journal 1) (content (jctx j')) (content_after (ex_disk 1) (item_puts ex_items))"
proof -
  have "\<exists>j'. jbd2_journal_commit (\<lambda>_. 0) (ex_journal 1) ex_items = (True, j') \<and> ready j' \<and> synced (jctx j') \<and> \<not> busy j' \<and>
      open_for_writes j' \<and> agree (ex_journal 1) (content (jctx j')) (content_after (content (jctx (ex_journal 1))) (item_puts ex_items))"
    by (rule jbd2_commit_durable [OF ex_ready(1,2) _ _ ex_items_ok]) (simp_all add: ex_items_def)
  then show ?thesis by auto
qed

text \<open>
  Opening a journal with an empty log for writing succeeds, whatever features are asked for, changes no block outside the journal, and leaves it ready to
  commit.
\<close>

lemma jbd2_begin_ready:
  assumes "idle j" "synced (jctx j)"
  shows "\<exists>j'. jbd2_journal_begin j wanted = (True, j') \<and> ready j' \<and> synced (jctx j') \<and> \<not> busy j' \<and> open_for_writes j' \<and>
    agree j (content (jctx j')) (content (jctx j))"
  by (rule begin_disk [OF assms, of wanted]) blast

text \<open>
  C34: With the checksums of version 3 a committed block that begins with the journal's magic number is lost when the power fails. A commit of one
  transaction succeeds; when the power fails after its commit block is on the medium, so that the log holds the whole transaction, recovery reports success
  and puts back exactly the blocks that do not begin with the magic number. The tag carries the checksum of the block
  itself, recovery compares it with that of the escaped copy in the log, and the two always differ.
\<close>

theorem jbd2_escaped_lost:
  assumes "ready j" "synced (jctx j)" "\<not> busy j" "open_for_writes j" "has_csum_v3 j" "\<forall>item \<in> set items. item_fits j item" "items \<noteq> []"
    "length items \<le> unat (jbd2_journal_capacity j)" "log_sequence j + 1 \<noteq> 0"
  shows "\<exists>j' d. jbd2_journal_commit now j items = (True, j') \<and> crash_during (jctx j) (jctx j') d \<and>
    holds_transaction j d (log_sequence j) items \<and>
    recovers_to j room d (content_after (content (jctx j)) (item_puts (filter (\<lambda>item. \<not> needs_escape (snd item)) items)))"
proof -
  let ?d = "content (jctx j)" and ?n = "log_sequence j"
  note r = readyD [OF assms(1)]
  obtain j' t rest where c: "jbd2_journal_commit now j items = (True, j')" "events (jctx j') = events (jctx j) @ commit_events j t items @ rest"
    by (rule commit_logs [OF assms(1,3,4,7,8)])
  define bl where "bl = log_blocks (length items) j ?n items"
  define d2 where "d2 = (content_after ?d (log_puts j 0 bl))(log_addr j (log_pos j (length bl)) := commit_block j ?n t (sum_blocks j 0xFFFFFFFF bl))"
  note states = transaction_states(2-5) [where j = j and d = ?d and n = ?n and items = items and now = t,
      OF r(1,3,4) assms(6) capacity_fits [OF r(1) assms(8)] assms(9), folded bl_def, folded d2_def]
  let ?log = "log_puts j 0 bl @ [Sync, Put (log_addr j (log_pos j (length bl))) (commit_block j ?n t (sum_blocks j 0xFFFFFFFF bl))]"
  have ev: "commit_events j t items @ rest = ?log @ Sync # rest" by (simp add: commit_events_def bl_def Let_def)
  have "content_after ?d ?log = d2" by (simp add: d2_def)
  then have "crash_during (jctx j) (jctx j') d2"
    using crash_after_sync [of ?d ?log rest] unfolding crash_during_synced [OF assms(2) c(2)] ev by metis
  moreover have "recovers_to j room d2 (content_after ?d (item_puts (kept j ?n items)))"
    using r(3) freshD [OF states(1) order_refl] states(2-4) by (intro recover_kept [OF r(1) _ _ assms(6)]) simp_all
  ultimately show ?thesis
    using c(1) states(4) unfolding kept_v3 [OF placedD(2) [OF r(1)] assms(5,6)] by blast
qed

text \<open>
  The example journal with a superblock of version 2, opened with checksums, and a transaction of two blocks of which the first begins with the magic number.
\<close>

theorem jbd2_escaped_lost_witness:
  "\<exists>j j' d. ready j \<and> has_csum_v3 j \<and> jbd2_journal_commit (\<lambda>_. 0) j ex_escaped = (True, j') \<and> crash_during (jctx j) (jctx j') d \<and>
     holds_transaction j d (log_sequence j) ex_escaped \<and>
     recovers_to j (\<lambda>_. True) d ((content (jctx j))(9 := replicate 1024 2))"
proof -
  obtain j where j: "ready j" "synced (jctx j)" "\<not> busy j" "open_for_writes j" "has_csum_v3 j" "log_sequence j = 5"
    "\<forall>item \<in> set ex_escaped. item_fits j item" "length ex_escaped \<le> unat (jbd2_journal_capacity j)"
    by (rule ex_v3)
  have "filter (\<lambda>item. \<not> needs_escape (snd item)) ex_escaped = [(9, replicate 1024 2)]"
    by (simp add: ex_escaped_def needs_escape_def be_simps) (simp add: load_be32_def)
  then have puts: "item_puts (filter (\<lambda>item. \<not> needs_escape (snd item)) ex_escaped) = [Put 9 (replicate 1024 2)]"
    by (simp add: item_puts_def)
  have "ex_escaped \<noteq> []" "log_sequence j + 1 \<noteq> 0" using j(6) by (simp_all add: ex_escaped_def)
  from jbd2_escaped_lost [OF j(1-5,7) this(1) j(8) this(2), of "\<lambda>_. 0" "\<lambda>_. True"] j(1,5)
  show ?thesis unfolding puts content_after_simps by blast
qed

end
