(* ===== verification/Jbd2_Revoke.thy ===== *)
theory Jbd2_Revoke
  imports Jbd2
begin

text \<open>
  The revoke table of recovery, an open-addressed hash table that doubles when half full: it is a map from block numbers to the latest revoking transaction, its
  probing loops end, and therefore recovery returns whatever the log holds.
\<close>

section \<open>Probing\<close>

lemma unat_and_mask:
  assumes "C = (2 :: u32) ^ k" "k \<le> 30"
  shows "unat (x AND (C - 1)) = unat x mod unat C" "unat C = 2 ^ k"
proof -
  have m: "C - 1 = mask k" by (simp add: assms(1) mask_eq_exp_minus_1)
  have "(2 :: nat) ^ k < 2 ^ 32" using assms(2) by (intro power_strict_increasing) simp_all
  then have "unat (of_nat (2 ^ k) :: u32) = 2 ^ k" unfolding unat_of_nat by (simp add: take_bit_eq_mod)
  then have "unat ((2 :: u32) ^ k) = 2 ^ k" by simp
  then show u: "unat C = 2 ^ k" by (simp add: assms(1))
  show "unat (x AND (C - 1)) = unat x mod unat C"
  proof -
    have "unat (take_bit k x) = take_bit k (unat x)" by (rule unsigned_take_bit_eq)
    then show ?thesis unfolding m u take_bit_eq_mask [symmetric] by (simp only: take_bit_eq_mod [of k "unat x"])
  qed
qed

lemma probe_step:
  assumes "C = (2 :: u32) ^ k" "k \<le> 30" "unat at < unat C"
  shows "unat ((at + 1) AND (C - 1)) = (unat at + 1) mod unat C"
proof -
  have "unat C = 2 ^ k" by (rule unat_and_mask(2) [OF assms(1,2)])
  then have "unat C \<le> 2 ^ 30" using power_increasing [OF assms(2), of "2 :: nat"] by simp
  then have "unat (at + 1) = unat at + 1" using assms(3) by (simp add: unat_word_ariths)
  then show ?thesis by (simp add: unat_and_mask(1) [OF assms(1,2)])
qed

lemma revoke_probe_Some:
  "revoke_probe n t (C - 1) at b = Some r \<Longrightarrow> C = 2 ^ k \<Longrightarrow> k \<le> 30 \<Longrightarrow> unat at < unat C \<Longrightarrow>
     unat r < unat C \<and> (r_block (t ! unat r) = 0 \<or> r_block (t ! unat r) = b)"
proof (induction n arbitrary: at)
  case (Suc n)
  have "unat ((at + 1) AND (C - 1)) < unat C"
    using Suc.prems(4) unfolding probe_step [OF Suc.prems(2-4)] by (intro mod_less_divisor) linarith
  then show ?case using Suc by (auto split: if_split_asm)
qed simp

lemma revoke_probe_stable:
  "revoke_probe n t w at b = Some r \<Longrightarrow> r_block (t ! a) = 0 \<Longrightarrow> unat r = a \<longrightarrow> r_block e = b \<Longrightarrow> a < length t \<Longrightarrow>
     revoke_probe n (t[a := e]) w at b = Some r"
proof (induction n arbitrary: at)
  case (Suc n)
  show ?case
  proof (cases "r_block (t ! unat at) \<noteq> 0 \<and> r_block (t ! unat at) \<noteq> b")
    case True
    then have "unat at \<noteq> a" using Suc.prems(2) by auto
    then show ?thesis using True Suc by simp
  next
    case False
    then have "r = at" using Suc.prems(1) by auto
    then show ?thesis using False Suc.prems by (cases "unat at = a") auto
  qed
qed simp

lemma revoke_probe_cong: "(\<And>i. r_block (t' ! i) = r_block (t ! i)) \<Longrightarrow> revoke_probe n t' w at b = revoke_probe n t w at b"
  by (induction n arbitrary: at) simp_all

lemma revoke_probe_None:
  "revoke_probe n t (C - 1) at b = None \<Longrightarrow> C = 2 ^ k \<Longrightarrow> k \<le> 30 \<Longrightarrow> unat at < unat C \<Longrightarrow> i < n \<Longrightarrow>
     r_block (t ! ((unat at + i) mod unat C)) \<noteq> 0"
proof (induction n arbitrary: at i)
  case (Suc n)
  show ?case
  proof (cases i)
    case 0
    then show ?thesis using Suc.prems by (auto split: if_split_asm)
  next
    case (Suc i')
    have less: "unat ((at + 1) AND (C - 1)) < unat C"
      using Suc.prems(4) unfolding probe_step [OF Suc.prems(2-4)] by (intro mod_less_divisor) linarith
    have "r_block (t ! ((unat ((at + 1) AND (C - 1)) + i') mod unat C)) \<noteq> 0"
      using Suc.prems Suc by (intro Suc.IH [OF _ Suc.prems(2,3) less]) (auto split: if_split_asm)
    then show ?thesis by (simp add: probe_step [OF Suc.prems(2-4)] Suc mod_add_left_eq)
  qed
qed simp

section \<open>Tables\<close>

definition taken :: "revoke_entry list \<Rightarrow> nat set" where
  "taken t = {i. i < length t \<and> r_block (t ! i) \<noteq> 0}"

definition table_ok :: "revoke_entry list \<Rightarrow> u32 \<Rightarrow> bool" where
  "table_ok t C \<longleftrightarrow> (\<exists>k. 8 \<le> k \<and> k \<le> 30 \<and> C = 2 ^ k) \<and> length t = unat C \<and>
     (\<forall>i \<in> taken t. \<exists>r. revoke_slot t C (r_block (t ! i)) = Some r \<and> unat r = i)"

lemma finite_taken [simp]: "finite (taken t)"
  by (simp add: taken_def)

lemma taken_update: "i < length t \<Longrightarrow> r_block e \<noteq> 0 \<Longrightarrow> taken (t[i := e]) = insert i (taken t)"
  by (auto simp: taken_def nth_list_update)

lemma revoke_slot_cases:
  assumes "table_ok t C" "card (taken t) < unat C"
  obtains r where "revoke_slot t C b = Some r" "unat r < length t" "r_block (t ! unat r) = 0 \<or> r_block (t ! unat r) = b"
proof -
  obtain k where k: "k \<le> 30" "C = 2 ^ k" and len: "length t = unat C" using assms(1) by (auto simp: table_ok_def)
  have pos: "0 < unat C" using unat_and_mask(2) [OF k(2,1)] by simp
  let ?at = "revoke_hash b AND (C - 1)"
  have at: "unat ?at < unat C" using pos by (simp add: unat_and_mask(1) [OF k(2,1)])
  have "\<exists>a < unat C. r_block (t ! a) = 0"
  proof (rule ccontr)
    assume "\<not> ?thesis"
    then have "taken t = {..<unat C}" using len by (auto simp: taken_def)
    then show False using assms(2) by simp
  qed
  then obtain a where a: "a < unat C" "r_block (t ! a) = 0" by blast
  have "revoke_slot t C b \<noteq> None"
  proof
    assume "revoke_slot t C b = None"
    then have none: "revoke_probe (unat C) t (C - 1) ?at b = None" by (simp add: revoke_slot_def Let_def)
    let ?i = "(a + unat C - unat ?at) mod unat C"
    have "(unat ?at + ?i) mod unat C = a"
    proof -
      have "(unat ?at + ?i) mod unat C = (unat ?at + (a + unat C - unat ?at)) mod unat C" by (rule mod_add_right_eq)
      also have "unat ?at + (a + unat C - unat ?at) = a + unat C" using at by linarith
      finally show ?thesis using a(1) by simp
    qed
    moreover have "?i < unat C" using pos by (rule mod_less_divisor)
    ultimately show False using revoke_probe_None [OF none k(2,1) at, of ?i] a(2) by metis
  qed
  then obtain r where r: "revoke_slot t C b = Some r" by blast
  then have "unat r < unat C \<and> (r_block (t ! unat r) = 0 \<or> r_block (t ! unat r) = b)"
    unfolding revoke_slot_def Let_def by (rule revoke_probe_Some [OF _ k(2,1) at])
  then show thesis using that r len by simp
qed

text \<open>
  Putting an entry for a new block into the empty slot that probing found.
\<close>

lemma table_ok_insert:
  assumes "table_ok t C" "revoke_slot t C (r_block e) = Some r" "unat r < length t" "r_block (t ! unat r) = 0" "r_block e \<noteq> 0"
  shows "table_ok (t[unat r := e]) C"
proof -
  have "\<exists>r'. revoke_slot (t[unat r := e]) C (r_block (t[unat r := e] ! i)) = Some r' \<and> unat r' = i" if "i \<in> taken (t[unat r := e])" for i
  proof (cases "i = unat r")
    case True
    have "revoke_slot (t[unat r := e]) C (r_block e) = Some r"
      using assms(2) unfolding revoke_slot_def Let_def by (rule revoke_probe_stable) (use assms in simp_all)
    then show ?thesis using True assms(3) by simp
  next
    case False
    then have i: "i \<in> taken t" using that assms(3,5) by (simp add: taken_update)
    then obtain r' where r': "revoke_slot t C (r_block (t ! i)) = Some r'" "unat r' = i" using assms(1) by (auto simp: table_ok_def)
    have "revoke_slot (t[unat r := e]) C (r_block (t ! i)) = Some r'"
      using r'(1) unfolding revoke_slot_def Let_def by (rule revoke_probe_stable) (use assms False r'(2) in simp_all)
    then show ?thesis using False r'(2) by auto
  qed
  then show ?thesis using assms(1) by (auto simp: table_ok_def)
qed

lemma table_ok_same_blocks:
  assumes "table_ok t C" "unat r < length t" "r_block e = r_block (t ! unat r)"
  shows "table_ok (t[unat r := e]) C" "taken (t[unat r := e]) = taken t"
proof -
  have b: "r_block (t[unat r := e] ! i) = r_block (t ! i)" for i using assms(2,3) by (cases "i = unat r") auto
  show tk: "taken (t[unat r := e]) = taken t" by (simp add: taken_def b)
  have "revoke_slot (t[unat r := e]) C x = revoke_slot t C x" for x
    unfolding revoke_slot_def Let_def by (rule revoke_probe_cong [OF b])
  then show "table_ok (t[unat r := e]) C" using assms(1) unfolding table_ok_def tk by (simp add: b)
qed

text \<open>
  The map a table stands for.
\<close>

definition table_map :: "revoke_entry list \<Rightarrow> u64 \<Rightarrow> u32 option" where
  "table_map t b = (if b = 0 then None else map_option r_sequence (find (\<lambda>e. r_block e = b) t))"

lemma table_unique:
  assumes "table_ok t C" "i < length t" "i' < length t" "r_block (t ! i) = r_block (t ! i')" "r_block (t ! i) \<noteq> 0"
  shows "i = i'"
proof -
  have "i \<in> taken t" "i' \<in> taken t" using assms by (simp_all add: taken_def)
  then show ?thesis using assms(1,4) unfolding table_ok_def by (metis option.inject)
qed

lemma table_map_at:
  assumes "table_ok t C" "i < length t" "r_block (t ! i) = b" "b \<noteq> 0"
  shows "table_map t b = Some (r_sequence (t ! i))"
proof -
  have "find (\<lambda>e. r_block e = b) t \<noteq> None" using nth_mem [OF assms(2)] assms(3) unfolding find_None_iff by blast
  then obtain e where e: "find (\<lambda>e. r_block e = b) t = Some e" by blast
  then obtain i' where i': "i' < length t" "r_block (t ! i') = b" "e = t ! i'" by (auto simp: find_Some_iff)
  then have "i' = i" using table_unique [OF assms(1) i'(1) assms(2)] assms(3,4) by simp
  then show ?thesis using e i'(3) assms(4) by (simp add: table_map_def)
qed

lemma table_map_Cons: "table_map (e # es) b = (if b = r_block e \<and> b \<noteq> 0 then Some (r_sequence e) else table_map es b)"
  by (auto simp: table_map_def)

lemma table_map_None: "table_map t b = None \<longleftrightarrow> b = 0 \<or> (\<forall>i < length t. r_block (t ! i) \<noteq> b)"
  by (auto simp: table_map_def find_None_iff in_set_conv_nth)

lemma table_map_update:
  assumes "table_ok t C" "table_ok (t[r := e]) C" "r < length t" "r_block (t ! r) = 0 \<or> r_block (t ! r) = r_block e" "r_block e \<noteq> 0"
  shows "table_map (t[r := e]) = (table_map t)(r_block e \<mapsto> r_sequence e)"
proof
  fix b
  show "table_map (t[r := e]) b = ((table_map t)(r_block e \<mapsto> r_sequence e)) b"
  proof (cases "b = r_block e")
    case True
    then show ?thesis using table_map_at [OF assms(2), of r b] assms(3,5) by simp
  next
    case False
    show ?thesis
    proof (cases "table_map t b")
      case None
      then have "table_map (t[r := e]) b = None" using False assms(3) unfolding table_map_None by (metis length_list_update nth_list_update)
      then show ?thesis using None False by simp
    next
      case (Some s)
      then obtain i where i: "i < length t" "r_block (t ! i) = b" "b \<noteq> 0" using table_map_None [of t b] by auto
      then have "i \<noteq> r" using assms(4) False by auto
      then have "table_map (t[r := e]) b = Some (r_sequence (t ! i))" using table_map_at [OF assms(2), of i b] i by simp
      then show ?thesis using table_map_at [OF assms(1) i] False by simp
    qed
  qed
qed

section \<open>Growing\<close>

lemma rehash_fresh:
  assumes "table_ok t C" "card (taken t) + length es < unat C" "distinct (map r_block (filter (\<lambda>e. r_block e \<noteq> 0) es))"
    "\<forall>e \<in> set es. r_block e \<noteq> 0 \<longrightarrow> table_map t (r_block e) = None"
  obtains t' where "rehash t C es = Some t'" "table_ok t' C"
    "card (taken t') = card (taken t) + length (filter (\<lambda>e. r_block e \<noteq> 0) es)"
    "\<forall>b. table_map t' b = (case table_map es b of None \<Rightarrow> table_map t b | Some s \<Rightarrow> Some s)"
  using assms
proof (induction es arbitrary: t thesis)
  case Nil
  show ?case by (rule Nil(1) [of t]) (use Nil in \<open>simp_all add: table_map_def\<close>)
next
  case (Cons e es)
  show ?case
  proof (cases "r_block e = 0")
    case True
    obtain t' where "rehash t C es = Some t'" "table_ok t' C" "card (taken t') = card (taken t) + length (filter (\<lambda>e. r_block e \<noteq> 0) es)"
      "\<forall>b. table_map t' b = (case table_map es b of None \<Rightarrow> table_map t b | Some s \<Rightarrow> Some s)"
      by (rule Cons.IH [of t]) (use Cons.prems True in auto)
    then show ?thesis using True by (intro Cons.prems(1) [of t']) (simp_all add: table_map_def)
  next
    case False
    obtain r where r: "revoke_slot t C (r_block e) = Some r" "unat r < length t" "r_block (t ! unat r) = 0 \<or> r_block (t ! unat r) = r_block e"
      using Cons.prems(2,3) by (auto intro: revoke_slot_cases [of t C "r_block e"])
    have z: "r_block (t ! unat r) = 0" using r(2,3) Cons.prems(5) False table_map_None [of t "r_block e"] by auto
    let ?t = "t[unat r := e]"
    have ok: "table_ok ?t C" by (rule table_ok_insert [OF Cons.prems(2) r(1,2) z False])
    have tk: "taken ?t = insert (unat r) (taken t)" "unat r \<notin> taken t" using taken_update [OF r(2) False] z by (simp_all add: taken_def)
    then have cd: "card (taken ?t) = card (taken t) + 1" by simp
    have tm: "table_map ?t = (table_map t)(r_block e \<mapsto> r_sequence e)"
      by (rule table_map_update [OF Cons.prems(2) ok r(2)]) (use z False in simp_all)
    have notin: "r_block e \<notin> r_block ` {x \<in> set es. r_block x \<noteq> 0}" using Cons.prems(4) False by simp
    have new: "\<forall>x \<in> set es. r_block x \<noteq> 0 \<longrightarrow> r_block x \<noteq> r_block e"
    proof (intro ballI impI notI)
      fix x assume "x \<in> set es" "r_block x \<noteq> 0" "r_block x = r_block e"
      then have "r_block x \<in> r_block ` {x \<in> set es. r_block x \<noteq> 0}" by blast
      with notin \<open>r_block x = r_block e\<close> show False by simp
    qed
    obtain t' where t': "rehash ?t C es = Some t'" "table_ok t' C" "card (taken t') = card (taken ?t) + length (filter (\<lambda>e. r_block e \<noteq> 0) es)"
      "\<forall>b. table_map t' b = (case table_map es b of None \<Rightarrow> table_map ?t b | Some s \<Rightarrow> Some s)"
      by (rule Cons.IH [of ?t]) (use Cons.prems ok cd tm new False in auto)
    show ?thesis
    proof (rule Cons.prems(1) [of t'])
      show "rehash t C (e # es) = Some t'" using False r(1) t'(1) by simp
      show "card (taken t') = card (taken t) + length (filter (\<lambda>e. r_block e \<noteq> 0) (e # es))" using t'(3) cd False by simp
      have "table_map es (r_block e) = None" using new by (auto simp: table_map_def find_None_iff)
      then show "\<forall>b. table_map t' b = (case table_map (e # es) b of None \<Rightarrow> table_map t b | Some s \<Rightarrow> Some s)"
        unfolding tm table_map_Cons using False t'(4) [unfolded tm] by (simp split: option.split)
    qed (rule t'(2))
  qed
qed

text \<open>
  The table of a journal: absent, or at most half full.
\<close>

definition revoke_ok :: "'c jbd2_journal \<Rightarrow> bool" where
  "revoke_ok j \<longleftrightarrow>
     (if revoke_capacity j = 0 then revokes j = [] \<and> revoke_count j = 0
      else table_ok (revokes j) (revoke_capacity j) \<and> card (taken (revokes j)) = unat (revoke_count j) \<and>
        2 * unat (revoke_count j) \<le> unat (revoke_capacity j))"

abbreviation revoked_at :: "'c jbd2_journal \<Rightarrow> u64 \<Rightarrow> u32 option" where
  "revoked_at j \<equiv> table_map (revokes j)"

lemma card_taken: "card (taken t) = length (filter (\<lambda>e. r_block e \<noteq> 0) t)"
proof (induction t rule: rev_induct)
  case (snoc e t)
  have "taken (t @ [e]) = (if r_block e = 0 then taken t else insert (length t) (taken t))"
    by (auto simp: taken_def nth_append less_Suc_eq)
  moreover have "length t \<notin> taken t" by (simp add: taken_def)
  ultimately show ?case using snoc by simp
qed (simp add: taken_def)

lemma table_ok_empty: "C = 2 ^ k \<Longrightarrow> 8 \<le> k \<Longrightarrow> k \<le> 30 \<Longrightarrow> table_ok (replicate (unat C) empty_entry) C" "taken (replicate n empty_entry) = {}"
  "table_map (replicate n empty_entry) b = None"
proof -
  show t: "taken (replicate n empty_entry) = {}" for n by (auto simp: taken_def empty_entry_def)
  show "table_map (replicate n empty_entry) b = None" by (auto simp: table_map_None empty_entry_def)
  assume "C = 2 ^ k" "8 \<le> k" "k \<le> 30"
  then show "table_ok (replicate (unat C) empty_entry) C" by (auto simp: table_ok_def t)
qed

lemma table_distinct: "table_ok t C \<Longrightarrow> distinct (map r_block (filter (\<lambda>e. r_block e \<noteq> 0) t))"
proof -
  assume ok: "table_ok t C"
  have "distinct (map r_block (filter (\<lambda>e. r_block e \<noteq> 0) xs))"
    if "\<And>i i'. i < length xs \<Longrightarrow> i' < length xs \<Longrightarrow> r_block (xs ! i) = r_block (xs ! i') \<Longrightarrow> r_block (xs ! i) \<noteq> 0 \<Longrightarrow> i = i'" for xs
    using that
  proof (induction xs)
    case (Cons x xs)
    have "distinct (map r_block (filter (\<lambda>e. r_block e \<noteq> 0) xs))"
      by (rule Cons.IH) (use Cons.prems [of "Suc _" "Suc _"] in auto)
    moreover have "r_block x \<notin> r_block ` {e \<in> set xs. r_block e \<noteq> 0}" if "r_block x \<noteq> 0"
    proof
      assume "r_block x \<in> r_block ` {e \<in> set xs. r_block e \<noteq> 0}"
      then obtain i where "i < length xs" "r_block (xs ! i) = r_block x" by (auto simp: in_set_conv_nth)
      then show False using Cons.prems [of 0 "Suc i"] that by simp
    qed
    ultimately show ?case by simp
  qed simp
  then show ?thesis using table_unique [OF ok] by blast
qed

text \<open>
  The allocator grants tables of up to \<open>2 ^ 30\<close> entries.
\<close>

definition room_bounded :: "(u32 \<Rightarrow> bool) \<Rightarrow> bool" where
  "room_bounded room \<longleftrightarrow> (\<forall>C. room C \<longrightarrow> unat C \<le> 2 ^ 30)"

lemma table_capacity: "table_ok t C \<Longrightarrow> 256 \<le> unat C" "table_ok t C \<Longrightarrow> unat C \<le> 2 ^ 30"
proof -
  assume "table_ok t C"
  then obtain k where k: "8 \<le> k" "k \<le> 30" "C = 2 ^ k" by (auto simp: table_ok_def)
  note u = unat_and_mask(2) [OF k(3,2)]
  show "256 \<le> unat C" using u power_increasing [OF k(1), of "2 :: nat"] by simp
  show "unat C \<le> 2 ^ 30" using u power_increasing [OF k(2), of "2 :: nat"] by simp
qed

lemma revoke_count_small:
  assumes "revoke_ok j"
  shows "unat ((revoke_count j + 1) * 2) = 2 * (unat (revoke_count j) + 1)"
proof -
  have "unat (revoke_count j) \<le> 2 ^ 30"
    using assms table_capacity(2) [of "revokes j" "revoke_capacity j"] by (auto simp: revoke_ok_def split: if_split_asm)
  then show ?thesis by (simp add: unat_word_ariths)
qed

lemma grown_capacity:
  assumes "revoke_ok j" "unat C \<le> 2 ^ 30" "C = (if revoke_capacity j \<noteq> 0 then revoke_capacity j * 2 else 256)"
  obtains k where "8 \<le> k" "k \<le> 30" "C = 2 ^ k" "unat C = (if revoke_capacity j \<noteq> 0 then 2 * unat (revoke_capacity j) else 256)"
proof (cases "revoke_capacity j = 0")
  case True
  then show thesis using that [of 8] assms(3) by simp
next
  case False
  then obtain k where k: "8 \<le> k" "k \<le> 30" "revoke_capacity j = 2 ^ k" using assms(1) by (auto simp: revoke_ok_def table_ok_def)
  have C: "C = 2 ^ Suc k" using assms(3) False k(3) by simp
  have "k \<noteq> 30"
  proof
    assume "k = 30"
    then have "unat C = 2 ^ 31" using C by simp
    then show False using assms(2) by simp
  qed
  then have "Suc k \<le> 30" using k(2) by simp
  then show thesis using that [of "Suc k"] k C False unat_and_mask(2) [OF C] unat_and_mask(2) [OF k(3,2)] by simp
qed

lemma revoke_grow_ok:
  assumes "revoke_ok j" "room_bounded room" "revoke_grow room j = (st, j')"
  shows "st \<noteq> J_hangs \<and> revoke_ok j' \<and> revoked_at j' = revoked_at j \<and>
    (st = J_ok \<longrightarrow> table_ok (revokes j') (revoke_capacity j') \<and> 2 * (unat (revoke_count j') + 1) \<le> unat (revoke_capacity j'))"
proof (cases "(revoke_count j + 1) * 2 > revoke_capacity j")
  case False
  then have le: "2 * (unat (revoke_count j) + 1) \<le> unat (revoke_capacity j)" by (simp only: word_less_nat_alt not_less revoke_count_small [OF assms(1)])
  then have "revoke_capacity j \<noteq> 0" by auto
  then show ?thesis using False le assms(1,3) by (auto simp: revoke_grow_def revoke_ok_def)
next
  case True
  define C where "C = (if revoke_capacity j \<noteq> 0 then revoke_capacity j * 2 else 256)"
  show ?thesis
  proof (cases "room C")
    case False
    then show ?thesis using True assms(1,3) by (auto simp: revoke_grow_def C_def Let_def)
  next
    case room: True
    then have b: "unat C \<le> 2 ^ 30" using assms(2) by (simp add: room_bounded_def)
    obtain k where k: "8 \<le> k" "k \<le> 30" "C = 2 ^ k" "unat C = (if revoke_capacity j \<noteq> 0 then 2 * unat (revoke_capacity j) else 256)"
      by (rule grown_capacity [OF assms(1) b C_def])
    let ?e = "replicate (unat C) empty_entry"
    have old: "table_ok (revokes j) (revoke_capacity j) \<and> length (revokes j) = unat (revoke_capacity j) \<or> revoke_capacity j = 0 \<and> revokes j = []"
      using assms(1) by (auto simp: revoke_ok_def table_ok_def split: if_split_asm)
    then have tk: "take (unat (revoke_capacity j)) (revokes j) = revokes j" by auto
    have dist: "distinct (map r_block (filter (\<lambda>e. r_block e \<noteq> 0) (revokes j)))" using old table_distinct by auto
    have len: "card (taken ?e) + length (revokes j) < unat C"
      using old k(4) table_capacity(1) [of "revokes j" "revoke_capacity j"] by (auto simp: table_ok_empty(2))
    obtain t where t: "rehash ?e C (revokes j) = Some t" "table_ok t C"
      "card (taken t) = card (taken ?e) + length (filter (\<lambda>e. r_block e \<noteq> 0) (revokes j))"
      "\<forall>x. table_map t x = (case table_map (revokes j) x of None \<Rightarrow> table_map ?e x | Some s \<Rightarrow> Some s)"
      by (rule rehash_fresh [OF table_ok_empty(1) [OF k(3,1,2)] len dist]) (simp add: table_ok_empty)
    have j': "st = J_ok" "j' = j\<lparr>revokes := t, revoke_capacity := C\<rparr>"
      using assms(3) True room t(1) tk unfolding revoke_grow_def C_def [symmetric] by (simp_all add: Let_def)
    have "table_map t = revoked_at j" using t(4) by (auto simp: table_ok_empty fun_eq_iff split: option.split)
    moreover have cnt: "card (taken t) = unat (revoke_count j)"
      using t(3) old assms(1) by (auto simp: table_ok_empty(2) card_taken [symmetric] revoke_ok_def taken_def empty_entry_def split: if_split_asm)
    moreover have "2 * (unat (revoke_count j) + 1) \<le> unat C"
      using assms(1) k(4) table_capacity(1) [of "revokes j" "revoke_capacity j"] by (auto simp: revoke_ok_def split: if_split_asm)
    moreover have "C \<noteq> 0" using table_capacity(1) [OF t(2)] by auto
    ultimately show ?thesis using t(2) by (auto simp: j' revoke_ok_def)
  qed
qed

text \<open>
  Remembering a revocation keeps the later of two transactions, in the order that wraps around.
\<close>

definition later :: "u32 option \<Rightarrow> u32 \<Rightarrow> u32" where
  "later old s = (case old of None \<Rightarrow> s | Some r \<Rightarrow> if sint (r - s) < 0 then s else r)"

lemma revoke_remember_ok:
  assumes "revoke_ok j" "room_bounded room" "revoke_remember room j b s = (st, j')"
  shows "st \<noteq> J_hangs \<and> revoke_ok j' \<and>
    revoked_at j' = (if st = J_ok \<and> b \<noteq> 0 then (revoked_at j)(b \<mapsto> later (revoked_at j b) s) else revoked_at j)"
proof (cases "b = 0")
  case True
  then show ?thesis using assms by (simp add: revoke_remember_def)
next
  case False
  obtain st1 j1 where g: "revoke_grow room j = (st1, j1)" by fastforce
  note ok = revoke_grow_ok [OF assms(1,2) g]
  show ?thesis
  proof (cases "st1 = J_ok")
    case False
    then have "st = st1" "j' = j1" using assms(3) \<open>b \<noteq> 0\<close> g by (cases st1; simp add: revoke_remember_def)+
    then show ?thesis using ok False by simp
  next
    case True
    then have t: "table_ok (revokes j1) (revoke_capacity j1)" "2 * (unat (revoke_count j1) + 1) \<le> unat (revoke_capacity j1)" using ok by simp_all
    have nz: "revoke_capacity j1 \<noteq> 0" using t(2) by auto
    have cnt: "card (taken (revokes j1)) = unat (revoke_count j1)" using ok nz by (simp add: revoke_ok_def)
    have small: "card (taken (revokes j1)) < unat (revoke_capacity j1)" using cnt t(2) by simp
    obtain r where r: "revoke_slot (revokes j1) (revoke_capacity j1) b = Some r" "unat r < length (revokes j1)"
      "r_block (revokes j1 ! unat r) = 0 \<or> r_block (revokes j1 ! unat r) = b"
      by (rule revoke_slot_cases [OF t(1) small])
    let ?e = "revokes j1 ! unat r"
    have run: "revoke_remember room j b s =
        (if r_block ?e = 0 then (J_ok, j1\<lparr>revokes := (revokes j1)[unat r := \<lparr>r_block = b, r_sequence = s\<rparr>], revoke_count := revoke_count j1 + 1\<rparr>)
         else if sint (r_sequence ?e - s) < 0 then (J_ok, j1\<lparr>revokes := (revokes j1)[unat r := ?e\<lparr>r_sequence := s\<rparr>]\<rparr>) else (J_ok, j1))"
      using False g True r(1) by (simp add: revoke_remember_def Let_def)
    show ?thesis
    proof (cases "r_block ?e = 0")
      case z: True
      let ?n = "\<lparr>r_block = b, r_sequence = s\<rparr>"
      let ?t = "(revokes j1)[unat r := ?n]"
      have ok2: "table_ok ?t (revoke_capacity j1)" by (rule table_ok_insert [OF t(1) _ r(2) z]) (use r(1) False in simp_all)
      have tk: "taken ?t = insert (unat r) (taken (revokes j1))" "unat r \<notin> taken (revokes j1)"
        using taken_update [OF r(2), of ?n] False z by (simp_all add: taken_def)
      have up: "unat (revoke_count j1 + 1) = unat (revoke_count j1) + 1"
        using t(2) table_capacity(2) [OF t(1)] by (simp add: unat_word_ariths)
      have tm: "table_map ?t = (revoked_at j1)(b \<mapsto> s)"
        using table_map_update [OF t(1) ok2 r(2)] z False by simp
      have "revoked_at j1 b = None"
      proof (rule ccontr)
        assume "revoked_at j1 b \<noteq> None"
        then obtain i where i: "i < length (revokes j1)" "r_block (revokes j1 ! i) = b" using table_map_None [of "revokes j1" b] by auto
        then have "i \<in> taken (revokes j1)" using False by (simp add: taken_def)
        then have "unat r = i" using t(1) r(1) i(2) by (auto simp: table_ok_def)
        then show False using i(2) z False by simp
      qed
      then have "later (revoked_at j b) s = s" using ok by (simp add: later_def)
      then show ?thesis
        using run z assms(3) ok2 tk up cnt t(2) nz tm ok False by (auto simp: revoke_ok_def)
    next
      case nz2: False
      then have eb: "r_block ?e = b" using r(3) by simp
      have at: "revoked_at j1 b = Some (r_sequence ?e)" by (rule table_map_at [OF t(1) r(2) eb False])
      show ?thesis
      proof (cases "sint (r_sequence ?e - s) < 0")
        case True
        let ?n = "?e\<lparr>r_sequence := s\<rparr>"
        have same: "table_ok ((revokes j1)[unat r := ?n]) (revoke_capacity j1)" "taken ((revokes j1)[unat r := ?n]) = taken (revokes j1)"
          by (rule table_ok_same_blocks [OF t(1) r(2)], simp)+
        have "table_map ((revokes j1)[unat r := ?n]) = (revoked_at j1)(b \<mapsto> s)"
          using table_map_update [OF t(1) same(1) r(2)] eb False by simp
        then show ?thesis
          using run nz2 True assms(3) same cnt t(2) nz ok False at by (auto simp: revoke_ok_def later_def)
      next
        case keep: False
        have "(revoked_at j1)(b \<mapsto> r_sequence ?e) = revoked_at j1" using at by (simp add: fun_upd_idem)
        then show ?thesis using run nz2 keep assms(3) ok at False by (simp add: later_def)
      qed
    qed
  qed
qed

lemma revoked_correct:
  assumes "revoke_ok j"
  shows "revoked j b s = Some (case revoked_at j b of None \<Rightarrow> False | Some r \<Rightarrow> 0 \<le> sint (r - s))"
proof (cases "revoke_capacity j = 0 \<or> b = 0")
  case True
  then have "revoked_at j b = None" using assms by (auto simp: revoke_ok_def table_map_def split: if_split_asm)
  then show ?thesis using True by (auto simp: revoked_def)
next
  case False
  then have t: "table_ok (revokes j) (revoke_capacity j)" "card (taken (revokes j)) = unat (revoke_count j)"
    "2 * unat (revoke_count j) \<le> unat (revoke_capacity j)" using assms by (auto simp: revoke_ok_def)
  have small: "card (taken (revokes j)) < unat (revoke_capacity j)" using t table_capacity(1) [OF t(1)] by linarith
  obtain r where r: "revoke_slot (revokes j) (revoke_capacity j) b = Some r" "unat r < length (revokes j)"
    "r_block (revokes j ! unat r) = 0 \<or> r_block (revokes j ! unat r) = b"
    by (rule revoke_slot_cases [OF t(1) small])
  show ?thesis
  proof (cases "r_block (revokes j ! unat r) = b")
    case True
    then have "revoked_at j b = Some (r_sequence (revokes j ! unat r))" using table_map_at [OF t(1) r(2)] False by simp
    then show ?thesis using False r(1) True by (simp add: revoked_def Let_def)
  next
    case other: False
    have "revoked_at j b = None"
    proof (rule ccontr)
      assume "revoked_at j b \<noteq> None"
      then obtain i where i: "i < length (revokes j)" "r_block (revokes j ! i) = b" using table_map_None [of "revokes j" b] by auto
      then have "i \<in> taken (revokes j)" using False by (simp add: taken_def)
      then have "unat r = i" using t(1) r(1) i(2) by (auto simp: table_ok_def)
      then show False using i(2) other by simp
    qed
    then show ?thesis using False r(1) other by (simp add: revoked_def Let_def)
  qed
qed

text \<open>
  A run of revocations, as the revoke pass meets them: the blocks of one record share its sequence number.
\<close>

fun remember_records :: "(u32 \<Rightarrow> bool) \<Rightarrow> 'c jbd2_journal \<Rightarrow> (u64 \<times> u32) list \<Rightarrow> jbd2_status \<times> 'c jbd2_journal" where
  "remember_records room j [] = (J_ok, j)"
| "remember_records room j ((b, s) # rs) =
     (case revoke_remember room j b s of
        (J_ok, j1) \<Rightarrow> remember_records room j1 rs
      | (st, j1) \<Rightarrow> (st, j1))"

lemma remember_all_records: "remember_all room j ts s = remember_records room j (map (\<lambda>t. (t, s)) ts)"
  by (induction ts arbitrary: j) (auto split: prod.split jbd2_status.split)

lemma revoke_ok_clear: "revoke_ok (revokes_clear j)" "revoked_at (revokes_clear j) b = None"
  by (simp_all add: revokes_clear_def revoke_ok_def table_map_def)

lemma remember_records_ok:
  "revoke_ok j \<Longrightarrow> room_bounded room \<Longrightarrow> remember_records room j rs = (st, j') \<Longrightarrow> st \<noteq> J_hangs \<and> revoke_ok j'"
proof (induction rs arbitrary: j)
  case Nil
  then show ?case by simp
next
  case (Cons r rs)
  obtain b s where r: "r = (b, s)" by (cases r)
  obtain st1 j1 where one: "revoke_remember room j b s = (st1, j1)" by fastforce
  note ok = revoke_remember_ok [OF Cons.prems(1,2) one]
  show ?case
    using Cons.prems(3) one ok Cons.IH [of j1] Cons.prems(2) by (cases st1) (auto simp: r)
qed

lemma collect_revokes_ok:
  "revoke_ok j \<Longrightarrow> room_bounded room \<Longrightarrow> collect_revokes room j b s = (st, j') \<Longrightarrow> st \<noteq> J_hangs \<and> revoke_ok j'"
  using remember_records_ok by (fastforce simp: collect_revokes_def Let_def remember_all_records split: if_split_asm)

section \<open>The order of transactions\<close>

lemma sint_diff_near:
  fixes base :: u32
  assumes "i < 2 ^ 31" "k < 2 ^ 31"
  shows "sint ((base + of_nat i) - (base + of_nat k)) = int i - int k"
proof -
  have "(base + of_nat i) - (base + of_nat k) = (word_of_int (int i - int k) :: u32)" by simp
  moreover have "signed_take_bit 31 (int i - int k) = int i - int k" by (rule signed_take_bit_int_eq_self) (use assms in simp_all)
  then have "sint (word_of_int (int i - int k) :: u32) = int i - int k" unfolding sint_sbintrunc' by simp
  ultimately show ?thesis by (simp only:)
qed

lemma later_near:
  assumes "i < 2 ^ 31" "k < 2 ^ 31"
  shows "later (Some (base + of_nat i)) (base + of_nat k) = base + of_nat (max i k)"
  using sint_diff_near [OF assms, of base] by (auto simp: later_def max_def)

lemma remember_near:
  assumes "revoke_ok j" "room_bounded room" "remember_records room j (map (\<lambda>(b, k). (b, base + of_nat k)) recs) = (J_ok, j')"
    and "\<forall>(b, k) \<in> set recs. k < 2 ^ 31" "revoked_at j block = map_option (\<lambda>k. base + of_nat k) old"
    and "\<forall>i. old = Some i \<longrightarrow> i < 2 ^ 31" "block \<noteq> 0" "q < 2 ^ 31"
  shows "revoked j' block (base + of_nat q) = Some ((\<exists>i. old = Some i \<and> q \<le> i) \<or> (\<exists>k. (block, k) \<in> set recs \<and> q \<le> k))"
  using assms
proof (induction recs arbitrary: j old)
  case Nil
  then show ?case using sint_diff_near [OF _ Nil.prems(8), of _ base] by (cases old) (auto simp: revoked_correct)
next
  case (Cons r recs)
  obtain b k where r: "r = (b, k)" by (cases r)
  obtain st1 j1 where one: "revoke_remember room j b (base + of_nat k) = (st1, j1)" by fastforce
  note ok = revoke_remember_ok [OF Cons.prems(1,2) one]
  have st1: "st1 = J_ok" and rest: "remember_records room j1 (map (\<lambda>(b, k). (b, base + of_nat k)) recs) = (J_ok, j')"
    using Cons.prems(3) one by (cases st1; simp add: r)+
  have k: "k < 2 ^ 31" using Cons.prems(4) r by simp
  define new where "new = (if b = block then Some (case old of None \<Rightarrow> k | Some i \<Rightarrow> max i k) else old)"
  have at: "revoked_at j1 block = map_option (\<lambda>k. base + of_nat k) new"
    using ok st1 Cons.prems(5,6,7) later_near [OF _ k, of _ base] by (cases old) (auto simp: new_def later_def)
  have "revoked j' block (base + of_nat q) = Some ((\<exists>i. new = Some i \<and> q \<le> i) \<or> (\<exists>k. (block, k) \<in> set recs \<and> q \<le> k))"
  proof (rule Cons.IH [OF _ Cons.prems(2) rest _ at _ Cons.prems(7,8)])
    show "revoke_ok j1" using ok by simp
    show "\<forall>(b, k) \<in> set recs. k < 2 ^ 31" using Cons.prems(4) by simp
    show "\<forall>i. new = Some i \<longrightarrow> i < 2 ^ 31" using k Cons.prems(6) by (cases old) (auto simp: new_def)
  qed
  moreover have "((\<exists>i. new = Some i \<and> q \<le> i) \<or> (\<exists>k. (block, k) \<in> set recs \<and> q \<le> k)) =
      ((\<exists>i. old = Some i \<and> q \<le> i) \<or> (\<exists>k. (block, k) \<in> set (r # recs) \<and> q \<le> k))"
    by (cases old) (auto simp: new_def r le_max_iff_disj)
  ultimately show ?case by simp
qed

section \<open>Recovery returns\<close>

lemma device_write_revokes: "revoke_ok (snd (device_write j a b)) = revoke_ok j"
  by (simp add: device_write_def revoke_ok_def split: prod.split)

lemma device_flush_revokes: "revoke_ok (snd (device_flush j)) = revoke_ok j"
  by (simp add: device_flush_def revoke_ok_def split: prod.split option.split)

lemma replay_tag_ok:
  assumes "revoke_ok j" "replay_tag j pass t position sequence = (st, j')"
  shows "st \<noteq> J_hangs \<and> revoke_ok j'"
proof -
  have "revoke_ok (snd (replay_block j t position sequence))"
    using assms(1) by (simp add: replay_block_def device_write_revokes Let_def split: option.split)
  then show ?thesis
    using assms by (auto simp: replay_tag_def revoked_correct split: if_split_asm prod.split_asm option.split_asm bool.split_asm)
qed

lemma walk_tags_ok:
  "revoke_ok j \<Longrightarrow> walk_tags j pass sequence ts position checksum = (st, j', r) \<Longrightarrow> st \<noteq> J_hangs \<and> revoke_ok j'"
proof (induction ts arbitrary: j position checksum)
  case Nil
  then show ?case by simp
next
  case (Cons t ts)
  obtain st1 j1 where one: "replay_tag j pass t position sequence = (st1, j1)" by fastforce
  note ok = replay_tag_ok [OF Cons.prems(1) one]
  show ?case using Cons.prems one ok Cons.IH [of j1] by (cases st1) (auto split: option.split_asm)
qed

lemma walk_loop_ok:
  "revoke_ok j \<Longrightarrow> room_bounded room \<Longrightarrow> walk_loop guard room j pass stop position sequence checksum = (st, j', r) \<Longrightarrow>
    st \<noteq> J_hangs \<and> revoke_ok j'"
proof (induction guard arbitrary: j position sequence checksum)
  case 0
  then show ?case by (simp add: walk_loop.simps)
next
  case (Suc guard)
  note IH = Suc.IH [OF _ Suc.prems(2)]
  show ?case
  proof (cases "log_read j position")
    case None
    then show ?thesis using Suc.prems by (auto simp: walk_loop.simps split: if_split_asm)
  next
    case (Some b)
    obtain st1 j1 where rev: "(if pass = PASS_REVOKE then collect_revokes room j b sequence else (J_ok, j)) = (st1, j1)" by fastforce
    have ok1: "st1 \<noteq> J_hangs \<and> revoke_ok j1"
      using rev Suc.prems(1) collect_revokes_ok [OF Suc.prems(1,2)] by (auto split: if_split_asm)
    define sum where "sum = (if \<not> has_csum j \<and> compat j AND JBD2_COMPAT_CHECKSUM \<noteq> 0 \<and> pass = PASS_SCAN then crc32_be_spec checksum b else checksum)"
    obtain st2 j2 p2 c2 where tags: "walk_tags j pass sequence (descriptor_tags j b JBD2_HEADER_BYTES) (log_step j position) sum = (st2, j2, p2, c2)"
      by (metis prod_cases4)
    note ok2 = walk_tags_ok [OF Suc.prems(1) tags]
    show ?thesis
      using Suc.prems(1,3) Some rev ok1 tags ok2 IH [of j] IH [of j1] IH [of j2]
      by (cases st1; cases st2; auto simp: walk_loop.simps Let_def sum_def split: if_split_asm)
  qed
qed

lemma walk_log_ok:
  "revoke_ok j \<Longrightarrow> room_bounded room \<Longrightarrow> walk_log room j pass stop = (st, j', r) \<Longrightarrow> st \<noteq> J_hangs \<and> revoke_ok j'"
  using walk_loop_ok [of j room] by (auto simp: walk_log_def split: prod.split_asm)

lemma replay_log_ok:
  assumes "revoke_ok j" "room_bounded room"
  shows "fst (replay_log room j stop) \<noteq> J_hangs"
proof -
  obtain st1 j1 r1 where one: "walk_log room j PASS_REVOKE stop = (st1, j1, r1)" by (metis prod_cases3)
  obtain st2 j2 r2 where two: "walk_log room j1 PASS_REPLAY stop = (st2, j2, r2)" by (metis prod_cases3)
  note ok1 = walk_log_ok [OF assms one]
  have ok2: "st2 \<noteq> J_hangs" using walk_log_ok [OF _ assms(2) two] ok1 by simp
  show ?thesis using one two ok1 ok2 by (cases st1; cases st2) (auto simp: replay_log_def split: prod.split)
qed

lemma retire_log_ok: "fst (retire_log j stop) \<noteq> J_hangs"
  by (auto simp: retire_log_def split: prod.split bool.split)

lemma check_fast_commit_revokes: "revoke_ok (check_fast_commit j s) = revoke_ok j"
  by (simp add: check_fast_commit_def revoke_ok_def split: option.split)

section \<open>Properties\<close>

text \<open>
  C14: the table of revoked blocks is exact. After any run of revocations that succeeds, starting from the empty table and for any
  pattern of hash collisions and table growth, replay skips a block of transaction q exactly when some record of transaction q or a
  later one revokes it, where transactions are compared in the order that wraps around 2 ^ 32.\<close>

theorem jbd2_revoke_map:
  assumes "room_bounded room"
    and "remember_records room (revokes_clear j) (map (\<lambda>(b, k). (b, base + of_nat k)) recs) = (J_ok, j')"
    and "\<forall>(b, k) \<in> set recs. k < 2 ^ 31" "block \<noteq> 0" "q < 2 ^ 31"
  shows "revoked j' block (base + of_nat q) = Some (\<exists>k. (block, k) \<in> set recs \<and> q \<le> k)"
  using remember_near [OF revoke_ok_clear(1) assms(1,2,3) _ _ assms(4,5), of None] by (simp add: revoke_ok_clear(2))

definition ex_revoker :: "unit jbd2_journal" where
  "ex_revoker = blank_journal \<lparr>read_op = \<lambda>_ _. None, write_op = \<lambda>c _ _. (False, c), map_op = \<lambda>_ _. None, flush_op = None, write_run_op = None\<rparr> () 1024"

definition ex_records :: "(u64 \<times> nat) list" where
  "ex_records = [(7, 2), (263, 0), (7, 1)]"

lemma ex_records_run: "fst (remember_records (\<lambda>c. c \<le> 4096) (revokes_clear ex_revoker) (map (\<lambda>(b, k). (b, 0xFFFFFFFF + of_nat k)) ex_records)) = J_ok"
  by code_simp

theorem jbd2_revoke_map_witness:
  "revoked (snd (remember_records (\<lambda>c. c \<le> 4096) (revokes_clear ex_revoker) (map (\<lambda>(b, k). (b, 0xFFFFFFFF + of_nat k)) ex_records)))
     7 (0xFFFFFFFF + of_nat 2) = Some True"
proof -
  let ?r = "remember_records (\<lambda>c. c \<le> 4096) (revokes_clear ex_revoker) (map (\<lambda>(b, k). (b, 0xFFFFFFFF + of_nat k)) ex_records)"
  have b: "room_bounded (\<lambda>c. c \<le> 4096)" by (simp add: room_bounded_def word_le_nat_alt)
  have "?r = (J_ok, snd ?r)" using ex_records_run by (metis prod.collapse)
  from jbd2_revoke_map [OF b this, of 7 2] have "revoked (snd ?r) 7 (0xFFFFFFFF + of_nat 2) = Some (\<exists>k. (7, k) \<in> set ex_records \<and> 2 \<le> k)"
    by (auto simp: ex_records_def)
  moreover have "\<exists>k. (7, k) \<in> set ex_records \<and> 2 \<le> k" by (rule exI [of _ 2]) (simp add: ex_records_def)
  ultimately show ?thesis by (simp only:)
qed

text \<open>
  C15: recovery returns. Whatever the log and the device hold, even a corrupted or hostile journal, and whichever reads and writes
  fail (a read answers from the state of the device and does not change it; writes and flushes may do anything to it), the three passes over the log end: the probes of the table of revoked blocks always find a slot, through every doubling of the
  table, so no loop of recovery runs forever.\<close>

theorem jbd2_recover_returns:
  assumes "room_bounded room"
  shows "fst (jbd2_journal_recover room j) \<in> {J_ok, J_failed}"
proof -
  obtain st j1 stop where scan: "walk_log room (revokes_clear (j\<lparr>busy := True\<rparr>)) PASS_SCAN (log_sequence j) = (st, j1, stop)"
    by (metis prod_cases3)
  note ok = walk_log_ok [OF revoke_ok_clear(1) assms scan]
  have replay: "fst (replay_log room (check_fast_commit j1 stop) stop) \<noteq> J_hangs"
    by (rule replay_log_ok) (use ok assms in \<open>simp_all add: check_fast_commit_revokes\<close>)
  obtain st3 j3 where third: "(if st = J_ok \<and> stop \<noteq> log_sequence (check_fast_commit j1 stop)
      then replay_log room (check_fast_commit j1 stop) stop else (st, if st = J_ok then check_fast_commit j1 stop else j1)) = (st3, j3)" by fastforce
  have st3: "st3 \<noteq> J_hangs" using third ok replay by (auto split: if_split_asm)
  obtain st4 j4 where fourth: "(if st3 = J_ok then retire_log j3 stop else (st3, j3)) = (st4, j4)" by fastforce
  have st4: "st4 \<noteq> J_hangs" using fourth st3 retire_log_ok [of j3 stop] by (auto split: if_split_asm)
  have "fst (jbd2_journal_recover room j) \<noteq> J_hangs"
    using scan third st3 fourth st4 by (cases "st = J_ok") (auto simp: jbd2_journal_recover_def Let_def split: if_split)
  then show ?thesis by (cases "fst (jbd2_journal_recover room j)") auto
qed

theorem jbd2_recover_returns_witness: "fst (jbd2_journal_recover (\<lambda>c. c \<le> 4096) (ex_revoker\<lparr>log_start := 1\<rparr>)) \<in> {J_ok, J_failed}"
  by (rule jbd2_recover_returns) (simp add: room_bounded_def word_le_nat_alt)

end
