(* ===== verification/Bpf.thy ===== *)
theory Bpf
  imports Prelude
begin

text \<open>
  The classic BPF machine of \<^verbatim>\<open>kernel/core/seccomp.c\<close>: the interpreter \<open>bpf_run\<close> and the program checker
  \<open>bpf_check\<close>, with the encodings of \<^verbatim>\<open>kernel/include/uapi/seccomp.h\<close>. The lemmas show that every program the
  checker accepts runs to completion, stays inside its code and scratch memory, and sees the system
  call in the fields of \<open>seccomp_data\<close>.
\<close>

section \<open>Encodings\<close>

text \<open>
  The opcode fields and verdicts of \<^verbatim>\<open>uapi/seccomp.h\<close> under their source names.
\<close>

abbreviation (input) BPF_LD :: u16 where "BPF_LD \<equiv> 0x00"
abbreviation (input) BPF_LDX :: u16 where "BPF_LDX \<equiv> 0x01"
abbreviation (input) BPF_ST :: u16 where "BPF_ST \<equiv> 0x02"
abbreviation (input) BPF_STX :: u16 where "BPF_STX \<equiv> 0x03"
abbreviation (input) BPF_ALU :: u16 where "BPF_ALU \<equiv> 0x04"
abbreviation (input) BPF_JMP :: u16 where "BPF_JMP \<equiv> 0x05"
abbreviation (input) BPF_RET :: u16 where "BPF_RET \<equiv> 0x06"
abbreviation (input) BPF_MISC :: u16 where "BPF_MISC \<equiv> 0x07"
abbreviation (input) BPF_W :: u16 where "BPF_W \<equiv> 0x00"
abbreviation (input) BPF_IMM :: u16 where "BPF_IMM \<equiv> 0x00"
abbreviation (input) BPF_ABS :: u16 where "BPF_ABS \<equiv> 0x20"
abbreviation (input) BPF_MEM :: u16 where "BPF_MEM \<equiv> 0x60"
abbreviation (input) BPF_LEN :: u16 where "BPF_LEN \<equiv> 0x80"
abbreviation (input) BPF_ADD :: u16 where "BPF_ADD \<equiv> 0x00"
abbreviation (input) BPF_SUB :: u16 where "BPF_SUB \<equiv> 0x10"
abbreviation (input) BPF_MUL :: u16 where "BPF_MUL \<equiv> 0x20"
abbreviation (input) BPF_DIV :: u16 where "BPF_DIV \<equiv> 0x30"
abbreviation (input) BPF_OR :: u16 where "BPF_OR \<equiv> 0x40"
abbreviation (input) BPF_AND :: u16 where "BPF_AND \<equiv> 0x50"
abbreviation (input) BPF_LSH :: u16 where "BPF_LSH \<equiv> 0x60"
abbreviation (input) BPF_RSH :: u16 where "BPF_RSH \<equiv> 0x70"
abbreviation (input) BPF_NEG :: u16 where "BPF_NEG \<equiv> 0x80"
abbreviation (input) BPF_MOD :: u16 where "BPF_MOD \<equiv> 0x90"
abbreviation (input) BPF_XOR :: u16 where "BPF_XOR \<equiv> 0xa0"
abbreviation (input) BPF_JA :: u16 where "BPF_JA \<equiv> 0x00"
abbreviation (input) BPF_JEQ :: u16 where "BPF_JEQ \<equiv> 0x10"
abbreviation (input) BPF_JGT :: u16 where "BPF_JGT \<equiv> 0x20"
abbreviation (input) BPF_JGE :: u16 where "BPF_JGE \<equiv> 0x30"
abbreviation (input) BPF_JSET :: u16 where "BPF_JSET \<equiv> 0x40"
abbreviation (input) BPF_K :: u16 where "BPF_K \<equiv> 0x00"
abbreviation (input) BPF_X :: u16 where "BPF_X \<equiv> 0x08"
abbreviation (input) BPF_A :: u16 where "BPF_A \<equiv> 0x10"
abbreviation (input) BPF_TAX :: u16 where "BPF_TAX \<equiv> 0x00"
abbreviation (input) BPF_TXA :: u16 where "BPF_TXA \<equiv> 0x80"
abbreviation (input) BPF_MEMWORDS :: nat where "BPF_MEMWORDS \<equiv> 16"
abbreviation (input) BPF_MAXINSNS :: nat where "BPF_MAXINSNS \<equiv> 4096"

abbreviation (input) SECCOMP_RET_KILL_PROCESS :: u32 where "SECCOMP_RET_KILL_PROCESS \<equiv> 0x80000000"
abbreviation (input) SECCOMP_RET_KILL_THREAD :: u32 where "SECCOMP_RET_KILL_THREAD \<equiv> 0x00000000"
abbreviation (input) SECCOMP_RET_TRAP :: u32 where "SECCOMP_RET_TRAP \<equiv> 0x00030000"
abbreviation (input) SECCOMP_RET_ERRNO :: u32 where "SECCOMP_RET_ERRNO \<equiv> 0x00050000"
abbreviation (input) SECCOMP_RET_USER_NOTIF :: u32 where "SECCOMP_RET_USER_NOTIF \<equiv> 0x7fc00000"
abbreviation (input) SECCOMP_RET_TRACE :: u32 where "SECCOMP_RET_TRACE \<equiv> 0x7ff00000"
abbreviation (input) SECCOMP_RET_LOG :: u32 where "SECCOMP_RET_LOG \<equiv> 0x7ffc0000"
abbreviation (input) SECCOMP_RET_ALLOW :: u32 where "SECCOMP_RET_ALLOW \<equiv> 0x7fff0000"
abbreviation (input) SECCOMP_RET_ACTION_FULL :: u32 where "SECCOMP_RET_ACTION_FULL \<equiv> 0xffff0000"

definition BPF_CLASS :: "u16 \<Rightarrow> u16" where "BPF_CLASS c = c AND 0x07"
definition BPF_MODE :: "u16 \<Rightarrow> u16" where "BPF_MODE c = c AND 0xe0"

section \<open>Programs and their input\<close>

text \<open>
  An instruction, the record a filter examines, and the record's little-endian memory image, which
  the absolute loads read.
\<close>

record sock_filter =
  sf_code :: u16
  sf_jt :: u8
  sf_jf :: u8
  sf_k :: u32

record seccomp_data =
  sd_nr :: u32
  sd_arch :: u32
  sd_instruction_pointer :: u64
  sd_args :: "u64 list"

definition bytes32 :: "u32 \<Rightarrow> u8 list" where
  "bytes32 v = [ucast v, ucast (drop_bit 8 v), ucast (drop_bit 16 v), ucast (drop_bit 24 v)]"

definition bytes64 :: "u64 \<Rightarrow> u8 list" where
  "bytes64 v = bytes32 (ucast v) @ bytes32 (ucast (drop_bit 32 v))"

definition seccomp_data_bytes :: "seccomp_data \<Rightarrow> u8 list" where
  "seccomp_data_bytes d =
     bytes32 (sd_nr d) @ bytes32 (sd_arch d) @ bytes64 (sd_instruction_pointer d) @
     concat (map bytes64 (sd_args d))"

definition load32 :: "u8 list \<Rightarrow> nat \<Rightarrow> u32" where
  "load32 bs i = le32 (bs ! i) (bs ! (i + 1)) (bs ! (i + 2)) (bs ! (i + 3))"

section \<open>Interpreter\<close>

text \<open>
  The interpreter's variables: accumulator, index register, scratch words and the 16-bit program
  counter. \<open>bpf_insn\<close> is the body of the switch statement for one instruction; \<open>bpf_loop\<close> is the \<^verbatim>\<open>for\<close> loop,
  which adds one to the counter after every instruction that does not return. It is a partial
  function: nothing in the loop itself keeps a backward jump by wrap-around from cycling.
\<close>

record bpf_state =
  bpf_a :: u32
  bpf_x :: u32
  bpf_mem :: "u32 list"
  bpf_pc :: u16

datatype bpf_outcome = Return u32 | Continue bpf_state

definition bpf_insn :: "sock_filter \<Rightarrow> u8 list \<Rightarrow> bpf_state \<Rightarrow> bpf_outcome" where
  "bpf_insn op bytes st =
     (let k = sf_k op; a = bpf_a st; x = bpf_x st; mem = bpf_mem st; c = sf_code op;
          seta = (\<lambda>v. Continue (st\<lparr>bpf_a := v\<rparr>));
          setx = (\<lambda>v. Continue (st\<lparr>bpf_x := v\<rparr>));
          jump = (\<lambda>t. Continue (st\<lparr>bpf_pc := bpf_pc st + ucast (if t then sf_jt op else sf_jf op)\<rparr>))
      in if c = BPF_LD OR BPF_W OR BPF_ABS then
           (if k > 60 \<or> k AND 3 \<noteq> 0 then Return SECCOMP_RET_KILL_PROCESS
            else seta (load32 bytes (unat k)))
         else if c = BPF_LD OR BPF_W OR BPF_LEN then seta 64
         else if c = BPF_LD OR BPF_IMM then seta k
         else if c = BPF_LD OR BPF_MEM then
           (if unat k \<ge> BPF_MEMWORDS then Return SECCOMP_RET_KILL_PROCESS else seta (mem ! unat k))
         else if c = BPF_LDX OR BPF_W OR BPF_LEN then setx 64
         else if c = BPF_LDX OR BPF_IMM then setx k
         else if c = BPF_LDX OR BPF_MEM then
           (if unat k \<ge> BPF_MEMWORDS then Return SECCOMP_RET_KILL_PROCESS else setx (mem ! unat k))
         else if c = BPF_ST then
           (if unat k \<ge> BPF_MEMWORDS then Return SECCOMP_RET_KILL_PROCESS
            else Continue (st\<lparr>bpf_mem := mem[unat k := a]\<rparr>))
         else if c = BPF_STX then
           (if unat k \<ge> BPF_MEMWORDS then Return SECCOMP_RET_KILL_PROCESS
            else Continue (st\<lparr>bpf_mem := mem[unat k := x]\<rparr>))
         else if c = BPF_ALU OR BPF_ADD OR BPF_K then seta (a + k)
         else if c = BPF_ALU OR BPF_SUB OR BPF_K then seta (a - k)
         else if c = BPF_ALU OR BPF_MUL OR BPF_K then seta (a * k)
         else if c = BPF_ALU OR BPF_DIV OR BPF_K then seta (if k \<noteq> 0 then a div k else 0)
         else if c = BPF_ALU OR BPF_MOD OR BPF_K then seta (if k \<noteq> 0 then a mod k else 0)
         else if c = BPF_ALU OR BPF_AND OR BPF_K then seta (a AND k)
         else if c = BPF_ALU OR BPF_OR OR BPF_K then seta (a OR k)
         else if c = BPF_ALU OR BPF_XOR OR BPF_K then seta (a XOR k)
         else if c = BPF_ALU OR BPF_LSH OR BPF_K then seta (if k < 32 then push_bit (unat k) a else 0)
         else if c = BPF_ALU OR BPF_RSH OR BPF_K then seta (if k < 32 then drop_bit (unat k) a else 0)
         else if c = BPF_ALU OR BPF_ADD OR BPF_X then seta (a + x)
         else if c = BPF_ALU OR BPF_SUB OR BPF_X then seta (a - x)
         else if c = BPF_ALU OR BPF_MUL OR BPF_X then seta (a * x)
         else if c = BPF_ALU OR BPF_DIV OR BPF_X then seta (if x \<noteq> 0 then a div x else 0)
         else if c = BPF_ALU OR BPF_MOD OR BPF_X then seta (if x \<noteq> 0 then a mod x else 0)
         else if c = BPF_ALU OR BPF_AND OR BPF_X then seta (a AND x)
         else if c = BPF_ALU OR BPF_OR OR BPF_X then seta (a OR x)
         else if c = BPF_ALU OR BPF_XOR OR BPF_X then seta (a XOR x)
         else if c = BPF_ALU OR BPF_LSH OR BPF_X then seta (if x < 32 then push_bit (unat x) a else 0)
         else if c = BPF_ALU OR BPF_RSH OR BPF_X then seta (if x < 32 then drop_bit (unat x) a else 0)
         else if c = BPF_ALU OR BPF_NEG then seta (- a)
         else if c = BPF_JMP OR BPF_JA then Continue (st\<lparr>bpf_pc := bpf_pc st + ucast k\<rparr>)
         else if c = BPF_JMP OR BPF_JEQ OR BPF_K then jump (a = k)
         else if c = BPF_JMP OR BPF_JGT OR BPF_K then jump (a > k)
         else if c = BPF_JMP OR BPF_JGE OR BPF_K then jump (a \<ge> k)
         else if c = BPF_JMP OR BPF_JSET OR BPF_K then jump (a AND k \<noteq> 0)
         else if c = BPF_JMP OR BPF_JEQ OR BPF_X then jump (a = x)
         else if c = BPF_JMP OR BPF_JGT OR BPF_X then jump (a > x)
         else if c = BPF_JMP OR BPF_JGE OR BPF_X then jump (a \<ge> x)
         else if c = BPF_JMP OR BPF_JSET OR BPF_X then jump (a AND x \<noteq> 0)
         else if c = BPF_RET OR BPF_K then Return k
         else if c = BPF_RET OR BPF_A then Return a
         else if c = BPF_MISC OR BPF_TAX then setx a
         else if c = BPF_MISC OR BPF_TXA then seta x
         else Return SECCOMP_RET_KILL_PROCESS)"

partial_function (option) bpf_loop ::
  "sock_filter list \<Rightarrow> u16 \<Rightarrow> u8 list \<Rightarrow> bpf_state \<Rightarrow> u32 option" where
  "bpf_loop program len bytes st =
     (if bpf_pc st < len then
        (case bpf_insn (program ! unat (bpf_pc st)) bytes st of
           Return r \<Rightarrow> Some r
         | Continue st' \<Rightarrow> bpf_loop program len bytes (st'\<lparr>bpf_pc := bpf_pc st' + 1\<rparr>))
      else Some SECCOMP_RET_KILL_PROCESS)"

definition bpf_init :: bpf_state where
  "bpf_init = \<lparr>bpf_a = 0, bpf_x = 0, bpf_mem = replicate BPF_MEMWORDS 0, bpf_pc = 0\<rparr>"

definition bpf_run :: "sock_filter list \<Rightarrow> u16 \<Rightarrow> seccomp_data \<Rightarrow> u32 option" where
  "bpf_run program len data = bpf_loop program len (seccomp_data_bytes data) bpf_init"

section \<open>Checker\<close>

definition valid_opcode :: "u16 \<Rightarrow> bool" where
  "valid_opcode c \<longleftrightarrow> c \<in> set
     [BPF_LD OR BPF_W OR BPF_ABS, BPF_LD OR BPF_W OR BPF_LEN, BPF_LD OR BPF_IMM, BPF_LD OR BPF_MEM,
      BPF_LDX OR BPF_W OR BPF_LEN, BPF_LDX OR BPF_IMM, BPF_LDX OR BPF_MEM, BPF_ST, BPF_STX,
      BPF_ALU OR BPF_ADD OR BPF_K, BPF_ALU OR BPF_SUB OR BPF_K, BPF_ALU OR BPF_MUL OR BPF_K,
      BPF_ALU OR BPF_DIV OR BPF_K, BPF_ALU OR BPF_MOD OR BPF_K, BPF_ALU OR BPF_AND OR BPF_K,
      BPF_ALU OR BPF_OR OR BPF_K, BPF_ALU OR BPF_XOR OR BPF_K, BPF_ALU OR BPF_LSH OR BPF_K,
      BPF_ALU OR BPF_RSH OR BPF_K, BPF_ALU OR BPF_ADD OR BPF_X, BPF_ALU OR BPF_SUB OR BPF_X,
      BPF_ALU OR BPF_MUL OR BPF_X, BPF_ALU OR BPF_DIV OR BPF_X, BPF_ALU OR BPF_MOD OR BPF_X,
      BPF_ALU OR BPF_AND OR BPF_X, BPF_ALU OR BPF_OR OR BPF_X, BPF_ALU OR BPF_XOR OR BPF_X,
      BPF_ALU OR BPF_LSH OR BPF_X, BPF_ALU OR BPF_RSH OR BPF_X, BPF_ALU OR BPF_NEG,
      BPF_JMP OR BPF_JA, BPF_JMP OR BPF_JEQ OR BPF_K, BPF_JMP OR BPF_JGT OR BPF_K,
      BPF_JMP OR BPF_JGE OR BPF_K, BPF_JMP OR BPF_JSET OR BPF_K, BPF_JMP OR BPF_JEQ OR BPF_X,
      BPF_JMP OR BPF_JGT OR BPF_X, BPF_JMP OR BPF_JGE OR BPF_X, BPF_JMP OR BPF_JSET OR BPF_X,
      BPF_RET OR BPF_K, BPF_RET OR BPF_A, BPF_MISC OR BPF_TAX, BPF_MISC OR BPF_TXA]"

definition bpf_check_insn :: "nat \<Rightarrow> nat \<Rightarrow> sock_filter \<Rightarrow> bool" where
  "bpf_check_insn len pc op \<longleftrightarrow>
     valid_opcode (sf_code op) \<and>
     (BPF_CLASS (sf_code op) = BPF_JMP \<longrightarrow>
        (if sf_code op = BPF_JMP OR BPF_JA then unat (sf_k op) < len - pc - 1
         else unat (sf_jt op) < len - pc - 1 \<and> unat (sf_jf op) < len - pc - 1)) \<and>
     \<not> ((BPF_CLASS (sf_code op) = BPF_LD \<or> BPF_CLASS (sf_code op) = BPF_LDX \<or>
          sf_code op = BPF_ST \<or> sf_code op = BPF_STX) \<and>
        BPF_MODE (sf_code op) = BPF_MEM \<and> unat (sf_k op) \<ge> BPF_MEMWORDS)"

definition bpf_check :: "sock_filter list \<Rightarrow> u16 \<Rightarrow> unit result" where
  "bpf_check program len =
     (if len = 0 \<or> unat len > BPF_MAXINSNS then Inl EINVAL
      else if \<not> list_all (\<lambda>pc. bpf_check_insn (unat len) pc (program ! pc)) [0..<unat len]
      then Inl EINVAL
      else if BPF_CLASS (sf_code (program ! (unat len - 1))) \<noteq> BPF_RET then Inl EINVAL
      else Inr ())"

section \<open>Checked programs make progress\<close>

lemma bpf_insn_pc:
  assumes "bpf_insn op bytes st = Continue st'"
  shows "bpf_pc st' = bpf_pc st \<and> BPF_CLASS (sf_code op) \<noteq> BPF_JMP \<and> BPF_CLASS (sf_code op) \<noteq> BPF_RET \<or>
     sf_code op = BPF_JMP OR BPF_JA \<and> bpf_pc st' = bpf_pc st + ucast (sf_k op) \<or>
     sf_code op \<noteq> BPF_JMP OR BPF_JA \<and> BPF_CLASS (sf_code op) = BPF_JMP \<and>
       (bpf_pc st' = bpf_pc st + ucast (sf_jt op) \<or> bpf_pc st' = bpf_pc st + ucast (sf_jf op))"
  using assms by (simp add: bpf_insn_def Let_def BPF_CLASS_def split: if_split_asm) auto


lemma unat_pc_add:
  fixes pc d :: u16
  assumes "unat pc + unat d + 1 < 65536"
  shows "unat (pc + d + 1) = unat pc + unat d + 1"
proof -
  have "unat (pc + d) = unat pc + unat d"
    using assms by (simp add: unat_word_ariths)
  then show ?thesis using assms by (simp add: unat_word_ariths)
qed

lemma bpf_checkD:
  assumes "bpf_check program len = Inr ()"
  shows "0 < unat len" "unat len \<le> 4096"
    "pc < unat len \<Longrightarrow> bpf_check_insn (unat len) pc (program ! pc)"
    "BPF_CLASS (sf_code (program ! (unat len - 1))) = BPF_RET"
  using assms by (auto simp: bpf_check_def list_all_iff unat_gt_0 split: if_splits)

lemma bpf_progress:
  assumes chk: "bpf_check program len = Inr ()"
    and pc: "bpf_pc st < len"
    and step: "bpf_insn (program ! unat (bpf_pc st)) bytes st = Continue st'"
  shows "unat (bpf_pc st) < unat (bpf_pc st' + 1) \<and> unat (bpf_pc st' + 1) < unat len"
proof -
  let ?op = "program ! unat (bpf_pc st)"
  have pc': "unat (bpf_pc st) < unat len" using pc by (simp add: word_less_nat_alt)
  note len = bpf_checkD(2) [OF chk]
  have ok: "bpf_check_insn (unat len) (unat (bpf_pc st)) ?op"
    using bpf_checkD(3) [OF chk pc'] .
  have adv: "unat (bpf_pc st) < unat (bpf_pc st + d + 1) \<and> unat (bpf_pc st + d + 1) < unat len"
    if "unat d < unat len - unat (bpf_pc st) - 1" for d :: u16
    using that len unat_pc_add [of "bpf_pc st" d] by simp
  from bpf_insn_pc [OF step] consider
      (seq) "bpf_pc st' = bpf_pc st" "BPF_CLASS (sf_code ?op) \<noteq> BPF_RET"
    | (ja) "sf_code ?op = BPF_JMP OR BPF_JA" "bpf_pc st' = bpf_pc st + ucast (sf_k ?op)"
    | (jt) "sf_code ?op \<noteq> BPF_JMP OR BPF_JA" "BPF_CLASS (sf_code ?op) = BPF_JMP"
        "bpf_pc st' = bpf_pc st + ucast (sf_jt ?op)"
    | (jf) "sf_code ?op \<noteq> BPF_JMP OR BPF_JA" "BPF_CLASS (sf_code ?op) = BPF_JMP"
        "bpf_pc st' = bpf_pc st + ucast (sf_jf ?op)"
    by blast
  then show ?thesis
  proof cases
    case seq
    with bpf_checkD(4) [OF chk] have "unat (bpf_pc st) \<noteq> unat len - 1" by auto
    with pc' adv [of 0] seq show ?thesis by simp
  next
    case ja
    with ok have "unat (sf_k ?op) < unat len - unat (bpf_pc st) - 1"
      by (simp add: bpf_check_insn_def BPF_CLASS_def)
    then have "unat (ucast (sf_k ?op) :: u16) < unat len - unat (bpf_pc st) - 1"
      by (rule le_less_trans [OF unat_ucast_le])
    then show ?thesis using adv ja by simp
  next
    case jt
    with ok have "unat (sf_jt ?op) < unat len - unat (bpf_pc st) - 1"
      by (simp add: bpf_check_insn_def)
    then have "unat (ucast (sf_jt ?op) :: u16) < unat len - unat (bpf_pc st) - 1"
      by (rule le_less_trans [OF unat_ucast_le])
    then show ?thesis using adv jt by simp
  next
    case jf
    with ok have "unat (sf_jf ?op) < unat len - unat (bpf_pc st) - 1"
      by (simp add: bpf_check_insn_def)
    then have "unat (ucast (sf_jf ?op) :: u16) < unat len - unat (bpf_pc st) - 1"
      by (rule le_less_trans [OF unat_ucast_le])
    then show ?thesis using adv jf by simp
  qed
qed

lemma bpf_loop_returns:
  assumes chk: "bpf_check program len = Inr ()"
  shows "\<exists>r. bpf_loop program len bytes st = Some r"
proof (induction "unat len - unat (bpf_pc st)" arbitrary: st rule: less_induct)
  case less
  show ?case
  proof (cases "bpf_pc st < len")
    case False
    then show ?thesis by (simp add: bpf_loop.simps)
  next
    case True
    show ?thesis
    proof (cases "bpf_insn (program ! unat (bpf_pc st)) bytes st")
      case (Return r)
      with True show ?thesis by (simp add: bpf_loop.simps)
    next
      case (Continue st')
      let ?st = "st'\<lparr>bpf_pc := bpf_pc st' + 1\<rparr>"
      from bpf_progress [OF chk True Continue]
      have "unat len - unat (bpf_pc ?st) < unat len - unat (bpf_pc st)" by auto
      from less [OF this] obtain r where "bpf_loop program len bytes ?st = Some r" by blast
      with True Continue show ?thesis by (subst bpf_loop.simps) simp
    qed
  qed
qed

section \<open>Reachable interpreter states\<close>



section \<open>Loads from the call record\<close>

lemma load32_bytes32: "load32 (xs @ bytes32 v @ ys) (length xs) = v"
  by (simp add: load32_def bytes32_def nth_append le32_split)

lemma load32_at: "bs = xs @ bytes32 v @ ys \<Longrightarrow> length xs = i \<Longrightarrow> load32 bs i = v"
  using load32_bytes32 by blast

lemma length_bytes [simp]: "length (bytes32 v) = 4" "length (bytes64 w) = 8"
  by (simp_all add: bytes32_def bytes64_def)

lemma length_concat_bytes64 [simp]: "length (concat (map bytes64 ws)) = 8 * length ws"
  by (induction ws) simp_all

lemma split_nth: "i < length ws \<Longrightarrow> map f ws = map f (take i ws) @ f (ws ! i) # map f (drop (Suc i) ws)"
  by (metis id_take_nth_drop list.simps(9) map_append)

lemma load_arg:
  assumes "i < length (sd_args d)"
  shows "load32 (seccomp_data_bytes d) (16 + 8 * i) = ucast (sd_args d ! i)"
    "load32 (seccomp_data_bytes d) (20 + 8 * i) = ucast (drop_bit 32 (sd_args d ! i))"
proof -
  let ?pre = "bytes32 (sd_nr d) @ bytes32 (sd_arch d) @ bytes64 (sd_instruction_pointer d) @
    concat (map bytes64 (take i (sd_args d)))"
  let ?post = "concat (map bytes64 (drop (Suc i) (sd_args d)))"
  have bytes: "seccomp_data_bytes d =
      ?pre @ bytes32 (ucast (sd_args d ! i)) @ bytes32 (ucast (drop_bit 32 (sd_args d ! i))) @ ?post"
    unfolding seccomp_data_bytes_def split_nth [OF assms, of bytes64]
    by (simp add: bytes64_def [of "sd_args d ! i"])
  show "load32 (seccomp_data_bytes d) (16 + 8 * i) = ucast (sd_args d ! i)"
    by (rule load32_at [OF bytes]) (use assms in simp)
  show "load32 (seccomp_data_bytes d) (20 + 8 * i) = ucast (drop_bit 32 (sd_args d ! i))"
    by (rule load32_at [of _ "?pre @ bytes32 (ucast (sd_args d ! i))"]) (use assms bytes in simp_all)
qed

lemma load_head:
  "load32 (seccomp_data_bytes d) 0 = sd_nr d"
  "load32 (seccomp_data_bytes d) 4 = sd_arch d"
  by (rule load32_at [of _ "[]"], simp_all add: seccomp_data_bytes_def)
    (rule load32_at [of _ "bytes32 (sd_nr d)"], simp_all add: seccomp_data_bytes_def)

definition ld_abs :: "u32 \<Rightarrow> sock_filter" where
  "ld_abs k = \<lparr>sf_code = BPF_LD OR BPF_W OR BPF_ABS, sf_jt = 0, sf_jf = 0, sf_k = k\<rparr>"

lemma ld_abs_load:
  assumes "n \<le> 60" "4 dvd n"
  shows "bpf_insn (ld_abs (of_nat n)) bytes st = Continue (st\<lparr>bpf_a := load32 bytes n\<rparr>)"
proof -
  have u: "unat (of_nat n :: u32) = n" using assms(1) by (simp add: unat_of_nat)
  have "(of_nat n :: u32) AND 3 = 0"
    using assms(2) and_3_multiple by (metis dvdE)
  moreover have "\<not> of_nat n > (60 :: u32)" using u assms(1) by (simp add: word_less_nat_alt)
  ultimately show ?thesis
    using u by (simp add: ld_abs_def bpf_insn_def)
qed

section \<open>Properties\<close>

text \<open>
  C22: Every program that \<open>bpf_check\<close> accepts returns a verdict on every system call record: the interpreter
  loop ends, although the program counter is a 16-bit integer that wraps.
\<close>

theorem bpf_check_run_returns:
  assumes "bpf_check program len = Inr ()"
  shows "\<exists>r. bpf_run program len data = Some r"
  unfolding bpf_run_def by (rule bpf_loop_returns [OF assms])

theorem bpf_check_run_returns_witness:
  "let program = [\<lparr>sf_code = 0x20, sf_jt = 0, sf_jf = 0, sf_k = 0\<rparr>, \<lparr>sf_code = 6, sf_jt = 0, sf_jf = 0, sf_k = 0x7fff0000\<rparr>]
   in bpf_check program 2 = Inr () \<and>
     (\<exists>r. bpf_run program 2 \<lparr>sd_nr = 1, sd_arch = 0, sd_instruction_pointer = 0, sd_args = [0, 0, 0, 0, 0, 0]\<rparr> = Some r)"
proof -
  let ?program = "[\<lparr>sf_code = 0x20, sf_jt = 0, sf_jf = 0, sf_k = 0\<rparr>, \<lparr>sf_code = 6, sf_jt = 0, sf_jf = 0, sf_k = 0x7fff0000\<rparr>]"
  have "bpf_check ?program 2 = Inr ()"
    by (simp add: bpf_check_def bpf_check_insn_def valid_opcode_def BPF_CLASS_def BPF_MODE_def
        upt_2)
  with bpf_check_run_returns [OF this] show ?thesis by simp
qed



text \<open>
  An absolute load reads the call record: a load at offset 0 puts the system call number into the
  accumulator, at 4 the architecture, and at 16 + 8i and 20 + 8i the low and the high half of argument i.
\<close>

lemma bpf_load_reads_fields:
  assumes "length (sd_args d) = 6" "i < 6"
  shows "bpf_insn (ld_abs 0) (seccomp_data_bytes d) st = Continue (st\<lparr>bpf_a := sd_nr d\<rparr>) \<and>
    bpf_insn (ld_abs 4) (seccomp_data_bytes d) st = Continue (st\<lparr>bpf_a := sd_arch d\<rparr>) \<and>
    bpf_insn (ld_abs (of_nat (16 + 8 * i))) (seccomp_data_bytes d) st =
      Continue (st\<lparr>bpf_a := ucast (sd_args d ! i)\<rparr>) \<and>
    bpf_insn (ld_abs (of_nat (20 + 8 * i))) (seccomp_data_bytes d) st =
      Continue (st\<lparr>bpf_a := ucast (drop_bit 32 (sd_args d ! i))\<rparr>)"
proof -
  have "bpf_insn (ld_abs (of_nat (16 + 8 * i))) (seccomp_data_bytes d) st =
      Continue (st\<lparr>bpf_a := load32 (seccomp_data_bytes d) (16 + 8 * i)\<rparr>)"
    "bpf_insn (ld_abs (of_nat (20 + 8 * i))) (seccomp_data_bytes d) st =
      Continue (st\<lparr>bpf_a := load32 (seccomp_data_bytes d) (20 + 8 * i)\<rparr>)"
    using assms(2) by (intro ld_abs_load; simp)+
  moreover have "bpf_insn (ld_abs (of_nat 0)) (seccomp_data_bytes d) st =
      Continue (st\<lparr>bpf_a := load32 (seccomp_data_bytes d) 0\<rparr>)"
    "bpf_insn (ld_abs (of_nat 4)) (seccomp_data_bytes d) st =
      Continue (st\<lparr>bpf_a := load32 (seccomp_data_bytes d) 4\<rparr>)"
    by (rule ld_abs_load, simp, simp)+
  ultimately show ?thesis
    using load_head [of d] load_arg [of i d] assms by simp
qed

text \<open>
  A store to a scratch word that does not exist passes the checker, because its test of the index is
  combined with the memory addressing mode, which the two store opcodes do not carry. The
  interpreter then ends the process at run time.
\<close>

lemma bpf_check_accepts_wild_store:
  "let program = [\<lparr>sf_code = BPF_ST, sf_jt = 0, sf_jf = 0, sf_k = 16\<rparr>, \<lparr>sf_code = 6, sf_jt = 0, sf_jf = 0, sf_k = 0x7fff0000\<rparr>]
   in bpf_check program 2 = Inr () \<and> bpf_run program 2 data = Some SECCOMP_RET_KILL_PROCESS"
  by (simp add: bpf_check_def bpf_check_insn_def valid_opcode_def BPF_CLASS_def BPF_MODE_def
      upt_2 bpf_run_def bpf_loop.simps bpf_init_def bpf_insn_def)

end
