(* ===== verification/Seccomp.thy ===== *)
theory Seccomp
  imports Bpf
begin

text \<open>
  System call filtering, \<^verbatim>\<open>kernel/core/seccomp.c\<close>: installing filters, deciding a system call, inheriting the
  filters across fork and releasing them at exit. Filters are shared, reference counted list
  nodes, so the model has a heap of them; a process record carries the fields of \<^verbatim>\<open>struct process\<close> the file
  uses. The copies from user memory and the allocator's answer are parameters of the calls. The lemmas
  show the list and counter invariants in every reachable state of the system, forks that fail included, and what they give the
  sandbox: decisions always come, combine all filters, and are never relaxed.
\<close>

section \<open>Data\<close>

abbreviation (input) SECCOMP_MODE_DISABLED :: nat where "SECCOMP_MODE_DISABLED \<equiv> 0"
abbreviation (input) SECCOMP_MODE_STRICT :: nat where "SECCOMP_MODE_STRICT \<equiv> 1"
abbreviation (input) SECCOMP_MODE_FILTER :: nat where "SECCOMP_MODE_FILTER \<equiv> 2"

type_synonym addr = nat

record seccomp_filter =
  f_prev :: "addr option"
  f_refs :: u32
  f_length :: u16
  f_program :: "sock_filter list"

record process_seccomp =
  seccomp_mode :: nat
  seccomp_filters :: "addr option"
  no_new_privs :: bool
  cred_euid :: u32

type_synonym filter_heap = "addr \<rightharpoonup> seccomp_filter"

section \<open>Installing filters\<close>

text \<open>
  \<open>copy_user\<close> holds the two copies \<open>filter_copy_from_user\<close> makes from user memory: the program header
  (length and address) and the instructions; \<open>None\<close> is a fault. The allocator's answer is the
  address of the new filter, or \<open>None\<close>.
\<close>

record copy_user =
  copy_fprog :: "u64 \<Rightarrow> (u16 \<times> u64) option"
  copy_insns :: "u64 \<Rightarrow> nat \<Rightarrow> sock_filter list option"

definition filter_copy_from_user :: "copy_user \<Rightarrow> bool \<Rightarrow> u64 \<Rightarrow> seccomp_filter option" where
  "filter_copy_from_user cu allocated user_program =
     (case copy_fprog cu user_program of
        None \<Rightarrow> None
      | Some (len, insns) \<Rightarrow>
          if len = 0 \<or> unat len > BPF_MAXINSNS then None
          else if \<not> allocated then None
          else (case copy_insns cu insns (unat len) of
                  None \<Rightarrow> None
                | Some program \<Rightarrow>
                    if bpf_check program len \<noteq> Inr () then None
                    else Some \<lparr>f_prev = None, f_refs = 1, f_length = len, f_program = program\<rparr>))"

definition seccomp_active :: "process_seccomp option \<Rightarrow> bool" where
  "seccomp_active p = (case p of None \<Rightarrow> False | Some q \<Rightarrow> seccomp_mode q \<noteq> SECCOMP_MODE_DISABLED)"

definition attach_filter ::
  "filter_heap \<Rightarrow> process_seccomp \<Rightarrow> addr \<Rightarrow> seccomp_filter \<Rightarrow>
   unit result \<times> filter_heap \<times> process_seccomp" where
  "attach_filter h p a f =
     (if seccomp_mode p = SECCOMP_MODE_STRICT then (Inl EINVAL, h, p)
      else (Inr (), h(a \<mapsto> f\<lparr>f_prev := seccomp_filters p\<rparr>),
            p\<lparr>seccomp_filters := Some a, seccomp_mode := SECCOMP_MODE_FILTER\<rparr>))"

definition seccomp_set_mode_filter ::
  "copy_user \<Rightarrow> addr option \<Rightarrow> filter_heap \<Rightarrow> process_seccomp option \<Rightarrow> u32 \<Rightarrow> u64 \<Rightarrow>
   unit result \<times> filter_heap \<times> process_seccomp option" where
  "seccomp_set_mode_filter cu alloc h cur flags user_program =
     (case cur of
        None \<Rightarrow> (Inl EINVAL, h, None)
      | Some p \<Rightarrow>
          if flags AND NOT 0x17 \<noteq> 0 then (Inl EINVAL, h, cur)
          else if \<not> no_new_privs p \<and> cred_euid p \<noteq> 0 then (Inl EACCES, h, cur)
          else (case filter_copy_from_user cu (alloc \<noteq> None) user_program of
                  None \<Rightarrow> (Inl EINVAL, h, cur)
                | Some f \<Rightarrow>
                    (case attach_filter h p (the alloc) f of (r, h', p') \<Rightarrow> (r, h', Some p'))))"

definition seccomp_set_mode_strict ::
  "process_seccomp option \<Rightarrow> unit result \<times> process_seccomp option" where
  "seccomp_set_mode_strict cur =
     (case cur of
        None \<Rightarrow> (Inl EINVAL, None)
      | Some p \<Rightarrow>
          if seccomp_mode p = SECCOMP_MODE_FILTER then (Inl EINVAL, cur)
          else (Inr (), Some (p\<lparr>seccomp_mode := SECCOMP_MODE_STRICT\<rparr>)))"

definition seccomp_prctl_set ::
  "copy_user \<Rightarrow> addr option \<Rightarrow> filter_heap \<Rightarrow> process_seccomp option \<Rightarrow> u64 \<Rightarrow> u64 \<Rightarrow>
   unit result \<times> filter_heap \<times> process_seccomp option" where
  "seccomp_prctl_set cu alloc h cur mode user_program =
     (if mode = of_nat SECCOMP_MODE_STRICT then
        (case seccomp_set_mode_strict cur of (r, cur') \<Rightarrow> (r, h, cur'))
      else if mode = of_nat SECCOMP_MODE_FILTER then
        seccomp_set_mode_filter cu alloc h cur 0 user_program
      else (Inl EINVAL, h, cur))"

section \<open>Deciding a system call\<close>

text \<open>
  The architecture the kernel is built for selects the constants of two functions. \<open>decide_loop\<close>, \<open>inherit_loop\<close> and
  \<open>release_loop\<close> follow the \<^verbatim>\<open>prev\<close> pointers; \<open>None\<close> is a dangling pointer, a filter that does not end or a cyclic list.
\<close>

datatype arch = X86_64 | AARCH64

definition strict_allows :: "arch \<Rightarrow> u64 \<Rightarrow> bool" where
  "strict_allows arch nr =
     (case arch of
        X86_64 \<Rightarrow> nr = 0 \<or> nr = 1 \<or> nr = 60 \<or> nr = 231 \<or> nr = 15
      | AARCH64 \<Rightarrow> nr = 63 \<or> nr = 64 \<or> nr = 93 \<or> nr = 94 \<or> nr = 139)"

definition SECCOMP_AUDIT_ARCH :: "arch \<Rightarrow> u32" where
  "SECCOMP_AUDIT_ARCH arch = (case arch of X86_64 \<Rightarrow> 0xC000003E | AARCH64 \<Rightarrow> 0xC00000B7)"

record syscall_frame =
  frame_ip :: u64
  frame_args :: "u64 list"

definition seccomp_rank :: "u32 \<Rightarrow> nat" where
  "seccomp_rank result =
     (let action = result AND SECCOMP_RET_ACTION_FULL in
      if action = SECCOMP_RET_KILL_PROCESS then 7
      else if action = SECCOMP_RET_KILL_THREAD then 6
      else if action = SECCOMP_RET_TRAP then 5
      else if action = SECCOMP_RET_ERRNO then 4
      else if action = SECCOMP_RET_USER_NOTIF then 3
      else if action = SECCOMP_RET_TRACE then 2
      else if action = SECCOMP_RET_LOG then 1
      else if action = SECCOMP_RET_ALLOW then 0
      else 6)"

partial_function (option) decide_loop ::
  "filter_heap \<Rightarrow> seccomp_data \<Rightarrow> addr option \<Rightarrow> u32 \<Rightarrow> nat \<Rightarrow> u32 option" where
  "decide_loop h data ptr best best_rank =
     (case ptr of
        None \<Rightarrow> Some best
      | Some a \<Rightarrow>
          Option.bind (h a) (\<lambda>f.
          Option.bind (bpf_run (f_program f) (f_length f) data) (\<lambda>result.
            if seccomp_rank result > best_rank
            then decide_loop h data (f_prev f) result (seccomp_rank result)
            else decide_loop h data (f_prev f) best best_rank)))"

definition frame_data :: "arch \<Rightarrow> syscall_frame \<Rightarrow> u64 \<Rightarrow> seccomp_data" where
  "frame_data arch frame native_nr =
     \<lparr>sd_nr = ucast native_nr, sd_arch = SECCOMP_AUDIT_ARCH arch,
      sd_instruction_pointer = frame_ip frame, sd_args = frame_args frame\<rparr>"

definition seccomp_decide ::
  "arch \<Rightarrow> filter_heap \<Rightarrow> process_seccomp option \<Rightarrow> syscall_frame \<Rightarrow> u64 \<Rightarrow> u32 option" where
  "seccomp_decide arch h cur frame native_nr =
     (case cur of
        None \<Rightarrow> Some SECCOMP_RET_ALLOW
      | Some p \<Rightarrow>
          if seccomp_mode p = SECCOMP_MODE_DISABLED then Some SECCOMP_RET_ALLOW
          else if seccomp_mode p = SECCOMP_MODE_STRICT then
            Some (if strict_allows arch native_nr then SECCOMP_RET_ALLOW else SECCOMP_RET_KILL_PROCESS)
          else decide_loop h (frame_data arch frame native_nr) (seccomp_filters p)
            SECCOMP_RET_ALLOW 0)"

section \<open>Fork and exit\<close>

partial_function (option) inherit_loop :: "filter_heap \<Rightarrow> addr option \<Rightarrow> filter_heap option" where
  "inherit_loop h ptr =
     (case ptr of
        None \<Rightarrow> Some h
      | Some a \<Rightarrow>
          Option.bind (h a) (\<lambda>f. inherit_loop (h(a \<mapsto> f\<lparr>f_refs := f_refs f + 1\<rparr>)) (f_prev f)))"

definition seccomp_inherit ::
  "filter_heap \<Rightarrow> process_seccomp \<Rightarrow> process_seccomp \<Rightarrow> (filter_heap \<times> process_seccomp) option" where
  "seccomp_inherit h child parent =
     (let child' = child\<lparr>seccomp_mode := seccomp_mode parent,
                         seccomp_filters := seccomp_filters parent\<rparr>
      in Option.bind (inherit_loop h (seccomp_filters child')) (\<lambda>h'. Some (h', child')))"

partial_function (option) release_loop :: "filter_heap \<Rightarrow> addr option \<Rightarrow> filter_heap option" where
  "release_loop h ptr =
     (case ptr of
        None \<Rightarrow> Some h
      | Some a \<Rightarrow>
          Option.bind (h a) (\<lambda>f.
            if f_refs f - 1 = 0 then release_loop (h(a := None)) (f_prev f)
            else release_loop (h(a \<mapsto> f\<lparr>f_refs := f_refs f - 1\<rparr>)) (f_prev f)))"

definition seccomp_release ::
  "filter_heap \<Rightarrow> process_seccomp \<Rightarrow> (filter_heap \<times> process_seccomp) option" where
  "seccomp_release h p =
     Option.bind (release_loop h (seccomp_filters p)) (\<lambda>h'.
       Some (h', p\<lparr>seccomp_filters := None, seccomp_mode := SECCOMP_MODE_DISABLED\<rparr>))"

section \<open>Filter lists\<close>

text \<open>
  The addresses on the list that starts at a pointer.
\<close>

partial_function (option) filter_chain :: "filter_heap \<Rightarrow> addr option \<Rightarrow> addr list option" where
  "filter_chain h ptr =
     (case ptr of
        None \<Rightarrow> Some []
      | Some a \<Rightarrow>
          Option.bind (h a) (\<lambda>f.
          Option.bind (filter_chain h (f_prev f)) (\<lambda>rest. Some (a # rest))))"

lemma filter_chain_Nil [simp]: "filter_chain h ptr = Some [] \<longleftrightarrow> ptr = None"
  by (subst filter_chain.simps) (simp split: option.splits bind_splits)

lemma filter_chain_None [simp]: "filter_chain h None = Some []"
  by simp

lemma filter_chain_Cons [simp]:
  "filter_chain h ptr = Some (a # rest) \<longleftrightarrow>
     ptr = Some a \<and> (\<exists>f. h a = Some f \<and> filter_chain h (f_prev f) = Some rest)"
  by (subst filter_chain.simps) (auto split: option.splits bind_splits)

lemma filter_chain_suffix:
  "filter_chain h ptr = Some (xs @ a # ys) \<Longrightarrow> filter_chain h (Some a) = Some (a # ys)"
  by (induction xs arbitrary: ptr) auto

lemma filter_chain_distinct:
  assumes "filter_chain h ptr = Some as"
  shows "distinct as"
proof (rule ccontr)
  assume "\<not> distinct as"
  then obtain xs ys zs a where as: "as = xs @ [a] @ ys @ [a] @ zs"
    using not_distinct_decomp by blast
  from assms have "filter_chain h (Some a) = Some (a # ys @ [a] @ zs)"
    unfolding as by (simp add: filter_chain_suffix [of h ptr xs])
  moreover from assms have "filter_chain h (Some a) = Some (a # zs)"
    unfolding as using filter_chain_suffix [of h ptr "xs @ [a] @ ys" a zs] by simp
  ultimately have "a # ys @ [a] @ zs = a # zs" by (simp del: filter_chain_Cons)
  then show False by simp
qed

definition filter_result :: "filter_heap \<Rightarrow> seccomp_data \<Rightarrow> addr \<Rightarrow> u32" where
  "filter_result h data a =
     (case h a of None \<Rightarrow> 0 | Some f \<Rightarrow> the (bpf_run (f_program f) (f_length f) data))"

definition filters_checked :: "filter_heap \<Rightarrow> bool" where
  "filters_checked h \<longleftrightarrow> (\<forall>f \<in> ran h. bpf_check (f_program f) (f_length f) = Inr ())"

lemma filter_result_run:
  assumes "filters_checked h" "h a = Some f"
  shows "bpf_run (f_program f) (f_length f) data = Some (filter_result h data a)"
proof -
  from assms have "bpf_check (f_program f) (f_length f) = Inr ()"
    by (auto simp: filters_checked_def ran_def)
  from bpf_loop_returns [OF this] assms(2) show ?thesis
    by (auto simp: bpf_run_def filter_result_def)
qed

lemma decide_loop_chain:
  assumes "filters_checked h" "filter_chain h ptr = Some as"
  shows "\<exists>r. decide_loop h data ptr best (seccomp_rank best) = Some r \<and>
     r \<in> insert best (filter_result h data ` set as) \<and>
     seccomp_rank best \<le> seccomp_rank r \<and>
     (\<forall>a \<in> set as. seccomp_rank (filter_result h data a) \<le> seccomp_rank r)"
  using assms(2)
proof (induction as arbitrary: ptr best)
  case Nil
  then show ?case by (simp add: decide_loop.simps)
next
  case (Cons a as)
  then obtain f where f: "ptr = Some a" "h a = Some f" "filter_chain h (f_prev f) = Some as"
    by auto
  note run = filter_result_run [OF assms(1) f(2), of data]
  let ?r = "filter_result h data a"
  have step: "decide_loop h data ptr best (seccomp_rank best) =
      (if seccomp_rank ?r > seccomp_rank best
       then decide_loop h data (f_prev f) ?r (seccomp_rank ?r)
       else decide_loop h data (f_prev f) best (seccomp_rank best))"
    by (subst decide_loop.simps) (simp add: f run)
  show ?case
  proof (cases "seccomp_rank ?r > seccomp_rank best")
    case True
    with step Cons.IH [OF f(3), of ?r] show ?thesis by auto
  next
    case False
    with step Cons.IH [OF f(3), of best] show ?thesis by fastforce
  qed
qed

lemma filter_chain_cong:
  assumes "filter_chain h ptr = Some as"
    "\<And>a f. a \<in> set as \<Longrightarrow> h a = Some f \<Longrightarrow> \<exists>f'. h' a = Some f' \<and> f_prev f' = f_prev f"
  shows "filter_chain h' ptr = Some as"
  using assms by (induction as arbitrary: ptr) fastforce+

lemma inherit_loop_chain:
  assumes "filter_chain h ptr = Some as"
  shows "inherit_loop h ptr =
     Some (\<lambda>a. if a \<in> set as then map_option (\<lambda>f. f\<lparr>f_refs := f_refs f + 1\<rparr>) (h a) else h a)"
  using assms
proof (induction as arbitrary: h ptr)
  case Nil
  then show ?case by (simp add: inherit_loop.simps)
next
  case (Cons a as)
  then obtain f where f: "ptr = Some a" "h a = Some f" "filter_chain h (f_prev f) = Some as"
    by auto
  have a: "a \<notin> set as" using filter_chain_distinct [OF Cons.prems] by simp
  let ?h = "h(a \<mapsto> f\<lparr>f_refs := f_refs f + 1\<rparr>)"
  have "filter_chain ?h (f_prev f) = Some as"
    by (rule filter_chain_cong [OF f(3)]) (use a in auto)
  note ih = Cons.IH [OF this]
  have eq: "inherit_loop h ptr = inherit_loop ?h (f_prev f)"
    by (subst inherit_loop.simps) (simp add: f)
  show ?case unfolding eq ih using a f by (auto simp: fun_eq_iff)
qed

definition dropped :: "seccomp_filter \<Rightarrow> seccomp_filter option" where
  "dropped f = (if f_refs f - 1 = 0 then None else Some (f\<lparr>f_refs := f_refs f - 1\<rparr>))"

lemma release_loop_chain:
  assumes "filter_chain h ptr = Some as"
  shows "release_loop h ptr =
     Some (\<lambda>a. if a \<in> set as then Option.bind (h a) dropped else h a)"
  using assms
proof (induction as arbitrary: h ptr)
  case Nil
  then show ?case by (simp add: release_loop.simps)
next
  case (Cons a as)
  then obtain f where f: "ptr = Some a" "h a = Some f" "filter_chain h (f_prev f) = Some as"
    by auto
  have a: "a \<notin> set as" using filter_chain_distinct [OF Cons.prems] by simp
  let ?h = "h(a := dropped f)"
  have "filter_chain ?h (f_prev f) = Some as"
    by (rule filter_chain_cong [OF f(3)]) (use a in auto)
  note ih = Cons.IH [OF this]
  have eq: "release_loop h ptr = release_loop ?h (f_prev f)"
    by (subst release_loop.simps) (simp add: f dropped_def)
  show ?case unfolding eq ih using a f by (auto simp: fun_eq_iff)
qed

section \<open>The system\<close>

text \<open>
  The processes of the system and the filter heap. Steps are the calls of the file in any order by any
  process, the removal of a process that has released its filters, and a change of the two
  privilege fields by other system calls. A new filter gets an unused address.

  Both callers of \<^verbatim>\<open>seccomp_inherit\<close>, the fork and the thread creation of \<^verbatim>\<open>core/process.c\<close>, can still fail after it: they then
  free the child without \<^verbatim>\<open>seccomp_release\<close>, and nobody drops the references that the child took. The step \<open>fork_failed\<close> is such a
  call; the entry \<open>Lost n\<close> records the child that is gone. It belongs to no process, takes no step and is never removed. A
  reference count has 32 bits, so a fork needs room: fewer than \<open>2 ^ 32\<close> processes and failed forks in all.
\<close>

datatype task = Pid nat | Lost nat

type_synonym seccomp_sys = "filter_heap \<times> (task \<rightharpoonup> process_seccomp)"

definition zero_process :: process_seccomp where
  "zero_process = \<lparr>seccomp_mode = SECCOMP_MODE_DISABLED, seccomp_filters = None, no_new_privs = False, cred_euid = 0\<rparr>"

inductive seccomp_step :: "seccomp_sys \<Rightarrow> seccomp_sys \<Rightarrow> bool" where
  set_filter: "ps (Pid pid) = Some p \<Longrightarrow> \<forall>a. alloc = Some a \<longrightarrow> h a = None \<Longrightarrow>
     seccomp_set_mode_filter cu alloc h (Some p) flags user_program = (r, h', Some p') \<Longrightarrow>
     seccomp_step (h, ps) (h', ps(Pid pid \<mapsto> p'))"
| prctl_set: "ps (Pid pid) = Some p \<Longrightarrow> \<forall>a. alloc = Some a \<longrightarrow> h a = None \<Longrightarrow>
     seccomp_prctl_set cu alloc h (Some p) mode user_program = (r, h', Some p') \<Longrightarrow>
     seccomp_step (h, ps) (h', ps(Pid pid \<mapsto> p'))"
| set_strict: "ps (Pid pid) = Some p \<Longrightarrow> seccomp_set_mode_strict (Some p) = (r, Some p') \<Longrightarrow>
     seccomp_step (h, ps) (h, ps(Pid pid \<mapsto> p'))"
| fork: "ps (Pid parent) = Some p \<Longrightarrow> ps (Pid child) = None \<Longrightarrow> card (dom ps) + 1 < 2 ^ 32 \<Longrightarrow>
     seccomp_inherit h q p = Some (h', c) \<Longrightarrow>
     seccomp_step (h, ps) (h', ps(Pid child \<mapsto> c))"
| fork_failed: "ps (Pid parent) = Some p \<Longrightarrow> ps (Lost n) = None \<Longrightarrow> card (dom ps) + 1 < 2 ^ 32 \<Longrightarrow>
     seccomp_inherit h q p = Some (h', c) \<Longrightarrow>
     seccomp_step (h, ps) (h', ps(Lost n \<mapsto> c))"
| exit: "ps (Pid pid) = Some p \<Longrightarrow> seccomp_release h p = Some (h', p') \<Longrightarrow>
     seccomp_step (h, ps) (h', ps(Pid pid \<mapsto> p'))"
| reap: "ps (Pid pid) = Some p \<Longrightarrow> seccomp_filters p = None \<Longrightarrow>
     seccomp_step (h, ps) (h, ps(Pid pid := None))"
| privs: "ps (Pid pid) = Some p \<Longrightarrow>
     seccomp_step (h, ps) (h, ps(Pid pid \<mapsto> p\<lparr>no_new_privs := n, cred_euid := u\<rparr>))"

inductive seccomp_reachable :: "seccomp_sys \<Rightarrow> bool" where
  boot: "seccomp_reachable (Map.empty, [Pid 1 \<mapsto> zero_process])"
| step: "seccomp_reachable s \<Longrightarrow> seccomp_step s t \<Longrightarrow> seccomp_reachable t"

text \<open>
  The processes and the lost children whose list holds a filter.
\<close>

definition holders :: "seccomp_sys \<Rightarrow> addr \<Rightarrow> task set" where
  "holders s a = {pid. \<exists>p as. snd s pid = Some p \<and>
     filter_chain (fst s) (seccomp_filters p) = Some as \<and> a \<in> set as}"

definition live_holders :: "seccomp_sys \<Rightarrow> addr \<Rightarrow> nat set" where
  "live_holders s a = {pid. Pid pid \<in> holders s a}"

definition lost_holders :: "seccomp_sys \<Rightarrow> addr \<Rightarrow> nat set" where
  "lost_holders s a = {n. Lost n \<in> holders s a}"

lemma card_holders:
  assumes "finite (holders s a)"
  shows "card (holders s a) = card (live_holders s a) + card (lost_holders s a)"
proof -
  have eq: "holders s a = Pid ` live_holders s a \<union> Lost ` lost_holders s a"
    unfolding live_holders_def lost_holders_def
    by (auto simp: image_iff) (metis task.exhaust)
  have fin: "finite (Pid ` live_holders s a)" "finite (Lost ` lost_holders s a)"
    using assms eq by (metis finite_Un)+
  have "card (holders s a) = card (Pid ` live_holders s a) + card (Lost ` lost_holders s a)"
    unfolding eq by (rule card_Un_disjoint [OF fin]) auto
  then show ?thesis by (simp add: card_image inj_on_def)
qed

definition refs_inv :: "seccomp_sys \<Rightarrow> bool" where
  "refs_inv s \<longleftrightarrow> finite (dom (snd s)) \<and> card (dom (snd s)) < 2 ^ 32 \<and>
     (\<forall>pid p. snd s pid = Some p \<longrightarrow> (\<exists>as. filter_chain (fst s) (seccomp_filters p) = Some as)) \<and>
     (\<forall>a f. fst s a = Some f \<longrightarrow> f_refs f \<noteq> 0 \<and> unat (f_refs f) = card (holders s a))"

lemma refs_invD:
  assumes "refs_inv (h, ps)"
  shows "finite (dom ps)" "card (dom ps) < 2 ^ 32"
    "ps pid = Some p \<Longrightarrow> \<exists>as. filter_chain h (seccomp_filters p) = Some as"
    "h a = Some f \<Longrightarrow> f_refs f \<noteq> 0 \<and> unat (f_refs f) = card (holders (h, ps) a)"
  using assms by (auto simp: refs_inv_def)

lemma holders_subset: "holders (h, ps) a \<subseteq> dom ps"
  by (auto simp: holders_def)

lemma filter_chain_cells: "filter_chain h ptr = Some as \<Longrightarrow> a \<in> set as \<Longrightarrow> h a \<noteq> None"
  by (induction as arbitrary: ptr) auto

lemma holders_upd:
  assumes "\<And>pid' p' as. ps pid' = Some p' \<Longrightarrow> pid' \<noteq> pid \<Longrightarrow>
      filter_chain h (seccomp_filters p') = Some as \<Longrightarrow> filter_chain h' (seccomp_filters p') = Some as"
    "\<And>pid' p'. ps pid' = Some p' \<Longrightarrow> \<exists>as. filter_chain h (seccomp_filters p') = Some as"
    "filter_chain h' (seccomp_filters p) = Some new"
  shows "holders (h', ps(pid \<mapsto> p)) a = (holders (h, ps) a - {pid}) \<union> (if a \<in> set new then {pid} else {})"
  using assms unfolding holders_def by (auto split: if_splits) (metis option.inject)+

lemma refs_inv_upd:
  assumes inv: "refs_inv (h, ps)" and room: "pid \<in> dom ps \<or> card (dom ps) + 1 < 2 ^ 32"
    and keep: "\<And>pid' p' as. ps pid' = Some p' \<Longrightarrow> pid' \<noteq> pid \<Longrightarrow>
      filter_chain h (seccomp_filters p') = Some as \<Longrightarrow> filter_chain h' (seccomp_filters p') = Some as"
    and new: "filter_chain h' (seccomp_filters p) = Some new"
    and refs: "\<And>b g. h' b = Some g \<Longrightarrow> f_refs g \<noteq> 0 \<and>
      unat (f_refs g) = card ((holders (h, ps) b - {pid}) \<union> (if b \<in> set new then {pid} else {}))"
  shows "refs_inv (h', ps(pid \<mapsto> p))"
proof -
  have "\<exists>as. filter_chain h' (seccomp_filters q) = Some as"
    if "(ps(pid \<mapsto> p)) pid' = Some q" for pid' q
  proof (cases "pid' = pid")
    case True
    then show ?thesis using that new by simp
  next
    case False
    then have "ps pid' = Some q" using that by simp
    then show ?thesis using refs_invD(3) [OF inv] keep False by blast
  qed
  moreover have "holders (h', ps(pid \<mapsto> p)) b =
      (holders (h, ps) b - {pid}) \<union> (if b \<in> set new then {pid} else {})" for b
    using keep refs_invD(3) [OF inv] new by (intro holders_upd) blast+
  moreover have "card (insert pid (dom ps)) < 2 ^ 32"
    using room refs_invD(1,2) [OF inv] by (auto simp: card_insert_if)
  ultimately show ?thesis
    using refs refs_invD(1) [OF inv] by (simp add: refs_inv_def)
qed

lemma seccomp_attach_inv:
  assumes inv: "refs_inv (h, ps)" and p: "ps pid = Some p" and a: "h a = None"
    and f: "f_refs f = 1" and q: "seccomp_filters q = Some a"
  shows "refs_inv (h(a \<mapsto> f\<lparr>f_prev := seccomp_filters p\<rparr>), ps(pid \<mapsto> q))"
proof -
  let ?h = "h(a \<mapsto> f\<lparr>f_prev := seccomp_filters p\<rparr>)"
  obtain old where old: "filter_chain h (seccomp_filters p) = Some old"
    using refs_invD(3) [OF inv p] by blast
  have keep: "filter_chain ?h ptr = Some as \<and> a \<notin> set as" if "filter_chain h ptr = Some as" for ptr as
  proof -
    have "a \<notin> set as" using filter_chain_cells [OF that] a by blast
    then show ?thesis using filter_chain_cong [OF that, of ?h] by fastforce
  qed
  have none: "holders (h, ps) a = {}"
    using keep by (auto simp: holders_def)
  have old_pid: "pid \<in> holders (h, ps) b \<longleftrightarrow> b \<in> set old" for b
    using p old by (auto simp: holders_def)
  show ?thesis
  proof (rule refs_inv_upd [OF inv])
    show "filter_chain ?h (seccomp_filters q) = Some (a # old)"
      using keep [OF old] q by simp
    fix b g assume g: "?h b = Some g"
    show "f_refs g \<noteq> 0 \<and> unat (f_refs g) =
        card ((holders (h, ps) b - {pid}) \<union> (if b \<in> set (a # old) then {pid} else {}))"
    proof (cases "b = a")
      case True
      then show ?thesis using g f none by auto
    next
      case False
      then have "(holders (h, ps) b - {pid}) \<union> (if b \<in> set (a # old) then {pid} else {}) = holders (h, ps) b"
        using old_pid by auto
      then show ?thesis using g False refs_invD(4) [OF inv] by simp
    qed
  qed (use p keep in auto)
qed

lemma seccomp_inherit_inv:
  assumes inv: "refs_inv (h, ps)" and p: "ps parent = Some p" and fresh: "ps child = None"
    and room: "card (dom ps) + 1 < 2 ^ 32"
  shows "\<exists>h' c. seccomp_inherit h q p = Some (h', c) \<and> refs_inv (h', ps(child \<mapsto> c))"
proof -
  obtain as where as: "filter_chain h (seccomp_filters p) = Some as"
    using refs_invD(3) [OF inv p] by blast
  let ?h = "\<lambda>a. if a \<in> set as then map_option (\<lambda>f. f\<lparr>f_refs := f_refs f + 1\<rparr>) (h a) else h a"
  let ?c = "q\<lparr>seccomp_mode := seccomp_mode p, seccomp_filters := seccomp_filters p\<rparr>"
  have run: "seccomp_inherit h q p = Some (?h, ?c)"
    using inherit_loop_chain [OF as] by (simp add: seccomp_inherit_def)
  have keep: "filter_chain ?h ptr = Some bs" if "filter_chain h ptr = Some bs" for ptr bs
    by (rule filter_chain_cong [OF that]) auto
  have nc: "child \<notin> holders (h, ps) b" for b using fresh by (auto simp: holders_def)
  have fin: "finite (holders (h, ps) b)" for b
    using finite_subset [OF holders_subset] refs_invD(1) [OF inv] .
  have bound: "card (holders (h, ps) b) + 1 < 2 ^ 32" for b
    using card_mono [OF refs_invD(1) [OF inv] holders_subset] room by (meson add_le_mono1 le_less_trans)
  have "refs_inv (?h, ps(child \<mapsto> ?c))"
  proof (rule refs_inv_upd [OF inv])
    show "filter_chain ?h (seccomp_filters ?c) = Some as" using keep [OF as] by simp
    fix b g assume g: "?h b = Some g"
    show "f_refs g \<noteq> 0 \<and> unat (f_refs g) =
        card ((holders (h, ps) b - {child}) \<union> (if b \<in> set as then {child} else {}))"
    proof (cases "b \<in> set as")
      case True
      then obtain f where f: "h b = Some f" "g = f\<lparr>f_refs := f_refs f + 1\<rparr>" using g by auto
      have u: "unat (f_refs f) = card (holders (h, ps) b)" using refs_invD(4) [OF inv f(1)] by simp
      then have "unat (f_refs f + 1) = card (holders (h, ps) b) + 1"
        using bound [of b] by (simp add: unat_word_ariths)
      moreover from this have "f_refs f + 1 \<noteq> 0"
        by (metis add_is_0 one_neq_zero unat_0)
      ultimately show ?thesis
        using f nc fin True by (simp add: card_insert_if)
    next
      case False
      then show ?thesis using g nc refs_invD(4) [OF inv] by simp
    qed
  qed (use room keep in auto)
  with run show ?thesis by blast
qed

lemma seccomp_release_inv:
  assumes inv: "refs_inv (h, ps)" and p: "ps pid = Some p"
  shows "\<exists>h' p'. seccomp_release h p = Some (h', p') \<and> refs_inv (h', ps(pid \<mapsto> p'))"
proof -
  obtain as where as: "filter_chain h (seccomp_filters p) = Some as"
    using refs_invD(3) [OF inv p] by blast
  let ?h = "\<lambda>a. if a \<in> set as then Option.bind (h a) dropped else h a"
  let ?p = "p\<lparr>seccomp_filters := None, seccomp_mode := SECCOMP_MODE_DISABLED\<rparr>"
  have run: "seccomp_release h p = Some (?h, ?p)"
    using release_loop_chain [OF as] by (simp add: seccomp_release_def)
  have fin: "finite (holders (h, ps) b)" for b
    using finite_subset [OF holders_subset] refs_invD(1) [OF inv] .
  have mine: "pid \<in> holders (h, ps) b \<longleftrightarrow> b \<in> set as" for b
    using p as by (auto simp: holders_def)
  have pred: "unat (f_refs f - 1) = card (holders (h, ps) b - {pid})" if "h b = Some f" "b \<in> set as" for b f
  proof -
    have r: "f_refs f \<noteq> 0" "unat (f_refs f) = card (holders (h, ps) b)"
      using refs_invD(4) [OF inv that(1)] by auto
    then have "unat (f_refs f - 1) = unat (f_refs f) - 1"
      by (simp add: unat_minus_one)
    then show ?thesis using r mine that fin by (simp add: card_Diff_singleton)
  qed
  have "refs_inv (?h, ps(pid \<mapsto> ?p))"
  proof (rule refs_inv_upd [OF inv])
    show "filter_chain ?h (seccomp_filters ?p) = Some []" by simp
  next
    fix pid' p' bs
    assume o: "ps pid' = Some p'" "pid' \<noteq> pid" "filter_chain h (seccomp_filters p') = Some bs"
    show "filter_chain ?h (seccomp_filters p') = Some bs"
    proof (rule filter_chain_cong [OF o(3)])
      fix b f assume b: "b \<in> set bs" "h b = Some f"
      have "pid' \<in> holders (h, ps) b - {pid}" using o b by (auto simp: holders_def)
      then have "card (holders (h, ps) b - {pid}) \<noteq> 0" using fin by auto
      then have "f_refs f - 1 \<noteq> 0" if "b \<in> set as" using pred [OF b(2) that] by (metis unat_0)
      then show "\<exists>f'. ?h b = Some f' \<and> f_prev f' = f_prev f"
        using b by (auto simp: dropped_def)
    qed
  next
    fix b g assume g: "?h b = Some g"
    show "f_refs g \<noteq> 0 \<and> unat (f_refs g) =
        card ((holders (h, ps) b - {pid}) \<union> (if b \<in> set [] then {pid} else {}))"
    proof (cases "b \<in> set as")
      case True
      then obtain f where f: "h b = Some f" "f_refs f - 1 \<noteq> 0" "g = f\<lparr>f_refs := f_refs f - 1\<rparr>"
        using g by (auto simp: dropped_def bind_eq_Some_conv split: if_splits)
      then show ?thesis using pred [OF f(1) True] by simp
    next
      case False
      then have "pid \<notin> holders (h, ps) b" using mine by simp
      then show ?thesis using g False refs_invD(4) [OF inv] by simp
    qed
  qed (use p in auto)
  with run show ?thesis by blast
qed

section \<open>Every step keeps the counters exact\<close>

lemma filter_copy_checked:
  "filter_copy_from_user cu ok up = Some f \<Longrightarrow>
     f_refs f = 1 \<and> bpf_check (f_program f) (f_length f) = Inr ()"
  by (auto simp: filter_copy_from_user_def split: option.splits if_splits prod.splits)

lemma set_mode_filter_cases:
  assumes "seccomp_set_mode_filter cu alloc h (Some p) flags up = (r, h', Some p')"
  obtains (fail) e where "r = Inl e" "h' = h" "p' = p"
  | (attach) a f where "r = Inr ()" "alloc = Some a" "filter_copy_from_user cu True up = Some f"
      "seccomp_mode p \<noteq> SECCOMP_MODE_STRICT" "h' = h(a \<mapsto> f\<lparr>f_prev := seccomp_filters p\<rparr>)"
      "p' = p\<lparr>seccomp_filters := Some a, seccomp_mode := SECCOMP_MODE_FILTER\<rparr>"
proof (cases "flags AND NOT 0x17 \<noteq> 0 \<or> \<not> no_new_privs p \<and> cred_euid p \<noteq> 0 \<or>
    filter_copy_from_user cu (alloc \<noteq> None) up = None \<or> seccomp_mode p = SECCOMP_MODE_STRICT")
  case True
  then have "(\<exists>e. r = Inl e) \<and> h' = h \<and> p' = p"
    using assms
    by (cases "filter_copy_from_user cu (alloc \<noteq> None) up")
      (auto simp: seccomp_set_mode_filter_def attach_filter_def split: if_splits)
  then show ?thesis using fail by blast
next
  case False
  then obtain f where f: "filter_copy_from_user cu (alloc \<noteq> None) up = Some f" by auto
  then obtain a where a: "alloc = Some a"
    by (cases alloc) (auto simp: filter_copy_from_user_def split: option.splits if_splits)
  from False have "flags AND NOT 0x17 = 0" "(\<not> no_new_privs p \<and> cred_euid p \<noteq> 0) = False"
    "seccomp_mode p \<noteq> SECCOMP_MODE_STRICT" by blast+
  with f a assms attach [of a f] show ?thesis
    by (simp add: seccomp_set_mode_filter_def attach_filter_def del: de_Morgan_conj)
qed

lemma set_mode_strict_frame:
  assumes "seccomp_set_mode_strict (Some p) = (r, Some p')"
  shows "seccomp_filters p' = seccomp_filters p"
    "p' = p \<or> seccomp_mode p \<noteq> SECCOMP_MODE_FILTER \<and> p' = p\<lparr>seccomp_mode := SECCOMP_MODE_STRICT\<rparr>"
  using assms by (auto simp: seccomp_set_mode_strict_def split: if_splits)

lemma refs_inv_frame:
  assumes inv: "refs_inv (h, ps)" and p: "ps pid = Some p" and q: "seccomp_filters q = seccomp_filters p"
  shows "refs_inv (h, ps(pid \<mapsto> q))"
proof -
  obtain as where as: "filter_chain h (seccomp_filters p) = Some as"
    using refs_invD(3) [OF inv p] by blast
  have mine: "pid \<in> holders (h, ps) b \<longleftrightarrow> b \<in> set as" for b
    using p as by (auto simp: holders_def)
  have same: "(holders (h, ps) b - {pid}) \<union> (if b \<in> set as then {pid} else {}) = holders (h, ps) b" for b
    using mine by auto
  show ?thesis
  proof (rule refs_inv_upd [OF inv])
    fix b g assume "h b = Some g"
    then show "f_refs g \<noteq> 0 \<and> unat (f_refs g) =
        card ((holders (h, ps) b - {pid}) \<union> (if b \<in> set as then {pid} else {}))"
      unfolding same by (rule refs_invD(4) [OF inv])
  qed (use p q as in auto)
qed

lemma refs_inv_reap:
  assumes inv: "refs_inv (h, ps)" and p: "ps pid = Some p" "seccomp_filters p = None"
  shows "refs_inv (h, ps(pid := None))"
proof -
  have "holders (h, ps(pid := None)) b = holders (h, ps) b" for b
    using p unfolding holders_def by (auto split: if_splits)
  moreover have "card (dom ps - {pid}) < 2 ^ 32"
    using refs_invD(1,2) [OF inv] by (meson card_Diff1_le le_less_trans)
  ultimately show ?thesis
    using inv by (auto simp: refs_inv_def split: if_splits)
qed

lemma filters_checked_upd:
  "filters_checked h \<Longrightarrow> bpf_check (f_program f) (f_length f) = Inr () \<Longrightarrow> filters_checked (h(a \<mapsto> f))"
  by (auto simp: filters_checked_def ran_def split: if_splits)

lemma filters_checked_cong:
  assumes "filters_checked h"
    "\<And>a f'. h' a = Some f' \<Longrightarrow> \<exists>f. h a = Some f \<and> f_program f' = f_program f \<and> f_length f' = f_length f"
  shows "filters_checked h'"
  unfolding filters_checked_def
proof
  fix f' assume "f' \<in> ran h'"
  then obtain a where "h' a = Some f'" by (auto simp: ran_def)
  with assms(2) obtain f where "h a = Some f" "f_program f' = f_program f" "f_length f' = f_length f"
    by blast
  then show "bpf_check (f_program f') (f_length f') = Inr ()"
    using assms(1) by (auto simp: filters_checked_def ran_def)
qed

lemma seccomp_inherit_checked:
  assumes inv: "refs_inv (h, ps)" and p: "ps parent = Some p" and chk: "filters_checked h"
    and run: "seccomp_inherit h q p = Some (h', c)"
  shows "filters_checked h'"
proof -
  obtain as where as: "filter_chain h (seccomp_filters p) = Some as"
    using refs_invD(3) [OF inv p] by blast
  have "h' = (\<lambda>a. if a \<in> set as then map_option (\<lambda>f. f\<lparr>f_refs := f_refs f + 1\<rparr>) (h a) else h a)"
    using run inherit_loop_chain [OF as] by (simp add: seccomp_inherit_def)
  then show ?thesis
    by (intro filters_checked_cong [OF chk]) (auto split: if_splits)
qed

lemma seccomp_release_checked:
  assumes inv: "refs_inv (h, ps)" and p: "ps pid = Some p" and chk: "filters_checked h"
    and run: "seccomp_release h p = Some (h', p')"
  shows "filters_checked h'"
proof -
  obtain as where as: "filter_chain h (seccomp_filters p) = Some as"
    using refs_invD(3) [OF inv p] by blast
  have "h' = (\<lambda>a. if a \<in> set as then Option.bind (h a) dropped else h a)"
    using run release_loop_chain [OF as] by (simp add: seccomp_release_def)
  then show ?thesis
    by (intro filters_checked_cong [OF chk])
      (auto simp: dropped_def bind_eq_Some_conv split: if_splits)
qed

lemma set_mode_filter_inv:
  assumes run: "seccomp_set_mode_filter cu alloc h (Some p) flags up = (r, h', Some p')"
    and inv: "refs_inv (h, ps)" and chk: "filters_checked h" and p: "ps pid = Some p"
    and fresh: "\<forall>a. alloc = Some a \<longrightarrow> h a = None"
  shows "refs_inv (h', ps(pid \<mapsto> p')) \<and> filters_checked h'"
  using run
proof (cases rule: set_mode_filter_cases)
  case fail
  then show ?thesis using refs_inv_frame [OF inv p refl] chk by simp
next
  case (attach a f)
  have a: "h a = None" using fresh attach(2) by simp
  have q: "seccomp_filters p' = Some a" using attach by simp
  note ok = filter_copy_checked [OF attach(3)]
  have "refs_inv (h', ps(pid \<mapsto> p'))"
    unfolding attach(5) by (rule seccomp_attach_inv [OF inv p a _ q]) (simp add: ok)
  moreover have "filters_checked h'"
    unfolding attach(5) using chk ok by (intro filters_checked_upd) simp_all
  ultimately show ?thesis by simp
qed

lemma set_mode_strict_inv:
  assumes run: "seccomp_set_mode_strict (Some p) = (r, Some p')"
    and inv: "refs_inv (h, ps)" and p: "ps pid = Some p"
  shows "refs_inv (h, ps(pid \<mapsto> p'))"
  using refs_inv_frame [OF inv p set_mode_strict_frame(1) [OF run]] .

lemma prctl_set_cases:
  assumes "seccomp_prctl_set cu alloc h (Some p) mode up = (r, h', Some p')"
  obtains (strict) "seccomp_set_mode_strict (Some p) = (r, Some p')" "h' = h"
  | (filter) "seccomp_set_mode_filter cu alloc h (Some p) 0 up = (r, h', Some p')"
  | (fail) "h' = h" "p' = p" "r = Inl EINVAL"
proof -
  consider "mode = 1" | "mode = 2" | "mode \<noteq> 1" "mode \<noteq> 2" by blast
  then show ?thesis
  proof cases
    case 1
    then show ?thesis
      using assms strict by (cases "seccomp_set_mode_strict (Some p)") (simp add: seccomp_prctl_set_def)
  next
    case 2
    then show ?thesis using assms filter by (simp add: seccomp_prctl_set_def)
  next
    case 3
    then show ?thesis using assms fail by (simp add: seccomp_prctl_set_def)
  qed
qed

lemma prctl_set_inv:
  assumes run: "seccomp_prctl_set cu alloc h (Some p) mode up = (r, h', Some p')"
    and inv: "refs_inv (h, ps)" and chk: "filters_checked h" and p: "ps pid = Some p"
    and fresh: "\<forall>a. alloc = Some a \<longrightarrow> h a = None"
  shows "refs_inv (h', ps(pid \<mapsto> p')) \<and> filters_checked h'"
  using run
proof (cases rule: prctl_set_cases)
  case strict
  then show ?thesis using set_mode_strict_inv [OF strict(1) inv p] chk by simp
next
  case filter
  then show ?thesis by (rule set_mode_filter_inv [OF _ inv chk p fresh])
next
  case fail
  then show ?thesis using refs_inv_frame [OF inv p refl] chk by simp
qed

lemma seccomp_step_inv:
  assumes "seccomp_step s t" "refs_inv s" "filters_checked (fst s)"
  shows "refs_inv t \<and> filters_checked (fst t)"
  using assms
proof (induction rule: seccomp_step.induct)
  case (set_filter ps pid p alloc h cu flags user_program r h' p')
  show ?case
    using set_mode_filter_inv [OF set_filter(3) set_filter.prems(1) _ set_filter(1,2)] set_filter.prems(2)
    by simp
next
  case (prctl_set ps pid p alloc h cu mode user_program r h' p')
  show ?case
    using prctl_set_inv [OF prctl_set(3) prctl_set.prems(1) _ prctl_set(1,2)] prctl_set.prems(2)
    by simp
next
  case (set_strict ps pid p r p' h)
  show ?case
    using set_mode_strict_inv [OF set_strict(2) set_strict.prems(1) set_strict(1)] set_strict.prems(2)
    by simp
next
  case (fork ps parent p child h q h' c)
  have "refs_inv (h', ps(Pid child \<mapsto> c))"
    using seccomp_inherit_inv [OF fork.prems(1) fork(1-3), of q] unfolding fork(4) by simp
  moreover have "filters_checked h'"
    by (rule seccomp_inherit_checked [OF fork.prems(1) fork(1) _ fork(4)]) (use fork.prems in simp)
  ultimately show ?case by simp
next
  case (fork_failed ps parent p n h q h' c)
  have "refs_inv (h', ps(Lost n \<mapsto> c))"
    using seccomp_inherit_inv [OF fork_failed.prems(1) fork_failed(1-3), of q] unfolding fork_failed(4) by simp
  moreover have "filters_checked h'"
    by (rule seccomp_inherit_checked [OF fork_failed.prems(1) fork_failed(1) _ fork_failed(4)]) (use fork_failed.prems in simp)
  ultimately show ?case by simp
next
  case (exit ps pid p h h' p')
  have "refs_inv (h', ps(Pid pid \<mapsto> p'))"
    using seccomp_release_inv [OF exit.prems(1) exit(1)] unfolding exit(2) by simp
  moreover have "filters_checked h'"
    by (rule seccomp_release_checked [OF exit.prems(1) exit(1) _ exit(2)]) (use exit.prems in simp)
  ultimately show ?case by simp
next
  case (reap ps pid p h)
  then show ?case using refs_inv_reap [OF reap.prems(1) reap(1,2)] by simp
next
  case (privs ps pid p h u n)
  have "refs_inv (h, ps(Pid pid \<mapsto> p\<lparr>no_new_privs := n, cred_euid := u\<rparr>))"
    by (rule refs_inv_frame [OF privs.prems(1) privs(1)]) simp
  then show ?case using privs.prems(2) by simp
qed

lemma seccomp_reachable_inv: "seccomp_reachable s \<Longrightarrow> refs_inv s \<and> filters_checked (fst s)"
proof (induction rule: seccomp_reachable.induct)
  case boot
  then show ?case by (auto simp: refs_inv_def filters_checked_def zero_process_def)
next
  case (step s t)
  then show ?case using seccomp_step_inv by blast
qed

lemma decide_filter_mode:
  assumes "filters_checked h" "filter_chain h (seccomp_filters p) = Some as"
    "seccomp_mode p \<noteq> SECCOMP_MODE_DISABLED" "seccomp_mode p \<noteq> SECCOMP_MODE_STRICT"
  shows "\<exists>r. seccomp_decide arch h (Some p) frame nr = Some r \<and>
     r \<in> insert SECCOMP_RET_ALLOW (filter_result h (frame_data arch frame nr) ` set as) \<and>
     (\<forall>a \<in> set as. seccomp_rank (filter_result h (frame_data arch frame nr) a) \<le> seccomp_rank r)"
proof -
  have r0: "seccomp_rank SECCOMP_RET_ALLOW = 0" by (simp add: seccomp_rank_def)
  show ?thesis
    using decide_loop_chain [OF assms(1,2), of "frame_data arch frame nr" SECCOMP_RET_ALLOW] assms(3,4)
    by (auto simp: seccomp_decide_def r0)
qed

section \<open>Decisions across steps\<close>

definition same_code :: "seccomp_filter \<Rightarrow> seccomp_filter \<Rightarrow> bool" where
  "same_code f f' \<longleftrightarrow> f_prev f' = f_prev f \<and> f_length f' = f_length f \<and> f_program f' = f_program f"

lemma decide_loop_cong:
  assumes "filter_chain h ptr = Some as"
    "\<And>a f. a \<in> set as \<Longrightarrow> h a = Some f \<Longrightarrow> \<exists>f'. h' a = Some f' \<and> same_code f f'"
  shows "decide_loop h' data ptr best rank = decide_loop h data ptr best rank"
  using assms
proof (induction as arbitrary: ptr best rank)
  case Nil
  then show ?case by (simp add: decide_loop.simps)
next
  case (Cons a as)
  then obtain f where f: "ptr = Some a" "h a = Some f" "filter_chain h (f_prev f) = Some as"
    by auto
  obtain f' where f': "h' a = Some f'" "same_code f f'"
    using Cons.prems(2) [of a f] f by auto
  have ih: "decide_loop h' data (f_prev f) b r = decide_loop h data (f_prev f) b r" for b r
    using Cons.prems(2) by (intro Cons.IH [OF f(3)]) auto
  have eq: "f_prev f' = f_prev f" "f_length f' = f_length f" "f_program f' = f_program f"
    using f'(2) by (simp_all add: same_code_def)
  have "decide_loop h' data ptr best rank =
      Option.bind (bpf_run (f_program f) (f_length f) data) (\<lambda>result.
        if seccomp_rank result > rank
        then decide_loop h' data (f_prev f) result (seccomp_rank result)
        else decide_loop h' data (f_prev f) best rank)"
    by (subst decide_loop.simps) (simp add: f f' eq cong: if_cong)
  also have "\<dots> = decide_loop h data ptr best rank"
    unfolding ih by (subst (3) decide_loop.simps) (simp add: f)
  finally show ?case .
qed

lemma seccomp_decide_cong:
  assumes "filter_chain h (seccomp_filters p) = Some as"
    "\<And>a f. a \<in> set as \<Longrightarrow> h a = Some f \<Longrightarrow> \<exists>f'. h' a = Some f' \<and> same_code f f'"
  shows "seccomp_decide arch h' (Some p) frame nr = seccomp_decide arch h (Some p) frame nr"
  using decide_loop_cong [OF assms] by (simp add: seccomp_decide_def)

lemma set_mode_filter_extends:
  assumes run: "seccomp_set_mode_filter cu alloc h (Some p) flags up = (r, h', Some p')"
    and fresh: "\<forall>a. alloc = Some a \<longrightarrow> h a = None"
  shows "h \<subseteq>\<^sub>m h'"
  using run
proof (cases rule: set_mode_filter_cases)
  case fail
  then show ?thesis by simp
next
  case (attach a f)
  then show ?thesis using fresh by (auto simp: map_le_def)
qed

lemma prctl_set_extends:
  assumes run: "seccomp_prctl_set cu alloc h (Some p) mode up = (r, h', Some p')"
    and fresh: "\<forall>a. alloc = Some a \<longrightarrow> h a = None"
  shows "h \<subseteq>\<^sub>m h'"
  using run
proof (cases rule: prctl_set_cases)
  case filter
  then show ?thesis by (rule set_mode_filter_extends [OF _ fresh])
qed simp_all

lemma inherit_same_code:
  assumes "seccomp_inherit h q p = Some (h', c)" "filter_chain h (seccomp_filters p) = Some as"
    "h' a = Some f'"
  shows "\<exists>f. h a = Some f \<and> same_code f f'"
  using assms(1,3) inherit_loop_chain [OF assms(2)]
  by (auto simp: seccomp_inherit_def same_code_def split: if_splits)

lemma release_same_code:
  assumes "seccomp_release h p = Some (h', p')" "filter_chain h (seccomp_filters p) = Some as"
    "h' a = Some f'"
  shows "\<exists>f. h a = Some f \<and> same_code f f'"
  using assms(1,3) release_loop_chain [OF assms(2)]
  by (auto simp: seccomp_release_def same_code_def dropped_def bind_eq_Some_conv split: if_splits)

lemma same_code_sym: "same_code f f' \<Longrightarrow> same_code f' f"
  by (simp add: same_code_def)

lemma seccomp_step_heap:
  assumes "seccomp_step s t" "refs_inv s"
  shows "fst s \<subseteq>\<^sub>m fst t \<or> (\<forall>a f'. fst t a = Some f' \<longrightarrow> (\<exists>f. fst s a = Some f \<and> same_code f f'))"
  using assms
proof (induction rule: seccomp_step.induct)
  case (set_filter ps pid p alloc h cu flags user_program r h' p')
  then show ?case using set_mode_filter_extends [OF set_filter(3,2)] by simp
next
  case (prctl_set ps pid p alloc h cu mode user_program r h' p')
  then show ?case using prctl_set_extends [OF prctl_set(3,2)] by simp
next
  case (fork ps parent p child h q h' c)
  obtain as where "filter_chain h (seccomp_filters p) = Some as"
    using refs_invD(3) [OF fork.prems fork(1)] by blast
  from inherit_same_code [OF fork(4) this] show ?case by simp
next
  case (fork_failed ps parent p n h q h' c)
  obtain as where "filter_chain h (seccomp_filters p) = Some as"
    using refs_invD(3) [OF fork_failed.prems fork_failed(1)] by blast
  from inherit_same_code [OF fork_failed(4) this] show ?case by simp
next
  case (exit ps pid p h h' p')
  obtain as where "filter_chain h (seccomp_filters p) = Some as"
    using refs_invD(3) [OF exit.prems exit(1)] by blast
  from release_same_code [OF exit(2) this] show ?case by simp
qed (simp_all add: map_le_def)

lemma map_le_same_code: "h \<subseteq>\<^sub>m h' \<Longrightarrow> h a = Some f \<Longrightarrow> \<exists>f'. h' a = Some f' \<and> same_code f f'"
  by (force simp: map_le_def same_code_def dom_def)

lemma seccomp_step_chain:
  assumes step: "seccomp_step s t" and inv: "refs_inv s" "filters_checked (fst s)"
    and p: "snd s pid = Some p" "snd t pid = Some p" and as: "filter_chain (fst s) (seccomp_filters p) = Some as"
  shows "filter_chain (fst t) (seccomp_filters p) = Some as"
proof -
  obtain bs where bs: "filter_chain (fst t) (seccomp_filters p) = Some bs"
    using refs_invD(3) [of "fst t" "snd t" pid p] seccomp_step_inv [OF step inv] p(2) by auto
  from seccomp_step_heap [OF step inv(1)] show ?thesis
  proof
    assume "fst s \<subseteq>\<^sub>m fst t"
    then show ?thesis using map_le_same_code by (intro filter_chain_cong [OF as]) (auto simp: same_code_def dest: map_le_same_code)
  next
    assume same: "\<forall>a f'. fst t a = Some f' \<longrightarrow> (\<exists>f. fst s a = Some f \<and> same_code f f')"
    have "filter_chain (fst s) (seccomp_filters p) = Some bs"
      by (rule filter_chain_cong [OF bs]) (use same in \<open>fastforce simp: same_code_def\<close>)
    then show ?thesis using as bs by simp
  qed
qed

lemma seccomp_step_decide:
  assumes step: "seccomp_step s t" and inv: "refs_inv s" "filters_checked (fst s)"
    and p: "snd s pid = Some p" "snd t pid = Some p"
  shows "seccomp_decide arch (fst t) (Some p) frame nr = seccomp_decide arch (fst s) (Some p) frame nr"
proof -
  obtain h ps where s: "s = (h, ps)" by (cases s)
  obtain h' ps' where t: "t = (h', ps')" by (cases t)
  have inv': "refs_inv (h', ps')" using seccomp_step_inv [OF step inv] t by simp
  obtain as where as: "filter_chain h (seccomp_filters p) = Some as"
    using refs_invD(3) [of h ps pid p] inv p s by auto
  obtain bs where bs: "filter_chain h' (seccomp_filters p) = Some bs"
    using refs_invD(3) [OF inv', of pid p] p t by auto
  from seccomp_step_heap [OF step inv(1)] consider "h \<subseteq>\<^sub>m h'"
    | "\<forall>a f'. h' a = Some f' \<longrightarrow> (\<exists>f. h a = Some f \<and> same_code f f')"
    using s t by auto
  then have "seccomp_decide arch h' (Some p) frame nr = seccomp_decide arch h (Some p) frame nr"
  proof cases
    case 1
    show ?thesis by (rule seccomp_decide_cong [OF as]) (rule map_le_same_code [OF 1])
  next
    case 2
    then show ?thesis
      by (intro seccomp_decide_cong [OF bs, symmetric]) (blast intro: same_code_sym)
  qed
  then show ?thesis using s t by simp
qed

lemma seccomp_step_keeps_lost: "seccomp_step s t \<Longrightarrow> snd s (Lost n) = Some p \<Longrightarrow> snd t (Lost n) = Some p"
  by (induction rule: seccomp_step.induct) auto

lemma seccomp_step_lost:
  assumes step: "seccomp_step s t" and inv: "refs_inv s" "filters_checked (fst s)" and n: "Lost n \<in> holders s a"
  shows "Lost n \<in> holders t a"
proof -
  obtain p as where p: "snd s (Lost n) = Some p" "filter_chain (fst s) (seccomp_filters p) = Some as" "a \<in> set as"
    using n by (auto simp: holders_def)
  have q: "snd t (Lost n) = Some p" by (rule seccomp_step_keeps_lost [OF step p(1)])
  have "filter_chain (fst t) (seccomp_filters p) = Some as"
    by (rule seccomp_step_chain [OF step inv p(1) q p(2)])
  with q p(3) show ?thesis by (auto simp: holders_def)
qed

lemma seccomp_call_mode:
  assumes "seccomp_set_mode_filter cu alloc h (Some p) flags up = (r, h', Some p') \<or>
      seccomp_prctl_set cu alloc h (Some p) mode up = (r, h', Some p')"
    "seccomp_active (Some p)" "seccomp_mode p \<le> SECCOMP_MODE_FILTER"
  shows "seccomp_mode p' = seccomp_mode p"
proof -
  have by_filter: "seccomp_mode p' = seccomp_mode p"
    if "seccomp_set_mode_filter cu alloc h (Some p) fl up = (r, h', Some p')" for fl
    using that
  proof (cases rule: set_mode_filter_cases)
    case fail
    then show ?thesis by simp
  next
    case attach
    then show ?thesis using assms(2,3) by (auto simp: seccomp_active_def le_Suc_eq numeral_2_eq_2)
  qed
  have "seccomp_mode p' = seccomp_mode p"
    if "seccomp_prctl_set cu alloc h (Some p) mode up = (r, h', Some p')"
    using that
  proof (cases rule: prctl_set_cases)
    case strict
    then show ?thesis
      using set_mode_strict_frame(2) [OF strict(1)] assms(2,3)
      by (auto simp: seccomp_active_def le_Suc_eq numeral_2_eq_2)
  next
    case filter
    then show ?thesis by (rule by_filter)
  qed simp
  with by_filter assms(1) show ?thesis by blast
qed

lemma call_modes:
  assumes "seccomp_mode p \<le> 2"
  shows "seccomp_set_mode_filter cu alloc h (Some p) flags up = (r, h', Some p') \<Longrightarrow> seccomp_mode p' \<le> 2"
    and "seccomp_set_mode_strict (Some p) = (r, Some p') \<Longrightarrow> seccomp_mode p' \<le> 2"
    and "seccomp_prctl_set cu alloc h (Some p) mode up = (r, h', Some p') \<Longrightarrow> seccomp_mode p' \<le> 2"
proof -
  show filter: "seccomp_mode p' \<le> 2"
    if "seccomp_set_mode_filter cu alloc h (Some p) flags up = (r, h', Some p')" for flags
    using that by (cases rule: set_mode_filter_cases) (use assms in simp_all)
  show strict: "seccomp_mode p' \<le> 2" if "seccomp_set_mode_strict (Some p) = (r, Some p')"
    using set_mode_strict_frame(2) [OF that] assms by auto
  show "seccomp_mode p' \<le> 2" if "seccomp_prctl_set cu alloc h (Some p) mode up = (r, h', Some p')"
    using that by (cases rule: prctl_set_cases) (use assms filter strict in auto)
qed

lemma seccomp_step_modes:
  assumes "seccomp_step s t" "\<And>pid p. snd s pid = Some p \<Longrightarrow> seccomp_mode p \<le> 2" "snd t pid' = Some q"
  shows "seccomp_mode q \<le> 2"
  using assms
proof (induction rule: seccomp_step.induct)
  case (set_filter ps pid p alloc h cu flags user_program r h' p')
  have "seccomp_mode p' \<le> 2" by (rule call_modes(1) [OF _ set_filter(3)]) (use set_filter in simp)
  with set_filter.prems show ?case by (cases "pid' = Pid pid") auto
next
  case (prctl_set ps pid p alloc h cu mode user_program r h' p')
  have "seccomp_mode p' \<le> 2" by (rule call_modes(3) [OF _ prctl_set(3)]) (use prctl_set in simp)
  with prctl_set.prems show ?case by (cases "pid' = Pid pid") auto
next
  case (set_strict ps pid p r p' h)
  have "seccomp_mode p' \<le> 2" by (rule call_modes(2) [OF _ set_strict(2)]) (use set_strict in simp)
  with set_strict.prems show ?case by (cases "pid' = Pid pid") auto
next
  case (fork ps parent p child h q' h' c)
  have "seccomp_mode c = seccomp_mode p"
    using fork(4) by (auto simp: seccomp_inherit_def bind_eq_Some_conv)
  with fork(1) fork.prems show ?case by (cases "pid' = Pid child") auto
next
  case (fork_failed ps parent p n h q' h' c)
  have "seccomp_mode c = seccomp_mode p"
    using fork_failed(4) by (auto simp: seccomp_inherit_def bind_eq_Some_conv)
  with fork_failed(1) fork_failed.prems show ?case by (cases "pid' = Lost n") auto
next
  case (exit ps pid p h h' p')
  have "seccomp_mode p' = 0" using exit(2) by (auto simp: seccomp_release_def bind_eq_Some_conv)
  with exit.prems show ?case by (cases "pid' = Pid pid") auto
next
  case (reap ps pid p h)
  then show ?case by (cases "pid' = Pid pid") auto
next
  case (privs ps pid p h u n)
  then show ?case by (cases "pid' = Pid pid") auto
qed

lemma seccomp_reachable_modes:
  "seccomp_reachable s \<Longrightarrow> snd s pid = Some p \<Longrightarrow> seccomp_mode p \<le> 2"
proof (induction arbitrary: pid p rule: seccomp_reachable.induct)
  case boot
  then show ?case by (auto simp: zero_process_def split: if_splits)
next
  case (step s t)
  then show ?case using seccomp_step_modes by blast
qed

lemma decide_chain_mono:
  assumes chk: "filters_checked h'" and le: "h \<subseteq>\<^sub>m h'" and chk0: "filters_checked h"
    and as: "filter_chain h (seccomp_filters p) = Some as" "filter_chain h' (seccomp_filters p') = Some (bs @ as)"
    and mode: "seccomp_mode p \<noteq> SECCOMP_MODE_STRICT" "seccomp_mode p' = SECCOMP_MODE_FILTER"
  shows "\<exists>r r'. seccomp_decide arch h (Some p) frame nr = Some r \<and>
    seccomp_decide arch h' (Some p') frame nr = Some r' \<and> seccomp_rank r \<le> seccomp_rank r'"
proof -
  let ?d = "frame_data arch frame nr"
  obtain r' where r': "seccomp_decide arch h' (Some p') frame nr = Some r'"
    "\<forall>a \<in> set (bs @ as). seccomp_rank (filter_result h' ?d a) \<le> seccomp_rank r'"
    using decide_filter_mode [OF chk as(2), of arch frame nr] mode(2) by auto
  have r0: "seccomp_rank SECCOMP_RET_ALLOW = 0" by (simp add: seccomp_rank_def)
  show ?thesis
  proof (cases "seccomp_mode p = SECCOMP_MODE_DISABLED")
    case True
    then show ?thesis using r' r0 by (simp add: seccomp_decide_def)
  next
    case False
    then obtain r where r: "seccomp_decide arch h (Some p) frame nr = Some r"
      "r \<in> insert SECCOMP_RET_ALLOW (filter_result h ?d ` set as)"
      using decide_filter_mode [OF chk0 as(1) _ mode(1), of arch frame nr] by blast
    have "filter_result h ?d a = filter_result h' ?d a" if "a \<in> set as" for a
      using filter_chain_cells [OF as(1) that] le by (auto simp: filter_result_def map_le_def dom_def)
    then have "seccomp_rank r \<le> seccomp_rank r'"
      using r(2) r'(2) r0 by auto
    then show ?thesis using r(1) r'(1) by blast
  qed
qed

lemma filter_chain_map_le:
  assumes le: "h \<subseteq>\<^sub>m h'" and chain: "filter_chain h ptr = Some as"
  shows "filter_chain h' ptr = Some as"
proof (rule filter_chain_cong [OF chain])
  fix a f assume "h a = Some f"
  from map_le_same_code [OF le this] show "\<exists>f'. h' a = Some f' \<and> f_prev f' = f_prev f"
    unfolding same_code_def by blast
qed

lemma set_mode_filter_mono:
  assumes run: "seccomp_set_mode_filter cu alloc h (Some p) flags up = (r, h', Some p')"
    and inv: "refs_inv (h, ps)" "filters_checked h" and p: "ps pid = Some p"
    and fresh: "\<forall>a. alloc = Some a \<longrightarrow> h a = None" and ok: "r = Inr ()"
  shows "\<exists>r r'. seccomp_decide arch h (Some p) frame nr = Some r \<and>
    seccomp_decide arch h' (Some p') frame nr = Some r' \<and> seccomp_rank r \<le> seccomp_rank r'"
  using run
proof (cases rule: set_mode_filter_cases)
  case fail
  then show ?thesis using ok by simp
next
  case (attach a f)
  obtain as where as: "filter_chain h (seccomp_filters p) = Some as"
    using refs_invD(3) [OF inv(1) p] by blast
  have le: "h \<subseteq>\<^sub>m h'" by (rule set_mode_filter_extends [OF run fresh])
  have chain: "filter_chain h' (seccomp_filters p') = Some ([a] @ as)"
    using filter_chain_map_le [OF le as] attach by simp
  have "filters_checked h'" using set_mode_filter_inv [OF run inv p fresh] ..
  then show ?thesis
    by (rule decide_chain_mono [OF _ le inv(2) as chain]) (use attach in simp_all)
qed

lemma set_mode_strict_mono:
  assumes run: "seccomp_set_mode_strict (Some p) = (Inr (), Some p')" and m: "seccomp_mode p \<le> 2"
  shows "\<exists>r r'. seccomp_decide arch h (Some p) frame nr = Some r \<and>
    seccomp_decide arch h (Some p') frame nr = Some r' \<and> seccomp_rank r \<le> seccomp_rank r'"
proof -
  have "seccomp_mode p = 0 \<or> seccomp_mode p = 1" "seccomp_mode p' = 1"
    using run m by (auto simp: seccomp_set_mode_strict_def le_Suc_eq numeral_2_eq_2 split: if_splits)
  moreover have "seccomp_rank SECCOMP_RET_ALLOW = 0" by (simp add: seccomp_rank_def)
  ultimately show ?thesis by (auto simp: seccomp_decide_def)
qed

lemma prctl_set_mono:
  assumes run: "seccomp_prctl_set cu alloc h (Some p) mode up = (Inr (), h', Some p')"
    and inv: "refs_inv (h, ps)" "filters_checked h" and p: "ps pid = Some p"
    and fresh: "\<forall>a. alloc = Some a \<longrightarrow> h a = None" and m: "seccomp_mode p \<le> 2"
  shows "\<exists>r r'. seccomp_decide arch h (Some p) frame nr = Some r \<and>
    seccomp_decide arch h' (Some p') frame nr = Some r' \<and> seccomp_rank r \<le> seccomp_rank r'"
  using run
proof (cases rule: prctl_set_cases)
  case strict
  then show ?thesis using set_mode_strict_mono [OF strict(1) m] by simp
next
  case filter
  then show ?thesis by (rule set_mode_filter_mono [OF _ inv p fresh refl])
qed simp

section \<open>A sample system\<close>

text \<open>
  The first process installs a filter that kills it on every system call. \<open>deny_user\<close> answers the
  two copies from user memory.
\<close>

definition deny_user :: copy_user where
  "deny_user = \<lparr>copy_fprog = (\<lambda>_. Some (1, 4096)),
     copy_insns = (\<lambda>_ _. Some [\<lparr>sf_code = 6, sf_jt = 0, sf_jf = 0, sf_k = 0x80000000\<rparr>])\<rparr>"

definition deny_filter :: seccomp_filter where
  "deny_filter = \<lparr>f_prev = None, f_refs = 1, f_length = 1,
     f_program = [\<lparr>sf_code = 6, sf_jt = 0, sf_jf = 0, sf_k = 0x80000000\<rparr>]\<rparr>"

definition denied :: process_seccomp where
  "denied = zero_process\<lparr>seccomp_filters := Some 7, seccomp_mode := SECCOMP_MODE_FILTER\<rparr>"

lemma deny_install:
  "seccomp_set_mode_filter deny_user (Some 7) Map.empty (Some zero_process) 0 0 =
     (Inr (), [7 \<mapsto> deny_filter], Some denied)"
  by (simp add: seccomp_set_mode_filter_def filter_copy_from_user_def deny_user_def deny_filter_def
      denied_def zero_process_def bpf_check_def bpf_check_insn_def valid_opcode_def BPF_CLASS_def
      BPF_MODE_def attach_filter_def)

lemma deny_step: "seccomp_step (Map.empty, [Pid 1 \<mapsto> zero_process]) ([7 \<mapsto> deny_filter], [Pid 1 \<mapsto> denied])"
proof -
  have "seccomp_step (Map.empty, [Pid 1 \<mapsto> zero_process])
      ([7 \<mapsto> deny_filter], [Pid 1 \<mapsto> zero_process](Pid 1 \<mapsto> denied))"
    by (rule seccomp_step.set_filter [OF _ _ deny_install]) simp_all
  then show ?thesis by simp
qed

lemma deny_reachable: "seccomp_reachable ([7 \<mapsto> deny_filter], [Pid 1 \<mapsto> denied])"
  by (rule seccomp_reachable.step [OF seccomp_reachable.boot deny_step])

lemma deny_inherit:
  "seccomp_inherit [7 \<mapsto> deny_filter] zero_process denied = Some ([7 \<mapsto> deny_filter\<lparr>f_refs := 2\<rparr>], denied)"
proof -
  have "filter_chain [7 \<mapsto> deny_filter] (Some 7) = Some [7]"
    by (simp add: deny_filter_def)
  from inherit_loop_chain [OF this]
  have "inherit_loop [7 \<mapsto> deny_filter] (Some 7) = Some [7 \<mapsto> deny_filter\<lparr>f_refs := 2\<rparr>]"
    by (auto simp: deny_filter_def fun_eq_iff)
  then show ?thesis by (simp add: seccomp_inherit_def denied_def)
qed

lemma deny_fork:
  "seccomp_step ([7 \<mapsto> deny_filter], [Pid 1 \<mapsto> denied])
     ([7 \<mapsto> deny_filter\<lparr>f_refs := 2\<rparr>], [Pid 1 \<mapsto> denied, Pid 2 \<mapsto> denied])"
  by (rule seccomp_step.fork [OF _ _ _ deny_inherit]) simp_all

lemma deny_fork_failed:
  "seccomp_step ([7 \<mapsto> deny_filter], [Pid 1 \<mapsto> denied])
     ([7 \<mapsto> deny_filter\<lparr>f_refs := 2\<rparr>], [Pid 1 \<mapsto> denied, Lost 0 \<mapsto> denied])"
  by (rule seccomp_step.fork_failed [OF _ _ _ deny_inherit]) simp_all

section \<open>Properties\<close>

text \<open>
  C10: In every reachable state of the system a process's filter list ends and each filter on it is
  allocated, and the reference count of every allocated filter is the number of processes whose list holds it plus the number of
  failed forks whose child had taken a reference. So no process follows a pointer to a freed filter; as long as no fork has failed
  after inheriting, a filter does not outlive its last holder, and a filter that a failed fork has counted is never freed.
\<close>

theorem seccomp_references_exact:
  assumes "seccomp_reachable (h, ps)"
  shows "(\<forall>pid p. ps pid = Some p \<longrightarrow> (\<exists>as. filter_chain h (seccomp_filters p) = Some as)) \<and>
    (\<forall>a f. h a = Some f \<longrightarrow>
       unat (f_refs f) = card (live_holders (h, ps) a) + card (lost_holders (h, ps) a) \<and>
       ((\<forall>n. ps (Lost n) = None) \<longrightarrow> unat (f_refs f) = card (live_holders (h, ps) a) \<and> live_holders (h, ps) a \<noteq> {})) \<and>
    (\<forall>a t. lost_holders (h, ps) a \<noteq> {} \<and> seccomp_step (h, ps) t \<longrightarrow> lost_holders t a \<noteq> {} \<and> fst t a \<noteq> None)"
proof -
  note reach = seccomp_reachable_inv [OF assms]
  have inv: "refs_inv (h, ps)" using reach by simp
  have "unat (f_refs f) = card (live_holders (h, ps) a) + card (lost_holders (h, ps) a) \<and>
       ((\<forall>n. ps (Lost n) = None) \<longrightarrow> unat (f_refs f) = card (live_holders (h, ps) a) \<and> live_holders (h, ps) a \<noteq> {})"
    if "h a = Some f" for a f
  proof -
    from refs_invD(4) [OF inv that] have c: "f_refs f \<noteq> 0" "unat (f_refs f) = card (holders (h, ps) a)" by auto
    have fin: "finite (holders (h, ps) a)" using finite_subset [OF holders_subset] refs_invD(1) [OF inv] .
    note split = card_holders [OF fin]
    have "lost_holders (h, ps) a = {}" if "\<forall>n. ps (Lost n) = None"
      using that by (auto simp: lost_holders_def holders_def)
    moreover have "unat (f_refs f) \<noteq> 0" using c(1) by (simp add: unat_eq_zero)
    ultimately show ?thesis using c(2) split by auto
  qed
  moreover have "lost_holders t a \<noteq> {} \<and> fst t a \<noteq> None" if lost: "lost_holders (h, ps) a \<noteq> {}" and step: "seccomp_step (h, ps) t" for a t
  proof -
    obtain n where n: "Lost n \<in> holders (h, ps) a" using lost unfolding lost_holders_def by blast
    have "Lost n \<in> holders t a" using seccomp_step_lost [OF step _ _ n] reach by simp
    moreover from this have "fst t a \<noteq> None" unfolding holders_def using filter_chain_cells by blast
    ultimately show ?thesis by (auto simp: lost_holders_def)
  qed
  ultimately show ?thesis using refs_invD(3) [OF inv] by blast
qed

theorem seccomp_references_exact_witness:
  "\<exists>h ps f. seccomp_reachable (h, ps) \<and> ps (Lost 0) \<noteq> None \<and> h 7 = Some f \<and> f_refs f = 2 \<and>
     card (live_holders (h, ps) 7) + card (lost_holders (h, ps) 7) = 2"
proof -
  let ?h = "[7 \<mapsto> deny_filter\<lparr>f_refs := 2\<rparr>]" and ?ps = "[Pid 1 \<mapsto> denied, Lost 0 \<mapsto> denied]"
  have r: "seccomp_reachable (?h, ?ps)" by (rule seccomp_reachable.step [OF deny_reachable deny_fork_failed])
  have "unat (f_refs (deny_filter\<lparr>f_refs := 2\<rparr>)) = card (live_holders (?h, ?ps) 7) + card (lost_holders (?h, ?ps) 7)"
    using conjunct1 [OF conjunct2 [OF seccomp_references_exact [OF r]], rule_format, of 7 "deny_filter\<lparr>f_refs := 2\<rparr>"] by simp
  with r show ?thesis by (intro exI [of _ ?h] exI [of _ ?ps]) simp
qed

text \<open>
  C11: In every reachable state a process in filter mode gets a decision for every system call: all
  filters on its list run to completion, the decision is the verdict of one of them, or to allow the call, and no
  filter on the list asked for a more restrictive action.
\<close>

theorem seccomp_decide_most_restrictive:
  assumes "seccomp_reachable (h, ps)" "ps pid = Some p" "seccomp_mode p = SECCOMP_MODE_FILTER"
  shows "\<exists>as r. filter_chain h (seccomp_filters p) = Some as \<and>
    seccomp_decide arch h (Some p) frame nr = Some r \<and>
    r \<in> insert SECCOMP_RET_ALLOW (filter_result h (frame_data arch frame nr) ` set as) \<and>
    (\<forall>a \<in> set as. seccomp_rank (filter_result h (frame_data arch frame nr) a) \<le> seccomp_rank r)"
proof -
  from seccomp_reachable_inv [OF assms(1)] have inv: "refs_inv (h, ps)" "filters_checked h" by simp_all
  obtain as where "filter_chain h (seccomp_filters p) = Some as"
    using refs_invD(3) [OF inv(1) assms(2)] by blast
  with decide_filter_mode [OF inv(2) this, of arch frame nr] show ?thesis using assms(3) by auto
qed

theorem seccomp_decide_most_restrictive_witness:
  "seccomp_mode denied = SECCOMP_MODE_FILTER \<and>
   (\<exists>as r. filter_chain [7 \<mapsto> deny_filter] (seccomp_filters denied) = Some as \<and>
     seccomp_decide X86_64 [7 \<mapsto> deny_filter] (Some denied) \<lparr>frame_ip = 0, frame_args = [0, 0, 0, 0, 0, 0]\<rparr> 1 = Some r)"
  using seccomp_decide_most_restrictive
    [OF deny_reachable, of "Pid 1" denied X86_64 "\<lparr>frame_ip = 0, frame_args = [0, 0, 0, 0, 0, 0]\<rparr>" 1]
  by (auto simp: denied_def)

text \<open>
  C9: A successful \<^verbatim>\<open>seccomp\<close> or \<^verbatim>\<open>prctl\<close> call never relaxes a sandbox: for every system call the decision
  after it is at least as restrictive as the decision before, and a process that was already
  in strict or filter mode stays in that mode.
\<close>

theorem seccomp_never_relaxes:
  assumes "seccomp_reachable (h, ps)" "ps pid = Some p" "\<forall>a. alloc = Some a \<longrightarrow> h a = None"
    "seccomp_set_mode_filter cu alloc h (Some p) flags up = (Inr (), h', Some p') \<or>
     seccomp_prctl_set cu alloc h (Some p) mode up = (Inr (), h', Some p')"
  shows "(\<exists>r r'. seccomp_decide arch h (Some p) frame nr = Some r \<and>
      seccomp_decide arch h' (Some p') frame nr = Some r' \<and> seccomp_rank r \<le> seccomp_rank r') \<and>
    (seccomp_active (Some p) \<longrightarrow> seccomp_mode p' = seccomp_mode p)"
proof -
  from seccomp_reachable_inv [OF assms(1)] have inv: "refs_inv (h, ps)" "filters_checked h" by simp_all
  have m: "seccomp_mode p \<le> 2" using seccomp_reachable_modes [OF assms(1)] assms(2) by simp
  have "\<exists>r r'. seccomp_decide arch h (Some p) frame nr = Some r \<and>
      seccomp_decide arch h' (Some p') frame nr = Some r' \<and> seccomp_rank r \<le> seccomp_rank r'"
    using assms(4)
  proof
    assume "seccomp_set_mode_filter cu alloc h (Some p) flags up = (Inr (), h', Some p')"
    then show ?thesis by (rule set_mode_filter_mono [OF _ inv assms(2,3) refl])
  next
    assume "seccomp_prctl_set cu alloc h (Some p) mode up = (Inr (), h', Some p')"
    then show ?thesis by (rule prctl_set_mono [OF _ inv assms(2,3) m])
  qed
  then show ?thesis using seccomp_call_mode [OF assms(4) _ m] by blast
qed

theorem seccomp_never_relaxes_witness:
  "\<exists>r'. seccomp_decide X86_64 [7 \<mapsto> deny_filter] (Some denied)
      \<lparr>frame_ip = 0, frame_args = [0, 0, 0, 0, 0, 0]\<rparr> 1 = Some r'"
proof -
  have "seccomp_set_mode_filter deny_user (Some 7) Map.empty (Some zero_process) 0 0 =
        (Inr (), [7 \<mapsto> deny_filter], Some denied) \<or>
      seccomp_prctl_set deny_user (Some 7) Map.empty (Some zero_process) 2 0 =
        (Inr (), [7 \<mapsto> deny_filter], Some denied)"
    using deny_install by simp
  from seccomp_never_relaxes [OF seccomp_reachable.boot _ _ this, of "Pid 1" X86_64
      "\<lparr>frame_ip = 0, frame_args = [0, 0, 0, 0, 0, 0]\<rparr>" 1]
  show ?thesis by auto
qed

text \<open>
  C24: No process can change another one's sandbox: a step of the system, including the fork, exit and reaping of
  processes that share filters with it, leaves every decision of a process that did not take part as it was.
\<close>

theorem seccomp_noninterference:
  assumes "seccomp_reachable s" "seccomp_step s t" "snd s pid = Some p" "snd t pid = Some p"
  shows "seccomp_decide arch (fst t) (Some p) frame nr = seccomp_decide arch (fst s) (Some p) frame nr"
  using seccomp_step_decide [OF assms(2) _ _ assms(3,4)] seccomp_reachable_inv [OF assms(1)] by blast

theorem seccomp_noninterference_witness:
  "seccomp_decide X86_64 [7 \<mapsto> deny_filter\<lparr>f_refs := 2\<rparr>] (Some denied)
     \<lparr>frame_ip = 0, frame_args = [0, 0, 0, 0, 0, 0]\<rparr> 1 =
   seccomp_decide X86_64 [7 \<mapsto> deny_filter] (Some denied)
     \<lparr>frame_ip = 0, frame_args = [0, 0, 0, 0, 0, 0]\<rparr> 1"
  using seccomp_noninterference [OF deny_reachable deny_fork, of "Pid 1" denied X86_64
      "\<lparr>frame_ip = 0, frame_args = [0, 0, 0, 0, 0, 0]\<rparr>" 1]
  by simp

end
