(* ===== verification/Byte_Stream.thy ===== *)
theory Byte_Stream
  imports Prelude
begin

text \<open>
  The contract of a byte stream: a component whose every step takes some bytes in, delivers some bytes,
  and keeps what it holds in order. The client lemmas show that nothing is lost, duplicated or
  reordered over any sequence of steps.
\<close>

text \<open>
  A step returns the new state with the accepted and the delivered bytes; \<open>run_stream\<close> collects both over a
  sequence of steps.
\<close>

fun run_stream :: "('op \<Rightarrow> 's \<Rightarrow> 's \<times> u8 list \<times> u8 list) \<Rightarrow> 'op list \<Rightarrow> 's \<Rightarrow> 's \<times> u8 list \<times> u8 list" where
  "run_stream step [] s = (s, [], [])"
| "run_stream step (x # xs) s =
     (case step x s of (s1, i1, d1) \<Rightarrow>
        case run_stream step xs s1 of (s2, i2, d2) \<Rightarrow> (s2, i1 @ i2, d1 @ d2))"

locale byte_stream =
  fixes inv :: "'s \<Rightarrow> bool"
    and contents :: "'s \<Rightarrow> u8 list"
    and step :: "'op \<Rightarrow> 's \<Rightarrow> 's \<times> u8 list \<times> u8 list"
  assumes step_inv: "inv s \<Longrightarrow> step x s = (s', i, d) \<Longrightarrow> inv s'"
    and step_flow: "inv s \<Longrightarrow> step x s = (s', i, d) \<Longrightarrow> contents s @ i = d @ contents s'"
begin

lemma run_inv: "inv s \<Longrightarrow> run_stream step xs s = (s', i, d) \<Longrightarrow> inv s'"
  by (induction xs arbitrary: s i d) (auto split: prod.splits dest: step_inv)

lemma run_flow: "inv s \<Longrightarrow> run_stream step xs s = (s', i, d) \<Longrightarrow> contents s @ i = d @ contents s'"
proof (induction xs arbitrary: s s' i d)
  case Nil
  then show ?case by simp
next
  case (Cons x xs)
  obtain s1 i1 d1 where 1: "step x s = (s1, i1, d1)" by (metis prod_cases3)
  obtain s2 i2 d2 where 2: "run_stream step xs s1 = (s2, i2, d2)" by (metis prod_cases3)
  have r: "s' = s2" "i = i1 @ i2" "d = d1 @ d2" using Cons.prems(2) 1 2 by auto
  have "contents s @ i1 @ i2 = d1 @ contents s1 @ i2"
    using step_flow [OF Cons.prems(1) 1] by (metis append.assoc)
  also have "contents s1 @ i2 = d2 @ contents s2"
    by (rule Cons.IH [OF step_inv [OF Cons.prems(1) 1] 2])
  finally show ?case by (simp add: r)
qed

text \<open>
  From an empty stream everything delivered is a prefix of everything accepted, and what is missing is
  still held.
\<close>

lemma delivered_prefix:
  "inv s \<Longrightarrow> contents s = [] \<Longrightarrow> run_stream step xs s = (s', i, d) \<Longrightarrow> i = d @ contents s'"
  using run_flow by fastforce

end

end
