(* ===== verification/Pipe.thy ===== *)
theory Pipe
  imports Byte_Stream
begin

text \<open>
  Pipes, \<^verbatim>\<open>kernel/ipc/pipe.c\<close>: a ring buffer with a power-of-two capacity, the counts of its two ends and
  the resizing that \<^verbatim>\<open>fcntl\<close> offers. Every operation holds the pipe's lock, so it is one atomic function on the
  buffer's state. The lemmas show that the ring implements a bounded first-in first-out byte stream.
\<close>

section \<open>State\<close>

abbreviation (input) PIPE_ATOMIC_WRITE :: nat where "PIPE_ATOMIC_WRITE \<equiv> 4096"
abbreviation (input) PIPE_MAX_CAPACITY :: nat where "PIPE_MAX_CAPACITY \<equiv> 1024 * 1024"
abbreviation (input) PIPE_ROOT_MAX_CAPACITY :: nat where "PIPE_ROOT_MAX_CAPACITY \<equiv> 64 * 1024 * 1024"

text \<open>
  \<open>data\<close> is the allocated array. Sizes and positions are below the largest capacity, so natural numbers
  stand for \<^verbatim>\<open>size_t\<close>; the open counters wrap at 32 bits. Operations also return the wait queues they wake.
\<close>

record pipe_buffer =
  pdata :: "u8 list"
  capacity :: nat
  read_pos :: nat
  write_pos :: nat
  pcount :: nat
  readers :: int
  writers :: int
  reader_opens :: u32
  writer_opens :: u32
  named :: bool

datatype wait_queue = Data_wait | Space_wait | Open_wait

section \<open>Operations\<close>



definition pipe_buffer_fini :: "pipe_buffer \<Rightarrow> pipe_buffer" where
  "pipe_buffer_fini p = p\<lparr>pdata := [], capacity := 0\<rparr>"

definition pipe_resize_locked :: "kmalloc \<Rightarrow> pipe_buffer \<Rightarrow> nat \<Rightarrow> unit result \<times> pipe_buffer" where
  "pipe_resize_locked alloc p cap =
     (if cap < pcount p then (Inl FAILED, p)
      else if cap = capacity p then (Inr (), p)
      else case alloc cap of
             None \<Rightarrow> (Inl FAILED, p)
           | Some bytes \<Rightarrow>
               let first = min (capacity p - read_pos p) (pcount p);
                   data1 = copy_into bytes 0 (take first (drop (read_pos p) (pdata p)));
                   data2 = (if pcount p > first
                            then copy_into data1 first (take (pcount p - first) (pdata p))
                            else data1)
               in (Inr (), p\<lparr>pdata := data2, capacity := cap, read_pos := 0,
                             write_pos := pcount p AND (cap - 1)\<rparr>))"

definition pipe_resize ::
  "kmalloc \<Rightarrow> pipe_buffer option \<Rightarrow> nat \<Rightarrow> unit result \<times> pipe_buffer option" where
  "pipe_resize alloc pipe cap =
     (case pipe of
        None \<Rightarrow> (Inl FAILED, None)
      | Some p \<Rightarrow> (case pipe_resize_locked alloc p cap of (r, p') \<Rightarrow> (r, Some p')))"

definition pipe_attach_end :: "pipe_buffer \<Rightarrow> bool \<Rightarrow> pipe_buffer \<times> wait_queue list" where
  "pipe_attach_end p write_end =
     ((if write_end then p\<lparr>writers := writers p + 1, writer_opens := writer_opens p + 1\<rparr>
       else p\<lparr>readers := readers p + 1, reader_opens := reader_opens p + 1\<rparr>), [Open_wait])"



definition peer_arrived :: "pipe_buffer \<Rightarrow> bool \<Rightarrow> u32 \<Rightarrow> bool" where
  "peer_arrived p write_end seen =
     (if write_end then readers p > 0 \<or> reader_opens p \<noteq> seen
      else writers p > 0 \<or> writer_opens p \<noteq> seen)"

text \<open>
  A round of the waiting loop: the outcome of preparing to sleep, the pipe when the peer is looked for
  before sleeping and after waking, and whether a signal ended the sleep. \<open>None\<close> is a
  process that still waits after the given rounds.
\<close>

record wait_round =
  prepare_status :: "unit result"
  before_sleep :: pipe_buffer
  after_wake :: pipe_buffer
  interrupted :: bool

fun wait_for_peer_loop :: "bool \<Rightarrow> u32 \<Rightarrow> wait_round list \<Rightarrow> unit result option" where
  "wait_for_peer_loop write_end seen [] = None"
| "wait_for_peer_loop write_end seen (r # rs) =
     (case prepare_status r of
        Inl e \<Rightarrow> Some (Inl e)
      | Inr _ \<Rightarrow>
          if peer_arrived (before_sleep r) write_end seen then Some (Inr ())
          else if peer_arrived (after_wake r) write_end seen then Some (Inr ())
          else if interrupted r then Some (Inl EINTR)
          else wait_for_peer_loop write_end seen rs)"

definition pipe_wait_for_peer :: "pipe_buffer \<Rightarrow> bool \<Rightarrow> wait_round list \<Rightarrow> unit result option" where
  "pipe_wait_for_peer p write_end rounds =
     wait_for_peer_loop write_end (if write_end then reader_opens p else writer_opens p) rounds"

text \<open>
  A read returns the bytes it stored into the caller's buffer, in place of their number.
\<close>

definition pipe_read_locked :: "pipe_buffer \<Rightarrow> nat \<Rightarrow> u8 list result \<times> pipe_buffer \<times> wait_queue list" where
  "pipe_read_locked p wanted =
     (if pcount p = 0 then (if writers p = 0 then Inr [] else Inl EAGAIN, p, [])
      else
        let amount = (if wanted < pcount p then wanted else pcount p);
            first = min (capacity p - read_pos p) amount;
            out = take first (drop (read_pos p) (pdata p)) @
                  (if amount > first then take (amount - first) (pdata p) else [])
        in (Inr out,
            p\<lparr>read_pos := (read_pos p + amount) AND (capacity p - 1), pcount := pcount p - amount\<rparr>,
            [Space_wait]))"

definition pipe_read ::
  "pipe_buffer option \<Rightarrow> nat \<Rightarrow> u8 list result \<times> pipe_buffer option \<times> wait_queue list" where
  "pipe_read pipe wanted =
     (case pipe of
        None \<Rightarrow> (Inl FAILED, None, [])
      | Some p \<Rightarrow> (case pipe_read_locked p wanted of (r, p', w) \<Rightarrow> (r, Some p', w)))"

definition pipe_write_locked :: "pipe_buffer \<Rightarrow> u8 list \<Rightarrow> nat result \<times> pipe_buffer \<times> wait_queue list" where
  "pipe_write_locked p buffer =
     (let size = length buffer; available = capacity p - pcount p
      in if available = 0 \<or> size \<le> PIPE_ATOMIC_WRITE \<and> available < size then (Inl EAGAIN, p, [])
         else
           let amount = (if size < available then size else available);
               first = min (capacity p - write_pos p) amount;
               data1 = copy_into (pdata p) (write_pos p) (take first buffer);
               data2 = (if amount > first
                        then copy_into data1 0 (take (amount - first) (drop first buffer))
                        else data1)
           in (Inr amount,
               p\<lparr>pdata := data2, write_pos := (write_pos p + amount) AND (capacity p - 1),
                 pcount := pcount p + amount\<rparr>,
               [Data_wait]))"

definition pipe_write ::
  "pipe_buffer option \<Rightarrow> u8 list \<Rightarrow> nat result \<times> pipe_buffer option \<times> wait_queue list" where
  "pipe_write pipe buffer =
     (case pipe of
        None \<Rightarrow> (Inl FAILED, None, [])
      | Some p \<Rightarrow> (case pipe_write_locked p buffer of (r, p', w) \<Rightarrow> (r, Some p', w)))"

text \<open>
  Releasing an end destroys an unnamed pipe that has lost both; the result is then \<open>None\<close>.
\<close>

definition pipe_release :: "pipe_buffer option \<Rightarrow> bool \<Rightarrow> pipe_buffer option \<times> wait_queue list" where
  "pipe_release pipe write_end =
     (case pipe of
        None \<Rightarrow> (None, [])
      | Some p \<Rightarrow>
          let p' = (if write_end then (if writers p > 0 then p\<lparr>writers := writers p - 1\<rparr> else p)
                    else (if readers p > 0 then p\<lparr>readers := readers p - 1\<rparr> else p));
              wakes = (if write_end then (if writers p' = 0 then [Data_wait] else [])
                       else (if readers p' = 0 then [Space_wait] else []));
              unused = (\<not> named p' \<and> readers p' = 0 \<and> writers p' = 0)
          in (if unused then None else Some p', wakes))"

text \<open>
  \<open>pipe_size_control\<close> of \<^verbatim>\<open>kernel/core/syscall.c\<close> answers \<^verbatim>\<open>F_GETPIPE_SZ\<close> and \<^verbatim>\<open>F_SETPIPE_SZ\<close>. \<open>pipe\<close> is the pipe of the
  file, if it is one; \<open>euid\<close> is the caller's effective user, if there is a current process.
\<close>

partial_function (option) grow_capacity :: "nat \<Rightarrow> nat \<Rightarrow> nat option" where
  "grow_capacity cap wanted = (if cap < wanted then grow_capacity (cap * 2) wanted else Some cap)"

definition pipe_size_control ::
  "kmalloc \<Rightarrow> u32 option \<Rightarrow> pipe_buffer option \<Rightarrow> bool \<Rightarrow> nat \<Rightarrow> (nat result \<times> pipe_buffer option) option" where
  "pipe_size_control alloc euid pipe set_size wanted =
     (case pipe of
        None \<Rightarrow> Some (Inl EBADF, None)
      | Some p \<Rightarrow>
          if \<not> set_size then Some (Inr (capacity p), pipe)
          else if wanted > (case euid of None \<Rightarrow> PIPE_ROOT_MAX_CAPACITY
                            | Some u \<Rightarrow> if u \<noteq> 0 then PIPE_MAX_CAPACITY else PIPE_ROOT_MAX_CAPACITY)
          then Some (Inl EPERM, pipe)
          else Option.bind (grow_capacity 4096 wanted) (\<lambda>cap.
            if cap < pcount p then Some (Inl EBUSY, pipe)
            else (case pipe_resize alloc pipe cap of
                    (Inl e, pipe') \<Rightarrow> Some (Inl ENOMEM, pipe')
                  | (Inr _, pipe') \<Rightarrow> Some (Inr cap, pipe'))))"

section \<open>The ring\<close>

text \<open>
  \<open>ring data pos n\<close> are the \<open>n\<close> bytes from position \<open>pos\<close> on, wrapping at the end of the array. A pipe holds
  the ring of its count from its read position.
\<close>

definition ring :: "u8 list \<Rightarrow> nat \<Rightarrow> nat \<Rightarrow> u8 list" where
  "ring data pos n = map (\<lambda>i. data ! ((pos + i) mod length data)) [0..<n]"

definition pipe_bytes :: "pipe_buffer \<Rightarrow> u8 list" where
  "pipe_bytes p = ring (pdata p) (read_pos p) (pcount p)"

definition pipe_ok :: "pipe_buffer \<Rightarrow> bool" where
  "pipe_ok p \<longleftrightarrow> (\<exists>k. capacity p = 2 ^ k) \<and> length (pdata p) = capacity p \<and>
     read_pos p < capacity p \<and> pcount p \<le> capacity p \<and>
     write_pos p = (read_pos p + pcount p) mod capacity p"

lemma length_ring [simp]: "length (ring data pos n) = n"
  by (simp add: ring_def)

lemma length_pipe_bytes [simp]: "length (pipe_bytes p) = pcount p"
  by (simp add: pipe_bytes_def)

lemma nth_ring [simp]: "i < n \<Longrightarrow> ring data pos n ! i = data ! ((pos + i) mod length data)"
  by (simp add: ring_def)

lemma take_ring: "m \<le> n \<Longrightarrow> take m (ring data pos n) = ring data pos m"
  by (simp add: ring_def take_map)

lemma drop_ring:
  "m \<le> n \<Longrightarrow> drop m (ring data pos n) = ring data ((pos + m) mod length data) (n - m)"
  by (rule nth_equalityI) (simp_all add: mod_add_left_eq add.assoc)

lemma mod_wrap: "pos < n \<Longrightarrow> i < n \<Longrightarrow> (pos + i) mod n = (if pos + i < n then pos + i else pos + i - n)"
  for n :: nat
  by (simp add: mod_if)

lemma ring_two_parts:
  assumes "pos < length data" "n \<le> length data"
  shows "ring data pos n =
    take (min (length data - pos) n) (drop pos data) @ take (n - min (length data - pos) n) data"
  using assms by (intro nth_equalityI) (auto simp: nth_append mod_wrap min_def add.commute)

text \<open>
  The array after a write of two parts: the written positions hold the bytes, the others are unchanged.
\<close>

definition ring_store :: "u8 list \<Rightarrow> nat \<Rightarrow> u8 list \<Rightarrow> u8 list" where
  "ring_store data pos bytes =
     (let first = min (length data - pos) (length bytes)
      in copy_into (copy_into data pos (take first bytes)) 0 (drop first bytes))"

lemma length_ring_store [simp]:
  "pos < length data \<Longrightarrow> length bytes \<le> length data \<Longrightarrow> length (ring_store data pos bytes) = length data"
  by (simp add: ring_store_def Let_def)

lemma nth_ring_store:
  assumes "pos < length data" "length bytes \<le> length data" "j < length data"
  shows "ring_store data pos bytes ! ((pos + j) mod length data) =
    (if j < length bytes then bytes ! j else data ! ((pos + j) mod length data))"
proof (cases "pos + j < length data")
  case True
  then show ?thesis
    using assms by (auto simp: ring_store_def Let_def nth_copy_into min_def)
next
  case False
  then show ?thesis
    using assms by (auto simp: ring_store_def Let_def nth_copy_into mod_wrap min_def)
qed

lemma ring_store_append:
  assumes pos: "rp < length data" "n + length bytes \<le> length data"
    and wp: "wp = (rp + n) mod length data"
  shows "ring (ring_store data wp bytes) rp (n + length bytes) = ring data rp n @ bytes"
proof (rule nth_equalityI)
  fix i assume "i < length (ring (ring_store data wp bytes) rp (n + length bytes))"
  then have i: "i < n + length bytes" by simp
  have wpl: "wp < length data" unfolding wp by (rule mod_less_divisor) (use pos(1) in linarith)
  have len: "length (ring_store data wp bytes) = length data" using wpl pos by simp
  show "ring (ring_store data wp bytes) rp (n + length bytes) ! i = (ring data rp n @ bytes) ! i"
  proof (cases "i < n")
    case True
    let ?j = "length data - n + i"
    have "rp + n + ?j = rp + i + length data" using True pos by simp
    then have "(rp + i) mod length data = (wp + ?j) mod length data"
      unfolding wp by (simp only: mod_add_left_eq mod_add_self2)
    moreover have "?j < length data" "\<not> ?j < length bytes" using True pos by auto
    ultimately show ?thesis
      using True i pos wpl nth_ring_store [of wp data bytes ?j] len by (simp add: nth_append)
  next
    case False
    have l: "i - n < length bytes" "i - n < length data" using False i pos by auto
    have "ring (ring_store data wp bytes) rp (n + length bytes) ! i =
        ring_store data wp bytes ! ((rp + i) mod length data)"
      using i len by simp
    also have "(rp + i) mod length data = (wp + (i - n)) mod length data"
      using False unfolding wp mod_add_left_eq by simp
    also have "ring_store data wp bytes ! \<dots> = bytes ! (i - n)"
      using nth_ring_store [OF wpl _ l(2), of bytes] pos l(1) by simp
    finally show ?thesis using False by (simp add: nth_append)
  qed
qed simp

section \<open>Operations on the ring\<close>

lemma pipe_okE:
  assumes "pipe_ok p"
  obtains k where "capacity p = 2 ^ k" "length (pdata p) = 2 ^ k" "read_pos p < 2 ^ k" "pcount p \<le> 2 ^ k"
    "write_pos p = (read_pos p + pcount p) mod 2 ^ k"
  using assms by (auto simp: pipe_ok_def)

lemma pipe_read_nonempty:
  fixes n :: nat
  assumes ok: "pipe_ok p" and nz: "pcount p \<noteq> 0"
  defines "amount \<equiv> min n (pcount p)"
  obtains p' where "pipe_read_locked p n = (Inr (take n (pipe_bytes p)), p', [Space_wait])"
    "pipe_ok p'" "pipe_bytes p' = drop n (pipe_bytes p)"
    "capacity p' = capacity p" "writers p' = writers p" "readers p' = readers p"
proof -
  obtain k where k: "capacity p = 2 ^ k" "length (pdata p) = 2 ^ k" "read_pos p < 2 ^ k" "pcount p \<le> 2 ^ k"
    "write_pos p = (read_pos p + pcount p) mod 2 ^ k"
    using ok by (rule pipe_okE)
  let ?p = "p\<lparr>read_pos := (read_pos p + amount) mod 2 ^ k, pcount := pcount p - amount\<rparr>"
  have am: "amount \<le> pcount p" "(if n < pcount p then n else pcount p) = amount"
    by (auto simp: amount_def min_def)
  let ?f = "min (2 ^ k - read_pos p) amount"
  have parts: "take ?f (drop (read_pos p) (pdata p)) @ (if amount > ?f then take (amount - ?f) (pdata p) else []) =
      ring (pdata p) (read_pos p) amount"
    using ring_two_parts [of "read_pos p" "pdata p" amount] k am(1) by auto
  have out: "take n (pipe_bytes p) = ring (pdata p) (read_pos p) amount"
    by (cases "n \<le> pcount p") (simp_all add: pipe_bytes_def amount_def take_ring)
  have run: "pipe_read_locked p n = (Inr (take n (pipe_bytes p)), ?p, [Space_wait])"
    unfolding pipe_read_locked_def out am(2) Let_def k(1) using nz parts and_mask_mod [of _ k] by simp
  have "pipe_bytes ?p = drop amount (pipe_bytes p)"
    using am(1) k by (simp add: pipe_bytes_def drop_ring)
  then have drop: "pipe_bytes ?p = drop n (pipe_bytes p)"
    by (simp add: amount_def pipe_bytes_def min_def)
  have "((read_pos p + amount) mod 2 ^ k + (pcount p - amount)) mod 2 ^ k = (read_pos p + pcount p) mod 2 ^ k"
    using am(1) unfolding mod_add_left_eq by simp
  then have "pipe_ok ?p"
    using k am(1) by (auto simp: pipe_ok_def)
  with run drop that show ?thesis by simp
qed

lemma pipe_write_room:
  assumes ok: "pipe_ok p"
    and room: "pcount p < capacity p" "length buffer \<le> PIPE_ATOMIC_WRITE \<longrightarrow> pcount p + length buffer \<le> capacity p"
  defines "amount \<equiv> min (length buffer) (capacity p - pcount p)"
  obtains p' where "pipe_write_locked p buffer = (Inr amount, p', [Data_wait])"
    "pipe_ok p'" "pipe_bytes p' = pipe_bytes p @ take amount buffer"
    "capacity p' = capacity p" "writers p' = writers p" "readers p' = readers p"
proof -
  obtain k where k: "capacity p = 2 ^ k" "length (pdata p) = 2 ^ k" "read_pos p < 2 ^ k" "pcount p \<le> 2 ^ k"
    "write_pos p = (read_pos p + pcount p) mod 2 ^ k"
    using ok by (rule pipe_okE)
  let ?b = "take amount buffer"
  let ?f = "min (2 ^ k - write_pos p) amount"
  have am: "(if length buffer < capacity p - pcount p then length buffer else capacity p - pcount p) = amount"
    "amount \<le> length buffer" "pcount p + amount \<le> 2 ^ k"
    using k(1,4) by (auto simp: amount_def min_def)
  have wp: "write_pos p < 2 ^ k" by (simp add: k(5))
  let ?p = "p\<lparr>pdata := ring_store (pdata p) (write_pos p) ?b,
    write_pos := (write_pos p + amount) mod 2 ^ k, pcount := pcount p + amount\<rparr>"
  have store: "(if amount > ?f
      then copy_into (copy_into (pdata p) (write_pos p) (take ?f buffer)) 0 (take (amount - ?f) (drop ?f buffer))
      else copy_into (pdata p) (write_pos p) (take ?f buffer)) = ring_store (pdata p) (write_pos p) ?b"
  proof -
    have "length ?b = amount" using am(2) by simp
    moreover have "take ?f ?b = take ?f buffer" by simp
    moreover have "drop ?f ?b = take (amount - ?f) (drop ?f buffer)" by (rule drop_take)
    ultimately have "ring_store (pdata p) (write_pos p) ?b =
        copy_into (copy_into (pdata p) (write_pos p) (take ?f buffer)) 0 (take (amount - ?f) (drop ?f buffer))"
      unfolding ring_store_def Let_def k(2) by (simp only:)
    then show ?thesis by simp
  qed
  have guard: "\<not> (capacity p - pcount p = 0 \<or>
      length buffer \<le> PIPE_ATOMIC_WRITE \<and> capacity p - pcount p < length buffer)"
    using room by auto
  have run: "pipe_write_locked p buffer = (Inr amount, ?p, [Data_wait])"
    unfolding pipe_write_locked_def Let_def if_not_P [OF guard] am(1)
    unfolding k(1) store by (simp add: and_mask_mod)
  have len: "length (ring_store (pdata p) (write_pos p) ?b) = 2 ^ k"
    using k(2) wp am(3) by simp
  have lb: "length ?b = amount" using am(2) by simp
  have bytes: "pipe_bytes ?p = pipe_bytes p @ ?b"
    using ring_store_append [of "read_pos p" "pdata p" "pcount p" ?b "write_pos p"] k(2,3,5) am(3)
    unfolding lb k(2) by (simp add: pipe_bytes_def)
  have "(write_pos p + amount) mod 2 ^ k = (read_pos p + (pcount p + amount)) mod 2 ^ k"
    unfolding k(5) mod_add_left_eq by (simp add: add.assoc)
  then have "pipe_ok ?p"
    using k(1,3) am(3) len by (auto simp: pipe_ok_def)
  with run bytes that show ?thesis by simp
qed


lemma pipe_resize_keeps:
  assumes ok: "pipe_ok p" and alloc: "kmalloc_ok alloc" and cap: "cap = 2 ^ m"
    and run: "pipe_resize_locked alloc p cap = (r, p')"
  shows "pipe_ok p' \<and> pipe_bytes p' = pipe_bytes p \<and> capacity p' = (if r = Inr () then cap else capacity p) \<and>
    (r = Inr () \<longleftrightarrow> pcount p \<le> cap \<and> (cap = capacity p \<or> alloc cap \<noteq> None))"
proof (cases "pcount p \<le> cap \<and> cap \<noteq> capacity p \<and> alloc cap \<noteq> None")
  case False
  then show ?thesis using run ok by (auto simp: pipe_resize_locked_def split: if_splits)
next
  case True
  then obtain bytes where b: "alloc cap = Some bytes" "length bytes = cap" "pcount p \<le> cap" "cap \<noteq> capacity p"
    using alloc by (auto simp: kmalloc_ok_def)
  obtain k where k: "capacity p = 2 ^ k" "length (pdata p) = 2 ^ k" "read_pos p < 2 ^ k" "pcount p \<le> 2 ^ k"
    "write_pos p = (read_pos p + pcount p) mod 2 ^ k"
    using ok by (rule pipe_okE)
  let ?f = "min (2 ^ k - read_pos p) (pcount p)"
  let ?x = "take ?f (drop (read_pos p) (pdata p))"
  let ?y = "take (pcount p - ?f) (pdata p)"
  have xy: "?x @ ?y = pipe_bytes p"
    using ring_two_parts [of "read_pos p" "pdata p" "pcount p"] k(2-4) by (simp add: pipe_bytes_def)
  have lx: "length ?x = ?f" using k(2,3) by simp
  have two: "copy_into (copy_into bytes 0 ?x) ?f ?y = copy_into bytes 0 (pipe_bytes p)"
    using copy_into_append [of 0 ?x ?y bytes] b(2,3) unfolding lx xy by simp
  have data: "(if pcount p > ?f then copy_into (copy_into bytes 0 ?x) ?f ?y else copy_into bytes 0 ?x) =
      copy_into bytes 0 (pipe_bytes p)"
  proof (cases "pcount p > ?f")
    case True
    then show ?thesis by (simp only: two if_True)
  next
    case False
    then have "?y = []" by simp
    with xy have "?x = pipe_bytes p" by simp
    with False show ?thesis by (simp only: if_False)
  qed
  have "pipe_resize_locked alloc p cap = (Inr (), p\<lparr>pdata := copy_into bytes 0 (pipe_bytes p), capacity := cap,
      read_pos := 0, write_pos := pcount p mod cap\<rparr>)"
    using b(3,4) unfolding pipe_resize_locked_def Let_def b(1) option.case k(1) data
    by (simp add: cap and_mask_mod)
  then have p': "r = Inr ()" "p' = p\<lparr>pdata := copy_into bytes 0 (pipe_bytes p), capacity := cap, read_pos := 0,
      write_pos := pcount p mod cap\<rparr>"
    using run by simp_all
  have len: "length (copy_into bytes 0 (pipe_bytes p)) = cap"
    using b(2,3) by (simp add: pipe_bytes_def)
  have "ring (copy_into bytes 0 (pipe_bytes p)) 0 (pcount p) = pipe_bytes p"
  proof (rule nth_equalityI)
    fix i assume "i < length (ring (copy_into bytes 0 (pipe_bytes p)) 0 (pcount p))"
    then have i: "i < pcount p" "i < cap" using b(3) by auto
    then show "ring (copy_into bytes 0 (pipe_bytes p)) 0 (pcount p) ! i = pipe_bytes p ! i"
      using b(2,3) len by (simp add: nth_copy_into)
  qed (simp add: pipe_bytes_def)
  then show ?thesis
    using p' len b cap by (auto simp: pipe_ok_def pipe_bytes_def)
qed

lemma grow_capacity_returns:
  "wanted \<le> 2 ^ (a + n) \<Longrightarrow> \<exists>b. grow_capacity (2 ^ a) wanted = Some (2 ^ b) \<and> wanted \<le> 2 ^ b"
proof (induction n arbitrary: a)
  case 0
  then show ?case by (subst grow_capacity.simps) auto
next
  case (Suc n)
  show ?case
  proof (cases "2 ^ a < wanted")
    case False
    then show ?thesis by (subst grow_capacity.simps) auto
  next
    case True
    have "\<exists>b. grow_capacity (2 ^ Suc a) wanted = Some (2 ^ b) \<and> wanted \<le> 2 ^ b"
      using Suc.prems by (intro Suc.IH) simp
    moreover have "grow_capacity (2 ^ a) wanted = grow_capacity (2 ^ Suc a) wanted"
      using True by (subst grow_capacity.simps) (simp add: mult.commute)
    ultimately show ?thesis by simp
  qed
qed

lemma pipe_size_control_spec:
  assumes ok: "pipe_ok p" and alloc: "kmalloc_ok alloc"
  shows "\<exists>r p'. pipe_size_control alloc euid (Some p) set_size wanted = Some (r, Some p') \<and>
    pipe_ok p' \<and> pipe_bytes p' = pipe_bytes p \<and> readers p' = readers p \<and> writers p' = writers p \<and>
    (case r of Inl e \<Rightarrow> p' = p \<and> e \<in> {EPERM, EBUSY, ENOMEM}
     | Inr c \<Rightarrow> capacity p' = c \<and> (set_size \<longrightarrow> wanted \<le> c))"
proof (cases "set_size \<and> \<not> wanted > (case euid of None \<Rightarrow> PIPE_ROOT_MAX_CAPACITY
    | Some u \<Rightarrow> if u \<noteq> 0 then PIPE_MAX_CAPACITY else PIPE_ROOT_MAX_CAPACITY)")
  case False
  then show ?thesis using ok by (auto simp: pipe_size_control_def)
next
  case True
  then have "wanted \<le> 2 ^ (12 + 14)" by (auto split: option.splits if_splits)
  from grow_capacity_returns [OF this] obtain b where
    b: "grow_capacity 4096 wanted = Some (2 ^ b)" "wanted \<le> 2 ^ b" by auto
  obtain r p' where r: "pipe_resize_locked alloc p (2 ^ b) = (r, p')" by (metis prod.collapse)
  note keeps = pipe_resize_keeps [OF ok alloc refl r]
  have frame: "readers p' = readers p" "writers p' = writers p" "r \<noteq> Inr () \<Longrightarrow> p' = p"
    using r by (auto simp: pipe_resize_locked_def Let_def split: if_splits option.splits)
  show ?thesis
  proof (cases "2 ^ b < pcount p")
    case True
    then show ?thesis using \<open>set_size \<and> _\<close> ok b by (auto simp: pipe_size_control_def)
  next
    case False
    have "pipe_size_control alloc euid (Some p) set_size wanted =
        (case r of Inl e \<Rightarrow> Some (Inl ENOMEM, Some p') | Inr _ \<Rightarrow> Some (Inr (2 ^ b), Some p'))"
      using True False b r by (auto simp: pipe_size_control_def pipe_resize_def split: sum.splits)
    then show ?thesis
      using keeps frame b(2) by (cases r) auto
  qed
qed

section \<open>A pipe is a byte stream\<close>








lemma pipe_write_full:
  assumes "\<not> (pcount p < capacity p \<and> (length buffer \<le> PIPE_ATOMIC_WRITE \<longrightarrow> pcount p + length buffer \<le> capacity p))"
    "pipe_ok p"
  shows "pipe_write_locked p buffer = (Inl EAGAIN, p, [])"
  using assms by (auto simp: pipe_write_locked_def Let_def pipe_ok_def)











text \<open>
  A peer that opens the other end and closes it again before the waiting process runs is still noticed: the
  open counter has changed.
\<close>

lemma peer_open_close_noticed:
  assumes "fst (pipe_release (Some (fst (pipe_attach_end p (\<not> write_end)))) (\<not> write_end)) = Some q"
  shows "peer_arrived q write_end (if write_end then reader_opens p else writer_opens p)"
  using assms by (auto simp: pipe_release_def pipe_attach_end_def peer_arrived_def Let_def split: if_splits)

section \<open>Properties\<close>



text \<open>
  C35: What a read and a write do on every branch. A read of an empty pipe reports the end of the
  stream when no writer is left and asks to wait otherwise; a read of a non-empty pipe takes the oldest
  bytes, as many as fit. A write of at most \<open>PIPE_ATOMIC_WRITE\<close> bytes is stored whole or not
  at all; a larger one stores as many bytes as there is room for.
\<close>

theorem pipe_read_write_spec:
  assumes "pipe_ok p"
  shows "(\<exists>r p' w. pipe_read_locked p n = (r, p', w) \<and> pipe_ok p' \<and>
      (if pipe_bytes p = [] then p' = p \<and> r = (if writers p = 0 then Inr [] else Inl EAGAIN)
       else r = Inr (take n (pipe_bytes p)) \<and> pipe_bytes p' = drop n (pipe_bytes p) \<and> w = [Space_wait])) \<and>
    (\<exists>r p' w. pipe_write_locked p buffer = (r, p', w) \<and> pipe_ok p' \<and>
      (let room = capacity p - length (pipe_bytes p) in
       if room = 0 \<or> length buffer \<le> PIPE_ATOMIC_WRITE \<and> room < length buffer then r = Inl EAGAIN \<and> p' = p
       else r = Inr (min (length buffer) room) \<and> pipe_bytes p' = pipe_bytes p @ take room buffer \<and> w = [Data_wait]))"
proof
  have empty: "pipe_bytes p = [] \<longleftrightarrow> pcount p = 0" by (metis length_0_conv length_pipe_bytes)
  show "\<exists>r p' w. pipe_read_locked p n = (r, p', w) \<and> pipe_ok p' \<and>
      (if pipe_bytes p = [] then p' = p \<and> r = (if writers p = 0 then Inr [] else Inl EAGAIN)
       else r = Inr (take n (pipe_bytes p)) \<and> pipe_bytes p' = drop n (pipe_bytes p) \<and> w = [Space_wait])"
  proof (cases "pcount p = 0")
    case True
    then show ?thesis using assms by (simp add: pipe_read_locked_def empty)
  next
    case False
    obtain q where "pipe_read_locked p n = (Inr (take n (pipe_bytes p)), q, [Space_wait])"
      "pipe_ok q" "pipe_bytes q = drop n (pipe_bytes p)"
      by (rule pipe_read_nonempty [OF assms False])
    then show ?thesis using False by (simp add: empty)
  qed
  show "\<exists>r p' w. pipe_write_locked p buffer = (r, p', w) \<and> pipe_ok p' \<and>
      (let room = capacity p - length (pipe_bytes p) in
       if room = 0 \<or> length buffer \<le> PIPE_ATOMIC_WRITE \<and> room < length buffer then r = Inl EAGAIN \<and> p' = p
       else r = Inr (min (length buffer) room) \<and> pipe_bytes p' = pipe_bytes p @ take room buffer \<and> w = [Data_wait])"
  proof (cases "pcount p < capacity p \<and>
      (length buffer \<le> PIPE_ATOMIC_WRITE \<longrightarrow> pcount p + length buffer \<le> capacity p)")
    case False
    moreover have "capacity p - pcount p = 0 \<or>
        length buffer \<le> PIPE_ATOMIC_WRITE \<and> capacity p - pcount p < length buffer"
      using False by auto
    ultimately show ?thesis using pipe_write_full [OF False assms] assms by simp
  next
    case True
    obtain q where q: "pipe_write_locked p buffer = (Inr (min (length buffer) (capacity p - pcount p)), q, [Data_wait])"
      "pipe_ok q" "pipe_bytes q = pipe_bytes p @ take (min (length buffer) (capacity p - pcount p)) buffer"
      by (rule pipe_write_room [OF assms, of buffer]) (use True in auto)
    have t: "take (min (length buffer) m) buffer = take m buffer" for m by (simp add: min_def)
    have "\<not> (capacity p - pcount p = 0 \<or>
        length buffer \<le> PIPE_ATOMIC_WRITE \<and> capacity p - pcount p < length buffer)"
      using True by auto
    then show ?thesis using q unfolding t by (simp only: length_pipe_bytes Let_def if_False prod.inject) blast
  qed
qed

theorem pipe_read_write_spec_witness:
  "let p = \<lparr>pdata = [1, 2, 3, 4], capacity = 4, read_pos = 3, write_pos = 1, pcount = 2, readers = 1,
       writers = 1, reader_opens = 1, writer_opens = 1, named = False\<rparr>
   in pipe_ok p \<and> pipe_bytes p = [4, 1] \<and> fst (pipe_read_locked p 9) = Inr [4, 1]"
proof -
  let ?p = "\<lparr>pdata = [1, 2, 3, 4], capacity = 4, read_pos = 3, write_pos = 1, pcount = 2, readers = 1,
       writers = 1, reader_opens = 1, writer_opens = 1, named = False\<rparr>"
  have ok: "pipe_ok ?p" by (auto simp: pipe_ok_def intro: exI [of _ 2])
  have bytes: "pipe_bytes ?p = [4, 1]" by (simp add: pipe_bytes_def ring_def upt_2)
  show ?thesis using pipe_read_write_spec [OF ok, of 9 "[]"] ok bytes by auto
qed

text \<open>
  Asking for another pipe size always returns, keeps every byte in the pipe, and on success the capacity is at
  least the size asked for; on failure the pipe is as it was.
\<close>

lemma pipe_set_size_keeps_bytes:
  assumes "pipe_ok p" "kmalloc_ok alloc"
  shows "\<exists>r p'. pipe_size_control alloc euid (Some p) True wanted = Some (r, Some p') \<and>
    pipe_ok p' \<and> pipe_bytes p' = pipe_bytes p \<and>
    (case r of Inl e \<Rightarrow> p' = p \<and> e \<in> {EPERM, EBUSY, ENOMEM} | Inr c \<Rightarrow> capacity p' = c \<and> wanted \<le> c)"
  using pipe_size_control_spec [OF assms, of euid True wanted] unfolding simp_thms by blast

end
