(* ===== verification/Eventfd.thy ===== *)
theory Eventfd
  imports Prelude
begin

text \<open>
  Event counters, \<^verbatim>\<open>kernel/ipc/eventfd.c\<close>. One lock guards every operation, so each is an atomic function on the
  context. The lemmas show that the 64-bit counter never wraps and that what is read is what
  was written.
\<close>

section \<open>Operations\<close>

record eventfd_context =
  counter :: u64
  semaphore :: bool

definition eventfd_create :: "bool \<Rightarrow> u64 \<Rightarrow> int \<Rightarrow> eventfd_context option" where
  "eventfd_create allocated initial_value sem =
     (if \<not> allocated then None else Some \<lparr>counter = initial_value, semaphore = (sem \<noteq> 0)\<rparr>)"

text \<open>
  \<open>buffer\<close> tells whether the caller passed a buffer. A read returns the value it stores there, in place of its
  size.
\<close>

definition eventfd_read ::
  "eventfd_context option \<Rightarrow> nat \<Rightarrow> bool \<Rightarrow> u64 result \<times> eventfd_context option" where
  "eventfd_read context sz buffer =
     (case context of
        None \<Rightarrow> (Inl EINVAL, None)
      | Some c \<Rightarrow>
          if \<not> buffer \<or> sz < 8 then (Inl EINVAL, context)
          else if counter c = 0 then (Inl EAGAIN, context)
          else if semaphore c then (Inr 1, Some (c\<lparr>counter := counter c - 1\<rparr>))
          else (Inr (counter c), Some (c\<lparr>counter := 0\<rparr>)))"

definition eventfd_write ::
  "eventfd_context option \<Rightarrow> nat \<Rightarrow> u64 option \<Rightarrow> unit result \<times> eventfd_context option" where
  "eventfd_write context sz buffer =
     (case (context, buffer) of
        (Some c, Some v) \<Rightarrow>
          if sz < 8 then (Inl EINVAL, context)
          else if v = 0xFFFFFFFFFFFFFFFF then (Inl EINVAL, context)
          else if 0xFFFFFFFFFFFFFFFF - 1 - counter c < v then (Inl EAGAIN, context)
          else (Inr (), Some (c\<lparr>counter := counter c + v\<rparr>))
      | _ \<Rightarrow> (Inl EINVAL, context))"

definition eventfd_read_ready :: "eventfd_context option \<Rightarrow> bool" where
  "eventfd_read_ready context = (case context of None \<Rightarrow> False | Some c \<Rightarrow> counter c \<noteq> 0)"

definition eventfd_write_ready :: "eventfd_context option \<Rightarrow> bool" where
  "eventfd_write_ready context =
     (case context of None \<Rightarrow> False | Some c \<Rightarrow> counter c < 0xFFFFFFFFFFFFFFFF - 1)"

section \<open>Sequences of calls\<close>

text \<open>
  The calls of any number of processes on one context, with the sum of the values written and of those read.
\<close>

datatype eventfd_call = Ev_read | Ev_write u64

fun eventfd_run :: "eventfd_call list \<Rightarrow> eventfd_context \<Rightarrow> eventfd_context \<times> nat \<times> nat" where
  "eventfd_run [] c = (c, 0, 0)"
| "eventfd_run (Ev_read # xs) c =
     (case eventfd_read (Some c) 8 True of
        (Inr v, Some c') \<Rightarrow> (case eventfd_run xs c' of (c2, w, r) \<Rightarrow> (c2, w, unat v + r))
      | _ \<Rightarrow> eventfd_run xs c)"
| "eventfd_run (Ev_write v # xs) c =
     (case eventfd_write (Some c) 8 (Some v) of
        (Inr _, Some c') \<Rightarrow> (case eventfd_run xs c' of (c2, w, r) \<Rightarrow> (c2, unat v + w, r))
      | _ \<Rightarrow> eventfd_run xs c)"

lemma eventfd_write_cases:
  assumes "unat (counter c) < 2 ^ 64 - 1"
  shows "eventfd_write (Some c) 8 (Some v) =
    (if unat v = 2 ^ 64 - 1 then (Inl EINVAL, Some c)
     else if unat (counter c) + unat v < 2 ^ 64 - 1 then (Inr (), Some (c\<lparr>counter := counter c + v\<rparr>))
     else (Inl EAGAIN, Some c))"
proof -
  have max: "unat (0xFFFFFFFFFFFFFFFF - 1 - counter c) = 2 ^ 64 - 2 - unat (counter c)"
    using assms by (subst unat_sub) (simp_all add: word_le_nat_alt)
  have v: "v = 0xFFFFFFFFFFFFFFFF \<longleftrightarrow> unat v = 2 ^ 64 - 1"
    by (simp add: word_unat_eq_iff)
  have "0xFFFFFFFFFFFFFFFF - 1 - counter c < v \<longleftrightarrow> \<not> unat (counter c) + unat v < 2 ^ 64 - 1"
    unfolding word_less_nat_alt max using assms by auto
  then show ?thesis unfolding eventfd_write_def using v by simp
qed

lemma eventfd_run_sums:
  "unat (counter c) < 2 ^ 64 - 1 \<Longrightarrow> eventfd_run xs c = (c', w, r) \<Longrightarrow>
     unat (counter c) + w = r + unat (counter c') \<and> unat (counter c') < 2 ^ 64 - 1"
proof (induction xs arbitrary: c c' w r)
  case Nil
  then show ?case by simp
next
  case (Cons x xs)
  show ?case
  proof (cases x)
    case (Ev_write v)
    show ?thesis
    proof (cases "unat v \<noteq> 2 ^ 64 - 1 \<and> unat (counter c) + unat v < 2 ^ 64 - 1")
      case False
      then show ?thesis
        using Cons Ev_write eventfd_write_cases [OF Cons.prems(1), of v] by (auto split: if_splits)
    next
      case True
      obtain c2 w2 r2 where run: "eventfd_run xs (c\<lparr>counter := counter c + v\<rparr>) = (c2, w2, r2)"
        by (metis prod_cases3)
      have sum: "unat (counter c + v) = unat (counter c) + unat v"
        using True by (simp add: unat_word_ariths)
      have "c' = c2" "w = unat v + w2" "r = r2"
        using Cons.prems(2) True run eventfd_write_cases [OF Cons.prems(1), of v] Ev_write by simp_all
      then show ?thesis using Cons.IH [OF _ run] sum True by simp
    qed
  next
    case Ev_read
    show ?thesis
    proof (cases "counter c = 0")
      case True
      then have "eventfd_run xs c = (c', w, r)" using Cons.prems(2) Ev_read by (simp add: eventfd_read_def)
      then show ?thesis by (rule Cons.IH [OF Cons.prems(1)])
    next
      case False
      let ?v = "if semaphore c then 1 else counter c"
      obtain c2 w2 r2 where run: "eventfd_run xs (c\<lparr>counter := counter c - ?v\<rparr>) = (c2, w2, r2)"
        by (metis prod_cases3)
      have le: "?v \<le> counter c" using False by (auto simp: word_le_nat_alt unat_gt_0 Suc_le_eq)
      have diff: "unat (counter c - ?v) = unat (counter c) - unat ?v"
        by (rule unat_sub [OF le])
      have "c' = c2" "w = w2" "r = unat ?v + r2"
        using Cons.prems(2) False run Ev_read by (auto simp: eventfd_read_def split: if_splits)
      moreover have "unat (counter c) - unat ?v + w2 = r2 + unat (counter c2) \<and> unat (counter c2) < 2 ^ 64 - 1"
        using Cons.IH [OF _ run] diff Cons.prems(1) by simp
      ultimately show ?thesis
        using le unfolding word_le_nat_alt by (elim conjE, intro conjI) simp_all
    qed
  qed
qed

section \<open>Properties\<close>

text \<open>
  C40: An event counter neither wraps nor loses events: over any sequence of reads and writes the initial
  value plus everything written equals everything read plus the final value, and the counter stays
  below its reserved maximum.
\<close>

theorem eventfd_conserves_events:
  assumes "eventfd_create True initial sem = Some c" "unat initial < 2 ^ 64 - 1"
    "eventfd_run calls c = (c', written, taken)"
  shows "unat initial + written = taken + unat (counter c') \<and> unat (counter c') < 2 ^ 64 - 1"
proof -
  have "counter c = initial" using assms(1) by (auto simp: eventfd_create_def)
  then show ?thesis using eventfd_run_sums [OF _ assms(3)] assms(2) by simp
qed

theorem eventfd_conserves_events_witness:
  "case eventfd_run [Ev_write 5, Ev_read, Ev_write 2] \<lparr>counter = 3, semaphore = True\<rparr> of
     (c', written, taken) \<Rightarrow> 3 + written = taken + unat (counter c')"
proof -
  have c: "eventfd_create True 3 1 = Some \<lparr>counter = 3, semaphore = True\<rparr>"
    by (simp add: eventfd_create_def)
  obtain c' w r where run: "eventfd_run [Ev_write 5, Ev_read, Ev_write 2] \<lparr>counter = 3, semaphore = True\<rparr> = (c', w, r)"
    by (metis prod_cases3)
  show ?thesis using eventfd_conserves_events [OF c _ run] unfolding run by simp
qed

end
