(* ===== verification/Posix_Lock.thy ===== *)
theory Posix_Lock
  imports Prelude "HOL-Library.Multiset"
begin

text \<open>
  Byte-range locks, \<^verbatim>\<open>kernel/fs/posix_lock.c\<close>, and the computation of a lock's range in
  \<^verbatim>\<open>kernel/core/syscall.c\<close>. One mutex guards all lock lists, so each critical section is an atomic function. The
  lemmas give the bytewise meaning of a list of locks and show that setting a lock changes exactly the bytes of the
  request, that an owner's locks never overlap, and that conflicting owners never hold the same byte.
\<close>

section \<open>State\<close>

datatype lock_type = POSIX_LOCK_READ | POSIX_LOCK_WRITE | POSIX_LOCK_UNLOCK

abbreviation (input) POSIX_LOCK_END :: u64 where "POSIX_LOCK_END \<equiv> 0xFFFFFFFFFFFFFFFF"

text \<open>
  The linked list of a node's locks is a list; a waiter is identified by its address on its process's stack.
\<close>

record posix_lock =
  l_owner :: u64
  l_pid :: int
  l_type :: lock_type
  l_start :: u64
  l_end :: u64

record posix_lock_request =
  r_type :: lock_type
  r_start :: u64
  r_end :: u64
  r_owner :: u64
  r_pid :: int

record lock_waiter =
  w_id :: nat
  w_owner :: u64
  w_blocker :: u64

record lock_state =
  posix_locks :: "posix_lock list"
  waiters :: "lock_waiter list"

section \<open>Operations\<close>

definition overlaps :: "u64 \<Rightarrow> u64 \<Rightarrow> posix_lock \<Rightarrow> bool" where
  "overlaps start fin lock \<longleftrightarrow> start \<le> l_end lock \<and> l_start lock \<le> fin"

definition touches :: "u64 \<Rightarrow> u64 \<Rightarrow> posix_lock \<Rightarrow> bool" where
  "touches start fin lock =
     (let before = (l_end lock \<noteq> POSIX_LOCK_END \<and> l_end lock + 1 < start);
          after = (fin \<noteq> POSIX_LOCK_END \<and> fin + 1 < l_start lock)
      in \<not> before \<and> \<not> after)"

fun find_conflict :: "posix_lock list \<Rightarrow> posix_lock_request \<Rightarrow> posix_lock option" where
  "find_conflict [] request = None"
| "find_conflict (lock # locks) request =
     (if l_owner lock = r_owner request then find_conflict locks request
      else if \<not> overlaps (r_start request) (r_end request) lock then find_conflict locks request
      else if l_type lock = POSIX_LOCK_WRITE \<or> r_type request = POSIX_LOCK_WRITE then Some lock
      else find_conflict locks request)"

fun find_waiter :: "lock_waiter list \<Rightarrow> u64 \<Rightarrow> lock_waiter option" where
  "find_waiter [] blocker = None"
| "find_waiter (w # ws) blocker = (if w_owner w \<noteq> blocker then find_waiter ws blocker else Some w)"

fun deadlock_search :: "nat \<Rightarrow> lock_waiter list \<Rightarrow> u64 \<Rightarrow> u64 \<Rightarrow> bool" where
  "deadlock_search 0 ws own blocker = False"
| "deadlock_search (Suc depth) ws own blocker =
     (if blocker = own then True
      else case find_waiter ws blocker of
             None \<Rightarrow> False
           | Some w \<Rightarrow> deadlock_search depth ws own (w_blocker w))"

definition would_deadlock :: "lock_waiter list \<Rightarrow> u64 \<Rightarrow> u64 \<Rightarrow> bool" where
  "would_deadlock ws own blocker = deadlock_search 10 ws own blocker"

fun forget_waiter :: "lock_waiter list \<Rightarrow> nat \<Rightarrow> lock_waiter list" where
  "forget_waiter [] wid = []"
| "forget_waiter (w # ws) wid = (if w_id w \<noteq> wid then w # forget_waiter ws wid else ws)"

definition posix_lock_test :: "posix_lock list \<Rightarrow> posix_lock_request \<Rightarrow> posix_lock_request" where
  "posix_lock_test locks request =
     (case find_conflict locks request of
        Some conflict \<Rightarrow> request\<lparr>r_type := l_type conflict, r_start := l_start conflict,
                                r_end := l_end conflict, r_pid := l_pid conflict\<rparr>
      | None \<Rightarrow> request\<lparr>r_type := POSIX_LOCK_UNLOCK\<rparr>)"

text \<open>
  The spare locks are counted: \<open>take_spare\<close> hands one out, and its result is dereferenced without a test,
  so running out is \<open>None\<close>. The loop returns the widened range, the spares left and the new list.
\<close>

definition take_spare :: "nat \<Rightarrow> nat option" where
  "take_spare spare = (if spare = 0 then None else Some (spare - 1))"

fun apply_loop ::
  "posix_lock_request \<Rightarrow> u64 \<Rightarrow> u64 \<Rightarrow> nat \<Rightarrow> posix_lock list \<Rightarrow> (u64 \<times> u64 \<times> nat \<times> posix_lock list) option" where
  "apply_loop request start fin spare [] = Some (start, fin, spare, [])"
| "apply_loop request start fin spare (lock # locks) =
     (if l_owner lock \<noteq> r_owner request then
        map_option (\<lambda>(s, e, sp, ls). (s, e, sp, lock # ls)) (apply_loop request start fin spare locks)
      else if r_type request \<noteq> POSIX_LOCK_UNLOCK \<and> l_type lock = r_type request \<and> touches start fin lock then
        apply_loop request
          (if l_start lock < start then l_start lock else start)
          (if l_end lock > fin then l_end lock else fin) spare locks
      else if \<not> overlaps (r_start request) (r_end request) lock then
        map_option (\<lambda>(s, e, sp, ls). (s, e, sp, lock # ls)) (apply_loop request start fin spare locks)
      else if l_start lock < r_start request \<and> l_end lock > r_end request then
        Option.bind (take_spare spare) (\<lambda>spare'.
          map_option (\<lambda>(s, e, sp, ls).
            (s, e, sp, lock\<lparr>l_end := r_start request - 1\<rparr> # lock\<lparr>l_start := r_end request + 1\<rparr> # ls))
            (apply_loop request start fin spare' locks))
      else if l_start lock < r_start request then
        map_option (\<lambda>(s, e, sp, ls). (s, e, sp, lock\<lparr>l_end := r_start request - 1\<rparr> # ls))
          (apply_loop request start fin spare locks)
      else if l_end lock > r_end request then
        map_option (\<lambda>(s, e, sp, ls). (s, e, sp, lock\<lparr>l_start := r_end request + 1\<rparr> # ls))
          (apply_loop request start fin spare locks)
      else apply_loop request start fin spare locks)"

definition apply_request :: "posix_lock list \<Rightarrow> posix_lock_request \<Rightarrow> nat \<Rightarrow> posix_lock list option" where
  "apply_request locks request spare =
     Option.bind (apply_loop request (r_start request) (r_end request) spare locks)
       (\<lambda>(start, fin, spare', locks').
          if r_type request = POSIX_LOCK_UNLOCK then Some locks'
          else Option.bind (take_spare spare') (\<lambda>_.
            Some (\<lparr>l_owner = r_owner request, l_pid = r_pid request, l_type = r_type request,
                   l_start = start, l_end = fin\<rparr> # locks')))"

text \<open>
  One round of the loop in \<open>posix_lock_set\<close>, under the mutex: the lock can be taken, the request fails, or the
  process registers as a waiter and sleeps. \<open>wid\<close> is the address of its waiter.
\<close>

datatype lock_round = Acquire | Refuse errno | Sleep lock_state

definition posix_lock_round :: "lock_state \<Rightarrow> posix_lock_request \<Rightarrow> bool \<Rightarrow> nat \<Rightarrow> lock_round" where
  "posix_lock_round st request wait wid =
     (if r_type request = POSIX_LOCK_UNLOCK then Acquire
      else case find_conflict (posix_locks st) request of
             None \<Rightarrow> Acquire
           | Some blocker \<Rightarrow>
               if \<not> wait then Refuse EAGAIN
               else if r_owner request AND 1 = 0 \<and>
                       would_deadlock (waiters st) (r_owner request) (l_owner blocker)
               then Refuse EDEADLK
               else Sleep (st\<lparr>waiters := \<lparr>w_id = wid, w_owner = r_owner request,
                                        w_blocker = l_owner blocker\<rparr> # waiters st\<rparr>))"

text \<open>
  A sleep as the process sees it: the outcome of preparing it, what the other processes did to the lock state
  while the mutex was free, and whether a signal ended it.
\<close>

record lock_sleep =
  sleep_status :: "unit result"
  others :: "lock_state \<Rightarrow> lock_state"
  signalled :: bool

fun posix_lock_loop ::
  "lock_state \<Rightarrow> posix_lock_request \<Rightarrow> bool \<Rightarrow> nat \<Rightarrow> lock_sleep list \<Rightarrow> (unit result \<times> lock_state) option" where
  "posix_lock_loop st request wait wid sleeps =
     (case posix_lock_round st request wait wid of
        Acquire \<Rightarrow>
          map_option (\<lambda>locks. (Inr (), st\<lparr>posix_locks := locks\<rparr>)) (apply_request (posix_locks st) request 2)
      | Refuse e \<Rightarrow> Some (Inl e, st)
      | Sleep st1 \<Rightarrow>
          (case sleeps of
             [] \<Rightarrow> None
           | z # zs \<Rightarrow>
               (case sleep_status z of
                  Inl e \<Rightarrow> Some (Inl e, st1\<lparr>waiters := forget_waiter (waiters st1) wid\<rparr>)
                | Inr _ \<Rightarrow>
                    let st2 = others z st1;
                        st3 = st2\<lparr>waiters := forget_waiter (waiters st2) wid\<rparr>
                    in if signalled z then Some (Inl EINTR, st3)
                       else posix_lock_loop st3 request wait wid zs)))"

definition posix_lock_set ::
  "bool \<Rightarrow> lock_state \<Rightarrow> posix_lock_request \<Rightarrow> bool \<Rightarrow> nat \<Rightarrow> lock_sleep list \<Rightarrow> (unit result \<times> lock_state) option" where
  "posix_lock_set spares_allocated st request wait wid sleeps =
     (if \<not> spares_allocated then Some (Inl ENOLCK, st) else posix_lock_loop st request wait wid sleeps)"

definition posix_lock_release_owner :: "posix_lock list \<Rightarrow> u64 \<Rightarrow> posix_lock list" where
  "posix_lock_release_owner locks own = filter (\<lambda>lock. l_owner lock \<noteq> own) locks"

text \<open>
  The range of a request from the structure passed to \<^verbatim>\<open>fcntl\<close>: \<open>whence\<close> and the file's offset and length give the
  base. Offsets are 64-bit signed integers; \<open>add64\<close> is \<^verbatim>\<open>__builtin_add_overflow\<close>.
\<close>

definition add64 :: "int \<Rightarrow> int \<Rightarrow> int option" where
  "add64 a b = (if - (2 ^ 63) \<le> a + b \<and> a + b < 2 ^ 63 then Some (a + b) else None)"

datatype lock_whence = SEEK_SET | SEEK_CUR | SEEK_END | SEEK_other

definition lock_range ::
  "int \<Rightarrow> int \<Rightarrow> lock_whence \<Rightarrow> int \<Rightarrow> int \<Rightarrow> posix_lock_request \<Rightarrow> posix_lock_request result" where
  "lock_range offset filelen whence lstart llen request =
     (case (case whence of SEEK_SET \<Rightarrow> Some 0 | SEEK_CUR \<Rightarrow> Some offset | SEEK_END \<Rightarrow> Some filelen
            | SEEK_other \<Rightarrow> None) of
        None \<Rightarrow> Inl EINVAL
      | Some base \<Rightarrow>
          (case add64 base lstart of
             None \<Rightarrow> Inl EOVERFLOW
           | Some start \<Rightarrow>
               if llen > 0 then
                 (case add64 start (llen - 1) of
                    None \<Rightarrow> Inl EOVERFLOW
                  | Some fin \<Rightarrow>
                      if start < 0 then Inl EINVAL
                      else Inr (request\<lparr>r_start := word_of_int start, r_end := word_of_int fin\<rparr>))
               else if llen < 0 then
                 (case add64 start llen of
                    None \<Rightarrow> Inl EINVAL
                  | Some first \<Rightarrow>
                      if first < 0 then Inl EINVAL
                      else Inr (request\<lparr>r_start := word_of_int first, r_end := word_of_int start - 1\<rparr>))
               else if start < 0 then Inl EINVAL
               else Inr (request\<lparr>r_start := word_of_int start, r_end := POSIX_LOCK_END\<rparr>)))"

text \<open>
  The \<^verbatim>\<open>fcntl\<close> commands on locks. The caller's file, if the descriptor has one, is given by the fields the call reads;
  \<open>ofd_owner\<close> and \<open>files_owner\<close> are the owner identities of the open file and of the process's descriptor table. The lock structure
  comes from user memory, \<open>None\<close> for a fault, and goes back for the query commands.
\<close>

datatype lock_command = F_GETLK | F_SETLK | F_SETLKW | F_OFD_GETLK | F_OFD_SETLK | F_OFD_SETLKW

datatype flock_type = F_RDLCK | F_WRLCK | F_UNLCK | F_other

datatype access_mode = O_RDONLY | O_WRONLY | O_RDWR

record linux_flock =
  fl_type :: flock_type
  fl_whence :: lock_whence
  fl_start :: int
  fl_length :: int
  fl_pid :: int

record lock_file =
  vfs_file :: bool
  file_offset :: int
  node_length :: int
  file_access :: access_mode
  ofd_owner :: u64

definition sys_fcntl_lock ::
  "lock_file option \<Rightarrow> u64 \<Rightarrow> int \<Rightarrow> lock_command \<Rightarrow> linux_flock option \<Rightarrow> bool \<Rightarrow> bool \<Rightarrow> nat \<Rightarrow>
   lock_sleep list \<Rightarrow> lock_state \<Rightarrow> (linux_flock result \<times> lock_state) option" where
  "sys_fcntl_lock file files_owner tgid command user_lock copied_out spares_allocated wid sleeps st =
     (case file of
        None \<Rightarrow> Some (Inl EBADF, st)
      | Some f \<Rightarrow>
          if \<not> vfs_file f then Some (Inl EINVAL, st)
          else case user_lock of
            None \<Rightarrow> Some (Inl EFAULT, st)
          | Some lock \<Rightarrow>
              let ofd = command \<in> {F_OFD_GETLK, F_OFD_SETLK, F_OFD_SETLKW}
              in if ofd \<and> fl_pid lock \<noteq> 0 then Some (Inl EINVAL, st)
                 else if fl_type lock = F_other then Some (Inl EINVAL, st)
                 else
                   let request = \<lparr>r_type = (case fl_type lock of F_RDLCK \<Rightarrow> POSIX_LOCK_READ
                                            | F_WRLCK \<Rightarrow> POSIX_LOCK_WRITE | _ \<Rightarrow> POSIX_LOCK_UNLOCK),
                                  r_start = 0, r_end = 0,
                                  r_owner = (if ofd then ofd_owner f else files_owner),
                                  r_pid = (if ofd then -1 else tgid)\<rparr>
                   in case lock_range (file_offset f) (node_length f) (fl_whence lock) (fl_start lock)
                             (fl_length lock) request of
                        Inl e \<Rightarrow> Some (Inl e, st)
                      | Inr request \<Rightarrow>
                          if command = F_GETLK \<or> command = F_OFD_GETLK then
                            if r_type request = POSIX_LOCK_UNLOCK then Some (Inl EINVAL, st)
                            else
                              let found = posix_lock_test (posix_locks st) request;
                                  answer =
                                    (if r_type found = POSIX_LOCK_UNLOCK then lock\<lparr>fl_type := F_UNLCK\<rparr>
                                     else lock\<lparr>fl_type := (if r_type found = POSIX_LOCK_READ then F_RDLCK else F_WRLCK),
                                               fl_whence := SEEK_SET,
                                               fl_start := sint (r_start found),
                                               fl_length := (if r_end found = POSIX_LOCK_END then 0
                                                             else sint (r_end found - r_start found + 1)),
                                               fl_pid := r_pid found\<rparr>)
                              in Some (if copied_out then Inr answer else Inl EFAULT, st)
                          else if r_type request = POSIX_LOCK_READ \<and> file_access f = O_WRONLY then Some (Inl EBADF, st)
                          else if r_type request = POSIX_LOCK_WRITE \<and> file_access f = O_RDONLY then Some (Inl EBADF, st)
                          else
                            map_option (\<lambda>(status, st').
                                (case status of Inl e \<Rightarrow> Inl (if e = EINTR then ERESTARTSYS else e) | Inr _ \<Rightarrow> Inr lock, st'))
                              (posix_lock_set spares_allocated st request
                                 (command = F_SETLKW \<or> command = F_OFD_SETLKW) wid sleeps))"

section \<open>Bytes\<close>

text \<open>
  A lock covers the bytes of its range. \<open>covering\<close> are the locks of an owner that cover a byte; \<open>holds\<close> says that the
  owner has the byte locked in a mode.
\<close>

definition covers :: "posix_lock \<Rightarrow> u64 \<Rightarrow> bool" where
  "covers lock b \<longleftrightarrow> l_start lock \<le> b \<and> b \<le> l_end lock"

definition covering :: "posix_lock list \<Rightarrow> u64 \<Rightarrow> u64 \<Rightarrow> posix_lock list" where
  "covering locks own b = filter (\<lambda>lock. l_owner lock = own \<and> covers lock b) locks"

definition holds :: "posix_lock list \<Rightarrow> u64 \<Rightarrow> lock_type \<Rightarrow> u64 \<Rightarrow> bool" where
  "holds locks own t b \<longleftrightarrow> (\<exists>lock \<in> set locks. l_owner lock = own \<and> l_type lock = t \<and> covers lock b)"

abbreviation requested :: "posix_lock_request \<Rightarrow> u64 \<Rightarrow> bool" where
  "requested r b \<equiv> r_start r \<le> b \<and> b \<le> r_end r"

definition locks_ok :: "posix_lock list \<Rightarrow> bool" where
  "locks_ok locks \<longleftrightarrow>
     (\<forall>lock \<in> set locks. l_start lock \<le> l_end lock \<and> l_type lock \<noteq> POSIX_LOCK_UNLOCK) \<and>
     (\<forall>own b. length (covering locks own b) \<le> 1)"

definition compatible :: "posix_lock list \<Rightarrow> bool" where
  "compatible locks \<longleftrightarrow>
     (\<forall>own own' b t. own \<noteq> own' \<longrightarrow> holds locks own POSIX_LOCK_WRITE b \<longrightarrow> \<not> holds locks own' t b)"

lemma le_pred_iff: "0 < t \<Longrightarrow> b \<le> t - 1 \<longleftrightarrow> b < t" for b t :: u64
  using unat_minus_one [of t] by (cases "t = 0") (auto simp: word_le_nat_alt word_less_nat_alt)

lemma unat_succ: "e < m \<Longrightarrow> unat (e + 1) = unat e + 1" for e m :: u64
  using unat_u64_less [of m] by (simp add: word_less_nat_alt unat_word_ariths)

lemma succ_le_iff: "e < m \<Longrightarrow> e + 1 \<le> b \<longleftrightarrow> e < b" for e m b :: u64
  using unat_succ [of e m] by (auto simp: word_le_nat_alt word_less_nat_alt)

lemma less_not_max: "e < b \<Longrightarrow> e \<noteq> POSIX_LOCK_END" for e b :: u64
  using unat_u64_less [of b] by (auto simp: word_less_nat_alt)

text \<open>
  A lock that touches the range leaves no gap between itself and the range.
\<close>

lemma touches_no_gap:
  assumes "touches s e lock" "s \<le> e" "l_start lock \<le> l_end lock"
  shows "(if l_start lock < s then l_start lock else s) \<le> b \<and> b \<le> (if l_end lock > e then l_end lock else e) \<longleftrightarrow>
    s \<le> b \<and> b \<le> e \<or> covers lock b"
proof -
  have 1: False if "e < b" "b < l_start lock"
  proof -
    have "e + 1 < l_start lock" using succ_le_iff [OF that(1), of b] that by (simp add: order_le_less_trans)
    moreover have "e \<noteq> POSIX_LOCK_END" using that(1) by (rule less_not_max)
    ultimately show False using assms(1) by (simp add: touches_def)
  qed
  have 2: False if "l_end lock < b" "b < s"
  proof -
    have "l_end lock + 1 < s" using succ_le_iff [OF that(1), of b] that by (simp add: order_le_less_trans)
    moreover have "l_end lock \<noteq> POSIX_LOCK_END" using that(1) by (rule less_not_max)
    ultimately show False using assms(1) by (simp add: touches_def)
  qed
  have "b \<le> e \<or> l_start lock \<le> b" "b \<le> l_end lock \<or> s \<le> b" using 1 2 by (meson not_le)+
  then show ?thesis using assms(2,3) by (auto simp: covers_def)
qed

section \<open>One request\<close>

text \<open>
  \<open>modes\<close> counts the modes in which an owner's locks cover a byte. \<open>remnant\<close> describes what the loop leaves of one
  lock: nothing inside the requested range, and outside of it what the lock covered.
\<close>

definition modes :: "posix_lock list \<Rightarrow> u64 \<Rightarrow> u64 \<Rightarrow> lock_type multiset" where
  "modes locks own b = image_mset l_type (mset (covering locks own b))"

definition remnant :: "posix_lock_request \<Rightarrow> posix_lock \<Rightarrow> posix_lock list \<Rightarrow> bool" where
  "remnant r lock pieces \<longleftrightarrow>
     (\<forall>b. \<not> requested r b \<longrightarrow> modes pieces (r_owner r) b = modes [lock] (r_owner r) b) \<and>
     (\<forall>b. requested r b \<longrightarrow> covering pieces (r_owner r) b = []) \<and>
     (\<forall>own b. own \<noteq> r_owner r \<longrightarrow> covering pieces own b = covering [lock] own b) \<and>
     (\<forall>p \<in> set pieces. l_type p = l_type lock \<and> l_start p \<le> l_end p)"

lemma covering_simps [simp]:
  "covering [] own b = []"
  "covering (xs @ ys) own b = covering xs own b @ covering ys own b"
  by (simp_all add: covering_def)

lemma covering_Cons:
  "covering (x # xs) own b = (if l_owner x = own \<and> covers x b then [x] else []) @ covering xs own b"
  by (simp add: covering_def)

lemma modes_append: "modes (xs @ ys) own b = modes xs own b + modes ys own b"
  by (simp add: modes_def)

lemma modes_Cons:
  "modes (x # xs) own b = (if l_owner x = own \<and> covers x b then {#l_type x#} else {#}) + modes xs own b"
  by (simp add: modes_def covering_Cons)

lemma modes_Nil [simp]: "modes [] own b = {#}"
  by (simp add: modes_def)

lemma size_modes: "size (modes locks own b) = length (covering locks own b)"
  by (simp add: modes_def)

lemma remnant_whole:
  assumes "l_owner lock \<noteq> r_owner r \<or> \<not> overlaps (r_start r) (r_end r) lock" "l_start lock \<le> l_end lock"
  shows "remnant r lock [lock]"
  using assms by (auto simp: remnant_def covering_Cons covers_def overlaps_def)

lemma remnant_split:
  assumes "l_owner lock = r_owner r" "l_start lock < r_start r" "r_end r < l_end lock" "r_start r \<le> r_end r"
  shows "remnant r lock [lock\<lparr>l_end := r_start r - 1\<rparr>, lock\<lparr>l_start := r_end r + 1\<rparr>]"
proof -
  have pos: "0 < r_start r" using assms(2) word_zero_le order_le_less_trans by blast
  have left: "covers (lock\<lparr>l_end := r_start r - 1\<rparr>) b \<longleftrightarrow> l_start lock \<le> b \<and> b < r_start r" for b
    using le_pred_iff [OF pos] by (simp add: covers_def)
  have right: "covers (lock\<lparr>l_start := r_end r + 1\<rparr>) b \<longleftrightarrow> r_end r < b \<and> b \<le> l_end lock" for b
    using succ_le_iff [OF assms(3)] by (simp add: covers_def)
  have "l_start lock \<le> r_start r - 1" "r_end r + 1 \<le> l_end lock"
    using le_pred_iff [OF pos] succ_le_iff [OF assms(3)] assms by auto
  moreover have "modes [lock\<lparr>l_end := r_start r - 1\<rparr>, lock\<lparr>l_start := r_end r + 1\<rparr>] (r_owner r) b =
      modes [lock] (r_owner r) b" if "\<not> requested r b" for b
    using that assms unfolding modes_Cons left right by (auto simp: covers_def not_le)
  ultimately show ?thesis
    using assms(1,4) unfolding remnant_def covering_Cons left right by (auto simp: not_less)
qed

lemma remnant_left:
  assumes "l_owner lock = r_owner r" "l_start lock < r_start r" "overlaps (r_start r) (r_end r) lock" "\<not> l_end lock > r_end r"
  shows "remnant r lock [lock\<lparr>l_end := r_start r - 1\<rparr>]"
proof -
  have pos: "0 < r_start r" using assms(2) word_zero_le order_le_less_trans by blast
  have left: "covers (lock\<lparr>l_end := r_start r - 1\<rparr>) b \<longleftrightarrow> l_start lock \<le> b \<and> b < r_start r" for b
    using le_pred_iff [OF pos] by (simp add: covers_def)
  have "l_start lock \<le> r_start r - 1" using le_pred_iff [OF pos] assms(2) by simp
  moreover have "modes [lock\<lparr>l_end := r_start r - 1\<rparr>] (r_owner r) b = modes [lock] (r_owner r) b"
    if "\<not> requested r b" for b
    using that assms unfolding modes_Cons left by (auto simp: covers_def not_le overlaps_def)
  ultimately show ?thesis
    using assms(1) unfolding remnant_def covering_Cons left by (auto simp: not_less)
qed

lemma remnant_right:
  assumes "l_owner lock = r_owner r" "\<not> l_start lock < r_start r" "l_end lock > r_end r" "overlaps (r_start r) (r_end r) lock"
  shows "remnant r lock [lock\<lparr>l_start := r_end r + 1\<rparr>]"
proof -
  have right: "covers (lock\<lparr>l_start := r_end r + 1\<rparr>) b \<longleftrightarrow> r_end r < b \<and> b \<le> l_end lock" for b
    using succ_le_iff [OF assms(3)] by (simp add: covers_def)
  have "r_end r + 1 \<le> l_end lock" using succ_le_iff [OF assms(3)] assms(3) by simp
  moreover have "modes [lock\<lparr>l_start := r_end r + 1\<rparr>] (r_owner r) b = modes [lock] (r_owner r) b"
    if "\<not> requested r b" for b
    using that assms unfolding modes_Cons right by (auto simp: covers_def not_le overlaps_def)
  ultimately show ?thesis
    using assms(1) unfolding remnant_def covering_Cons right by (auto simp: not_less)
qed

lemma remnant_none:
  assumes "l_owner lock = r_owner r" "\<not> l_start lock < r_start r" "\<not> l_end lock > r_end r"
  shows "remnant r lock []"
  using assms by (auto simp: remnant_def modes_Cons covering_Cons covers_def)

lemma apply_loop_Cons_cases:
  assumes run: "apply_loop r s e sp (lock # ls) = Some (s', e', sp', ls')"
    and wf: "l_start lock \<le> l_end lock" "r_start r \<le> r_end r"
  obtains (keep) pieces sp2 ls2 where "remnant r lock pieces" "apply_loop r s e sp2 ls = Some (s', e', sp', ls2)"
      "ls' = pieces @ ls2"
  | (merge) "l_owner lock = r_owner r" "r_type r \<noteq> POSIX_LOCK_UNLOCK" "l_type lock = r_type r" "touches s e lock"
      "apply_loop r (if l_start lock < s then l_start lock else s) (if l_end lock > e then l_end lock else e) sp ls =
        Some (s', e', sp', ls')"
proof -
  let ?merge = "r_type r \<noteq> POSIX_LOCK_UNLOCK \<and> l_type lock = r_type r \<and> touches s e lock"
  let ?ov = "overlaps (r_start r) (r_end r) lock"
  let ?lt = "l_start lock < r_start r" and ?gt = "l_end lock > r_end r"
  consider (other) "l_owner lock \<noteq> r_owner r"
    | (merge) "l_owner lock = r_owner r" ?merge
    | (apart) "l_owner lock = r_owner r" "\<not> ?merge" "\<not> ?ov"
    | (split) "l_owner lock = r_owner r" "\<not> ?merge" ?ov ?lt ?gt
    | (left) "l_owner lock = r_owner r" "\<not> ?merge" ?ov ?lt "\<not> ?gt"
    | (right) "l_owner lock = r_owner r" "\<not> ?merge" ?ov "\<not> ?lt" ?gt
    | (inside) "l_owner lock = r_owner r" "\<not> ?merge" ?ov "\<not> ?lt" "\<not> ?gt"
    by blast
  then show ?thesis
  proof cases
    case other
    then show ?thesis using run wf keep [OF remnant_whole] by auto
  next
    case merge
    then show ?thesis using run that(2) by simp
  next
    case apart
    then show ?thesis using run wf keep [OF remnant_whole] by (auto split: if_splits)
  next
    case split
    obtain sp2 ls2 where "apply_loop r s e sp2 ls = Some (s', e', sp', ls2)"
      "ls' = [lock\<lparr>l_end := r_start r - 1\<rparr>, lock\<lparr>l_start := r_end r + 1\<rparr>] @ ls2"
      using run split by (auto simp: bind_eq_Some_conv)
    then show ?thesis using keep [OF remnant_split] split wf by blast
  next
    case left
    obtain ls2 where "apply_loop r s e sp ls = Some (s', e', sp', ls2)"
      "ls' = [lock\<lparr>l_end := r_start r - 1\<rparr>] @ ls2"
      using run left by auto
    then show ?thesis using keep [OF remnant_left] left by blast
  next
    case right
    obtain ls2 where "apply_loop r s e sp ls = Some (s', e', sp', ls2)"
      "ls' = [lock\<lparr>l_start := r_end r + 1\<rparr>] @ ls2"
      using run right by auto
    then show ?thesis using keep [OF remnant_right] right by blast
  next
    case inside
    then have "apply_loop r s e sp ls = Some (s', e', sp', ls')" using run by (auto split: if_splits)
    then show ?thesis using keep [OF remnant_none] inside by simp
  qed
qed

lemma apply_loop_range:
  assumes "apply_loop r s e sp ls = Some (s', e', sp', ls')" "r_start r \<le> r_end r"
    "\<forall>lock \<in> set ls. l_start lock \<le> l_end lock \<and> l_type lock \<noteq> POSIX_LOCK_UNLOCK"
  shows "s' \<le> s \<and> e \<le> e' \<and>
    (\<forall>lock \<in> set ls'. l_start lock \<le> l_end lock \<and> l_type lock \<noteq> POSIX_LOCK_UNLOCK)"
  using assms
proof (induction ls arbitrary: s e sp s' e' sp' ls')
  case Nil
  then show ?case by simp
next
  case (Cons lock ls)
  have wf: "l_start lock \<le> l_end lock" using Cons.prems(3) by simp
  have ls: "\<forall>lock \<in> set ls. l_start lock \<le> l_end lock \<and> l_type lock \<noteq> POSIX_LOCK_UNLOCK"
    using Cons.prems(3) by simp
  from Cons.prems(1) wf Cons.prems(2) show ?case
  proof (cases rule: apply_loop_Cons_cases)
    case (keep pieces sp2 ls2)
    then show ?thesis using Cons.IH [OF keep(2) Cons.prems(2) ls] Cons.prems(3) by (auto simp: remnant_def)
  next
    case merge
    then show ?thesis using Cons.IH [OF merge(5) Cons.prems(2) ls] by (auto split: if_splits)
  qed
qed

lemma apply_loop_other:
  assumes "apply_loop r s e sp ls = Some (s', e', sp', ls')" "r_start r \<le> r_end r"
    "\<forall>lock \<in> set ls. l_start lock \<le> l_end lock" "own \<noteq> r_owner r"
  shows "covering ls' own b = covering ls own b"
  using assms
proof (induction ls arbitrary: s e sp s' e' sp' ls')
  case Nil
  then show ?case by simp
next
  case (Cons lock ls)
  have wf: "l_start lock \<le> l_end lock" "\<forall>lock \<in> set ls. l_start lock \<le> l_end lock"
    using Cons.prems(3) by simp_all
  from Cons.prems(1) wf(1) Cons.prems(2) show ?case
  proof (cases rule: apply_loop_Cons_cases)
    case (keep pieces sp2 ls2)
    have "covering (lock # ls) own b = covering [lock] own b @ covering ls own b"
      by (simp add: covering_Cons)
    then show ?thesis
      using Cons.IH [OF keep(2) Cons.prems(2) wf(2) Cons.prems(4)] keep(1,3) Cons.prems(4)
      by (simp add: remnant_def)
  next
    case merge
    then show ?thesis
      using Cons.IH [OF merge(5) Cons.prems(2) wf(2) Cons.prems(4)] Cons.prems(4) by (simp add: covering_Cons)
  qed
qed

lemma apply_loop_inside:
  assumes "apply_loop r s e sp ls = Some (s', e', sp', ls')" "r_start r \<le> r_end r"
    "\<forall>lock \<in> set ls. l_start lock \<le> l_end lock" "requested r b"
  shows "covering ls' (r_owner r) b = []"
  using assms
proof (induction ls arbitrary: s e sp s' e' sp' ls')
  case Nil
  then show ?case by simp
next
  case (Cons lock ls)
  have wf: "l_start lock \<le> l_end lock" "\<forall>lock \<in> set ls. l_start lock \<le> l_end lock"
    using Cons.prems(3) by simp_all
  from Cons.prems(1) wf(1) Cons.prems(2) show ?case
  proof (cases rule: apply_loop_Cons_cases)
    case (keep pieces sp2 ls2)
    then show ?thesis
      using Cons.IH [OF keep(2) Cons.prems(2) wf(2) Cons.prems(4)] Cons.prems(4) by (simp add: remnant_def)
  next
    case merge
    then show ?thesis using Cons.IH [OF merge(5) Cons.prems(2) wf(2) Cons.prems(4)] by simp
  qed
qed

definition pending :: "lock_type \<Rightarrow> u64 \<Rightarrow> u64 \<Rightarrow> u64 \<Rightarrow> lock_type multiset" where
  "pending t s e b = (if t \<noteq> POSIX_LOCK_UNLOCK \<and> s \<le> b \<and> b \<le> e then {#t#} else {#})"

lemma apply_loop_outside:
  assumes "apply_loop r s e sp ls = Some (s', e', sp', ls')" "r_start r \<le> r_end r" "s \<le> e"
    "\<forall>lock \<in> set ls. l_start lock \<le> l_end lock" "\<not> requested r b"
    "size (modes ls (r_owner r) b + pending (r_type r) s e b) \<le> 1"
  shows "modes ls' (r_owner r) b + pending (r_type r) s' e' b =
    modes ls (r_owner r) b + pending (r_type r) s e b"
  using assms
proof (induction ls arbitrary: s e sp s' e' sp' ls')
  case Nil
  then show ?case by simp
next
  case (Cons lock ls)
  have wf: "l_start lock \<le> l_end lock" "\<forall>lock \<in> set ls. l_start lock \<le> l_end lock"
    using Cons.prems(4) by simp_all
  let ?own = "r_owner r" and ?T = "r_type r"
  have split: "modes (lock # ls) ?own b = modes [lock] ?own b + modes ls ?own b"
    by (simp add: modes_Cons)
  from Cons.prems(1) wf(1) Cons.prems(2) show ?case
  proof (cases rule: apply_loop_Cons_cases)
    case (keep pieces sp2 ls2)
    have "size (modes ls ?own b + pending ?T s e b) \<le> 1"
      using Cons.prems(6) unfolding split by simp
    from Cons.IH [OF keep(2) Cons.prems(2,3) wf(2) Cons.prems(5) this]
    have "modes ls2 ?own b + pending ?T s' e' b = modes ls ?own b + pending ?T s e b" .
    moreover have "modes pieces ?own b = modes [lock] ?own b"
      using keep(1) Cons.prems(5) by (simp add: remnant_def)
    ultimately show ?thesis unfolding keep(3) modes_append split by (simp add: add.assoc)
  next
    case merge
    let ?s = "if l_start lock < s then l_start lock else s" and ?e = "if l_end lock > e then l_end lock else e"
    have grow: "modes ls ?own b + pending ?T ?s ?e b = modes (lock # ls) ?own b + pending ?T s e b"
      using Cons.prems(6) merge(1-3) touches_no_gap [OF merge(4) Cons.prems(3) wf(1), of b]
      unfolding pending_def modes_Cons by (auto split: if_splits)
    have "?s \<le> ?e" using Cons.prems(3) wf(1) by auto
    moreover have "size (modes ls ?own b + pending ?T ?s ?e b) \<le> 1" unfolding grow by (rule Cons.prems(6))
    ultimately show ?thesis using Cons.IH [OF merge(5) Cons.prems(2) _ wf(2) Cons.prems(5)] grow by simp
  qed
qed

text \<open>
  Only a lock that sticks out of the requested range on both sides is split, and it covers the first byte.
\<close>

definition sticks_out :: "posix_lock_request \<Rightarrow> posix_lock list \<Rightarrow> posix_lock list" where
  "sticks_out r ls = filter (\<lambda>lock. l_owner lock = r_owner r \<and> l_start lock < r_start r \<and> l_end lock > r_end r) ls"

lemma apply_loop_spares:
  "length (sticks_out r ls) \<le> sp \<Longrightarrow>
     \<exists>s' e' sp' ls'. apply_loop r s e sp ls = Some (s', e', sp', ls') \<and> sp \<le> sp' + length (sticks_out r ls)"
proof (induction ls arbitrary: s e sp)
  case Nil
  then show ?case by simp
next
  case (Cons lock ls)
  let ?out = "l_owner lock = r_owner r \<and> l_start lock < r_start r \<and> l_end lock > r_end r"
  have out: "length (sticks_out r (lock # ls)) = (if ?out then 1 else 0) + length (sticks_out r ls)"
    by (simp add: sticks_out_def)
  have ih: "\<exists>s' e' sp' ls'. apply_loop r s e sp ls = Some (s', e', sp', ls') \<and>
      sp \<le> sp' + length (sticks_out r (lock # ls))" for s e
    using Cons.IH [of sp s e] Cons.prems out by fastforce
  show ?case
  proof (cases "?out \<and> \<not> (r_type r \<noteq> POSIX_LOCK_UNLOCK \<and> l_type lock = r_type r \<and> touches s e lock) \<and>
      overlaps (r_start r) (r_end r) lock")
    case True
    then have "take_spare sp = Some (sp - 1)" "length (sticks_out r ls) \<le> sp - 1" "sp \<noteq> 0"
      using Cons.prems out by (auto simp: take_spare_def)
    then show ?thesis
      using Cons.IH [of "sp - 1" s e] True out by auto
  next
    case False
    obtain s1 e1 sp1 ls1 where 1: "apply_loop r s e sp ls = Some (s1, e1, sp1, ls1)"
      "sp \<le> sp1 + length (sticks_out r (lock # ls))" using ih by blast
    obtain s2 e2 sp2 ls2 where 2: "apply_loop r (if l_start lock < s then l_start lock else s)
        (if l_end lock > e then l_end lock else e) sp ls = Some (s2, e2, sp2, ls2)"
      "sp \<le> sp2 + length (sticks_out r (lock # ls))" using ih by blast
    show ?thesis
    proof (cases "l_owner lock = r_owner r \<and> r_type r \<noteq> POSIX_LOCK_UNLOCK \<and> l_type lock = r_type r \<and> touches s e lock")
      case True
      then have "apply_loop r s e sp (lock # ls) = Some (s2, e2, sp2, ls2)" using 2(1) by simp
      then show ?thesis using 2(2) by blast
    next
      case no_merge: False
      have "\<exists>ls'. apply_loop r s e sp (lock # ls) = Some (s1, e1, sp1, ls')"
        using False no_merge 1(1) by auto
      then show ?thesis using 1(2) by blast
    qed
  qed
qed

lemma length_filter_mono: "(\<And>x. P x \<Longrightarrow> Q x) \<Longrightarrow> length (filter P xs) \<le> length (filter Q xs)"
  by (induction xs) (auto simp: le_SucI)

lemma sticks_out_one:
  assumes "locks_ok ls" "r_start r \<le> r_end r"
  shows "length (sticks_out r ls) \<le> 1"
proof -
  have "length (sticks_out r ls) \<le> length (covering ls (r_owner r) (r_start r))"
    unfolding sticks_out_def covering_def
    by (rule length_filter_mono) (use assms(2) in \<open>auto simp: covers_def\<close>)
  then show ?thesis using assms(1) unfolding locks_ok_def by (meson le_trans)
qed

lemma holds_modes: "holds ls own t b \<longleftrightarrow> t \<in># modes ls own b"
  by (auto simp: holds_def modes_def covering_def)

lemma apply_request_modes:
  assumes ok: "locks_ok ls" and range: "r_start r \<le> r_end r"
  shows "\<exists>ls'. apply_request ls r 2 = Some ls' \<and> locks_ok ls' \<and>
    (\<forall>b. modes ls' (r_owner r) b =
      (if requested r b then (if r_type r = POSIX_LOCK_UNLOCK then {#} else {#r_type r#})
       else modes ls (r_owner r) b)) \<and>
    (\<forall>own b. own \<noteq> r_owner r \<longrightarrow> covering ls' own b = covering ls own b)"
proof -
  have wf: "\<forall>lock \<in> set ls. l_start lock \<le> l_end lock \<and> l_type lock \<noteq> POSIX_LOCK_UNLOCK"
    and one: "\<And>own b. length (covering ls own b) \<le> 1"
    using ok by (auto simp: locks_ok_def)
  obtain s e sp ls1 where run: "apply_loop r (r_start r) (r_end r) 2 ls = Some (s, e, sp, ls1)"
    "2 \<le> sp + length (sticks_out r ls)"
    using apply_loop_spares [of r ls 2 "r_start r" "r_end r"] sticks_out_one [OF ok range] by auto
  have sp: "sp \<noteq> 0" using run(2) sticks_out_one [OF ok range] by auto
  note range' = apply_loop_range [OF run(1) range wf]
  have wf': "\<forall>lock \<in> set ls. l_start lock \<le> l_end lock" using wf by blast
  let ?T = "r_type r" and ?own = "r_owner r"
  let ?ls' = "if ?T = POSIX_LOCK_UNLOCK then ls1
    else \<lparr>l_owner = ?own, l_pid = r_pid r, l_type = ?T, l_start = s, l_end = e\<rparr> # ls1"
  have run2: "apply_request ls r 2 = Some ?ls'"
    using run(1) sp by (simp add: apply_request_def take_spare_def)
  have modes': "modes ?ls' ?own b = modes ls1 ?own b + pending ?T s e b" for b
    by (simp add: modes_Cons pending_def covers_def)
  have modes: "modes ?ls' ?own b =
      (if requested r b then (if ?T = POSIX_LOCK_UNLOCK then {#} else {#?T#}) else modes ls ?own b)" for b
  proof (cases "requested r b")
    case True
    then have "modes ls1 ?own b = {#}"
      using apply_loop_inside [OF run(1) range wf' True] by (simp add: modes_def)
    moreover have "s \<le> b \<and> b \<le> e" using True range' by (meson order_trans)
    ultimately show ?thesis using True unfolding modes' by (simp add: pending_def)
  next
    case False
    then have none: "pending ?T (r_start r) (r_end r) b = {#}" by (auto simp: pending_def)
    then have "size (modes ls ?own b + pending ?T (r_start r) (r_end r) b) \<le> 1"
      using one by (simp add: size_modes)
    from apply_loop_outside [OF run(1) range range wf' False this] False none
    show ?thesis unfolding modes' by auto
  qed
  have other: "covering ?ls' own b = covering ls own b" if "own \<noteq> ?own" for own b
    using apply_loop_other [OF run(1) range wf' that] that by (simp add: covering_Cons)
  have "s \<le> e" using range' range by (meson order_trans)
  moreover have "length (covering ?ls' own b) \<le> 1" for own b
  proof (cases "own = ?own")
    case True
    then show ?thesis
      using modes [of b] one [of ?own b] unfolding size_modes [symmetric] by simp
  next
    case False
    then show ?thesis using other [OF False] one by simp
  qed
  ultimately have "locks_ok ?ls'" using range' by (auto simp: locks_ok_def)
  with run2 modes other show ?thesis by blast
qed

lemma find_conflict_None:
  "find_conflict ls r = None \<longleftrightarrow>
     (\<forall>lock \<in> set ls. l_owner lock \<noteq> r_owner r \<longrightarrow> overlaps (r_start r) (r_end r) lock \<longrightarrow>
        l_type lock \<noteq> POSIX_LOCK_WRITE \<and> r_type r \<noteq> POSIX_LOCK_WRITE)"
  by (induction ls) auto

lemma find_conflict_Some:
  "find_conflict ls r = Some lock \<Longrightarrow>
     lock \<in> set ls \<and> l_owner lock \<noteq> r_owner r \<and> overlaps (r_start r) (r_end r) lock \<and>
     (l_type lock = POSIX_LOCK_WRITE \<or> r_type r = POSIX_LOCK_WRITE)"
  by (induction ls) (auto split: if_splits)

lemma apply_request_holds:
  assumes "locks_ok ls" "r_start r \<le> r_end r" "apply_request ls r 2 = Some ls'"
  shows "locks_ok ls'" "holds ls' own t b \<longleftrightarrow>
    (if own = r_owner r \<and> requested r b then t = r_type r \<and> r_type r \<noteq> POSIX_LOCK_UNLOCK else holds ls own t b)"
proof -
  note spec = apply_request_modes [OF assms(1,2)]
  then show "locks_ok ls'" using assms(3) by auto
  have "modes ls' own b = modes ls own b" if "own \<noteq> r_owner r"
    using spec assms(3) that by (simp add: modes_def)
  moreover have "modes ls' (r_owner r) b =
      (if requested r b then (if r_type r = POSIX_LOCK_UNLOCK then {#} else {#r_type r#}) else modes ls (r_owner r) b)"
    using spec assms(3) by auto
  ultimately show "holds ls' own t b \<longleftrightarrow>
    (if own = r_owner r \<and> requested r b then t = r_type r \<and> r_type r \<noteq> POSIX_LOCK_UNLOCK else holds ls own t b)"
    unfolding holds_modes by (cases "own = r_owner r") auto
qed

lemma apply_request_compatible:
  assumes ok: "locks_ok ls" "r_start r \<le> r_end r" "apply_request ls r 2 = Some ls'" and comp: "compatible ls"
    and free: "r_type r = POSIX_LOCK_UNLOCK \<or> find_conflict ls r = None"
  shows "compatible ls'"
  unfolding compatible_def
proof (intro allI impI)
  fix own own' b t
  assume ne: "own \<noteq> own'" and w: "holds ls' own POSIX_LOCK_WRITE b"
  note h = apply_request_holds(2) [OF ok]
  have others: "t' = POSIX_LOCK_READ \<and> r_type r = POSIX_LOCK_READ"
    if hyp: "holds ls o' t' b" "o' \<noteq> r_owner r" "requested r b" "r_type r \<noteq> POSIX_LOCK_UNLOCK" for o' t'
  proof -
    obtain lock where lock: "lock \<in> set ls" "l_owner lock = o'" "l_type lock = t'" "covers lock b"
      using hyp(1) by (auto simp: holds_def)
    then have "overlaps (r_start r) (r_end r) lock"
      using hyp(3) by (auto simp: covers_def overlaps_def intro: order_trans)
    moreover have "l_type lock \<noteq> POSIX_LOCK_UNLOCK" using ok(1) lock(1) by (simp add: locks_ok_def)
    ultimately show ?thesis
      using free hyp(2,4) lock unfolding find_conflict_None by (metis lock_type.exhaust)
  qed
  show "\<not> holds ls' own' t b"
  proof
    assume h': "holds ls' own' t b"
    show False
    proof (cases "requested r b \<and> (own = r_owner r \<or> own' = r_owner r)")
      case False
      then have "holds ls own POSIX_LOCK_WRITE b" "holds ls own' t b"
        using w h' unfolding h by (auto split: if_splits)
      then show ?thesis using comp ne unfolding compatible_def by blast
    next
      case True
      show ?thesis
      proof (cases "own = r_owner r")
        case own: True
        then have "r_type r = POSIX_LOCK_WRITE" "holds ls own' t b"
          using w h' True ne unfolding h by (auto split: if_splits)
        then show ?thesis using others [of own' t] own ne True by auto
      next
        case False
        then have "holds ls own POSIX_LOCK_WRITE b" "r_type r \<noteq> POSIX_LOCK_UNLOCK"
          using w h' True unfolding h by (auto split: if_splits)
        then show ?thesis using others [of own POSIX_LOCK_WRITE] False True by auto
      qed
    qed
  qed
qed

section \<open>Abstract view\<close>

text \<open>
  What a list of locks means: for every owner and byte, the mode in which the byte is locked. A request
  sets the mode of its bytes for its owner; an owner's release clears all of its bytes.
\<close>

definition lock_map :: "posix_lock list \<Rightarrow> u64 \<Rightarrow> u64 \<Rightarrow> lock_type option" where
  "lock_map locks own b = (case covering locks own b of [] \<Rightarrow> None | lock # _ \<Rightarrow> Some (l_type lock))"

definition spec_request :: "posix_lock_request \<Rightarrow> (u64 \<Rightarrow> u64 \<Rightarrow> lock_type option) \<Rightarrow> u64 \<Rightarrow> u64 \<Rightarrow> lock_type option" where
  "spec_request r m own b =
     (if own = r_owner r \<and> requested r b
      then (if r_type r = POSIX_LOCK_UNLOCK then None else Some (r_type r)) else m own b)"

definition spec_release :: "u64 \<Rightarrow> (u64 \<Rightarrow> u64 \<Rightarrow> lock_type option) \<Rightarrow> u64 \<Rightarrow> u64 \<Rightarrow> lock_type option" where
  "spec_release gone m own b = (if own = gone then None else m own b)"

lemma lock_map_Some:
  assumes "locks_ok ls"
  shows "lock_map ls own b = Some t \<longleftrightarrow> holds ls own t b"
proof -
  have "length (covering ls own b) \<le> 1" using assms by (simp add: locks_ok_def)
  then consider "covering ls own b = []" | lock where "covering ls own b = [lock]"
    by (cases "covering ls own b") auto
  then show ?thesis
    by cases (auto simp: lock_map_def holds_modes modes_def)
qed

lemma lock_map_eqI:
  assumes "locks_ok ls" "\<And>own t b. holds ls own t b \<longleftrightarrow> m own b = Some t"
  shows "lock_map ls = m"
proof (intro ext)
  fix own b
  show "lock_map ls own b = m own b"
    using lock_map_Some [OF assms(1), of own b] assms(2) [of own _ b] by (cases "m own b") (metis option.exhaust)+
qed

lemma covering_release:
  "covering (posix_lock_release_owner ls gone) own b = (if own = gone then [] else covering ls own b)"
  by (induction ls) (auto simp: posix_lock_release_owner_def covering_def)

lemma release_owner_ok: "locks_ok ls \<Longrightarrow> locks_ok (posix_lock_release_owner ls gone)"
  unfolding locks_ok_def covering_release by (auto simp: posix_lock_release_owner_def)

lemma release_owner_compatible: "compatible ls \<Longrightarrow> compatible (posix_lock_release_owner ls gone)"
  unfolding compatible_def holds_def posix_lock_release_owner_def by (metis filter_is_subset subsetD)

section \<open>Waiting for each other\<close>

text \<open>
  Who waits for whom: every registered waiter waits for the owner that blocks it. A request would close a cycle when its
  blocker waits, directly or through others, for the requester.
\<close>

definition waits_for :: "lock_waiter list \<Rightarrow> (u64 \<times> u64) set" where
  "waits_for ws = (\<lambda>w. (w_owner w, w_blocker w)) ` set ws"

lemma find_waiter_Some: "find_waiter ws own = Some w \<Longrightarrow> w \<in> set ws \<and> w_owner w = own"
  by (induction ws) (auto split: if_splits)

lemma find_waiter_unique:
  "distinct (map w_owner ws) \<Longrightarrow> (own, blocker) \<in> waits_for ws \<Longrightarrow> \<exists>w. find_waiter ws own = Some w \<and> w_blocker w = blocker"
  by (induction ws) (auto simp: waits_for_def)

lemma deadlock_search_sound:
  "deadlock_search d ws own blocker \<Longrightarrow> \<exists>k < d. (blocker, own) \<in> waits_for ws ^^ k"
proof (induction d arbitrary: blocker)
  case (Suc d)
  show ?case
  proof (cases "blocker = own")
    case True
    then show ?thesis by (intro exI [of _ 0]) simp
  next
    case False
    then obtain w where w: "find_waiter ws blocker = Some w" "deadlock_search d ws own (w_blocker w)"
      using Suc.prems by (auto split: option.splits)
    from Suc.IH [OF w(2)] obtain k where k: "k < d" "(w_blocker w, own) \<in> waits_for ws ^^ k" by blast
    have "(blocker, w_blocker w) \<in> waits_for ws" using find_waiter_Some [OF w(1)] by (auto simp: waits_for_def)
    then have "(blocker, own) \<in> waits_for ws ^^ Suc k" using k(2) by (rule relpow_Suc_I2)
    then show ?thesis using k(1) by (intro exI [of _ "Suc k"]) simp
  qed
qed simp

lemma deadlock_search_cycles: "deadlock_search d ws own blocker \<Longrightarrow> (blocker, own) \<in> (waits_for ws)\<^sup>*"
  using deadlock_search_sound by (meson relpow_imp_rtrancl)

lemma deadlock_search_complete:
  "distinct (map w_owner ws) \<Longrightarrow> (blocker, own) \<in> waits_for ws ^^ k \<Longrightarrow> k < d \<Longrightarrow> deadlock_search d ws own blocker"
proof (induction d arbitrary: blocker k)
  case (Suc d)
  show ?case
  proof (cases "blocker = own")
    case False
    then obtain k' where k': "k = Suc k'" using Suc.prems(2) by (cases k) auto
    obtain next_owner where n: "(blocker, next_owner) \<in> waits_for ws" "(next_owner, own) \<in> waits_for ws ^^ k'"
      using Suc.prems(2) unfolding k' by (meson relpow_Suc_D2)
    obtain w where w: "find_waiter ws blocker = Some w" "w_blocker w = next_owner"
      using find_waiter_unique [OF Suc.prems(1) n(1)] by blast
    have "deadlock_search d ws own next_owner" by (rule Suc.IH [OF Suc.prems(1) n(2)]) (use Suc.prems(3) k' in simp)
    then show ?thesis using w by simp
  qed simp
qed simp

text \<open>
  A cycle passes through each waiter at most once, so ten hops are enough for up to nine waiters.
\<close>

lemma waits_for_short:
  assumes "(blocker, own) \<in> (waits_for ws)\<^sup>*" "length ws < d"
  shows "\<exists>k < d. (blocker, own) \<in> waits_for ws ^^ k"
proof -
  have fin: "finite (waits_for ws)" and card: "card (waits_for ws) \<le> length ws"
    by (simp_all add: waits_for_def) (metis card_image_le card_length finite_set le_trans)
  obtain k where "k \<le> card (waits_for ws)" "(blocker, own) \<in> waits_for ws ^^ k"
    using assms(1) unfolding rtrancl_finite_eq_relpow [OF fin] by blast
  then show ?thesis using card assms(2) by (intro exI [of _ k]) simp
qed

lemma deadlock_search_cycle:
  assumes "distinct (map w_owner ws)" "length ws < d"
  shows "deadlock_search d ws own blocker \<longleftrightarrow> (blocker, own) \<in> (waits_for ws)\<^sup>*"
  using deadlock_search_cycles deadlock_search_complete [OF assms(1)] waits_for_short [OF _ assms(2)] by blast

section \<open>All processes together\<close>

text \<open>
  The critical sections of any number of processes on the lock lists of one node, in any order: a round that takes
  the lock, a round that goes to sleep, the end of a sleep, and the release of an owner's locks. Requests have the
  ranges \<open>lock_range\<close> produces.
\<close>

inductive lock_step :: "lock_state \<Rightarrow> lock_state \<Rightarrow> bool" where
  acquire: "r_start r \<le> r_end r \<Longrightarrow> posix_lock_round st r wait wid = Acquire \<Longrightarrow>
     apply_request (posix_locks st) r 2 = Some ls \<Longrightarrow> lock_step st (st\<lparr>posix_locks := ls\<rparr>)"
| sleep: "posix_lock_round st r wait wid = Sleep st' \<Longrightarrow> lock_step st st'"
| woken: "lock_step st (st\<lparr>waiters := forget_waiter (waiters st) wid\<rparr>)"
| release: "lock_step st (st\<lparr>posix_locks := posix_lock_release_owner (posix_locks st) own\<rparr>)"

inductive lock_reachable :: "lock_state \<Rightarrow> bool" where
  init: "lock_reachable \<lparr>posix_locks = [], waiters = []\<rparr>"
| step: "lock_reachable st \<Longrightarrow> lock_step st st' \<Longrightarrow> lock_reachable st'"

lemma round_Acquire:
  "posix_lock_round st r wait wid = Acquire \<Longrightarrow>
     r_type r = POSIX_LOCK_UNLOCK \<or> find_conflict (posix_locks st) r = None"
  by (auto simp: posix_lock_round_def split: if_splits option.splits)

lemma round_Sleep: "posix_lock_round st r wait wid = Sleep st' \<Longrightarrow> posix_locks st' = posix_locks st"
  by (auto simp: posix_lock_round_def split: if_splits option.splits)

lemma acquired:
  assumes "posix_lock_round st r wait wid = Acquire" "apply_request (posix_locks st) r 2 = Some ls"
    "st' = st\<lparr>posix_locks := ls\<rparr>" "r_start r \<le> r_end r" "locks_ok (posix_locks st)" "compatible (posix_locks st)"
  shows "locks_ok (posix_locks st') \<and> compatible (posix_locks st') \<and>
    (requested r b \<longrightarrow> lock_map (posix_locks st') (r_owner r) b =
       (if r_type r = POSIX_LOCK_UNLOCK then None else Some (r_type r)))"
proof -
  note new = apply_request_holds [OF assms(5,4,2)]
  have "compatible ls"
    by (rule apply_request_compatible [OF assms(5,4,2,6) round_Acquire [OF assms(1)]])
  moreover have "lock_map ls (r_owner r) b = (if r_type r = POSIX_LOCK_UNLOCK then None else Some (r_type r))"
    if "requested r b"
    using lock_map_Some [OF new(1), of "r_owner r" b] new(2) [of "r_owner r" _ b] that
    by (cases "lock_map ls (r_owner r) b") auto
  ultimately show ?thesis using new(1) assms(3) by simp
qed

lemma lock_step_inv:
  assumes "lock_step st st'" "locks_ok (posix_locks st)" "compatible (posix_locks st)"
  shows "locks_ok (posix_locks st') \<and> compatible (posix_locks st')"
  using assms
proof (induction rule: lock_step.induct)
  case (acquire r st wait wid ls)
  then show ?case
    using apply_request_holds(1) [OF acquire.prems(1) acquire(1,3)]
      apply_request_compatible [OF acquire.prems(1) acquire(1,3) acquire.prems(2) round_Acquire [OF acquire(2)]]
    by simp
next
  case (sleep st r wait wid st')
  then show ?case using round_Sleep by simp
next
  case (woken st wid)
  then show ?case by simp
next
  case (release st own)
  then show ?case using release_owner_ok release_owner_compatible by simp
qed

lemma lock_reachable_inv:
  "lock_reachable st \<Longrightarrow> locks_ok (posix_locks st) \<and> compatible (posix_locks st)"
proof (induction rule: lock_reachable.induct)
  case init
  then show ?case by (simp add: locks_ok_def compatible_def holds_def)
next
  case (step st st')
  then show ?case using lock_step_inv by blast
qed

declare posix_lock_loop.simps [simp del]

text \<open>
  A whole call, with the other processes' work during its sleeps: if it succeeds, the owner has the requested
  bytes in the requested mode, and the list is again sound.
\<close>

lemma posix_lock_loop_granted:
  assumes "posix_lock_loop st r wait wid sleeps = Some (Inr (), st')" "r_start r \<le> r_end r"
    "locks_ok (posix_locks st)" "compatible (posix_locks st)"
    "\<And>z st. z \<in> set sleeps \<Longrightarrow> locks_ok (posix_locks st) \<Longrightarrow> compatible (posix_locks st) \<Longrightarrow>
       locks_ok (posix_locks (others z st)) \<and> compatible (posix_locks (others z st))"
  shows "locks_ok (posix_locks st') \<and> compatible (posix_locks st') \<and>
    (requested r b \<longrightarrow> lock_map (posix_locks st') (r_owner r) b =
       (if r_type r = POSIX_LOCK_UNLOCK then None else Some (r_type r)))"
  using assms
proof (induction sleeps arbitrary: st)
  case Nil
  show ?case
  proof (cases "posix_lock_round st r wait wid")
    case Acquire
    then obtain ls where ls: "apply_request (posix_locks st) r 2 = Some ls" "st' = st\<lparr>posix_locks := ls\<rparr>"
      using Nil.prems(1) by (subst (asm) posix_lock_loop.simps) auto
    show ?thesis by (rule acquired [OF Acquire ls Nil.prems(2-4)])
  qed (use Nil.prems(1) in \<open>subst (asm) posix_lock_loop.simps, simp\<close>)+
next
  case (Cons z zs)
  show ?case
  proof (cases "posix_lock_round st r wait wid")
    case Acquire
    then obtain ls where ls: "apply_request (posix_locks st) r 2 = Some ls" "st' = st\<lparr>posix_locks := ls\<rparr>"
      using Cons.prems(1) by (subst (asm) posix_lock_loop.simps) auto
    show ?thesis by (rule acquired [OF Acquire ls Cons.prems(2-4)])
  next
    case (Refuse e)
    then show ?thesis using Cons.prems(1) by (subst (asm) posix_lock_loop.simps) simp
  next
    case (Sleep st1)
    let ?st = "(others z st1)\<lparr>waiters := forget_waiter (waiters (others z st1)) wid\<rparr>"
    have run: "posix_lock_loop ?st r wait wid zs = Some (Inr (), st')"
      using Cons.prems(1) Sleep
      by (subst (asm) posix_lock_loop.simps) (auto simp: Let_def split: sum.splits if_splits)
    have "locks_ok (posix_locks ?st) \<and> compatible (posix_locks ?st)"
      using Cons.prems(3,4) Cons.prems(5) [of z st1] round_Sleep [OF Sleep] by simp
    then show ?thesis
      using Cons.IH [OF run Cons.prems(2)] Cons.prems(5) by simp
  qed
qed

section \<open>Ranges\<close>

definition lock_base :: "int \<Rightarrow> int \<Rightarrow> lock_whence \<Rightarrow> int" where
  "lock_base offset filelen whence =
     (case whence of SEEK_CUR \<Rightarrow> offset | SEEK_END \<Rightarrow> filelen | _ \<Rightarrow> 0)"

lemma uint_word64: "0 \<le> x \<Longrightarrow> x < 2 ^ 63 \<Longrightarrow> uint (word_of_int x :: u64) = x"
  by (simp add: uint_word_of_int)

lemma uint_word64_pred: "0 < x \<Longrightarrow> x < 2 ^ 63 \<Longrightarrow> uint (word_of_int x - 1 :: u64) = x - 1"
  using uint_word64 [of "x - 1"] by (simp add: of_int_diff)

lemma lock_range_cases:
  assumes "lock_range offset filelen whence lstart llen r = Inr r'"
  defines "start \<equiv> lock_base offset filelen whence + lstart"
  shows "uint (r_start r') = (if llen < 0 then start + llen else start) \<and>
    uint (r_end r') = (if llen > 0 then start + llen - 1 else if llen < 0 then start - 1 else 2 ^ 64 - 1) \<and>
    r_start r' \<le> r_end r'"
proof -
  have st: "add64 (lock_base offset filelen whence) lstart = Some start" "- (2 ^ 63) \<le> start" "start < 2 ^ 63"
    and wh: "whence \<noteq> SEEK_other"
    using assms(1) unfolding start_def
    by (auto simp: lock_range_def lock_base_def add64_def split: lock_whence.splits if_splits)
  have body: "(if llen > 0 then
                 (case add64 start (llen - 1) of
                    None \<Rightarrow> Inl EOVERFLOW
                  | Some fin \<Rightarrow>
                      if start < 0 then Inl EINVAL
                      else Inr (r\<lparr>r_start := word_of_int start, r_end := word_of_int fin\<rparr>))
               else if llen < 0 then
                 (case add64 start llen of
                    None \<Rightarrow> Inl EINVAL
                  | Some first \<Rightarrow>
                      if first < 0 then Inl EINVAL
                      else Inr (r\<lparr>r_start := word_of_int first, r_end := word_of_int start - 1\<rparr>))
               else if start < 0 then Inl EINVAL
               else Inr (r\<lparr>r_start := word_of_int start, r_end := POSIX_LOCK_END\<rparr>)) = Inr r'"
    using assms(1) st(1) wh
    by (cases whence) (simp_all add: lock_range_def lock_base_def)
  consider "llen > 0" | "llen < 0" | "llen = 0" by linarith
  then show ?thesis
  proof cases
    case 1
    then have r: "0 \<le> start" "start + (llen - 1) < 2 ^ 63"
      "r' = r\<lparr>r_start := word_of_int start, r_end := word_of_int (start + (llen - 1))\<rparr>"
      using body by (auto simp: add64_def split: if_splits)
    have u: "uint (r_start r') = start" "uint (r_end r') = start + (llen - 1)"
      using uint_word64 [of start] uint_word64 [of "start + (llen - 1)"] r 1 st(3) by simp_all
    then show ?thesis using 1 by (simp add: word_le_def)
  next
    case 2
    then have r: "0 \<le> start + llen" "r' = r\<lparr>r_start := word_of_int (start + llen), r_end := word_of_int start - 1\<rparr>"
      using body by (auto simp: add64_def split: if_splits)
    have "uint (r_start r') = start + llen" "uint (r_end r') = start - 1"
      using uint_word64 [of "start + llen"] uint_word64_pred [of start] r 2 st(3) by simp_all
    then show ?thesis using 2 by (simp add: word_le_def)
  next
    case 3
    then have r: "0 \<le> start" "r' = r\<lparr>r_start := word_of_int start, r_end := POSIX_LOCK_END\<rparr>"
      using body by (auto split: if_splits)
    have u: "uint (r_start r') = start" "uint (r_end r') = 2 ^ 64 - 1"
      using uint_word64 [of start] r st(3) by simp_all
    then show ?thesis using 3 st(3) by (simp add: word_le_def)
  qed
qed

section \<open>The system call\<close>

lemma find_conflict_range:
  "find_conflict ls r = find_conflict ls r'" if "r_type r = r_type r'" "r_start r = r_start r'" "r_end r = r_end r'"
    "r_owner r = r_owner r'"
  using that by (induction ls) auto

text \<open>
  A query reports a lock that really blocks the request, and reports none exactly when the request would be granted.
\<close>

lemma posix_lock_test_spec:
  assumes "\<forall>lock \<in> set ls. l_type lock \<noteq> POSIX_LOCK_UNLOCK"
  shows "r_type (posix_lock_test ls r) = POSIX_LOCK_UNLOCK \<longleftrightarrow> find_conflict ls r = None"
  using assms find_conflict_Some [of ls r] by (auto simp: posix_lock_test_def split: option.splits)

section \<open>Properties\<close>

text \<open>
  C2: Setting a lock or an unlock does exactly what its byte range says. The two spare locks are always enough; the
  new list again gives every owner at most one lock per byte; and read as a map from owners and bytes to
  modes it is the old map with the mode of the requested bytes replaced for the requesting owner. Splitting, trimming
  and merging of neighbours, up to the end of the 64-bit range, do not affect any other byte.
\<close>

theorem posix_lock_apply_refines:
  assumes "locks_ok locks" "r_start request \<le> r_end request"
  shows "\<exists>locks'. apply_request locks request 2 = Some locks' \<and> locks_ok locks' \<and>
    lock_map locks' = spec_request request (lock_map locks)"
proof -
  obtain locks' where run: "apply_request locks request 2 = Some locks'"
    using apply_request_modes [OF assms] by blast
  note new = apply_request_holds [OF assms run]
  have "lock_map locks' = spec_request request (lock_map locks)"
    by (rule lock_map_eqI [OF new(1)]) (auto simp: new(2) spec_request_def lock_map_Some [OF assms(1)])
  with run new(1) show ?thesis by blast
qed

theorem posix_lock_apply_refines_witness:
  "let held = [\<lparr>l_owner = 2, l_pid = 1, l_type = POSIX_LOCK_READ, l_start = 0, l_end = 99\<rparr>];
       request = \<lparr>r_type = POSIX_LOCK_UNLOCK, r_start = 10, r_end = 19, r_owner = 2, r_pid = 1\<rparr>
   in locks_ok held \<and>
     (\<exists>locks'. apply_request held request 2 = Some locks' \<and> lock_map locks' 2 10 = None \<and>
        lock_map locks' 2 20 = Some POSIX_LOCK_READ)"
proof -
  let ?held = "[\<lparr>l_owner = 2, l_pid = 1, l_type = POSIX_LOCK_READ, l_start = 0, l_end = 99\<rparr>] :: posix_lock list"
  let ?request = "\<lparr>r_type = POSIX_LOCK_UNLOCK, r_start = 10, r_end = 19, r_owner = 2, r_pid = 1\<rparr>"
  have ok: "locks_ok ?held" by (simp add: locks_ok_def covering_Cons)
  have r: "r_start ?request \<le> r_end ?request" by simp
  have 20: "lock_map ?held 2 20 = Some POSIX_LOCK_READ"
    by (simp add: lock_map_def covering_Cons covers_def)
  obtain locks' where l: "apply_request ?held ?request 2 = Some locks'"
    "lock_map locks' = spec_request ?request (lock_map ?held)"
    using posix_lock_apply_refines [OF ok r] by blast
  have "lock_map locks' 2 10 = None" "lock_map locks' 2 20 = Some POSIX_LOCK_READ"
    unfolding l(2) spec_request_def using 20 by simp_all
  with ok l(1) show ?thesis unfolding Let_def by blast
qed

text \<open>
  C7: Whatever the processes do, two owners never hold conflicting locks: in every reachable state a byte that one
  owner has write-locked is not locked by any other owner, and no owner has two locks on one byte.
\<close>

theorem posix_lock_exclusion:
  assumes "lock_reachable st" "own \<noteq> own'" "lock_map (posix_locks st) own b = Some POSIX_LOCK_WRITE"
  shows "lock_map (posix_locks st) own' b = None \<and> length (covering (posix_locks st) own b) \<le> 1"
proof -
  from lock_reachable_inv [OF assms(1)] have ok: "locks_ok (posix_locks st)" "compatible (posix_locks st)"
    by simp_all
  have "\<not> holds (posix_locks st) own' t b" for t
    using ok(2) assms(2,3) unfolding compatible_def lock_map_Some [OF ok(1)] by blast
  then have "lock_map (posix_locks st) own' b = None"
    using lock_map_Some [OF ok(1), of own' b] by (metis option.exhaust)
  then show ?thesis using ok(1) by (simp add: locks_ok_def)
qed

theorem posix_lock_exclusion_witness:
  "\<exists>st. lock_reachable st \<and> lock_map (posix_locks st) 2 5 = Some POSIX_LOCK_WRITE \<and> lock_map (posix_locks st) 4 5 = None"
proof -
  let ?r = "\<lparr>r_type = POSIX_LOCK_WRITE, r_start = 0, r_end = 9, r_owner = 2, r_pid = 1\<rparr>"
  let ?st = "\<lparr>posix_locks = [\<lparr>l_owner = 2, l_pid = 1, l_type = POSIX_LOCK_WRITE, l_start = 0, l_end = 9\<rparr>], waiters = []\<rparr>"
  have "lock_step \<lparr>posix_locks = [], waiters = []\<rparr>
      (\<lparr>posix_locks = [], waiters = []\<rparr>\<lparr>posix_locks := posix_locks ?st\<rparr>)"
    by (rule lock_step.acquire [of ?r _ True 0])
      (simp_all add: posix_lock_round_def apply_request_def take_spare_def)
  then have reach: "lock_reachable ?st"
    using lock_reachable.step [OF lock_reachable.init] by simp
  have w: "lock_map (posix_locks ?st) 2 5 = Some POSIX_LOCK_WRITE"
    by (simp add: lock_map_def covering_Cons covers_def)
  show ?thesis using posix_lock_exclusion [OF reach _ w, of 4] reach w by auto
qed

text \<open>
  C38: Deadlock detection against the relation of who waits for whom. A waiting request of a process that is refused with \<open>EDEADLK\<close> conflicts
  with a lock whose owner waits, directly or through others, for the requester, so sleeping would close a cycle. Conversely, where every owner waits in one place
  only, every such request whose cycle has at most nine waiters is refused; with at most nine waiters in all, exactly the requests that close a cycle are.
\<close>

theorem posix_lock_deadlock_iff:
  assumes "r_type request \<noteq> POSIX_LOCK_UNLOCK"
  shows "(posix_lock_round st request True wid = Refuse EDEADLK \<longrightarrow>
      r_owner request AND 1 = 0 \<and>
      (\<exists>blocker. find_conflict (posix_locks st) request = Some blocker \<and> (l_owner blocker, r_owner request) \<in> (waits_for (waiters st))\<^sup>*)) \<and>
    (distinct (map w_owner (waiters st)) \<and> r_owner request AND 1 = 0 \<and> find_conflict (posix_locks st) request = Some blocker \<and>
       k < 10 \<and> (l_owner blocker, r_owner request) \<in> waits_for (waiters st) ^^ k \<longrightarrow>
      posix_lock_round st request True wid = Refuse EDEADLK) \<and>
    (distinct (map w_owner (waiters st)) \<and> length (waiters st) < 10 \<and> r_owner request AND 1 = 0 \<and>
       find_conflict (posix_locks st) request = Some blocker \<longrightarrow>
      (posix_lock_round st request True wid = Refuse EDEADLK \<longleftrightarrow> (l_owner blocker, r_owner request) \<in> (waits_for (waiters st))\<^sup>*))"
proof -
  have refused: "posix_lock_round st request True wid = Refuse EDEADLK \<longleftrightarrow> r_owner request AND 1 = 0 \<and>
      (\<exists>blocker. find_conflict (posix_locks st) request = Some blocker \<and>
         deadlock_search 10 (waiters st) (r_owner request) (l_owner blocker))"
    using assms by (auto simp: posix_lock_round_def would_deadlock_def split: option.splits)
  show ?thesis
    unfolding refused using deadlock_search_cycle [of "waiters st" 10] deadlock_search_complete [of "waiters st" _ _ k 10]
      deadlock_search_cycles [of 10 "waiters st"]
    by auto
qed

theorem posix_lock_deadlock_iff_witness:
  "let held = (\<lambda>own start. \<lparr>l_owner = own, l_pid = 1, l_type = POSIX_LOCK_WRITE, l_start = start, l_end = start\<rparr>);
       st = \<lparr>posix_locks = [held 2 0, held 4 1, held 6 2],
          waiters = [\<lparr>w_id = 0, w_owner = 4, w_blocker = 6\<rparr>, \<lparr>w_id = 1, w_owner = 6, w_blocker = 2\<rparr>]\<rparr>
   in posix_lock_round st \<lparr>r_type = POSIX_LOCK_WRITE, r_start = 1, r_end = 1, r_owner = 2, r_pid = 1\<rparr> True 2 = Refuse EDEADLK \<and>
      (4, 2) \<in> (waits_for (waiters st))\<^sup>*"
proof -
  let ?held = "\<lambda>own start. \<lparr>l_owner = own, l_pid = 1, l_type = POSIX_LOCK_WRITE, l_start = start, l_end = start\<rparr>"
  let ?st = "\<lparr>posix_locks = [?held 2 0, ?held 4 1, ?held 6 2],
      waiters = [\<lparr>w_id = 0, w_owner = 4, w_blocker = 6\<rparr>, \<lparr>w_id = 1, w_owner = 6, w_blocker = 2\<rparr>]\<rparr>"
  let ?r = "\<lparr>r_type = POSIX_LOCK_WRITE, r_start = 1, r_end = 1, r_owner = 2, r_pid = 1\<rparr>"
  have run: "posix_lock_round ?st ?r True 2 = Refuse EDEADLK"
    by (simp add: posix_lock_round_def overlaps_def would_deadlock_def eval_nat_numeral)
  have "find_conflict (posix_locks ?st) ?r = Some (?held 4 1)" by (simp add: overlaps_def)
  then have "(4, 2) \<in> (waits_for (waiters ?st))\<^sup>*"
    using posix_lock_deadlock_iff [of ?r ?st 2] run by auto
  with run show ?thesis by (simp add: Let_def)
qed

text \<open>
  A range accepted from the caller is never empty, is computed without overflow from the base, start and length, and
  denotes the bytes the interface defines: forward from the start, backward before it, or to the end.
\<close>

lemma lock_range_exact:
  assumes "lock_range offset filelen whence lstart llen request = Inr request'"
  shows "r_start request' \<le> r_end request' \<and>
    (let start = lock_base offset filelen whence + lstart in
     uint (r_start request') = (if llen < 0 then start + llen else start) \<and>
     uint (r_end request') = (if llen > 0 then start + llen - 1 else if llen < 0 then start - 1 else 2 ^ 64 - 1))"
  using lock_range_cases [OF assms] by (simp add: Let_def)

end
