(* ===== verification/Pmm.thy ===== *)
theory Pmm
  imports Prelude
begin

text \<open>
  The physical page allocator, \<^verbatim>\<open>kernel/mm/pmm.c\<close>: a bitmap of the pages in use, a reference count per page and a
  counter of free pages. The page lock makes every operation atomic. Page numbers and addresses are natural numbers
  below \<open>2 ^ 64\<close>; the sums that can wrap while the firmware's memory map is read wrap explicitly. The lemmas
  show the allocator's invariant, that its panics are unreachable, and that no page is handed out while references to it
  remain.
\<close>

section \<open>State\<close>

abbreviation (input) PMM_PAGE_SIZE :: nat where "PMM_PAGE_SIZE \<equiv> 4096"
abbreviation (input) DIRECT_MAP_BYTES :: nat where "DIRECT_MAP_BYTES \<equiv> 0x3E8000000000"
abbreviation (input) PMM_LOW_MEMORY_RESERVE :: nat where "PMM_LOW_MEMORY_RESERVE \<equiv> 0x100000"

record pmm =
  bitmap :: "u8 list"
  refcounts :: "u32 list"
  total_pages :: nat
  usable_pages :: nat
  free_pages :: nat
  next_hint :: nat
  tracking_physical :: nat
  tracking_bytes :: nat
  refcount_offset :: nat
  bitmap_at :: nat
  refcounts_at :: nat

datatype panic = Panic string

definition bit_set :: "pmm \<Rightarrow> nat \<Rightarrow> pmm" where
  "bit_set s page = s\<lparr>bitmap := (bitmap s)[page div 8 := bitmap s ! (page div 8) OR push_bit (page mod 8) 1]\<rparr>"

definition bit_clear :: "pmm \<Rightarrow> nat \<Rightarrow> pmm" where
  "bit_clear s page =
     s\<lparr>bitmap := (bitmap s)[page div 8 := bitmap s ! (page div 8) AND NOT (push_bit (page mod 8) 1)]\<rparr>"

definition bit_test :: "pmm \<Rightarrow> nat \<Rightarrow> bool" where
  "bit_test s page \<longleftrightarrow> bitmap s ! (page div 8) AND push_bit (page mod 8) 1 \<noteq> 0"

definition set_refcount :: "pmm \<Rightarrow> nat \<Rightarrow> u32 \<Rightarrow> pmm" where
  "set_refcount s page n = s\<lparr>refcounts := (refcounts s)[page := n]\<rparr>"

definition reserve_page :: "pmm \<Rightarrow> nat \<Rightarrow> pmm" where
  "reserve_page s page =
     (if page < total_pages s \<and> \<not> bit_test s page
      then (bit_set s page)\<lparr>free_pages := free_pages s - 1\<rparr> else s)"

section \<open>Initialisation\<close>

record boot_memory_region =
  rbase :: nat
  rlength :: nat
  rusable :: bool

definition wadd :: "nat \<Rightarrow> nat \<Rightarrow> nat" where
  "wadd a b = (a + b) mod 2 ^ 64"

definition page_down :: "nat \<Rightarrow> nat" where
  "page_down a = a - a mod PMM_PAGE_SIZE"

definition page_up :: "nat \<Rightarrow> nat" where
  "page_up a = page_down (wadd a (PMM_PAGE_SIZE - 1))"

definition point_tracking :: "pmm \<Rightarrow> nat \<Rightarrow> pmm" where
  "point_tracking s virtual_base =
     s\<lparr>bitmap_at := wadd virtual_base (tracking_physical s),
       refcounts_at := wadd (wadd virtual_base (tracking_physical s)) (refcount_offset s)\<rparr>"

definition place_region :: "pmm \<Rightarrow> nat \<Rightarrow> boot_memory_region \<Rightarrow> nat" where
  "place_region s best r =
     (if \<not> rusable r then best
      else
        let start = max (page_up (rbase r)) PMM_LOW_MEMORY_RESERVE;
            stop = min (page_down (wadd (rbase r) (rlength r))) (total_pages s * PMM_PAGE_SIZE)
        in if stop \<le> start \<or> stop - start < tracking_bytes s then best
           else if stop - tracking_bytes s > best then stop - tracking_bytes s else best)"

definition place_tracking :: "pmm \<Rightarrow> boot_memory_region list \<Rightarrow> nat" where
  "place_tracking s regions = foldl (place_region s) 0 regions"

text \<open>
  The first loop over the memory map: the highest address, the usable bytes and the bytes ignored because they lie above the
  direct map.
\<close>

definition survey_region :: "nat \<times> nat \<times> nat \<Rightarrow> boot_memory_region \<Rightarrow> nat \<times> nat \<times> nat" where
  "survey_region acc r =
     (case acc of (highest, usable, ignored) \<Rightarrow>
        let stop0 = wadd (rbase r) (rlength r)
        in if stop0 < rbase r then acc
           else
             let ignored' = (if stop0 > DIRECT_MAP_BYTES \<and> rusable r then wadd ignored (stop0 - max (rbase r) DIRECT_MAP_BYTES) else ignored);
                 stop = min stop0 DIRECT_MAP_BYTES
             in if stop \<le> rbase r then (highest, usable, ignored')
                else (max highest stop,
                      (if rusable r then wadd usable (stop - rbase r) else usable), ignored'))"

definition free_region_page :: "pmm \<Rightarrow> nat \<Rightarrow> pmm" where
  "free_region_page s page =
     (if page < total_pages s \<and> bit_test s page
      then (bit_clear s page)\<lparr>free_pages := free_pages s + 1\<rparr> else s)"

definition free_region :: "nat \<Rightarrow> pmm \<Rightarrow> boot_memory_region \<Rightarrow> pmm" where
  "free_region highest s r =
     (if \<not> rusable r then s
      else
        let start = page_up (rbase r);
            stop0 = page_down (wadd (rbase r) (rlength r));
            stop = (if stop0 > highest then page_down highest else stop0)
        in foldl free_region_page s [start div PMM_PAGE_SIZE..<stop div PMM_PAGE_SIZE])"

definition reserve_tracking_page :: "pmm \<Rightarrow> nat \<Rightarrow> pmm" where
  "reserve_tracking_page s page = set_refcount (reserve_page s page) page 1"

definition layout_tracking :: "nat \<Rightarrow> pmm" where
  "layout_tracking pages =
     (let bitmap_bytes = (pages + 7) div 8;
          offset = (bitmap_bytes + 63) - (bitmap_bytes + 63) mod 64
      in \<lparr>bitmap = [], refcounts = [], total_pages = pages, usable_pages = 0, free_pages = 0, next_hint = 0,
          tracking_physical = 0, tracking_bytes = page_down (offset + pages * 4 + PMM_PAGE_SIZE - 1),
          refcount_offset = offset, bitmap_at = 0, refcounts_at = 0\<rparr>)"

definition populate :: "nat \<Rightarrow> nat \<Rightarrow> boot_memory_region list \<Rightarrow> pmm \<Rightarrow> pmm" where
  "populate hhdm highest regions s =
     (let s1 = point_tracking s hhdm;
          s2 = s1\<lparr>bitmap := replicate ((total_pages s + 7) div 8) 0xFF, refcounts := replicate (total_pages s) 0,
                  free_pages := 0\<rparr>;
          s3 = foldl (free_region highest) s2 regions;
          s4 = s3\<lparr>usable_pages := free_pages s3\<rparr>;
          s5 = foldl reserve_page s4 [0..<PMM_LOW_MEMORY_RESERVE div PMM_PAGE_SIZE];
          s6 = foldl reserve_tracking_page s5
                 [tracking_physical s5 div PMM_PAGE_SIZE..<
                  (tracking_physical s5 + tracking_bytes s5) div PMM_PAGE_SIZE]
      in s6\<lparr>next_hint := PMM_LOW_MEMORY_RESERVE div PMM_PAGE_SIZE\<rparr>)"

definition pmm_init :: "nat \<Rightarrow> boot_memory_region list \<Rightarrow> panic + pmm" where
  "pmm_init hhdm regions =
     (case foldl survey_region (0, 0, 0) regions of (highest, usable, ignored) \<Rightarrow>
        if usable < 2 * 1024 * 1024 then Inl (Panic ''PMM: insufficient usable memory'')
        else
          let s = layout_tracking ((highest + PMM_PAGE_SIZE - 1) div PMM_PAGE_SIZE);
              place = place_tracking s regions
          in if place = 0 then Inl (Panic ''PMM: no room for page tracking'')
             else Inr (populate hhdm highest regions (s\<lparr>tracking_physical := place\<rparr>)))"

definition pmm_use_direct_map :: "pmm \<Rightarrow> nat \<Rightarrow> pmm" where
  "pmm_use_direct_map s virtual_base = point_tracking s virtual_base"

section \<open>Allocation\<close>

text \<open>
  Addresses returned are page numbers times the page size; \<open>None\<close> is the null pointer. The two passes of the search start at the hint
  and at zero.
\<close>

definition find_free_page :: "pmm \<Rightarrow> nat \<Rightarrow> nat \<Rightarrow> nat option" where
  "find_free_page s begin_page end_page = find (\<lambda>page. \<not> bit_test s page) [begin_page..<end_page]"

definition take_page :: "pmm \<Rightarrow> nat \<Rightarrow> pmm" where
  "take_page s page =
     (let s1 = (set_refcount (bit_set s page) page 1)\<lparr>free_pages := free_pages s - 1\<rparr>
      in s1\<lparr>next_hint := (if page + 1 \<ge> total_pages s then 0 else page + 1)\<rparr>)"

definition pmm_alloc_page_locked :: "pmm \<Rightarrow> panic + (nat option \<times> pmm)" where
  "pmm_alloc_page_locked s =
     (if free_pages s = 0 then Inr (None, s)
      else case find_free_page s (next_hint s) (total_pages s) of
             Some page \<Rightarrow> Inr (Some (page * PMM_PAGE_SIZE), take_page s page)
           | None \<Rightarrow>
               (case find_free_page s 0 (next_hint s) of
                  Some page \<Rightarrow> Inr (Some (page * PMM_PAGE_SIZE), take_page s page)
                | None \<Rightarrow> Inl (Panic ''PMM: bitmap/free-page invariant broken'')))"

definition pmm_alloc_page :: "pmm \<Rightarrow> panic + (nat option \<times> pmm)" where
  "pmm_alloc_page s = pmm_alloc_page_locked s"

text \<open>
  The search for a run of pages: a page in use inside the candidate run moves the search to the aligned position
  after it. The outer \<open>None\<close> would be a search that does not end.
\<close>

partial_function (option) alloc_scan :: "pmm \<Rightarrow> nat \<Rightarrow> nat \<Rightarrow> nat \<Rightarrow> nat \<Rightarrow> nat option option" where
  "alloc_scan s stride count limit first =
     (if first + count \<le> limit then
        (case find (bit_test s) [first..<first + count] of
           None \<Rightarrow> Some (Some first)
         | Some page \<Rightarrow> alloc_scan s stride count limit (page - page mod stride + stride))
      else Some None)"

definition take_run_page :: "pmm \<Rightarrow> nat \<Rightarrow> pmm" where
  "take_run_page s page = set_refcount (bit_set s page) page 1"

definition pmm_alloc_pages_below :: "pmm \<Rightarrow> nat \<Rightarrow> nat \<Rightarrow> nat \<Rightarrow> (nat option \<times> pmm) option" where
  "pmm_alloc_pages_below s count alignment_bytes limit =
     (if count = 0 then Some (None, s)
      else
        let stride = (if alignment_bytes > PMM_PAGE_SIZE then alignment_bytes div PMM_PAGE_SIZE else 1)
        in if alignment_bytes AND (alignment_bytes - 1) \<noteq> 0 then Some (None, s)
           else
             let limit_page = min (if limit \<noteq> 0 then limit div PMM_PAGE_SIZE else total_pages s) (total_pages s)
             in if free_pages s \<ge> count then
                  Option.bind (alloc_scan s stride count limit_page stride) (\<lambda>found.
                    case found of
                      None \<Rightarrow> Some (None, s)
                    | Some first \<Rightarrow>
                        let s1 = foldl take_run_page s [first..<first + count]
                        in Some (Some (first * PMM_PAGE_SIZE), s1\<lparr>free_pages := free_pages s1 - count\<rparr>))
                else Some (None, s))"

definition pmm_alloc_pages :: "pmm \<Rightarrow> nat \<Rightarrow> nat \<Rightarrow> (nat option \<times> pmm) option" where
  "pmm_alloc_pages s count alignment_bytes = pmm_alloc_pages_below s count alignment_bytes 0"

section \<open>References and release\<close>

definition pmm_managed_limit :: "pmm \<Rightarrow> nat" where
  "pmm_managed_limit s = total_pages s * PMM_PAGE_SIZE"

definition pmm_free_page_locked :: "pmm \<Rightarrow> nat \<Rightarrow> panic + pmm" where
  "pmm_free_page_locked s address =
     (if address = 0 then Inr s
      else if address mod PMM_PAGE_SIZE \<noteq> 0 \<or> address \<ge> total_pages s * PMM_PAGE_SIZE
      then Inl (Panic ''PMM: invalid free'')
      else
        let page = address div PMM_PAGE_SIZE
        in if \<not> bit_test s page then Inl (Panic ''PMM: double free'')
           else if refcounts s ! page > 1 then Inr (set_refcount s page (refcounts s ! page - 1))
           else
             let s1 = (bit_clear (set_refcount s page 0) page)\<lparr>free_pages := free_pages s + 1\<rparr>
             in Inr (if page < next_hint s1 then s1\<lparr>next_hint := page\<rparr> else s1))"

definition pmm_free_page :: "pmm \<Rightarrow> nat \<Rightarrow> panic + pmm" where
  "pmm_free_page s address = pmm_free_page_locked s address"

fun free_loop :: "pmm \<Rightarrow> nat list \<Rightarrow> panic + pmm" where
  "free_loop s [] = Inr s"
| "free_loop s (address # addresses) =
     (case pmm_free_page_locked s address of Inl p \<Rightarrow> Inl p | Inr s' \<Rightarrow> free_loop s' addresses)"

definition pmm_free_pages :: "pmm \<Rightarrow> nat \<Rightarrow> nat \<Rightarrow> panic + pmm" where
  "pmm_free_pages s address count =
     (if address = 0 \<or> count = 0 then Inr s
      else free_loop s (map (\<lambda>index. wadd address (index * PMM_PAGE_SIZE)) [0..<count]))"

definition pmm_page_is_allocated :: "pmm \<Rightarrow> nat \<Rightarrow> bool" where
  "pmm_page_is_allocated s physical =
     (if physical mod PMM_PAGE_SIZE \<noteq> 0 \<or> physical \<ge> pmm_managed_limit s then False
      else bit_test s (physical div PMM_PAGE_SIZE))"

definition pmm_page_ref :: "pmm \<Rightarrow> nat \<Rightarrow> unit result \<times> pmm" where
  "pmm_page_ref s physical =
     (let page = physical div PMM_PAGE_SIZE
      in if pmm_page_is_allocated s physical \<and> refcounts s ! page \<noteq> 0xFFFFFFFF
         then (Inr (), set_refcount s page (refcounts s ! page + 1))
         else (Inl FAILED, s))"

definition pmm_page_refcount :: "pmm \<Rightarrow> nat \<Rightarrow> u32" where
  "pmm_page_refcount s physical =
     (if \<not> pmm_page_is_allocated s physical then 0 else refcounts s ! (physical div PMM_PAGE_SIZE))"

definition release_reserved_page :: "pmm \<times> nat \<Rightarrow> nat \<Rightarrow> pmm \<times> nat" where
  "release_reserved_page acc page =
     (case acc of (s, released) \<Rightarrow>
        if \<not> bit_test s page \<or> refcounts s ! page \<noteq> 0 then acc
        else
          let s1 = (bit_clear s page)\<lparr>free_pages := free_pages s + 1\<rparr>
          in ((if page < next_hint s1 then s1\<lparr>next_hint := page\<rparr> else s1), released + 1))"

definition pmm_release_reserved :: "pmm \<Rightarrow> nat \<Rightarrow> nat \<Rightarrow> nat \<times> pmm" where
  "pmm_release_reserved s physical len =
     (if len = 0 then (0, s)
      else
        let first = physical div PMM_PAGE_SIZE;
            stop = min (wadd (wadd physical len) (PMM_PAGE_SIZE - 1) div PMM_PAGE_SIZE) (total_pages s)
        in case foldl release_reserved_page (s, 0) [first..<stop] of (s', released) \<Rightarrow> (released, s'))"

definition pmm_physical_range_managed :: "pmm \<Rightarrow> nat \<Rightarrow> nat \<Rightarrow> bool" where
  "pmm_physical_range_managed s physical len =
     (let limit = pmm_managed_limit s
      in if len = 0 then physical \<le> limit
         else \<not> (physical \<ge> limit \<or> len > limit - physical))"

section \<open>Bits\<close>

definition pmm_ok :: "pmm \<Rightarrow> bool" where
  "pmm_ok s \<longleftrightarrow>
     total_pages s \<le> 8 * length (bitmap s) \<and> length (refcounts s) = total_pages s \<and> next_hint s \<le> total_pages s \<and>
     free_pages s = card {page. page < total_pages s \<and> \<not> bit_test s page} \<and>
     (\<forall>page < total_pages s. \<not> bit_test s page \<longrightarrow> refcounts s ! page = 0)"

lemma bit_test_bit: "bit_test s page \<longleftrightarrow> bit (bitmap s ! (page div 8)) (page mod 8)"
  by (simp add: bit_test_def bit_iff_and_push_bit_not_eq_0)

lemma same_bit: "p div 8 = q div 8 \<Longrightarrow> p mod 8 = q mod 8 \<Longrightarrow> p = q" for p q :: nat
  by (metis div_mult_mod_eq)

lemma bit_test_set:
  assumes "p div 8 < length (bitmap s)"
  shows "bit_test (bit_set s p) q \<longleftrightarrow> q = p \<or> bit_test s q"
proof (cases "q div 8 = p div 8")
  case False
  then show ?thesis by (auto simp: bit_test_bit bit_set_def)
next
  case True
  have "q mod 8 < 8" by simp
  then show ?thesis
    using True assms same_bit [of q p]
    by (auto simp: bit_test_bit bit_set_def bit_or_iff bit_exp_iff)
qed

lemma bit_test_clear:
  assumes "p div 8 < length (bitmap s)"
  shows "bit_test (bit_clear s p) q \<longleftrightarrow> q \<noteq> p \<and> bit_test s q"
proof (cases "q div 8 = p div 8")
  case False
  then show ?thesis by (auto simp: bit_test_bit bit_clear_def)
next
  case True
  have "q mod 8 < 8" by simp
  then show ?thesis
    using True assms same_bit [of q p]
    by (auto simp: bit_test_bit bit_clear_def bit_and_iff bit_not_iff bit_exp_iff)
qed

lemma bit_ops_simps [simp]:
  "length (bitmap (bit_set s p)) = length (bitmap s)" "length (bitmap (bit_clear s p)) = length (bitmap s)"
  "refcounts (bit_set s p) = refcounts s" "refcounts (bit_clear s p) = refcounts s"
  "total_pages (bit_set s p) = total_pages s" "total_pages (bit_clear s p) = total_pages s"
  "free_pages (bit_set s p) = free_pages s" "free_pages (bit_clear s p) = free_pages s"
  "next_hint (bit_set s p) = next_hint s" "next_hint (bit_clear s p) = next_hint s"
  "tracking_physical (bit_set s p) = tracking_physical s" "tracking_bytes (bit_set s p) = tracking_bytes s"
  "tracking_physical (bit_clear s p) = tracking_physical s" "tracking_bytes (bit_clear s p) = tracking_bytes s"
  by (simp_all add: bit_set_def bit_clear_def)

lemma set_refcount_simps [simp]:
  "bitmap (set_refcount s p n) = bitmap s" "total_pages (set_refcount s p n) = total_pages s"
  "free_pages (set_refcount s p n) = free_pages s" "next_hint (set_refcount s p n) = next_hint s"
  "refcounts (set_refcount s p n) = (refcounts s)[p := n]" "bit_test (set_refcount s p n) q = bit_test s q"
  "tracking_physical (set_refcount s p n) = tracking_physical s" "tracking_bytes (set_refcount s p n) = tracking_bytes s"
  by (simp_all add: set_refcount_def bit_test_def)

lemma bit_test_frame [simp]:
  "bit_test (s\<lparr>free_pages := f\<rparr>) q = bit_test s q" "bit_test (s\<lparr>next_hint := h\<rparr>) q = bit_test s q"
  "bit_test (s\<lparr>usable_pages := u\<rparr>) q = bit_test s q"
  by (simp_all add: bit_test_def)

lemma pmm_ok_page: "pmm_ok s \<Longrightarrow> page < total_pages s \<Longrightarrow> page div 8 < length (bitmap s)"
  by (auto simp: pmm_ok_def)

section \<open>The free-page counter\<close>

definition free_set :: "pmm \<Rightarrow> nat set" where
  "free_set s = {page. page < total_pages s \<and> \<not> bit_test s page}"

lemma finite_free_set [simp]: "finite (free_set s)"
  by (simp add: free_set_def)

lemma free_set_frame [simp]:
  "free_set (s\<lparr>free_pages := f\<rparr>) = free_set s" "free_set (s\<lparr>next_hint := h\<rparr>) = free_set s"
  "free_set (set_refcount s p n) = free_set s" "free_set (s\<lparr>usable_pages := u\<rparr>) = free_set s"
  by (simp_all add: free_set_def)

lemma pmm_ok_free: "pmm_ok s \<longleftrightarrow>
    total_pages s \<le> 8 * length (bitmap s) \<and> length (refcounts s) = total_pages s \<and> next_hint s \<le> total_pages s \<and>
    free_pages s = card (free_set s) \<and> (\<forall>page \<in> free_set s. refcounts s ! page = 0)"
  by (auto simp: pmm_ok_def free_set_def)

lemma free_set_set:
  assumes "p div 8 < length (bitmap s)"
  shows "free_set (bit_set s p) = free_set s - {p}"
  using bit_test_set [OF assms] by (auto simp: free_set_def)

lemma free_set_clear:
  assumes "p div 8 < length (bitmap s)" "p < total_pages s"
  shows "free_set (bit_clear s p) = insert p (free_set s)"
  using bit_test_clear [OF assms(1)] assms(2) by (auto simp: free_set_def)

lemma pmm_ok_take:
  assumes ok: "pmm_ok s" and page: "page \<in> free_set s" and hint: "h \<le> total_pages s"
  shows "pmm_ok ((set_refcount (bit_set s page) page n)\<lparr>free_pages := free_pages s - 1, next_hint := h\<rparr>)"
proof -
  have p: "page < total_pages s" "page div 8 < length (bitmap s)"
    using page pmm_ok_page [OF ok] by (auto simp: free_set_def)
  show ?thesis
    using ok page hint p by (auto simp: pmm_ok_free free_set_set card_Diff_singleton)
qed

lemma pmm_ok_release:
  assumes ok: "pmm_ok s" and page: "page < total_pages s" "page \<notin> free_set s" and hint: "h \<le> total_pages s"
    and zero: "refcounts s ! page = 0"
  shows "pmm_ok ((bit_clear s page)\<lparr>free_pages := free_pages s + 1, next_hint := h\<rparr>)"
  using ok hint zero page free_set_clear [OF pmm_ok_page [OF ok page(1)] page(1)]
  by (auto simp: pmm_ok_free)

lemma pmm_ok_refcount:
  assumes ok: "pmm_ok s" and page: "page \<notin> free_set s"
  shows "pmm_ok (set_refcount s page n)"
proof -
  have "(refcounts s)[page := n] ! q = refcounts s ! q" if "q \<in> free_set s" for q
    by (rule nth_list_update_neq) (use page that in auto)
  then show ?thesis using ok by (simp add: pmm_ok_free)
qed

lemma take_page_ok:
  assumes "pmm_ok s" "page \<in> free_set s"
  shows "pmm_ok (take_page s page)"
  using pmm_ok_take [OF assms, of "if page + 1 \<ge> total_pages s then 0 else page + 1" 1]
  by (simp add: take_page_def Let_def)

lemma take_page_effect:
  assumes "pmm_ok s" "page \<in> free_set s"
  shows "bit_test (take_page s page) q \<longleftrightarrow> q = page \<or> bit_test s q"
    "refcounts (take_page s page) = (refcounts s)[page := 1]" "total_pages (take_page s page) = total_pages s"
    "free_pages (take_page s page) = free_pages s - 1"
  using bit_test_set [OF pmm_ok_page [OF assms(1)]] assms(2)
  by (auto simp: take_page_def Let_def free_set_def)

lemma find_free_Some: "find_free_page s a b = Some page \<Longrightarrow> a \<le> page \<and> page < b \<and> \<not> bit_test s page"
  by (auto simp: find_free_page_def find_Some_iff)

lemma find_free_None: "find_free_page s a b = None \<longleftrightarrow> (\<forall>page. a \<le> page \<and> page < b \<longrightarrow> bit_test s page)"
  by (auto simp: find_free_page_def find_None_iff)

lemma pmm_alloc_page_cases:
  assumes ok: "pmm_ok s"
  obtains (none) "free_set s = {}" "pmm_alloc_page s = Inr (None, s)"
  | (page) page where "page \<in> free_set s" "pmm_alloc_page s = Inr (Some (page * PMM_PAGE_SIZE), take_page s page)"
proof (cases "free_pages s = 0")
  case True
  then have "free_set s = {}" using ok by (auto simp: pmm_ok_free)
  then show ?thesis using none True by (simp add: pmm_alloc_page_def pmm_alloc_page_locked_def)
next
  case False
  then have "free_set s \<noteq> {}" using ok by (auto simp: pmm_ok_free)
  then obtain q where q: "q < total_pages s" "\<not> bit_test s q" by (auto simp: free_set_def)
  have hint: "next_hint s \<le> total_pages s" using ok by (simp add: pmm_ok_def)
  show ?thesis
  proof (cases "find_free_page s (next_hint s) (total_pages s)")
    case (Some p)
    then have "p \<in> free_set s" using find_free_Some by (auto simp: free_set_def)
    then show ?thesis using page [of p] Some False by (simp add: pmm_alloc_page_def pmm_alloc_page_locked_def)
  next
    case None
    then have "q < next_hint s" using q find_free_None by (meson not_le)
    then obtain p where p: "find_free_page s 0 (next_hint s) = Some p"
      using q(2) find_free_None [of s 0 "next_hint s"] by (cases "find_free_page s 0 (next_hint s)") auto
    then have "p \<in> free_set s" using find_free_Some [OF p] hint by (auto simp: free_set_def)
    then show ?thesis using page [of p] None p False by (simp add: pmm_alloc_page_def pmm_alloc_page_locked_def)
  qed
qed

section \<open>Runs of pages\<close>

lemma alloc_scan_spec:
  assumes "0 < stride" "stride dvd first"
  shows "\<exists>r. alloc_scan s stride count limit first = Some r \<and>
    (case r of
       None \<Rightarrow> \<forall>f. stride dvd f \<and> first \<le> f \<and> f + count \<le> limit \<longrightarrow> (\<exists>page. f \<le> page \<and> page < f + count \<and> bit_test s page)
     | Some f \<Rightarrow> stride dvd f \<and> first \<le> f \<and> f + count \<le> limit \<and> (\<forall>page. f \<le> page \<and> page < f + count \<longrightarrow> \<not> bit_test s page))"
  using assms(2)
proof (induction "limit - first" arbitrary: first rule: less_induct)
  case less
  show ?case
  proof (cases "first + count \<le> limit")
    case False
    then show ?thesis by (subst alloc_scan.simps) auto
  next
    case True
    show ?thesis
    proof (cases "find (bit_test s) [first..<first + count]")
      case None
      then have "alloc_scan s stride count limit first = Some (Some first)"
        using True by (subst alloc_scan.simps) simp
      then show ?thesis using None True less.prems by (auto simp: find_None_iff)
    next
      case (Some page)
      then have page: "first \<le> page" "page < first + count" "bit_test s page"
        by (auto simp: find_Some_iff)
      let ?next = "page - page mod stride + stride"
      have eq: "?next = (page div stride + 1) * stride" by (simp add: minus_mod_eq_div_mult)
      have next': "stride dvd ?next" "page < ?next"
        unfolding eq using dividend_less_div_times [OF assms(1), of page] by simp_all
      have "limit - ?next < limit - first" using next' page True by linarith
      from less.hyps [OF this next'(1)] obtain r where r: "alloc_scan s stride count limit ?next = Some r"
        "case r of
           None \<Rightarrow> \<forall>f. stride dvd f \<and> ?next \<le> f \<and> f + count \<le> limit \<longrightarrow> (\<exists>page. f \<le> page \<and> page < f + count \<and> bit_test s page)
         | Some f \<Rightarrow> stride dvd f \<and> ?next \<le> f \<and> f + count \<le> limit \<and> (\<forall>page. f \<le> page \<and> page < f + count \<longrightarrow> \<not> bit_test s page)"
        by blast
      have step: "alloc_scan s stride count limit first = Some r"
        using True Some r(1) by (subst alloc_scan.simps) simp
      have skip: "f \<le> page" if "stride dvd f" "\<not> ?next \<le> f" for f
      proof (rule ccontr)
        assume "\<not> f \<le> page"
        then have "page div stride < f div stride"
          using that(1) assms(1) by (metis div_less_iff_less_mult dvd_div_mult_self not_le)
        then have "(page div stride + 1) * stride \<le> f div stride * stride" by (intro mult_le_mono1) simp
        then have "?next \<le> f" unfolding eq using that(1) by simp
        then show False using that(2) by simp
      qed
      show ?thesis
      proof (cases r)
        case None
        have "\<exists>page. f \<le> page \<and> page < f + count \<and> bit_test s page"
          if f: "stride dvd f" "first \<le> f" "f + count \<le> limit" for f
        proof (cases "?next \<le> f")
          case True
          then show ?thesis using r(2) None f by simp
        next
          case False
          then have "f \<le> page" "page < f + count" using skip f page by auto
          then show ?thesis using page(3) by blast
        qed
        then show ?thesis using step None by auto
      next
        case (Some f)
        then show ?thesis using step r(2) next' page by auto
      qed
    qed
  qed
qed

lemma take_run_effect:
  assumes "first + n \<le> total_pages s" "total_pages s \<le> 8 * length (bitmap s)" "length (refcounts s) = total_pages s"
  defines "s' \<equiv> foldl take_run_page s [first..<first + n]"
  shows "(\<forall>q. bit_test s' q \<longleftrightarrow> first \<le> q \<and> q < first + n \<or> bit_test s q) \<and>
    (\<forall>q. q < total_pages s \<longrightarrow> refcounts s' ! q = (if first \<le> q \<and> q < first + n then 1 else refcounts s ! q)) \<and>
    length (bitmap s') = length (bitmap s) \<and> length (refcounts s') = total_pages s \<and>
    total_pages s' = total_pages s \<and> free_pages s' = free_pages s \<and> next_hint s' = next_hint s"
  using assms(1) unfolding s'_def
proof (induction n)
  case 0
  then show ?case using assms(3) by auto
next
  case (Suc n)
  define t where "t = foldl take_run_page s [first..<first + n]"
  have ih: "\<And>q. bit_test t q \<longleftrightarrow> first \<le> q \<and> q < first + n \<or> bit_test s q"
    "\<And>q. q < total_pages s \<Longrightarrow> refcounts t ! q = (if first \<le> q \<and> q < first + n then 1 else refcounts s ! q)"
    "length (bitmap t) = length (bitmap s)" "length (refcounts t) = total_pages s"
    "total_pages t = total_pages s" "free_pages t = free_pages s" "next_hint t = next_hint s"
    using Suc unfolding t_def by simp_all
  have idx: "(first + n) div 8 < length (bitmap t)" using Suc.prems assms(2) ih(3) by auto
  have fold: "foldl take_run_page s [first..<first + Suc n] = set_refcount (bit_set t (first + n)) (first + n) 1"
    by (simp add: t_def take_run_page_def)
  show ?case
    unfolding fold using ih Suc.prems
    by (auto simp: bit_test_set [OF idx] nth_list_update)
qed

lemma take_run_ok:
  assumes ok: "pmm_ok s" and n: "first + n \<le> total_pages s"
    and free: "\<And>page. first \<le> page \<Longrightarrow> page < first + n \<Longrightarrow> \<not> bit_test s page"
  defines "s' \<equiv> foldl take_run_page s [first..<first + n]"
  shows "pmm_ok (s'\<lparr>free_pages := free_pages s' - n\<rparr>)"
proof -
  have pre: "total_pages s \<le> 8 * length (bitmap s)" "length (refcounts s) = total_pages s"
    using ok by (simp_all add: pmm_ok_def)
  note eff = take_run_effect [OF n pre, folded s'_def]
  have sub: "{first..<first + n} \<subseteq> free_set s" using n free by (auto simp: free_set_def)
  have set: "free_set s' = free_set s - {first..<first + n}"
    using eff by (auto simp: free_set_def)
  have "card (free_set s') = card (free_set s) - n"
    unfolding set using card_Diff_subset [OF finite_atLeastLessThan sub] by simp
  moreover have "refcounts s' ! q = 0" if "q \<in> free_set s'" for q
  proof -
    have "q \<in> free_set s" "\<not> (first \<le> q \<and> q < first + n)" using that set by auto
    moreover from this have "q < total_pages s" by (simp add: free_set_def)
    ultimately show ?thesis using eff ok by (auto simp: pmm_ok_free)
  qed
  ultimately show ?thesis using ok eff by (auto simp: pmm_ok_free)
qed

definition page_stride :: "nat \<Rightarrow> nat" where
  "page_stride alignment_bytes = (if alignment_bytes > PMM_PAGE_SIZE then alignment_bytes div PMM_PAGE_SIZE else 1)"

definition run_limit :: "pmm \<Rightarrow> nat \<Rightarrow> nat" where
  "run_limit s limit = min (if limit \<noteq> 0 then limit div PMM_PAGE_SIZE else total_pages s) (total_pages s)"

lemma pmm_alloc_pages_cases:
  assumes ok: "pmm_ok s" and count: "count \<noteq> 0" and align: "alignment AND (alignment - 1) = 0"
  obtains (run) first where "pmm_alloc_pages_below s count alignment limit = Some (Some (first * PMM_PAGE_SIZE),
        (foldl take_run_page s [first..<first + count])\<lparr>free_pages := free_pages s - count\<rparr>)"
      "page_stride alignment dvd first" "page_stride alignment \<le> first" "first + count \<le> run_limit s limit"
      "\<And>page. first \<le> page \<Longrightarrow> page < first + count \<Longrightarrow> \<not> bit_test s page"
      "pmm_ok ((foldl take_run_page s [first..<first + count])\<lparr>free_pages := free_pages s - count\<rparr>)"
  | (none) "pmm_alloc_pages_below s count alignment limit = Some (None, s)"
      "free_pages s < count \<or>
       (\<forall>f. page_stride alignment dvd f \<and> page_stride alignment \<le> f \<and> f + count \<le> run_limit s limit \<longrightarrow>
          (\<exists>page. f \<le> page \<and> page < f + count \<and> bit_test s page))"
proof (cases "free_pages s \<ge> count")
  case False
  then show ?thesis using none count align by (simp add: pmm_alloc_pages_below_def)
next
  case True
  let ?st = "page_stride alignment" and ?lim = "run_limit s limit"
  have pos: "0 < ?st" by (auto simp: page_stride_def div_greater_zero_iff)
  obtain r where r: "alloc_scan s ?st count ?lim ?st = Some r"
    "case r of
       None \<Rightarrow> \<forall>f. ?st dvd f \<and> ?st \<le> f \<and> f + count \<le> ?lim \<longrightarrow> (\<exists>page. f \<le> page \<and> page < f + count \<and> bit_test s page)
     | Some f \<Rightarrow> ?st dvd f \<and> ?st \<le> f \<and> f + count \<le> ?lim \<and> (\<forall>page. f \<le> page \<and> page < f + count \<longrightarrow> \<not> bit_test s page)"
    using alloc_scan_spec [OF pos dvd_refl, of s count ?lim] by blast
  have unfold: "pmm_alloc_pages_below s count alignment limit =
      (case r of None \<Rightarrow> Some (None, s)
       | Some first \<Rightarrow>
           let s1 = foldl take_run_page s [first..<first + count]
           in Some (Some (first * PMM_PAGE_SIZE), s1\<lparr>free_pages := free_pages s1 - count\<rparr>))"
    using count align True r(1)
    by (cases r) (simp_all add: pmm_alloc_pages_below_def page_stride_def run_limit_def Let_def)
  show ?thesis
  proof (cases r)
    case None
    then show ?thesis using none unfold r(2) by simp
  next
    case (Some first)
    have f: "?st dvd first" "?st \<le> first" "first + count \<le> ?lim"
      "\<And>page. first \<le> page \<Longrightarrow> page < first + count \<Longrightarrow> \<not> bit_test s page"
      using r(2) Some by auto
    have lim: "first + count \<le> total_pages s" using f(3) by (simp add: run_limit_def)
    have fp: "free_pages (foldl take_run_page s [first..<first + count]) = free_pages s"
      using take_run_effect [OF lim] ok by (simp add: pmm_ok_def)
    have "pmm_alloc_pages_below s count alignment limit = Some (Some (first * PMM_PAGE_SIZE),
        (foldl take_run_page s [first..<first + count])\<lparr>free_pages := free_pages s - count\<rparr>)"
      using unfold Some fp by (simp add: Let_def)
    then show ?thesis using run [of first] f take_run_ok [OF ok lim f(4)] unfolding fp by blast
  qed
qed

section \<open>References\<close>

lemma pmm_free_page_cases:
  assumes ok: "pmm_ok s" and page: "page < total_pages s" "page \<noteq> 0" "bit_test s page"
  obtains (shared) "1 < refcounts s ! page"
      "pmm_free_page s (page * PMM_PAGE_SIZE) = Inr (set_refcount s page (refcounts s ! page - 1))"
      "pmm_ok (set_refcount s page (refcounts s ! page - 1))"
  | (freed) s' where "\<not> 1 < refcounts s ! page" "pmm_free_page s (page * PMM_PAGE_SIZE) = Inr s'" "pmm_ok s'"
      "\<And>q. bit_test s' q \<longleftrightarrow> q \<noteq> page \<and> bit_test s q" "refcounts s' = (refcounts s)[page := 0]"
      "total_pages s' = total_pages s"
proof -
  have busy: "page \<notin> free_set s" using page by (simp add: free_set_def)
  have idx: "page div 8 < length (bitmap s)" by (rule pmm_ok_page [OF ok page(1)])
  show ?thesis
  proof (cases "1 < refcounts s ! page")
    case True
    then show ?thesis
      using shared pmm_ok_refcount [OF ok busy] page by (simp add: pmm_free_page_def pmm_free_page_locked_def)
  next
    case False
    let ?s0 = "set_refcount s page 0"
    let ?h = "if page < next_hint s then page else next_hint s"
    let ?s' = "(bit_clear ?s0 page)\<lparr>free_pages := free_pages s + 1, next_hint := ?h\<rparr>"
    have ok0: "pmm_ok ?s0" by (rule pmm_ok_refcount [OF ok busy])
    have "pmm_ok ((bit_clear ?s0 page)\<lparr>free_pages := free_pages ?s0 + 1, next_hint := ?h\<rparr>)"
      using ok page(1) busy by (intro pmm_ok_release [OF ok0]) (auto simp: pmm_ok_def)
    moreover have "pmm_free_page s (page * PMM_PAGE_SIZE) = Inr ?s'"
      using False page by (simp add: pmm_free_page_def pmm_free_page_locked_def Let_def)
    ultimately show ?thesis
      using freed [of ?s'] False bit_test_clear [of page ?s0] idx by simp
  qed
qed

lemma pmm_page_ref_cases:
  assumes ok: "pmm_ok s" and page: "page < total_pages s" "bit_test s page"
  shows "pmm_page_ref s (page * PMM_PAGE_SIZE) =
    (if refcounts s ! page = 0xFFFFFFFF then (Inl FAILED, s)
     else (Inr (), set_refcount s page (refcounts s ! page + 1)))"
    "pmm_ok (set_refcount s page n)"
  using page pmm_ok_refcount [OF ok, of page n]
  by (simp_all add: pmm_page_ref_def pmm_page_is_allocated_def pmm_managed_limit_def free_set_def)

section \<open>Initial state\<close>

lemma place_tracking_bounds:
  "place_tracking s regions = 0 \<or>
    PMM_LOW_MEMORY_RESERVE \<le> place_tracking s regions \<and>
    place_tracking s regions + tracking_bytes s \<le> total_pages s * PMM_PAGE_SIZE"
proof -
  have "foldl (place_region s) best regions = 0 \<or>
      PMM_LOW_MEMORY_RESERVE \<le> foldl (place_region s) best regions \<and>
      foldl (place_region s) best regions + tracking_bytes s \<le> total_pages s * PMM_PAGE_SIZE"
    if "best = 0 \<or> PMM_LOW_MEMORY_RESERVE \<le> best \<and> best + tracking_bytes s \<le> total_pages s * PMM_PAGE_SIZE" for best
    using that
  proof (induction regions arbitrary: best)
    case (Cons r rs)
    have "place_region s best r = 0 \<or> PMM_LOW_MEMORY_RESERVE \<le> place_region s best r \<and>
        place_region s best r + tracking_bytes s \<le> total_pages s * PMM_PAGE_SIZE"
      using Cons.prems by (auto simp: place_region_def Let_def)
    then show ?case using Cons.IH by simp
  qed simp
  then show ?thesis by (simp add: place_tracking_def)
qed

lemma free_region_page_ok: "pmm_ok s \<Longrightarrow> (\<forall>n \<in> set (refcounts s). n = 0) \<Longrightarrow>
    pmm_ok (free_region_page s page) \<and> refcounts (free_region_page s page) = refcounts s \<and>
    total_pages (free_region_page s page) = total_pages s \<and> next_hint (free_region_page s page) = next_hint s \<and>
    tracking_physical (free_region_page s page) = tracking_physical s \<and>
    tracking_bytes (free_region_page s page) = tracking_bytes s"
  using pmm_ok_release [of s page "next_hint s"] by (auto simp: free_region_page_def free_set_def pmm_ok_def)

lemma reserve_page_ok:
  assumes "pmm_ok s"
  shows "pmm_ok (reserve_page s page)" "refcounts (reserve_page s page) = refcounts s"
    "total_pages (reserve_page s page) = total_pages s" "next_hint (reserve_page s page) = next_hint s"
    "tracking_physical (reserve_page s page) = tracking_physical s" "tracking_bytes (reserve_page s page) = tracking_bytes s"
    "q < total_pages s \<Longrightarrow> bit_test (reserve_page s page) q \<longleftrightarrow> q = page \<or> bit_test s q"
proof -
  have "pmm_ok ((bit_set s page)\<lparr>free_pages := free_pages s - 1\<rparr>)" if "page \<in> free_set s"
  proof -
    have "page div 8 < length (bitmap s)" using that pmm_ok_page [OF assms] by (simp add: free_set_def)
    then show ?thesis using assms that by (auto simp: pmm_ok_free free_set_set card_Diff_singleton)
  qed
  then show "pmm_ok (reserve_page s page)" using assms by (simp add: reserve_page_def free_set_def)
  show "q < total_pages s \<Longrightarrow> bit_test (reserve_page s page) q \<longleftrightarrow> q = page \<or> bit_test s q"
    using bit_test_set [OF pmm_ok_page [OF assms], of page q] by (auto simp: reserve_page_def)
qed (simp_all add: reserve_page_def)

text \<open>
  What the loops of the initialisation keep.
\<close>

definition init_inv :: "pmm \<Rightarrow> pmm \<Rightarrow> bool" where
  "init_inv s0 s \<longleftrightarrow> pmm_ok s \<and> total_pages s = total_pages s0 \<and> next_hint s = 0 \<and>
     tracking_physical s = tracking_physical s0 \<and> tracking_bytes s = tracking_bytes s0"

lemma foldl_keeps: "P s \<Longrightarrow> (\<And>s x. x \<in> set xs \<Longrightarrow> P s \<Longrightarrow> P (f s x)) \<Longrightarrow> P (foldl f s xs)"
  by (induction xs arbitrary: s) auto

lemma free_regions_inv:
  assumes "init_inv s0 s" "\<forall>n \<in> set (refcounts s). n = 0"
  shows "init_inv s0 (foldl (free_region highest) s regions) \<and>
    (\<forall>n \<in> set (refcounts (foldl (free_region highest) s regions)). n = 0)"
proof (rule foldl_keeps [where P = "\<lambda>s. init_inv s0 s \<and> (\<forall>n \<in> set (refcounts s). n = 0)"])
  fix s r assume s: "init_inv s0 s \<and> (\<forall>n \<in> set (refcounts s). n = 0)"
  have "init_inv s0 (foldl free_region_page s pages) \<and> (\<forall>n \<in> set (refcounts (foldl free_region_page s pages)). n = 0)" for pages
    by (rule foldl_keeps [where P = "\<lambda>s. init_inv s0 s \<and> (\<forall>n \<in> set (refcounts s). n = 0)", OF s])
      (use free_region_page_ok in \<open>fastforce simp: init_inv_def\<close>)
  then show "init_inv s0 (free_region highest s r) \<and> (\<forall>n \<in> set (refcounts (free_region highest s r)). n = 0)"
    using s by (simp add: free_region_def Let_def)
qed (use assms in simp)

lemma reserve_pages_inv:
  assumes "init_inv s0 s"
  shows "init_inv s0 (foldl reserve_page s pages)"
    "\<And>q. q < total_pages s0 \<Longrightarrow> bit_test (foldl reserve_page s pages) q \<longleftrightarrow> q \<in> set pages \<or> bit_test s q"
  using assms
proof (induction pages arbitrary: s)
  case (Cons p ps)
  {
    case 1
    then have "init_inv s0 (reserve_page s p)" using reserve_page_ok by (simp add: init_inv_def)
    then show ?case using Cons.IH(1) by simp
  next
    case 2
    then have "init_inv s0 (reserve_page s p)" using reserve_page_ok by (simp add: init_inv_def)
    then show ?case using Cons.IH(2) 2 reserve_page_ok(7) [of s q p] by (auto simp: init_inv_def)
  }
qed simp_all

lemma reserve_tracking_step:
  assumes inv: "init_inv s0 s"
  shows "init_inv s0 (reserve_tracking_page s p)"
    "q < total_pages s0 \<Longrightarrow> bit_test (reserve_tracking_page s p) q \<longleftrightarrow> q = p \<or> bit_test s q"
    "q < total_pages s0 \<Longrightarrow> refcounts (reserve_tracking_page s p) ! q = (if q = p then 1 else refcounts s ! q)"
proof -
  have ok: "pmm_ok s" "total_pages s = total_pages s0" "length (refcounts s) = total_pages s0"
    using inv by (auto simp: init_inv_def pmm_ok_def)
  note r = reserve_page_ok [OF ok(1), where page = p]
  have "p \<notin> free_set (reserve_page s p)"
    using r(3) r(7) [where q = p] by (auto simp: free_set_def)
  from pmm_ok_refcount [OF r(1) this, of 1] show "init_inv s0 (reserve_tracking_page s p)"
    using inv r by (simp add: init_inv_def reserve_tracking_page_def)
  show "q < total_pages s0 \<Longrightarrow> bit_test (reserve_tracking_page s p) q \<longleftrightarrow> q = p \<or> bit_test s q"
    using r(7) [where q = q] ok(2) by (simp add: reserve_tracking_page_def)
  show "q < total_pages s0 \<Longrightarrow> refcounts (reserve_tracking_page s p) ! q = (if q = p then 1 else refcounts s ! q)"
    using r(2) ok(3) by (simp add: reserve_tracking_page_def)
qed

lemma reserve_tracking_inv:
  assumes "init_inv s0 s"
  shows "init_inv s0 (foldl reserve_tracking_page s pages)"
  using assms by (induction pages arbitrary: s) (simp_all add: reserve_tracking_step)

lemma reserve_tracking_bits:
  assumes "init_inv s0 s" "q < total_pages s0" "bit_test s q"
  shows "bit_test (foldl reserve_tracking_page s pages) q"
  using assms by (induction pages arbitrary: s) (simp_all add: reserve_tracking_step)

lemma reserve_tracking_refs:
  assumes "init_inv s0 s" "q < total_pages s0" "q \<in> set pages \<or> bit_test s q \<and> refcounts s ! q = 1"
  shows "bit_test (foldl reserve_tracking_page s pages) q \<and> refcounts (foldl reserve_tracking_page s pages) ! q = 1"
  using assms
proof (induction pages arbitrary: s)
  case (Cons p ps)
  note step = reserve_tracking_step [OF Cons.prems(1), where p = p]
  show ?case
    using Cons.IH [OF step(1) Cons.prems(2)] step(2,3) [OF Cons.prems(2)] Cons.prems(3) by auto
qed simp

lemma pmm_init_ok:
  assumes "pmm_init hhdm regions = Inr s"
  shows "pmm_ok s" "bit_test s 0"
    "PMM_LOW_MEMORY_RESERVE \<le> tracking_physical s"
    "tracking_physical s + tracking_bytes s \<le> total_pages s * PMM_PAGE_SIZE"
    "\<And>page. tracking_physical s div PMM_PAGE_SIZE \<le> page \<Longrightarrow>
       page < (tracking_physical s + tracking_bytes s) div PMM_PAGE_SIZE \<Longrightarrow>
       bit_test s page \<and> refcounts s ! page = 1"
proof -
  obtain highest usable ignored where survey: "foldl survey_region (0, 0, 0) regions = (highest, usable, ignored)"
    by (metis prod_cases3)
  define total where "total = (highest + PMM_PAGE_SIZE - 1) div PMM_PAGE_SIZE"
  define s0 where "s0 = layout_tracking total"
  define place where "place = place_tracking s0 regions"
  define s1 where "s1 = point_tracking (s0\<lparr>tracking_physical := place\<rparr>) hhdm"
  define s2 where "s2 = s1\<lparr>bitmap := replicate ((total + 7) div 8) 0xFF, refcounts := replicate total 0, free_pages := 0\<rparr>"
  define s3 where "s3 = foldl (free_region highest) s2 regions"
  define s4 where "s4 = s3\<lparr>usable_pages := free_pages s3\<rparr>"
  define low :: nat where "low = PMM_LOW_MEMORY_RESERVE div PMM_PAGE_SIZE"
  define s5 where "s5 = foldl reserve_page s4 [0..<low]"
  define s6 where "s6 = foldl reserve_tracking_page s5
      [tracking_physical s5 div PMM_PAGE_SIZE..<(tracking_physical s5 + tracking_bytes s5) div PMM_PAGE_SIZE]"
  have t0: "total_pages (s0\<lparr>tracking_physical := place\<rparr>) = total" "total_pages s0 = total" "next_hint s0 = 0"
    by (simp_all add: s0_def layout_tracking_def Let_def)
  have pop: "populate hhdm highest regions (s0\<lparr>tracking_physical := place\<rparr>) = s6\<lparr>next_hint := low\<rparr>"
    unfolding populate_def Let_def t0(1) s6_def s5_def s4_def s3_def s2_def s1_def low_def by (rule refl)
  have "pmm_init hhdm regions =
      (if usable < 2 * 1024 * 1024 then Inl (Panic ''PMM: insufficient usable memory'')
       else if place = 0 then Inl (Panic ''PMM: no room for page tracking'') else Inr (s6\<lparr>next_hint := low\<rparr>))"
    unfolding pop [symmetric] unfolding pmm_init_def survey prod.case Let_def place_def s0_def total_def by (rule refl)
  then have s: "place \<noteq> 0" "s = s6\<lparr>next_hint := low\<rparr>"
    using assms by (simp_all split: if_split_asm)
  have low: "low = 256" by (simp add: low_def)
  have place: "PMM_LOW_MEMORY_RESERVE \<le> place" "place + tracking_bytes s0 \<le> total * PMM_PAGE_SIZE"
    using place_tracking_bounds [of s0 regions] s(1) t0(2) by (auto simp: place_def)
  have f2: "total_pages s2 = total" "tracking_physical s2 = place" "tracking_bytes s2 = tracking_bytes s0"
    "next_hint s2 = 0" "bitmap s2 = replicate ((total + 7) div 8) 0xFF" "refcounts s2 = replicate total 0" "free_pages s2 = 0"
    using t0 by (simp_all add: s2_def s1_def point_tracking_def)
  have "bit_test s2 q" if "q < total" for q
  proof -
    have q: "q div 8 < (total + 7) div 8" "q mod 8 < 8" using that by auto
    have "bit (0xFF :: u8) (q mod 8)" unfolding mask_8 using q(2) by (simp add: bit_mask_iff)
    then show ?thesis using q by (simp add: bit_test_bit f2(5))
  qed
  then have "free_set s2 = {}" by (auto simp: free_set_def f2)
  then have i2: "init_inv s2 s2" by (auto simp: init_inv_def pmm_ok_free f2)
  have i3: "init_inv s2 s3"
    unfolding s3_def using free_regions_inv [OF i2] f2 by simp
  then have i4: "init_inv s2 s4"
    by (auto simp: s4_def init_inv_def pmm_ok_free)
  note i5 = reserve_pages_inv [OF i4, where pages = "[0..<low]", folded s5_def]
  have i6: "init_inv s2 s6" unfolding s6_def by (rule reserve_tracking_inv [OF i5(1)])
  have total: "256 \<le> total" using place by linarith
  have f6: "total_pages s6 = total" "tracking_physical s6 = place" "tracking_bytes s6 = tracking_bytes s0"
    "tracking_physical s5 = place" "tracking_bytes s5 = tracking_bytes s0"
    using i6 i5(1) f2 by (auto simp: init_inv_def)
  show "pmm_ok s" using i6 total f6 s(2) low by (auto simp: init_inv_def pmm_ok_free)
  have "bit_test s5 0" using i5(2) [of 0] total f2(1) low by simp
  then show "bit_test s 0"
    using reserve_tracking_bits [OF i5(1)] total f2 s(2) by (simp add: s6_def)
  show "PMM_LOW_MEMORY_RESERVE \<le> tracking_physical s" using place f6 s(2) by simp
  show bound: "tracking_physical s + tracking_bytes s \<le> total_pages s * PMM_PAGE_SIZE" using place f6 s(2) by simp
  fix page
  assume p: "tracking_physical s div PMM_PAGE_SIZE \<le> page"
    "page < (tracking_physical s + tracking_bytes s) div PMM_PAGE_SIZE"
  have "(tracking_physical s + tracking_bytes s) div PMM_PAGE_SIZE \<le> total_pages s"
    using div_le_mono [OF bound, of PMM_PAGE_SIZE] by simp
  then have "page < total_pages s2" using p f6 f2 s(2) by simp
  then show "bit_test s page \<and> refcounts s ! page = 1"
    using reserve_tracking_refs [OF i5(1), of page] p f6 s(2) by (simp add: s6_def)
qed

section \<open>Holders of pages\<close>

text \<open>
  The allocator together with its clients: for every page the number of references the clients hold. A client frees or
  shares only pages it holds. The clients start on a sound allocator, such as the one the initialisation builds. \<open>held\<close> is the relation the allocator keeps to that number.
\<close>

type_synonym page_holders = "nat \<Rightarrow> nat"

inductive pmm_step :: "pmm \<times> page_holders \<Rightarrow> pmm \<times> page_holders \<Rightarrow> bool" where
  alloc: "pmm_alloc_page s = Inr (Some address, s') \<Longrightarrow> page = address div PMM_PAGE_SIZE \<Longrightarrow>
     pmm_step (s, n) (s', n(page := n page + 1))"
| alloc_run: "pmm_alloc_pages_below s count alignment limit = Some (Some address, s') \<Longrightarrow>
     first = address div PMM_PAGE_SIZE \<Longrightarrow>
     pmm_step (s, n) (s', \<lambda>page. if first \<le> page \<and> page < first + count then n page + 1 else n page)"
| share: "n page > 0 \<Longrightarrow> pmm_page_ref s (page * PMM_PAGE_SIZE) = (Inr (), s') \<Longrightarrow>
     pmm_step (s, n) (s', n(page := n page + 1))"
| drop: "n page > 0 \<Longrightarrow> pmm_free_page s (page * PMM_PAGE_SIZE) = Inr s' \<Longrightarrow>
     pmm_step (s, n) (s', n(page := n page - 1))"
| remap: "pmm_step (s, n) (pmm_use_direct_map s base, n)"

inductive pmm_reachable :: "pmm \<times> page_holders \<Rightarrow> bool" where
  boot: "pmm_ok s \<Longrightarrow> bit_test s 0 \<Longrightarrow> pmm_reachable (s, \<lambda>_. 0)"
| step: "pmm_reachable x \<Longrightarrow> pmm_step x y \<Longrightarrow> pmm_reachable y"

definition held :: "pmm \<Rightarrow> page_holders \<Rightarrow> bool" where
  "held s n \<longleftrightarrow> pmm_ok s \<and> bit_test s 0 \<and>
     (\<forall>page. n page > 0 \<longrightarrow> page \<noteq> 0 \<and> page < total_pages s \<and> bit_test s page \<and> unat (refcounts s ! page) = n page)"

lemma heldD:
  assumes "held s n"
  shows "pmm_ok s" "bit_test s 0" "length (refcounts s) = total_pages s"
    "n page > 0 \<Longrightarrow> page \<noteq> 0 \<and> page < total_pages s \<and> bit_test s page \<and> unat (refcounts s ! page) = n page"
  using assms by (auto simp: held_def pmm_ok_def)

lemma held_free: "held s n \<Longrightarrow> page \<in> free_set s \<Longrightarrow> n page = 0 \<and> page \<noteq> 0"
  by (cases "page = 0") (auto simp: held_def free_set_def)

lemma held_alloc:
  assumes h: "held s n" and run: "pmm_alloc_page s = Inr (Some address, s')" and page: "page = address div PMM_PAGE_SIZE"
  shows "held s' (n(page := n page + 1))" "n page = 0" "page \<in> free_set s" "address = page * PMM_PAGE_SIZE"
proof -
  note ok = heldD(1) [OF h]
  from ok obtain p where p: "p \<in> free_set s" "s' = take_page s p" "address = p * PMM_PAGE_SIZE"
    by (rule pmm_alloc_page_cases) (use run in auto)
  then have pp: "page = p" using page by simp
  note free = held_free [OF h p(1)]
  note eff = take_page_effect [OF ok p(1)]
  have lt: "p < total_pages s" using p(1) by (simp add: free_set_def)
  show "held s' (n(page := n page + 1))"
    unfolding held_def p(2) pp using take_page_ok [OF ok p(1)] eff free lt heldD(2,3,4) [OF h] by auto
  show "n page = 0" "page \<in> free_set s" "address = page * PMM_PAGE_SIZE" using free p pp by auto
qed

lemma held_alloc_run:
  assumes h: "held s n" and run: "pmm_alloc_pages_below s count alignment limit = Some (Some address, s')"
    and first: "first = address div PMM_PAGE_SIZE"
  shows "held s' (\<lambda>page. if first \<le> page \<and> page < first + count then n page + 1 else n page)"
    "\<And>page. first \<le> page \<Longrightarrow> page < first + count \<Longrightarrow> n page = 0 \<and> page \<in> free_set s"
    "address = first * PMM_PAGE_SIZE" "first + count \<le> run_limit s limit" "page_stride alignment dvd first"
proof -
  note ok = heldD(1) [OF h]
  have args: "count \<noteq> 0" "alignment AND (alignment - 1) = 0"
    using run by (auto simp: pmm_alloc_pages_below_def Let_def split: if_split_asm)
  obtain f where f: "address = f * PMM_PAGE_SIZE"
    "s' = (foldl take_run_page s [f..<f + count])\<lparr>free_pages := free_pages s - count\<rparr>"
    "page_stride alignment dvd f" "f + count \<le> run_limit s limit"
    "\<And>page. f \<le> page \<Longrightarrow> page < f + count \<Longrightarrow> \<not> bit_test s page" "pmm_ok s'"
    using ok args by (rule pmm_alloc_pages_cases [where limit = limit]) (use run in auto)
  have ff: "first = f" using first f(1) by simp
  have lim: "f + count \<le> total_pages s" using f(4) by (simp add: run_limit_def)
  have free: "page \<in> free_set s" if "f \<le> page" "page < f + count" for page
    using f(5) that lim by (auto simp: free_set_def)
  have pre: "total_pages s \<le> 8 * length (bitmap s)" "length (refcounts s) = total_pages s"
    using ok by (simp_all add: pmm_ok_def)
  note eff = take_run_effect [OF lim pre]
  have n0: "n page = 0 \<and> page \<noteq> 0" if "f \<le> page" "page < f + count" for page
    by (rule held_free [OF h free [OF that]])
  show "held s' (\<lambda>page. if first \<le> page \<and> page < first + count then n page + 1 else n page)"
    unfolding held_def ff
  proof (intro conjI allI impI)
    show "pmm_ok s'" by (rule f(6))
    show "bit_test s' 0" using eff heldD(2) [OF h] f(2) by simp
  next
    fix page assume pos: "(if f \<le> page \<and> page < f + count then n page + 1 else n page) > 0"
    show "page \<noteq> 0" "page < total_pages s'" "bit_test s' page"
      "unat (refcounts s' ! page) = (if f \<le> page \<and> page < f + count then n page + 1 else n page)"
      using pos eff n0 [of page] heldD(4) [OF h, of page] lim f(2) by (auto split: if_splits)
  qed
  show "\<And>page. first \<le> page \<Longrightarrow> page < first + count \<Longrightarrow> n page = 0 \<and> page \<in> free_set s"
    using n0 free ff by blast
  show "address = first * PMM_PAGE_SIZE" "first + count \<le> run_limit s limit" "page_stride alignment dvd first"
    using f ff by simp_all
qed

lemma held_share:
  assumes h: "held s n" and n: "n page > 0" and run: "pmm_page_ref s (page * PMM_PAGE_SIZE) = (Inr (), s')"
  shows "held s' (n(page := n page + 1))"
proof -
  note d = heldD [OF h]
  note p = d(4) [OF n]
  have s': "s' = set_refcount s page (refcounts s ! page + 1)" "refcounts s ! page \<noteq> 0xFFFFFFFF"
    using run pmm_page_ref_cases(1) [OF d(1), of page] p by (auto split: if_splits)
  have "unat (refcounts s ! page) \<noteq> 2 ^ 32 - 1" using s'(2) by (simp add: word_unat_eq_iff)
  then have "unat (refcounts s ! page + 1) = n page + 1"
    using p unat_u32_less [of "refcounts s ! page"] by (simp add: unat_word_ariths)
  then show ?thesis
    using pmm_page_ref_cases(2) [OF d(1), of page "refcounts s ! page + 1"] p d s'(1)
    by (auto simp: held_def nth_list_update)
qed

lemma held_drop:
  assumes h: "held s n" and n: "n page > 0"
  shows "\<exists>s'. pmm_free_page s (page * PMM_PAGE_SIZE) = Inr s' \<and> held s' (n(page := n page - 1)) \<and>
    (page \<in> free_set s' \<longleftrightarrow> n page = 1)"
proof -
  note d = heldD [OF h]
  have p: "page \<noteq> 0" "page < total_pages s" "bit_test s page" "unat (refcounts s ! page) = n page"
    using d(4) [OF n] by auto
  have gt: "1 < refcounts s ! page \<longleftrightarrow> 1 < n page" using p(4) by (simp add: word_less_nat_alt)
  from d(1) p(2,1,3) show ?thesis
  proof (cases rule: pmm_free_page_cases)
    case shared
    have "unat (refcounts s ! page - 1) = n page - 1"
      using p(4) n by (subst unat_minus_one) auto
    then have "held (set_refcount s page (refcounts s ! page - 1)) (n(page := n page - 1))"
      using shared(3) p d by (auto simp: held_def nth_list_update)
    then show ?thesis using shared gt p by (auto simp: free_set_def)
  next
    case (freed s')
    have "n page = 1" using freed(1) gt n by simp
    moreover have "held s' (n(page := n page - 1))"
      using freed calculation p d by (auto simp: held_def nth_list_update)
    ultimately show ?thesis using freed p by (auto simp: free_set_def)
  qed
qed

lemma held_remap: "held s n \<Longrightarrow> held (pmm_use_direct_map s base) n"
  by (simp add: held_def pmm_ok_def pmm_use_direct_map_def point_tracking_def bit_test_def)

lemma pmm_step_held:
  assumes "pmm_step x y" "held (fst x) (snd x)"
  shows "held (fst y) (snd y)"
  using assms
proof (induction rule: pmm_step.induct)
  case (alloc s address s' page n)
  show ?case using held_alloc(1) [OF _ alloc(1,2)] alloc.prems unfolding fst_conv snd_conv .
next
  case (alloc_run s count alignment limit address s' first n)
  show ?case using held_alloc_run(1) [OF _ alloc_run(1,2)] alloc_run.prems unfolding fst_conv snd_conv .
next
  case (share n page s s')
  show ?case using held_share [of s n page s', OF _ share(1,2)] share.prems unfolding fst_conv snd_conv .
next
  case (drop n page s s')
  have "held s n" using drop.prems by simp
  from held_drop [OF this drop(1)] obtain t where t: "pmm_free_page s (page * PMM_PAGE_SIZE) = Inr t"
    "held t (n(page := n page - 1))" by blast
  have "t = s'" using t(1) drop(2) by simp
  with t(2) show ?case unfolding fst_conv snd_conv by (simp only:)
next
  case (remap s n base)
  then show ?case using held_remap by simp
qed

lemma pmm_reachable_held: "pmm_reachable x \<Longrightarrow> held (fst x) (snd x)"
proof (induction rule: pmm_reachable.induct)
  case (boot s)
  then show ?case by (simp add: held_def)
next
  case (step x y)
  then show ?case using pmm_step_held by blast
qed

section \<open>A sample allocator\<close>

text \<open>
  Two pages, the first of them reserved.
\<close>

definition two_pages :: pmm where
  "two_pages = \<lparr>bitmap = [1], refcounts = [0, 0], total_pages = 2, usable_pages = 1, free_pages = 1, next_hint = 0,
     tracking_physical = 0, tracking_bytes = 0, refcount_offset = 0, bitmap_at = 0, refcounts_at = 0\<rparr>"

lemma two_pages_ok: "pmm_ok two_pages" "bit_test two_pages 0"
proof -
  have bits: "bit_test two_pages 0" "\<not> bit_test two_pages 1"
    by (simp_all add: bit_test_def two_pages_def)
  have "{page. page < total_pages two_pages \<and> \<not> bit_test two_pages page} = {1}"
    using bits by (auto simp: two_pages_def less_2_cases_iff)
  then show "pmm_ok two_pages"
    using bits by (auto simp: pmm_ok_def two_pages_def less_2_cases_iff)
  show "bit_test two_pages 0" by (rule bits)
qed

lemma two_pages_reachable: "pmm_reachable (two_pages, \<lambda>_. 0)"
  by (rule pmm_reachable.boot [OF two_pages_ok])

section \<open>Properties\<close>

text \<open>
  The initialisation either stops with one of its two diagnostics or builds a sound allocator: the free-page
  counter is the number of clear bits, free pages have no references, page zero and the pages that hold
  the bitmap and the counters are reserved, and those pages lie inside the managed memory above the low-memory reserve.
\<close>

lemma pmm_init_sound:
  assumes "pmm_init hhdm regions = Inr s"
  shows "pmm_ok s \<and> bit_test s 0 \<and> PMM_LOW_MEMORY_RESERVE \<le> tracking_physical s \<and>
    tracking_physical s + tracking_bytes s \<le> pmm_managed_limit s \<and>
    (\<forall>page. tracking_physical s div PMM_PAGE_SIZE \<le> page \<and>
       page < (tracking_physical s + tracking_bytes s) div PMM_PAGE_SIZE \<longrightarrow> bit_test s page \<and> refcounts s ! page = 1)"
  using pmm_init_ok [OF assms] by (simp add: pmm_managed_limit_def)

text \<open>
  C17: No page is handed out twice. In every reachable state of the allocator and its clients, an allocation returns either
  nothing, when no page is free, or a page to which no client holds a reference, and never stops the kernel with a
  broken-invariant panic.
\<close>

theorem pmm_alloc_exclusive:
  assumes "pmm_reachable (s, n)"
  shows "(\<exists>address s'. pmm_alloc_page s = Inr (Some address, s') \<and>
      address \<noteq> 0 \<and> address mod PMM_PAGE_SIZE = 0 \<and> address < pmm_managed_limit s \<and>
      \<not> pmm_page_is_allocated s address \<and> n (address div PMM_PAGE_SIZE) = 0 \<and>
      pmm_page_is_allocated s' address \<and> pmm_page_refcount s' address = 1) \<or>
    free_pages s = 0 \<and> pmm_alloc_page s = Inr (None, s)"
proof -
  have h: "held s n" using pmm_reachable_held [OF assms] by simp
  note ok = heldD(1) [OF h]
  from ok show ?thesis
  proof (cases rule: pmm_alloc_page_cases)
    case none
    then show ?thesis using ok by (simp add: pmm_ok_free)
  next
    case (page p)
    have p: "p < total_pages s" "\<not> bit_test s p" "n p = 0" "p \<noteq> 0"
      using page(1) held_free [OF h page(1)] by (auto simp: free_set_def)
    note eff = take_page_effect [OF ok page(1)]
    have "pmm_page_is_allocated (take_page s p) (p * PMM_PAGE_SIZE)"
      "pmm_page_refcount (take_page s p) (p * PMM_PAGE_SIZE) = 1"
      using p eff heldD(3) [OF h]
      by (simp_all add: pmm_page_is_allocated_def pmm_page_refcount_def pmm_managed_limit_def)
    moreover have "\<not> pmm_page_is_allocated s (p * PMM_PAGE_SIZE)"
      using p by (simp add: pmm_page_is_allocated_def)
    ultimately show ?thesis using page(2) p by (auto simp: pmm_managed_limit_def)
  qed
qed

theorem pmm_alloc_exclusive_witness:
  "pmm_reachable (two_pages, \<lambda>_. 0) \<and> free_pages two_pages \<noteq> 0 \<and>
   (\<exists>address s'. pmm_alloc_page two_pages = Inr (Some address, s') \<and> address \<noteq> 0)"
  using pmm_alloc_exclusive [OF two_pages_reachable] two_pages_reachable by (auto simp: two_pages_def)

text \<open>
  C18: Sharing and freeing a page are counted exactly. In every reachable state a client that holds a page can free it
  without a panic, and the page becomes free exactly when that was the last reference to it.
\<close>

theorem pmm_free_counts:
  assumes "pmm_reachable (s, n)" "n page > 0"
  shows "\<exists>s'. pmm_free_page s (page * PMM_PAGE_SIZE) = Inr s' \<and> pmm_reachable (s', n(page := n page - 1)) \<and>
    (pmm_page_is_allocated s' (page * PMM_PAGE_SIZE) \<longleftrightarrow> n page > 1)"
proof -
  have h: "held s n" using pmm_reachable_held [OF assms(1)] by simp
  obtain s' where s': "pmm_free_page s (page * PMM_PAGE_SIZE) = Inr s'" "held s' (n(page := n page - 1))"
    "page \<in> free_set s' \<longleftrightarrow> n page = 1"
    using held_drop [OF h assms(2)] by blast
  have "total_pages s' = total_pages s"
    using s'(1) by (auto simp: pmm_free_page_def pmm_free_page_locked_def Let_def split: if_splits)
  then have "pmm_page_is_allocated s' (page * PMM_PAGE_SIZE) \<longleftrightarrow> n page > 1"
    using s'(3) heldD(4) [OF h assms(2)] assms(2)
    by (auto simp: pmm_page_is_allocated_def pmm_managed_limit_def free_set_def)
  moreover have "pmm_reachable (s', n(page := n page - 1))"
    by (rule pmm_reachable.step [OF assms(1) pmm_step.drop [of n page s s', OF assms(2) s'(1)]])
  ultimately show ?thesis using s'(1) by blast
qed

theorem pmm_free_counts_witness:
  "\<exists>s n. pmm_reachable (s, n) \<and> n 1 = 1 \<and> (\<exists>s'. pmm_free_page s (1 * PMM_PAGE_SIZE) = Inr s' \<and>
     \<not> pmm_page_is_allocated s' (1 * PMM_PAGE_SIZE))"
proof -
  let ?n = "(\<lambda>_. 0)(1 := 1)"
  have alloc: "pmm_alloc_page two_pages = Inr (Some 4096, take_page two_pages 1)"
    by (simp add: pmm_alloc_page_def pmm_alloc_page_locked_def find_free_page_def two_pages_def upt_2 bit_test_def)
  have reach: "pmm_reachable (take_page two_pages 1, ?n)"
    using pmm_reachable.step [OF two_pages_reachable pmm_step.alloc [OF alloc]] by simp
  have one: "?n 1 = 1" by simp
  obtain s' where "pmm_free_page (take_page two_pages 1) (1 * PMM_PAGE_SIZE) = Inr s'"
    "\<not> pmm_page_is_allocated s' (1 * PMM_PAGE_SIZE)"
    using pmm_free_counts [OF reach, of 1] by auto
  with reach one show ?thesis by blast
qed

text \<open>
  C37: The search for a run of pages always ends, and finds one if there is one. A run it returns is aligned, lies below the
  limit and was free; when it returns nothing although enough pages are free, every aligned run below the limit contains a
  page in use.
\<close>

theorem pmm_alloc_pages_complete:
  assumes "pmm_ok s" "count \<noteq> 0" "alignment AND (alignment - 1) = 0"
  shows "\<exists>found s'. pmm_alloc_pages_below s count alignment limit = Some (found, s') \<and> pmm_ok s' \<and>
    (case found of
       Some address \<Rightarrow> \<exists>first. address = first * PMM_PAGE_SIZE \<and> page_stride alignment dvd first \<and>
         first + count \<le> run_limit s limit \<and>
         (\<forall>page. first \<le> page \<and> page < first + count \<longrightarrow> \<not> bit_test s page \<and> bit_test s' page \<and> refcounts s' ! page = 1)
     | None \<Rightarrow> s' = s \<and> (free_pages s < count \<or>
         (\<forall>first. page_stride alignment dvd first \<and> page_stride alignment \<le> first \<and> first + count \<le> run_limit s limit \<longrightarrow>
            (\<exists>page. first \<le> page \<and> page < first + count \<and> bit_test s page))))"
  using assms
proof (cases rule: pmm_alloc_pages_cases [where limit = limit])
  case (run first)
  have lim: "first + count \<le> total_pages s" using run(4) by (simp add: run_limit_def)
  have pre: "total_pages s \<le> 8 * length (bitmap s)" "length (refcounts s) = total_pages s"
    using assms(1) by (simp_all add: pmm_ok_def)
  note eff = take_run_effect [OF lim pre]
  let ?s = "(foldl take_run_page s [first..<first + count])\<lparr>free_pages := free_pages s - count\<rparr>"
  have "\<not> bit_test s page \<and> bit_test ?s page \<and> refcounts ?s ! page = 1" if "first \<le> page" "page < first + count" for page
    using run(5) [OF that] eff that lim by simp
  with run show ?thesis by (intro exI [of _ "Some (first * PMM_PAGE_SIZE)"] exI [of _ ?s]) auto
next
  case none
  then show ?thesis using assms(1) by auto
qed

theorem pmm_alloc_pages_complete_witness:
  "\<exists>found s'. pmm_alloc_pages_below two_pages 1 0 0 = Some (found, s') \<and> pmm_ok s'"
  using pmm_alloc_pages_complete [OF two_pages_ok(1), of 1 0 0] by auto

end
