(* ===== verification/Node.thy ===== *)
theory Node
  imports Prelude
begin

text \<open>
  The part of an inode and of a process that access control reads: \<^verbatim>\<open>struct vfs_node\<close>, \<^verbatim>\<open>struct credentials\<close>, the entries of an
  access control list and the extended attributes. A list that the C code keeps behind a pointer together with its
  length is a list here. The supplementary groups are shared between processes and counted, so they stay
  behind an address into a heap of blocks.
\<close>

section \<open>Records\<close>

abbreviation (input) VFS_FILE :: u32 where "VFS_FILE \<equiv> 1"
abbreviation (input) VFS_DIRECTORY :: u32 where "VFS_DIRECTORY \<equiv> 2"
abbreviation (input) VFS_READONLY :: u32 where "VFS_READONLY \<equiv> 0x100"
abbreviation (input) VFS_PATH_MAX :: nat where "VFS_PATH_MAX \<equiv> 4096"
abbreviation (input) VFS_TIME_ATIME :: u32 where "VFS_TIME_ATIME \<equiv> 1"
abbreviation (input) VFS_TIME_MTIME :: u32 where "VFS_TIME_MTIME \<equiv> 2"
abbreviation (input) VFS_TIME_CTIME :: u32 where "VFS_TIME_CTIME \<equiv> 4"

record acl_entry =
  tag :: u16
  perm :: u16
  who :: u32

record vfs_acl =
  group_obj :: u32
  entries :: "acl_entry list"

record vfs_xattr =
  xname :: string
  xvalue :: "u8 list"

text \<open>
  \<open>meta_changes\<close> counts the calls of the file system's \<^verbatim>\<open>meta_changed\<close> hook for the node.
\<close>

record vfs_node =
  n_flags :: u32
  n_mode :: u32
  n_uid :: u32
  n_gid :: u32
  atime :: u32
  mtime :: u32
  ctime :: u32
  atime_ns :: u32
  mtime_ns :: u32
  ctime_ns :: u32
  acl :: "vfs_acl option"
  xattrs :: "vfs_xattr list"
  xattr_dirty :: bool
  meta_changes :: nat

record credentials =
  c_uid :: u32
  c_gid :: u32
  c_euid :: u32
  c_egid :: u32
  c_suid :: u32
  c_sgid :: u32
  c_fsuid :: u32
  c_fsgid :: u32
  group_count :: nat
  groups :: "nat option"

text \<open>
  A block of supplementary groups: the number of credentials that refer to it, and the group numbers.
\<close>

type_synonym group_heap = "nat \<Rightarrow> (u32 \<times> u32 list) option"

definition group_list :: "group_heap \<Rightarrow> credentials \<Rightarrow> u32 list" where
  "group_list h cred =
     (case groups cred of
        None \<Rightarrow> []
      | Some block \<Rightarrow> (case h block of None \<Rightarrow> [] | Some (refs, gids) \<Rightarrow> take (group_count cred) gids))"

section \<open>Times and notifications\<close>

definition vfs_stamp_times :: "u64 \<Rightarrow> vfs_node \<Rightarrow> u32 \<Rightarrow> vfs_node" where
  "vfs_stamp_times clock node which =
     (let now = ucast (clock div 1000000000);
          nano = ucast (clock mod 1000000000);
          node1 = (if which AND VFS_TIME_ATIME \<noteq> 0 then node\<lparr>atime := now, atime_ns := nano\<rparr> else node);
          node2 = (if which AND VFS_TIME_MTIME \<noteq> 0 then node1\<lparr>mtime := now, mtime_ns := nano\<rparr> else node1)
      in if which AND VFS_TIME_CTIME \<noteq> 0 then node2\<lparr>ctime := now, ctime_ns := nano\<rparr> else node2)"

definition vfs_notify_meta_changed :: "u64 \<Rightarrow> vfs_node \<Rightarrow> vfs_node" where
  "vfs_notify_meta_changed clock node =
     (let node1 = vfs_stamp_times clock node VFS_TIME_CTIME in node1\<lparr>meta_changes := meta_changes node1 + 1\<rparr>)"

lemma vfs_stamp_ctime [simp]:
  "vfs_stamp_times clock node VFS_TIME_CTIME =
     node\<lparr>ctime := ucast (clock div 1000000000), ctime_ns := ucast (clock mod 1000000000)\<rparr>"
  by (simp add: vfs_stamp_times_def)

lemma vfs_notify_keeps [simp]:
  "acl (vfs_notify_meta_changed clock node) = acl node"
  "n_mode (vfs_notify_meta_changed clock node) = n_mode node"
  "n_uid (vfs_notify_meta_changed clock node) = n_uid node"
  "n_gid (vfs_notify_meta_changed clock node) = n_gid node"
  "n_flags (vfs_notify_meta_changed clock node) = n_flags node"
  "xattrs (vfs_notify_meta_changed clock node) = xattrs node"
  "xattr_dirty (vfs_notify_meta_changed clock node) = xattr_dirty node"
  "meta_changes (vfs_notify_meta_changed clock node) = meta_changes node + 1"
  by (simp_all add: vfs_notify_meta_changed_def)

end
