(* ===== verification/Acl.thy ===== *)
theory Acl
  imports Node "HOL-Library.Multiset"
begin

text \<open>
  POSIX access control lists, \<^verbatim>\<open>kernel/fs/acl.c\<close>: the wire format of the extended attribute, the checks and the
  insertion sort a new list goes through, and the access decision. The lemmas show that an installed list is sorted
  and duplicate free, that reading and writing it back is the identity, and that the decision is the one
  POSIX.1e defines.
\<close>

section \<open>Names and permission to change\<close>

abbreviation (input) ACL_XATTR_ACCESS :: string where "ACL_XATTR_ACCESS \<equiv> ''system.posix_acl_access''"
abbreviation (input) ACL_XATTR_DEFAULT :: string where "ACL_XATTR_DEFAULT \<equiv> ''system.posix_acl_default''"
abbreviation (input) ACL_VERSION :: u32 where "ACL_VERSION \<equiv> 2"
abbreviation (input) ACL_USER_OBJ :: u16 where "ACL_USER_OBJ \<equiv> 0x01"
abbreviation (input) ACL_USER :: u16 where "ACL_USER \<equiv> 0x02"
abbreviation (input) ACL_GROUP_OBJ :: u16 where "ACL_GROUP_OBJ \<equiv> 0x04"
abbreviation (input) ACL_GROUP :: u16 where "ACL_GROUP \<equiv> 0x08"
abbreviation (input) ACL_MASK :: u16 where "ACL_MASK \<equiv> 0x10"
abbreviation (input) ACL_OTHER :: u16 where "ACL_OTHER \<equiv> 0x20"
abbreviation (input) ACL_MAX_ENTRIES :: nat where "ACL_MAX_ENTRIES \<equiv> 64"
abbreviation (input) XATTR_CREATE :: u32 where "XATTR_CREATE \<equiv> 1"
abbreviation (input) XATTR_REPLACE :: u32 where "XATTR_REPLACE \<equiv> 2"

definition is_access :: "string \<Rightarrow> bool" where
  "is_access name \<longleftrightarrow> name = ACL_XATTR_ACCESS"

definition is_default :: "string \<Rightarrow> bool" where
  "is_default name \<longleftrightarrow> name = ACL_XATTR_DEFAULT"

definition acl_swap :: "vfs_node \<Rightarrow> vfs_acl option \<Rightarrow> vfs_node" where
  "acl_swap node next_acl = node\<lparr>acl := next_acl\<rparr>"

definition may_change :: "credentials option \<Rightarrow> vfs_node \<Rightarrow> unit result" where
  "may_change current node =
     (if n_flags node AND VFS_READONLY \<noteq> 0 then Inl EROFS
      else case current of
             None \<Rightarrow> Inr ()
           | Some cred \<Rightarrow> if c_fsuid cred \<noteq> 0 \<and> c_fsuid cred \<noteq> n_uid node then Inl EPERM else Inr ())"

section \<open>Wire format\<close>

definition entry_bytes :: "u16 \<Rightarrow> u16 \<Rightarrow> u32 \<Rightarrow> u8 list" where
  "entry_bytes t p i = le16_bytes t @ le16_bytes p @ le32_bytes_of i"

definition put_entry :: "u8 list \<times> nat \<Rightarrow> u16 \<Rightarrow> u16 \<Rightarrow> u32 \<Rightarrow> u8 list \<times> nat" where
  "put_entry out_at t p i = (case out_at of (out, at) \<Rightarrow> (copy_into out at (entry_bytes t p i), at + 8))"

definition put_named :: "u16 \<Rightarrow> u8 list \<times> nat \<Rightarrow> acl_entry \<Rightarrow> u8 list \<times> nat" where
  "put_named t out_at e = (if tag e = t then put_entry out_at t (perm e) (who e) else out_at)"

text \<open>
  Reading the attribute into a buffer of at least \<open>size\<close> bytes: the value or error returned, and the buffer afterwards.
\<close>

definition acl_xattr_get :: "vfs_node \<Rightarrow> string \<Rightarrow> u8 list \<Rightarrow> nat \<Rightarrow> nat result \<times> u8 list" where
  "acl_xattr_get node name out sz =
     (if \<not> is_access name then (Inl ENODATA, out)
      else case acl node of
             None \<Rightarrow> (Inl ENODATA, out)
           | Some a \<Rightarrow>
               let len = 4 + (length (entries a) + 4) * 8
               in if sz = 0 then (Inr len, out)
                  else if sz < len then (Inl ERANGE, out)
                  else
                    let mode = n_mode node;
                        s0 = (copy_into out 0 (le32_bytes_of ACL_VERSION), 4);
                        s1 = put_entry s0 ACL_USER_OBJ (ucast (drop_bit 6 mode AND 7)) 0xFFFFFFFF;
                        s2 = foldl (put_named ACL_USER) s1 (entries a);
                        s3 = put_entry s2 ACL_GROUP_OBJ (ucast (group_obj a)) 0xFFFFFFFF;
                        s4 = foldl (put_named ACL_GROUP) s3 (entries a);
                        s5 = put_entry s4 ACL_MASK (ucast (drop_bit 3 mode AND 7)) 0xFFFFFFFF;
                        s6 = put_entry s5 ACL_OTHER (ucast (mode AND 7)) 0xFFFFFFFF
                    in (Inr len, fst s6))"

section \<open>Installing a list\<close>

definition entry_before :: "acl_entry \<Rightarrow> acl_entry \<Rightarrow> bool" where
  "entry_before a b = (if tag a \<noteq> tag b then tag a < tag b else who a < who b)"

text \<open>
  The entries as they lie in memory after the version word.
\<close>

fun load_entries :: "nat \<Rightarrow> u8 list \<Rightarrow> acl_entry list" where
  "load_entries (Suc n) (t0 # t1 # p0 # p1 # i0 # i1 # i2 # i3 # rest) =
     \<lparr>tag = le16 t0 t1, perm = le16 p0 p1, who = le32 i0 i1 i2 i3\<rparr> # load_entries n rest"
| "load_entries _ _ = []"

text \<open>
  The loop over the entries. Named entries are compacted to the front of the array in place; the four unnamed
  kinds are remembered, and \<open>None\<close> stands for the -1 they start with.
\<close>

record acl_scan =
  array :: "acl_entry list"
  named :: nat
  s_user :: "u16 option"
  s_group :: "u16 option"
  s_mask :: "u16 option"
  s_other :: "u16 option"

definition scan_entry :: "acl_scan \<Rightarrow> nat \<Rightarrow> acl_scan result" where
  "scan_entry s index =
     (let e = array s ! index
      in if perm e > 7 then Inl EINVAL
         else if tag e = ACL_USER_OBJ then (if s_user s \<noteq> None then Inl EINVAL else Inr (s\<lparr>s_user := Some (perm e)\<rparr>))
         else if tag e = ACL_GROUP_OBJ then (if s_group s \<noteq> None then Inl EINVAL else Inr (s\<lparr>s_group := Some (perm e)\<rparr>))
         else if tag e = ACL_MASK then (if s_mask s \<noteq> None then Inl EINVAL else Inr (s\<lparr>s_mask := Some (perm e)\<rparr>))
         else if tag e = ACL_OTHER then (if s_other s \<noteq> None then Inl EINVAL else Inr (s\<lparr>s_other := Some (perm e)\<rparr>))
         else if tag e = ACL_USER \<or> tag e = ACL_GROUP
         then Inr (s\<lparr>array := (array s)[named s := e], named := named s + 1\<rparr>)
         else Inl EINVAL)"

fun scan_loop :: "acl_scan \<Rightarrow> nat list \<Rightarrow> acl_scan result" where
  "scan_loop s [] = Inr s"
| "scan_loop s (index # rest) = (case scan_entry s index of Inl e \<Rightarrow> Inl e | Inr s' \<Rightarrow> scan_loop s' rest)"

text \<open>
  The insertion sort: entries that come after the key move up one place.
\<close>

fun sift :: "acl_entry \<Rightarrow> nat \<Rightarrow> acl_entry list \<Rightarrow> acl_entry list" where
  "sift key 0 es = es[0 := key]"
| "sift key (Suc at) es = (if entry_before key (es ! at) then sift key at (es[Suc at := es ! at]) else es[Suc at := key])"

definition sort_step :: "acl_entry list \<Rightarrow> nat \<Rightarrow> acl_entry list" where
  "sort_step es index = sift (es ! index) index es"

definition sort_entries :: "acl_entry list \<Rightarrow> nat \<Rightarrow> acl_entry list" where
  "sort_entries es n = foldl sort_step es [1..<n]"

definition has_duplicate :: "acl_entry list \<Rightarrow> nat \<Rightarrow> bool" where
  "has_duplicate es n \<longleftrightarrow>
     list_ex (\<lambda>index. tag (es ! index) = tag (es ! (index - 1)) \<and> who (es ! index) = who (es ! (index - 1))) [1..<n]"

text \<open>
  \<open>room\<close> is whether the deferred allocator found memory for the new list.
\<close>

definition install :: "bool \<Rightarrow> vfs_node \<Rightarrow> acl_scan \<Rightarrow> vfs_node result" where
  "install room node s =
     (case (s_user s, s_group s, s_other s) of
        (Some user_bits, Some group_bits, Some other_bits) \<Rightarrow>
          if named s \<noteq> 0 \<and> s_mask s = None then Inl EINVAL
          else
            let es = sort_entries (array s) (named s)
            in if has_duplicate es (named s) then Inl EINVAL
               else if named s \<noteq> 0 \<and> \<not> room then Inl ENOMEM
               else
                 let next_acl = (if named s \<noteq> 0 then Some \<lparr>group_obj = ucast group_bits, entries = take (named s) es\<rparr> else None);
                     class_bits = (if named s \<noteq> 0 then the (s_mask s) else group_bits);
                     node1 = node\<lparr>n_mode := (n_mode node AND NOT 0x1FF) OR push_bit 6 (ucast user_bits)
                               OR push_bit 3 (ucast class_bits) OR ucast other_bits\<rparr>
                 in Inr (acl_swap node1 next_acl)
      | _ \<Rightarrow> Inl EINVAL)"

definition acl_apply :: "bool \<Rightarrow> vfs_node \<Rightarrow> u8 list option \<Rightarrow> nat \<Rightarrow> vfs_node result" where
  "acl_apply room node val sz =
     (case val of
        None \<Rightarrow> Inl EINVAL
      | Some bytes \<Rightarrow>
          if sz < 4 \<or> (sz - 4) mod 8 \<noteq> 0 then Inl EINVAL
          else if le32 (bytes ! 0) (bytes ! 1) (bytes ! 2) (bytes ! 3) \<noteq> ACL_VERSION then Inl EINVAL
          else
            let total = unat (of_nat ((sz - 4) div 8) :: u32)
            in if total < 3 \<or> total > ACL_MAX_ENTRIES then Inl EINVAL
               else
                 case scan_loop \<lparr>array = load_entries total (drop 4 bytes), named = 0, s_user = None, s_group = None,
                                  s_mask = None, s_other = None\<rparr> [0..<total] of
                   Inl e \<Rightarrow> Inl e
                 | Inr s \<Rightarrow> install room node s)"

definition acl_xattr_set ::
    "u64 \<Rightarrow> u64 \<Rightarrow> bool \<Rightarrow> credentials option \<Rightarrow> vfs_node \<Rightarrow> string \<Rightarrow> u8 list option \<Rightarrow> nat \<Rightarrow> u32 \<Rightarrow> unit result \<times> vfs_node" where
  "acl_xattr_set clock clock' room current node name val sz flags =
     (if is_default name then (Inl EOPNOTSUPP, node)
      else if \<not> is_access name then (Inl EOPNOTSUPP, node)
      else case may_change current node of
        Inl e \<Rightarrow> (Inl e, node)
      | Inr _ \<Rightarrow>
          if flags AND NOT (XATTR_CREATE OR XATTR_REPLACE) \<noteq> 0 then (Inl EINVAL, node)
          else if flags AND XATTR_CREATE \<noteq> 0 \<and> acl node \<noteq> None then (Inl EEXIST, node)
          else if flags AND XATTR_REPLACE \<noteq> 0 \<and> acl node = None then (Inl ENODATA, node)
          else case acl_apply room node val sz of
                 Inl e \<Rightarrow> (Inl e, node)
               | Inr node1 \<Rightarrow>
                   (Inr (), vfs_notify_meta_changed clock' (vfs_stamp_times clock (node1\<lparr>xattr_dirty := True\<rparr>) VFS_TIME_CTIME)))"

definition acl_import :: "bool \<Rightarrow> vfs_node \<Rightarrow> u8 list option \<Rightarrow> nat \<Rightarrow> vfs_node result" where
  "acl_import room node val sz = acl_apply room node val sz"

definition acl_xattr_remove ::
    "u64 \<Rightarrow> u64 \<Rightarrow> credentials option \<Rightarrow> vfs_node \<Rightarrow> string \<Rightarrow> unit result \<times> vfs_node" where
  "acl_xattr_remove clock clock' current node name =
     (if \<not> is_access name \<and> \<not> is_default name then (Inl ENODATA, node)
      else if is_default name \<or> acl node = None then (Inl ENODATA, node)
      else case may_change current node of
        Inl e \<Rightarrow> (Inl e, node)
      | Inr _ \<Rightarrow>
          (Inr (), vfs_notify_meta_changed clock'
             (vfs_stamp_times clock ((acl_swap node None)\<lparr>xattr_dirty := True\<rparr>) VFS_TIME_CTIME)))"

definition acl_xattr_list :: "vfs_node \<Rightarrow> char list \<Rightarrow> nat \<Rightarrow> nat result \<times> char list" where
  "acl_xattr_list node out sz =
     (if acl node = None then (Inr 0, out)
      else
        let len = length ACL_XATTR_ACCESS + 1
        in if sz = 0 then (Inr len, out)
           else if sz < len then (Inl ERANGE, out)
           else (Inr len, copy_into out 0 (ACL_XATTR_ACCESS @ [CHR 0x00])))"

definition acl_release :: "vfs_node \<Rightarrow> vfs_node" where
  "acl_release node = node\<lparr>acl := None\<rparr>"

section \<open>The access decision\<close>

definition acl_in_group :: "group_heap \<Rightarrow> credentials \<Rightarrow> u32 \<Rightarrow> bool" where
  "acl_in_group h cred gid \<longleftrightarrow> c_fsgid cred = gid \<or> gid \<in> set (group_list h cred)"

fun find_user :: "u32 \<Rightarrow> acl_entry list \<Rightarrow> acl_entry option" where
  "find_user user [] = None"
| "find_user user (e # es) = (if tag e = ACL_USER \<and> who e = user then Some e else find_user user es)"

text \<open>
  The loop over the named groups: whether an entry matched so far, and \<open>True\<close> on the left when an entry grants the request.
\<close>

fun scan_groups :: "group_heap \<Rightarrow> credentials \<Rightarrow> u32 \<Rightarrow> u32 \<Rightarrow> acl_entry list \<Rightarrow> bool \<Rightarrow> bool \<times> bool" where
  "scan_groups h cred mask_bits want [] matched = (False, matched)"
| "scan_groups h cred mask_bits want (e # es) matched =
     (if tag e \<noteq> ACL_GROUP \<or> \<not> acl_in_group h cred (who e) then scan_groups h cred mask_bits want es matched
      else if ucast (perm e) AND mask_bits AND want = want then (True, True)
      else scan_groups h cred mask_bits want es True)"

text \<open>
  The result is the pair of the value returned and of \<^verbatim>\<open>*decided\<close>.
\<close>

definition acl_permission :: "group_heap \<Rightarrow> vfs_node \<Rightarrow> credentials \<Rightarrow> u32 \<Rightarrow> bool \<times> bool" where
  "acl_permission h node cred want =
     (case acl node of
        None \<Rightarrow> (False, False)
      | Some a \<Rightarrow>
          if c_fsuid cred = n_uid node then (False, False)
          else
            let mask_bits = drop_bit 3 (n_mode node) AND 7
            in case find_user (c_fsuid cred) (entries a) of
                 Some e \<Rightarrow> (ucast (perm e) AND mask_bits AND want = want, True)
               | None \<Rightarrow>
                   let matched = acl_in_group h cred (n_gid node)
                   in if matched \<and> group_obj a AND mask_bits AND want = want then (True, True)
                      else case scan_groups h cred mask_bits want (entries a) matched of
                             (True, _) \<Rightarrow> (True, True)
                           | (False, matched') \<Rightarrow>
                               if matched' then (False, True)
                               else (n_mode node AND 7 AND want = want, True))"

section \<open>The order of entries\<close>

definition entry_key :: "acl_entry \<Rightarrow> nat" where
  "entry_key e = unat (tag e) * 2 ^ 32 + unat (who e)"

lemma entry_key_eq: "entry_key a = entry_key b \<longleftrightarrow> tag a = tag b \<and> who a = who b"
proof
  assume eq: "entry_key a = entry_key b"
  have "entry_key a div 2 ^ 32 = unat (tag a)" "entry_key b div 2 ^ 32 = unat (tag b)"
    using unat_u32_less [of "who a"] unat_u32_less [of "who b"] by (simp_all add: entry_key_def)
  then have t: "tag a = tag b" using eq by (simp add: word_unat_eq_iff)
  then have "unat (who a) = unat (who b)" using eq by (simp add: entry_key_def)
  with t show "tag a = tag b \<and> who a = who b" by (simp add: word_unat_eq_iff)
qed (simp add: entry_key_def)

lemma entry_before_key: "entry_before a b \<longleftrightarrow> entry_key a < entry_key b"
proof (cases "tag a = tag b")
  case True
  then show ?thesis by (simp add: entry_before_def entry_key_def word_less_nat_alt)
next
  case False
  have lt: "entry_key x < entry_key y" if "tag x < tag y" for x y
  proof -
    have "unat (tag x) + 1 \<le> unat (tag y)" using that by (simp add: word_less_nat_alt)
    then have "(unat (tag x) + 1) * 2 ^ 32 \<le> unat (tag y) * 2 ^ 32" by (rule mult_le_mono1)
    then show ?thesis using unat_u32_less [of "who x"] by (simp add: entry_key_def)
  qed
  show ?thesis
  proof (cases "tag a < tag b")
    case True
    with lt [OF True] False show ?thesis by (simp add: entry_before_def)
  next
    case nless: False
    with False have "tag b < tag a" by simp
    from lt [OF this] nless False show ?thesis by (simp add: entry_before_def)
  qed
qed

lemma sift_sorts:
  assumes "at < length es" "sorted (map entry_key (take at es))"
  shows "\<exists>ys. sift key at es = ys @ drop (Suc at) es \<and> length ys = Suc at \<and>
    mset ys = add_mset key (mset (take at es)) \<and> sorted (map entry_key ys)"
  using assms
proof (induction at arbitrary: es)
  case 0
  then show ?case by (cases es) auto
next
  case (Suc at)
  let ?x = "es ! at"
  have split: "take (Suc at) es = take at es @ [?x]" "at < length es"
    using Suc.prems(1) by (simp_all add: take_Suc_conv_app_nth)
  have sorted: "sorted (map entry_key (take at es))" "\<forall>e \<in> set (take at es). entry_key e \<le> entry_key ?x"
    using Suc.prems(2) unfolding split(1) by (auto simp: sorted_append)
  show ?case
  proof (cases "entry_before key ?x")
    case True
    let ?es = "es[Suc at := ?x]"
    have eq: "take at ?es = take at es" "drop (Suc at) ?es = ?x # drop (Suc (Suc at)) es"
      using Suc.prems(1) by (simp_all add: drop_update_swap Cons_nth_drop_Suc [symmetric])
    obtain ys where ys: "sift key at ?es = ys @ drop (Suc at) ?es" "length ys = Suc at"
      "mset ys = add_mset key (mset (take at ?es))" "sorted (map entry_key ys)"
      using Suc.IH [of ?es] Suc.prems(1) sorted(1) eq(1) by auto
    have "set ys = insert key (set (take at es))"
      using ys(3) eq(1) by (metis set_mset_add_mset_insert set_mset_mset)
    then have "sorted (map entry_key (ys @ [?x]))"
      using ys(4) sorted(2) True by (auto simp: sorted_append entry_before_key)
    then show ?thesis
      using True ys(1-3) eq split(1) by (intro exI [of _ "ys @ [?x]"]) simp
  next
    case False
    have upd: "es[Suc at := key] = take (Suc at) es @ key # drop (Suc (Suc at)) es"
      using Suc.prems(1) by (simp add: upd_conv_take_nth_drop)
    have "sorted (map entry_key (take (Suc at) es @ [key]))"
      using Suc.prems(2) sorted(2) False unfolding split(1) by (auto simp: sorted_append entry_before_key)
    then show ?thesis
      using False upd Suc.prems(1) by (intro exI [of _ "take (Suc at) es @ [key]"]) simp
  qed
qed

lemma sort_entries_sorts:
  assumes "n \<le> length es"
  shows "\<exists>ys. sort_entries es n = ys @ drop n es \<and> length ys = n \<and> mset ys = mset (take n es) \<and> sorted (map entry_key ys)"
  using assms
proof (induction n)
  case 0
  then show ?case by (simp add: sort_entries_def)
next
  case (Suc n)
  then obtain ys where ys: "sort_entries es n = ys @ drop n es" "length ys = n" "mset ys = mset (take n es)"
    "sorted (map entry_key ys)" by auto
  have n: "n < length es" using Suc.prems by simp
  show ?case
  proof (cases "n = 0")
    case True
    with n show ?thesis by (intro exI [of _ "take 1 es"]) (cases es, simp_all add: sort_entries_def)
  next
    case False
    have step: "sort_entries es (Suc n) = sort_step (ys @ drop n es) n"
      using False ys(1) by (simp add: sort_entries_def)
    have key: "(ys @ drop n es) ! n = es ! n" using ys(2) n by (simp add: nth_append)
    obtain zs where zs: "sift (es ! n) n (ys @ drop n es) = zs @ drop (Suc n) (ys @ drop n es)" "length zs = Suc n"
      "mset zs = add_mset (es ! n) (mset (take n (ys @ drop n es)))" "sorted (map entry_key zs)"
      using sift_sorts [of n "ys @ drop n es" "es ! n"] ys(2,4) n by auto
    have "drop (Suc n) (ys @ drop n es) = drop (Suc n) es" using ys(2) by simp
    moreover have "mset zs = mset (take (Suc n) es)"
      using zs(3) ys(2,3) n by (simp add: take_Suc_conv_app_nth)
    ultimately show ?thesis
      using zs(1,2,4) unfolding step sort_step_def key by auto
  qed
qed

lemma has_duplicate_strict:
  assumes "length ys = n" "sorted (map entry_key ys)"
  shows "has_duplicate (ys @ zs) n \<longleftrightarrow> \<not> sorted_wrt (<) (map entry_key ys)"
proof -
  have step: "entry_key (ys ! i) < entry_key (ys ! Suc i) \<longleftrightarrow>
      \<not> (tag (ys ! Suc i) = tag (ys ! i) \<and> who (ys ! Suc i) = who (ys ! i))" if "Suc i < n" for i
  proof -
    have "entry_key (ys ! i) \<le> entry_key (ys ! Suc i)"
      using assms that sorted_iff_nth_mono [of "map entry_key ys"] by simp
    then show ?thesis using entry_key_eq [of "ys ! Suc i" "ys ! i"] by auto
  qed
  have "has_duplicate (ys @ zs) n \<longleftrightarrow>
      (\<exists>i. Suc i < n \<and> tag (ys ! Suc i) = tag (ys ! i) \<and> who (ys ! Suc i) = who (ys ! i))" (is "_ \<longleftrightarrow> ?rhs")
  proof
    assume "has_duplicate (ys @ zs) n"
    then obtain index where index: "1 \<le> index" "index < n"
      "tag ((ys @ zs) ! index) = tag ((ys @ zs) ! (index - 1))" "who ((ys @ zs) ! index) = who ((ys @ zs) ! (index - 1))"
      by (auto simp: has_duplicate_def list_ex_iff)
    then show ?rhs using assms(1) by (intro exI [of _ "index - 1"]) (auto simp: nth_append)
  next
    assume ?rhs
    then obtain i where "Suc i < n" "tag (ys ! Suc i) = tag (ys ! i)" "who (ys ! Suc i) = who (ys ! i)" by blast
    then show "has_duplicate (ys @ zs) n"
      using assms(1) by (auto simp: has_duplicate_def list_ex_iff nth_append intro!: bexI [of _ "Suc i"])
  qed
  also have "\<dots> \<longleftrightarrow> \<not> sorted_wrt (<) (map entry_key ys)"
    using step assms(1) by (auto simp: sorted_wrt_iff_nth_Suc_transp)
  finally show ?thesis .
qed

lemma sort_entries_strict:
  assumes "sorted_wrt (<) (map entry_key ys)" "length ys = n"
  shows "sort_entries (ys @ zs) n = ys @ zs"
proof -
  obtain ys' where ys': "sort_entries (ys @ zs) n = ys' @ drop n (ys @ zs)" "length ys' = n"
    "mset ys' = mset (take n (ys @ zs))" "sorted (map entry_key ys')"
    using sort_entries_sorts [of n "ys @ zs"] assms(2) by auto
  have m: "mset ys' = mset ys" using ys'(3) assms(2) by simp
  have "sorted (map entry_key ys)" using assms(1) by (simp add: strict_sorted_imp_sorted)
  have inj: "inj_on entry_key (set ys)" "distinct ys"
    using assms(1) by (simp_all add: strict_sorted_iff distinct_map)
  have "map entry_key ys' = map entry_key ys"
    using properties_for_sort [of "map entry_key ys'" "map entry_key ys"] m ys'(4)
      sorted_sort_id [OF \<open>sorted (map entry_key ys)\<close>] by simp
  moreover have "set ys' = set ys" using m by (metis set_mset_mset)
  ultimately have "ys' = ys" using inj(1) by (metis inj_on_map_eq_map Un_absorb)
  with ys'(1) assms(2) show ?thesis by simp
qed

section \<open>The scan\<close>

definition is_named :: "acl_entry \<Rightarrow> bool" where
  "is_named e \<longleftrightarrow> tag e = ACL_USER \<or> tag e = ACL_GROUP"

definition perm_of :: "u16 \<Rightarrow> acl_entry list \<Rightarrow> u16 option" where
  "perm_of t es = map_option perm (find (\<lambda>e. tag e = t) es)"

definition scan_state :: "acl_entry list \<Rightarrow> acl_entry list \<Rightarrow> acl_scan" where
  "scan_state pre suf =
     \<lparr>array = filter is_named pre @ drop (length (filter is_named pre)) (pre @ suf),
      named = length (filter is_named pre), s_user = perm_of ACL_USER_OBJ pre, s_group = perm_of ACL_GROUP_OBJ pre,
      s_mask = perm_of ACL_MASK pre, s_other = perm_of ACL_OTHER pre\<rparr>"

definition fits :: "acl_entry list \<Rightarrow> acl_entry \<Rightarrow> bool" where
  "fits pre e \<longleftrightarrow> perm e \<le> 7 \<and>
     (is_named e \<or> tag e \<in> {ACL_USER_OBJ, ACL_GROUP_OBJ, ACL_MASK, ACL_OTHER} \<and> tag e \<notin> tag ` set pre)"

fun all_fit :: "acl_entry list \<Rightarrow> acl_entry list \<Rightarrow> bool" where
  "all_fit pre [] = True"
| "all_fit pre (e # es) = (fits pre e \<and> all_fit (pre @ [e]) es)"

lemma find_snoc: "find P (xs @ [x]) = (case find P xs of Some y \<Rightarrow> Some y | None \<Rightarrow> if P x then Some x else None)"
  by (induction xs) auto

lemma perm_of_snoc:
  "perm_of t (pre @ [e]) = (case perm_of t pre of Some p \<Rightarrow> Some p | None \<Rightarrow> if tag e = t then Some (perm e) else None)"
  by (simp add: perm_of_def find_snoc split: option.splits)

lemma perm_of_None: "perm_of t pre = None \<longleftrightarrow> t \<notin> tag ` set pre"
  by (auto simp: perm_of_def find_None_iff)

lemma scan_state_array: "array (scan_state pre (e # suf)) ! length pre = e"
proof -
  have le: "\<not> length pre < length (filter is_named pre)" using length_filter_le [of is_named pre] by linarith
  then have "drop (length (filter is_named pre)) (pre @ e # suf) = drop (length (filter is_named pre)) pre @ e # suf"
    by simp
  then show ?thesis using le by (simp add: scan_state_def nth_append)
qed

lemma scan_state_named:
  assumes "is_named e"
  shows "scan_state (pre @ [e]) suf =
    (scan_state pre (e # suf))\<lparr>array := (array (scan_state pre (e # suf)))[named (scan_state pre (e # suf)) := e],
       named := named (scan_state pre (e # suf)) + 1\<rparr>"
proof -
  let ?n = "length (filter is_named pre)"
  have le: "?n < length (pre @ e # suf)" by (rule le_less_trans [OF length_filter_le]) simp
  have d: "drop ?n (pre @ e # suf) = (pre @ e # suf) ! ?n # drop (Suc ?n) (pre @ e # suf)"
    by (rule Cons_nth_drop_Suc [OF le, symmetric])
  have "(filter is_named pre @ drop ?n (pre @ e # suf))[?n := e] = filter is_named pre @ e # drop (Suc ?n) (pre @ e # suf)"
    unfolding d by (simp add: list_update_append)
  moreover have "tag e \<noteq> ACL_USER_OBJ" "tag e \<noteq> ACL_GROUP_OBJ" "tag e \<noteq> ACL_MASK" "tag e \<noteq> ACL_OTHER"
    using assms by (auto simp: is_named_def)
  ultimately show ?thesis using assms by (simp add: scan_state_def perm_of_snoc split: option.split)
qed

lemma scan_state_unnamed:
  assumes "\<not> is_named e"
  shows "scan_state (pre @ [e]) suf =
    (scan_state pre (e # suf))\<lparr>s_user := perm_of ACL_USER_OBJ (pre @ [e]), s_group := perm_of ACL_GROUP_OBJ (pre @ [e]),
       s_mask := perm_of ACL_MASK (pre @ [e]), s_other := perm_of ACL_OTHER (pre @ [e])\<rparr>"
  using assms by (simp add: scan_state_def)

lemma scan_entry_state:
  "scan_entry (scan_state pre (e # suf)) (length pre) =
     (if fits pre e then Inr (scan_state (pre @ [e]) suf) else Inl EINVAL)"
proof (cases "is_named e")
  case True
  then have "tag e \<noteq> ACL_USER_OBJ" "tag e \<noteq> ACL_GROUP_OBJ" "tag e \<noteq> ACL_MASK" "tag e \<noteq> ACL_OTHER"
    by (auto simp: is_named_def)
  then show ?thesis
    using True scan_state_named [OF True, of pre suf]
    by (auto simp: scan_entry_def scan_state_array fits_def Let_def linorder_not_le is_named_def)
next
  case False
  have slots: "s_user (scan_state pre (e # suf)) = perm_of ACL_USER_OBJ pre"
    "s_group (scan_state pre (e # suf)) = perm_of ACL_GROUP_OBJ pre"
    "s_mask (scan_state pre (e # suf)) = perm_of ACL_MASK pre"
    "s_other (scan_state pre (e # suf)) = perm_of ACL_OTHER pre"
    by (simp_all add: scan_state_def)
  have none: "tag e \<in> tag ` set pre \<longleftrightarrow> perm_of (tag e) pre \<noteq> None" by (simp add: perm_of_None)
  have named: "tag e \<noteq> ACL_USER" "tag e \<noteq> ACL_GROUP" using False by (auto simp: is_named_def)
  have upd: "(scan_state pre (e # suf))\<lparr>s_user := Some (perm e)\<rparr> = scan_state (pre @ [e]) suf"
      if "tag e = ACL_USER_OBJ" "perm_of ACL_USER_OBJ pre = None"
    using that False by (simp add: scan_state_unnamed) (simp add: scan_state_def perm_of_snoc split: option.split)
  have updg: "(scan_state pre (e # suf))\<lparr>s_group := Some (perm e)\<rparr> = scan_state (pre @ [e]) suf"
      if "tag e = ACL_GROUP_OBJ" "perm_of ACL_GROUP_OBJ pre = None"
    using that False by (simp add: scan_state_unnamed) (simp add: scan_state_def perm_of_snoc split: option.split)
  have updm: "(scan_state pre (e # suf))\<lparr>s_mask := Some (perm e)\<rparr> = scan_state (pre @ [e]) suf"
      if "tag e = ACL_MASK" "perm_of ACL_MASK pre = None"
    using that False by (simp add: scan_state_unnamed) (simp add: scan_state_def perm_of_snoc split: option.split)
  have updo: "(scan_state pre (e # suf))\<lparr>s_other := Some (perm e)\<rparr> = scan_state (pre @ [e]) suf"
      if "tag e = ACL_OTHER" "perm_of ACL_OTHER pre = None"
    using that False by (simp add: scan_state_unnamed) (simp add: scan_state_def perm_of_snoc split: option.split)
  show ?thesis
    using False named upd updg updm updo none
    by (auto simp: scan_entry_def scan_state_array fits_def Let_def linorder_not_le slots)
qed

lemma scan_loop_state:
  "scan_loop (scan_state pre suf) [length pre..<length pre + length suf] =
     (if all_fit pre suf then Inr (scan_state (pre @ suf) []) else Inl EINVAL)"
proof (induction suf arbitrary: pre)
  case (Cons e suf)
  have "[length pre..<length pre + length (e # suf)] = length pre # [length (pre @ [e])..<length (pre @ [e]) + length suf]"
    by (simp add: upt_conv_Cons del: upt_Suc)
  then show ?case using Cons.IH [of "pre @ [e]"] by (simp only: scan_loop.simps scan_entry_state) simp
qed simp

lemma scan_loop_all:
  "scan_loop \<lparr>array = es, named = 0, s_user = None, s_group = None, s_mask = None, s_other = None\<rparr> [0..<length es] =
     (if all_fit [] es then Inr (scan_state es []) else Inl EINVAL)"
  using scan_loop_state [of "[]" es] by (simp add: scan_state_def perm_of_def)

lemma all_fit_append: "all_fit pre (xs @ ys) \<longleftrightarrow> all_fit pre xs \<and> all_fit (pre @ xs) ys"
  by (induction xs arbitrary: pre) simp_all

lemma all_fit_named: "\<forall>e \<in> set xs. is_named e \<and> perm e \<le> 7 \<Longrightarrow> all_fit pre xs"
  by (induction xs arbitrary: pre) (simp_all add: fits_def)

lemma all_fit_perms: "all_fit pre es \<Longrightarrow> \<forall>e \<in> set es. perm e \<le> 7"
  by (induction es arbitrary: pre) (auto simp: fits_def)

text \<open>
  Unnamed entries are unique, so an accepted array of named entries with all four unnamed kinds has
  four entries that are not named.
\<close>

lemma all_fit_distinct: "all_fit pre es \<Longrightarrow> distinct (map tag (filter (\<lambda>e. \<not> is_named e) es)) \<and>
    (\<forall>e \<in> set es. \<not> is_named e \<longrightarrow> tag e \<notin> tag ` set pre)"
proof (induction es arbitrary: pre)
  case (Cons e es)
  then have "all_fit (pre @ [e]) es" "fits pre e" by simp_all
  then have "distinct (map tag (filter (\<lambda>e. \<not> is_named e) es))" "\<forall>x \<in> set es. \<not> is_named x \<longrightarrow> tag x \<notin> tag ` set (pre @ [e])"
    "fits pre e" using Cons.IH [of "pre @ [e]"] by blast+
  then show ?case by (auto simp: fits_def)
qed simp

section \<open>Well-formed lists\<close>

definition acl_ok :: "vfs_acl \<Rightarrow> bool" where
  "acl_ok a \<longleftrightarrow> entries a \<noteq> [] \<and> length (entries a) + 4 \<le> ACL_MAX_ENTRIES \<and> group_obj a \<le> 7 \<and>
     (\<forall>e \<in> set (entries a). is_named e \<and> perm e \<le> 7) \<and> sorted_wrt (<) (map entry_key (entries a))"

definition node_acl_ok :: "vfs_node \<Rightarrow> bool" where
  "node_acl_ok node \<longleftrightarrow> (case acl node of None \<Rightarrow> True | Some a \<Rightarrow> acl_ok a)"

lemma length_load_entries: "8 * n \<le> length bytes \<Longrightarrow> length (load_entries n bytes) = n"
proof (induction n arbitrary: bytes)
  case (Suc n)
  have "8 \<le> length bytes" using Suc.prems by simp
  then obtain t0 t1 p0 p1 i0 i1 i2 i3 rest where b: "bytes = t0 # t1 # p0 # p1 # i0 # i1 # i2 # i3 # rest"
    by (auto simp: numeral_eq_Suc Suc_le_length_iff)
  with Suc show ?case by simp
qed simp

lemma unnamed_length:
  assumes "{ACL_USER_OBJ, ACL_GROUP_OBJ, ACL_MASK, ACL_OTHER} \<subseteq> tag ` set es"
  shows "length (filter is_named es) + 4 \<le> length es"
proof -
  let ?un = "filter (\<lambda>e. \<not> is_named e) es"
  have "{ACL_USER_OBJ, ACL_GROUP_OBJ, ACL_MASK, ACL_OTHER} \<subseteq> tag ` set ?un"
  proof
    fix t assume t: "t \<in> {ACL_USER_OBJ, ACL_GROUP_OBJ, ACL_MASK, ACL_OTHER}"
    with assms have "t \<in> tag ` set es" by (rule subsetD)
    then obtain e where e: "e \<in> set es" "t = tag e" by (rule imageE)
    have "\<not> is_named e" using t e(2) by (auto simp: is_named_def)
    with e show "t \<in> tag ` set ?un" by (intro image_eqI [of t tag e]) simp_all
  qed
  then have "card {ACL_USER_OBJ, ACL_GROUP_OBJ, ACL_MASK, ACL_OTHER} \<le> card (tag ` set ?un)" by (intro card_mono) simp_all
  also have "\<dots> \<le> length ?un" using card_image_le [of "set ?un" tag] card_length [of ?un] by (meson List.finite_set le_trans)
  finally have "4 \<le> length ?un" by simp
  then show ?thesis using sum_length_filter_compl [of is_named es] by linarith
qed

lemma ucast_le_7: "p \<le> 7 \<Longrightarrow> (ucast (p :: u16) :: u32) \<le> 7"
  using unat_ucast_le [where ?'b = 32, of p] unfolding word_le_nat_alt by simp

lemma install_slots:
  assumes "install room node s = Inr node'"
  obtains u g r where "s_user s = Some u" "s_group s = Some g" "s_other s = Some r"
  using assms unfolding install_def by (auto split: option.split_asm)

lemma install_some:
  assumes "s_user s = Some u" "s_group s = Some g" "s_other s = Some r"
  shows "install room node s =
    (if named s \<noteq> 0 \<and> s_mask s = None then Inl EINVAL
     else if has_duplicate (sort_entries (array s) (named s)) (named s) then Inl EINVAL
     else if named s \<noteq> 0 \<and> \<not> room then Inl ENOMEM
     else Inr (node\<lparr>n_mode := (n_mode node AND NOT 0x1FF) OR push_bit 6 (ucast u)
                      OR push_bit 3 (ucast (if named s \<noteq> 0 then the (s_mask s) else g)) OR ucast r,
                    acl := (if named s \<noteq> 0
                            then Some \<lparr>group_obj = ucast g, entries = take (named s) (sort_entries (array s) (named s))\<rparr>
                            else None)\<rparr>))"
  unfolding install_def assms by (simp add: acl_swap_def Let_def)

lemma install_ok:
  assumes fit: "all_fit [] es" and ins: "install room node (scan_state es []) = Inr node'" and len: "length es \<le> ACL_MAX_ENTRIES"
  shows "node_acl_ok node'"
proof -
  let ?s = "scan_state es []" and ?named = "filter is_named es"
  obtain u g r where slots: "s_user ?s = Some u" "s_group ?s = Some g" "s_other ?s = Some r"
    using ins by (rule install_slots)
  have view: "array ?s = ?named @ drop (length ?named) es" "named ?s = length ?named" "s_mask ?s = perm_of ACL_MASK es"
    by (simp_all add: scan_state_def)
  have perms: "perm_of ACL_USER_OBJ es = Some u" "perm_of ACL_GROUP_OBJ es = Some g" "perm_of ACL_OTHER es = Some r"
    using slots by (simp_all add: scan_state_def)
  have n: "length ?named \<le> length (?named @ drop (length ?named) es)" by simp
  obtain ys where ys: "sort_entries (?named @ drop (length ?named) es) (length ?named) =
      ys @ drop (length ?named) (?named @ drop (length ?named) es)"
    "length ys = length ?named" "mset ys = mset (take (length ?named) (?named @ drop (length ?named) es))"
    "sorted (map entry_key ys)"
    using sort_entries_sorts [OF n] by blast
  have m: "mset ys = mset ?named" using ys(3) by simp
  have "set ys = set ?named" using m by (metis set_mset_mset)
  then have elems: "\<forall>e \<in> set ys. is_named e \<and> perm e \<le> 7" using all_fit_perms [OF fit] by auto
  have srt: "sort_entries (array ?s) (named ?s) = ys @ drop (length ?named) es"
    using ys(1) unfolding view by simp
  have dup: "has_duplicate (ys @ drop (length ?named) es) (length ?named) \<longleftrightarrow> \<not> sorted_wrt (<) (map entry_key ys)"
    by (rule has_duplicate_strict [OF ys(2,4)])
  have "\<exists>e \<in> set es. perm e = g" using perms(2) by (auto simp: perm_of_def find_Some_iff)
  then have g7: "ucast g \<le> (7 :: u32)" using all_fit_perms [OF fit] by (auto intro: ucast_le_7)
  have ok: "\<not> (?named \<noteq> [] \<and> perm_of ACL_MASK es = None)" "sorted_wrt (<) (map entry_key ys)"
    "acl node' = (if ?named = [] then None else Some \<lparr>group_obj = ucast g, entries = ys\<rparr>)"
    using ins unfolding install_some [OF slots] unfolding srt unfolding view(2,3) unfolding dup using ys(2) by (auto split: if_split_asm)
  show ?thesis
  proof (cases "?named = []")
    case True
    then show ?thesis using ok(3) by (simp add: node_acl_ok_def)
  next
    case False
    have "{ACL_USER_OBJ, ACL_GROUP_OBJ, ACL_MASK, ACL_OTHER} \<subseteq> tag ` set es"
      using ok(1) False perms perm_of_None [of ACL_USER_OBJ es] perm_of_None [of ACL_GROUP_OBJ es] perm_of_None [of ACL_MASK es]
        perm_of_None [of ACL_OTHER es] by simp
    from unnamed_length [OF this] have few: "length ys + 4 \<le> ACL_MAX_ENTRIES" using len ys(2) by linarith
    have "ys \<noteq> []" using False ys(2) by auto
    with ok(2,3) False few elems g7 show ?thesis by (simp add: node_acl_ok_def acl_ok_def)
  qed
qed

lemma acl_apply_scan:
  assumes "acl_apply room node val sz = Inr node'" "\<And>bytes. val = Some bytes \<Longrightarrow> sz \<le> length bytes"
  obtains es where "all_fit [] es" "length es \<le> ACL_MAX_ENTRIES" "install room node (scan_state es []) = Inr node'"
proof -
  obtain bytes where v: "val = Some bytes" using assms(1) by (auto simp: acl_apply_def split: option.splits)
  define total where "total = unat (of_nat ((sz - 4) div 8) :: u32)"
  define es where "es = load_entries total (drop 4 bytes)"
  have eq: "acl_apply room node val sz =
      (if sz < 4 \<or> (sz - 4) mod 8 \<noteq> 0 then Inl EINVAL
       else if le32 (bytes ! 0) (bytes ! 1) (bytes ! 2) (bytes ! 3) \<noteq> ACL_VERSION then Inl EINVAL
       else if total < 3 \<or> total > ACL_MAX_ENTRIES then Inl EINVAL
       else case scan_loop \<lparr>array = es, named = 0, s_user = None, s_group = None, s_mask = None, s_other = None\<rparr> [0..<total] of
              Inl e \<Rightarrow> Inl e | Inr s \<Rightarrow> install room node s)"
    unfolding v acl_apply_def option.case Let_def total_def es_def by (rule refl)
  have t: "total \<le> ACL_MAX_ENTRIES" "3 \<le> total" "4 \<le> sz"
    and run: "(case scan_loop \<lparr>array = es, named = 0, s_user = None, s_group = None, s_mask = None, s_other = None\<rparr> [0..<total] of
        Inl e \<Rightarrow> Inl e | Inr s \<Rightarrow> install room node s) = Inr node'"
    using assms(1) unfolding eq by (simp_all only: sum.distinct not_less not_le split: if_split_asm) simp_all
  have "total \<le> (sz - 4) div 8" unfolding total_def by (simp add: unat_of_nat)
  then have "8 * total + 4 \<le> length bytes" using assms(2) [OF v] t(2,3) by linarith
  then have l: "length es = total" unfolding es_def by (intro length_load_entries) simp
  have "all_fit [] es" "install room node (scan_state es []) = Inr node'"
    using run scan_loop_all [of es] unfolding l by (simp_all split: if_split_asm)
  with that t(1) l show thesis by simp
qed

section \<open>Reading a list back\<close>

definition entry_of :: "u16 \<Rightarrow> u16 \<Rightarrow> u32 \<Rightarrow> acl_entry" where
  "entry_of t p i = \<lparr>tag = t, perm = p, who = i\<rparr>"

definition encode :: "acl_entry list \<Rightarrow> u8 list" where
  "encode es = concat (map (\<lambda>e. entry_bytes (tag e) (perm e) (who e)) es)"

definition canonical :: "u32 \<Rightarrow> vfs_acl \<Rightarrow> acl_entry list" where
  "canonical mode a =
     [entry_of ACL_USER_OBJ (ucast (drop_bit 6 mode AND 7)) 0xFFFFFFFF] @ filter (\<lambda>e. tag e = ACL_USER) (entries a) @
     [entry_of ACL_GROUP_OBJ (ucast (group_obj a)) 0xFFFFFFFF] @ filter (\<lambda>e. tag e = ACL_GROUP) (entries a) @
     [entry_of ACL_MASK (ucast (drop_bit 3 mode AND 7)) 0xFFFFFFFF, entry_of ACL_OTHER (ucast (mode AND 7)) 0xFFFFFFFF]"

lemma length_entry_bytes [simp]: "length (entry_bytes t p i) = 8"
  by (simp add: entry_bytes_def le16_bytes_def le32_bytes_of_def)

lemma length_encode [simp]: "length (encode es) = 8 * length es"
  by (induction es) (simp_all add: encode_def)

lemma encode_append [simp]: "encode (xs @ ys) = encode xs @ encode ys"
  by (simp add: encode_def)

lemma load_encode: "load_entries (length es) (encode es @ rest) = es"
  by (induction es)
    (simp_all add: encode_def entry_bytes_def le16_bytes_def le32_bytes_of_def le16_split le32_split)

text \<open>
  Writing entries one after the other appends their bytes.
\<close>

definition wrote :: "u8 list \<Rightarrow> u8 list \<Rightarrow> u8 list \<times> nat" where
  "wrote out w = (copy_into out 0 w, length w)"

lemma put_entry_wrote:
  assumes "length w + 8 \<le> length out"
  shows "put_entry (wrote out w) t p i = wrote out (w @ encode [entry_of t p i])"
  using assms copy_into_append [of 0 w "entry_bytes t p i" out]
  by (simp add: wrote_def put_entry_def encode_def entry_of_def)

lemma put_named_wrote:
  assumes "length w + 8 * length (filter (\<lambda>e. tag e = t) es) \<le> length out"
  shows "foldl (put_named t) (wrote out w) es = wrote out (w @ encode (filter (\<lambda>e. tag e = t) es))"
  using assms
proof (induction es arbitrary: w)
  case (Cons e es)
  show ?case
  proof (cases "tag e = t")
    case True
    have e: "entry_of t (perm e) (who e) = e" using True by (cases e) (simp add: entry_of_def)
    have "put_named t (wrote out w) e = wrote out (w @ encode [e])"
      using put_entry_wrote [of w out t "perm e" "who e"] Cons.prems True unfolding e by (simp add: put_named_def)
    moreover have "encode (e # filter (\<lambda>e. tag e = t) es) = encode [e] @ encode (filter (\<lambda>e. tag e = t) es)"
      by (simp add: encode_def)
    ultimately show ?thesis using Cons.IH [of "w @ encode [e]"] Cons.prems True by simp
  next
    case False
    then show ?thesis using Cons.IH [of w] Cons.prems by (simp add: put_named_def)
  qed
qed (simp add: encode_def)

lemma filter_tags:
  assumes "\<forall>e \<in> set es. is_named e" "sorted_wrt (<) (map entry_key es)"
  shows "filter (\<lambda>e. tag e = ACL_USER) es @ filter (\<lambda>e. tag e = ACL_GROUP) es = es"
  using assms
proof (induction es)
  case (Cons e es)
  show ?case
  proof (cases "tag e = ACL_USER")
    case True
    with Cons show ?thesis by simp
  next
    case False
    then have g: "tag e = ACL_GROUP" using Cons.prems(1) by (simp add: is_named_def)
    have "tag x \<noteq> ACL_USER" if "x \<in> set es" for x
    proof
      assume "tag x = ACL_USER"
      moreover have "entry_before e x" using that Cons.prems(2) by (simp add: entry_before_key)
      ultimately show False using g by (simp add: entry_before_def)
    qed
    then have "filter (\<lambda>e. tag e = ACL_USER) es = []" by (simp add: filter_empty_conv)
    with Cons g show ?thesis by simp
  qed
qed simp

lemma length_canonical:
  assumes "\<forall>e \<in> set (entries a). is_named e" "sorted_wrt (<) (map entry_key (entries a))"
  shows "length (canonical mode a) = length (entries a) + 4"
  using arg_cong [OF filter_tags [OF assms], of length] by (simp add: canonical_def)

lemma length_two_tags: "t \<noteq> t' \<Longrightarrow> length (filter (\<lambda>e. tag e = t) es) + length (filter (\<lambda>e. tag e = t') es) \<le> length es"
  by (induction es) auto

lemma acl_xattr_get_bytes:
  assumes "acl node = Some a" "length (entries a) * 8 + 36 \<le> length out"
  shows "acl_xattr_get node ACL_XATTR_ACCESS out (length out) =
    (Inr (length (entries a) * 8 + 36), copy_into out 0 (le32_bytes_of ACL_VERSION @ encode (canonical (n_mode node) a)))"
proof -
  let ?v = "le32_bytes_of ACL_VERSION" and ?u = "filter (\<lambda>e. tag e = ACL_USER) (entries a)"
    and ?g = "filter (\<lambda>e. tag e = ACL_GROUP) (entries a)"
  have v: "length ?v = 4" by (simp add: le32_bytes_of_def)
  have ug: "length ?u + length ?g \<le> length (entries a)" by (rule length_two_tags) simp
  have start: "(copy_into out 0 ?v, 4) = wrote out ?v" by (simp add: wrote_def le32_bytes_of_def)
  have room: "36 + 8 * (length ?u + length ?g) \<le> length out" using assms(2) ug by simp
  have cat: "fst (wrote out (((((( ?v @ encode [e1]) @ encode ?u) @ encode [e2]) @ encode ?g) @ encode [e3]) @ encode [e4])) =
      copy_into out 0 (?v @ encode ([e1] @ ?u @ [e2] @ ?g @ [e3, e4]))" for e1 e2 e3 e4
    by (simp add: wrote_def encode_def)
  have l: "4 + (length (entries a) + 4) * 8 = length (entries a) * 8 + 36" by simp
  have fits: "\<not> length out < length (entries a) * 8 + 36" "length out \<noteq> 0" using assms(2) by auto
  show ?thesis
    unfolding acl_xattr_get_def is_access_def assms(1) option.case Let_def l start canonical_def
    using fits room v by (simp add: put_entry_wrote put_named_wrote cat [simplified])
qed

lemma mode_rebuild:
  "(mode AND NOT 0x1FF) OR push_bit 6 (ucast (ucast (drop_bit 6 mode AND 7) :: u16))
     OR push_bit 3 (ucast (ucast (drop_bit 3 mode AND 7) :: u16)) OR ucast (ucast (mode AND 7) :: u16) = (mode :: u32)"
proof -
  have m: "(7 :: u32) = mask 3" "(0x1FF :: u32) = mask 9" by (simp_all add: mask_eq_exp_minus_1)
  show ?thesis unfolding m
  proof (rule bit_word_eqI)
    fix n assume "n < LENGTH(32)"
    consider "n < 3" | "3 \<le> n" "n < 6" | "6 \<le> n" "n < 9" | "9 \<le> n" by linarith
    then show "bit ((mode AND NOT (mask 9)) OR push_bit 6 (ucast (ucast (drop_bit 6 mode AND mask 3) :: u16))
        OR push_bit 3 (ucast (ucast (drop_bit 3 mode AND mask 3) :: u16)) OR ucast (ucast (mode AND mask 3) :: u16)) n = bit mode n"
      using \<open>n < LENGTH(32)\<close>
      by cases (auto simp: bit_or_iff bit_and_iff bit_not_iff bit_mask_iff bit_push_bit_iff bit_unsigned_iff bit_drop_bit_eq)
  qed
qed

lemma and_7_le: "(ucast (x AND 7 :: u32) :: u16) \<le> 7"
proof -
  have "unat (x AND 7) \<le> 7" using word_and_le1 [of x 7] by (simp add: word_le_nat_alt)
  then show ?thesis using unat_ucast_le [where ?'b = 16, of "x AND 7"] unfolding word_le_nat_alt by simp
qed

lemma small_ucast:
  assumes "(g :: u32) \<le> 7"
  shows "(ucast g :: u16) \<le> 7" "ucast (ucast g :: u16) = g"
proof -
  have u: "unat g \<le> 7" using assms by (simp add: word_le_nat_alt)
  show "(ucast g :: u16) \<le> 7" using u unat_ucast_le [where ?'b = 16, of g] unfolding word_le_nat_alt by simp
  have "unat (ucast (ucast g :: u16) :: u32) = unat g" using u by (simp add: unsigned_ucast_eq unsigned_take_bit_eq take_bit_nat_eq_self)
  then show "ucast (ucast g :: u16) = g" by (simp add: word_unat_eq_iff)
qed

lemma perm_of_append: "perm_of t (xs @ ys) = (case perm_of t xs of None \<Rightarrow> perm_of t ys | Some p \<Rightarrow> Some p)"
  by (induction xs) (simp_all add: perm_of_def split: option.split)

lemma perm_of_named: "\<forall>e \<in> set es. tag e = t' \<Longrightarrow> t \<noteq> t' \<Longrightarrow> perm_of t es = None"
  by (auto simp: perm_of_None)

lemma canonical_fits: "acl_ok a \<Longrightarrow> all_fit [] (canonical mode a)"
  by (auto simp: canonical_def acl_ok_def all_fit_append fits_def entry_of_def is_named_def and_7_le small_ucast
      intro!: all_fit_named)

lemma canonical_perms:
  "perm_of ACL_USER_OBJ (canonical mode a) = Some (ucast (drop_bit 6 mode AND 7))"
  "perm_of ACL_GROUP_OBJ (canonical mode a) = Some (ucast (group_obj a))"
  "perm_of ACL_MASK (canonical mode a) = Some (ucast (drop_bit 3 mode AND 7))"
  "perm_of ACL_OTHER (canonical mode a) = Some (ucast (mode AND 7))"
proof -
  have named: "perm_of t (filter (\<lambda>e. tag e = ACL_USER) es) = None" "perm_of t (filter (\<lambda>e. tag e = ACL_GROUP) es) = None"
    if "t \<noteq> ACL_USER" "t \<noteq> ACL_GROUP" for t es
    using that by (auto simp: perm_of_None)
  have single: "perm_of t (entry_of t' p i # es) = (if t' = t then Some p else perm_of t es)" for t t' p i es
    by (simp add: perm_of_def entry_of_def)
  show "perm_of ACL_USER_OBJ (canonical mode a) = Some (ucast (drop_bit 6 mode AND 7))"
    "perm_of ACL_GROUP_OBJ (canonical mode a) = Some (ucast (group_obj a))"
    "perm_of ACL_MASK (canonical mode a) = Some (ucast (drop_bit 3 mode AND 7))"
    "perm_of ACL_OTHER (canonical mode a) = Some (ucast (mode AND 7))"
    unfolding canonical_def by (simp_all add: perm_of_append named single)
qed

lemma canonical_named:
  assumes "acl_ok a"
  shows "filter is_named (canonical mode a) = entries a"
proof -
  have "filter is_named (filter (\<lambda>e. tag e = ACL_USER) es) = filter (\<lambda>e. tag e = ACL_USER) es"
    "filter is_named (filter (\<lambda>e. tag e = ACL_GROUP) es) = filter (\<lambda>e. tag e = ACL_GROUP) es" for es
    by (simp_all add: is_named_def cong: conj_cong)
  moreover have "\<not> is_named (entry_of t p i)" if "t \<noteq> ACL_USER" "t \<noteq> ACL_GROUP" for t p i
    using that by (simp add: is_named_def entry_of_def)
  ultimately show ?thesis
    using filter_tags [of "entries a"] assms by (simp add: canonical_def acl_ok_def)
qed

lemma install_canonical:
  assumes "acl node = Some a" "acl_ok a"
  shows "install True node (scan_state (canonical (n_mode node) a) []) = Inr node"
proof -
  let ?es = "canonical (n_mode node) a" and ?s = "scan_state (canonical (n_mode node) a) []"
  have slots: "s_user ?s = Some (ucast (drop_bit 6 (n_mode node) AND 7))" "s_group ?s = Some (ucast (group_obj a))"
    "s_other ?s = Some (ucast (n_mode node AND 7))"
    by (simp_all add: scan_state_def canonical_perms)
  have view: "s_mask ?s = Some (ucast (drop_bit 3 (n_mode node) AND 7))" "named ?s = length (entries a)"
    "array ?s = entries a @ drop (length (entries a)) ?es"
    by (simp_all add: scan_state_def canonical_perms canonical_named assms(2))
  have strict: "sorted_wrt (<) (map entry_key (entries a))" "entries a \<noteq> []" "group_obj a \<le> 7"
    using assms(2) by (simp_all add: acl_ok_def)
  have srt: "sort_entries (array ?s) (length (entries a)) = entries a @ drop (length (entries a)) ?es"
    unfolding view by (rule sort_entries_strict [OF strict(1) refl])
  have dup: "\<not> has_duplicate (entries a @ drop (length (entries a)) ?es) (length (entries a))"
    using has_duplicate_strict [OF refl strict_sorted_imp_sorted [OF strict(1)]] strict(1) by simp
  have "node\<lparr>n_mode := n_mode node, acl := Some \<lparr>group_obj = group_obj a, entries = entries a\<rparr>\<rparr> = node"
    using assms(1) by simp
  then show ?thesis
    unfolding install_some [OF slots] view(1,2) srt using dup strict(2)
    by (simp only: if_False if_True option.sel option.distinct length_0_conv take_append take_all order_refl diff_self_eq_0
        take_0 append_Nil2 mode_rebuild small_ucast [OF strict(3)] simp_thms)
qed

lemma acl_reapply:
  assumes "acl node = Some a" "acl_ok a" "length (entries a) * 8 + 36 \<le> length out"
  shows "acl_apply True node (Some (copy_into out 0 (le32_bytes_of ACL_VERSION @ encode (canonical (n_mode node) a))))
    (length (entries a) * 8 + 36) = Inr node"
proof -
  let ?es = "canonical (n_mode node) a" and ?n = "length (entries a) + 4"
  have len: "length ?es = ?n" using assms(2) by (intro length_canonical) (simp_all add: acl_ok_def)
  have small: "?n \<le> 64" using assms(2) by (simp add: acl_ok_def)
  have total: "unat (of_nat ((length (entries a) * 8 + 36 - 4) div 8) :: u32) = ?n"
  proof -
    have "(length (entries a) * 8 + 36 - 4) div 8 = ?n" by linarith
    then show ?thesis unfolding unat_of_nat using small by simp
  qed
  have bytes: "copy_into out 0 (le32_bytes_of ACL_VERSION @ encode ?es) =
      2 # 0 # 0 # 0 # encode ?es @ drop (4 + 8 * ?n) out"
    by (simp add: copy_into_def le32_bytes_of_def len)
  have load: "load_entries ?n (encode ?es @ drop (4 + 8 * ?n) out) = ?es"
    using load_encode [of ?es] len by simp
  have version: "le32 2 0 0 0 = ACL_VERSION" by (simp add: le32_def)
  have "(length (entries a) * 8 + 36 - 4) mod 8 = 0" by presburger
  then have "acl_apply True node (Some (copy_into out 0 (le32_bytes_of ACL_VERSION @ encode ?es))) (length (entries a) * 8 + 36) =
      (case scan_loop \<lparr>array = ?es, named = 0, s_user = None, s_group = None, s_mask = None, s_other = None\<rparr> [0..<length ?es] of
         Inl e \<Rightarrow> Inl e | Inr s \<Rightarrow> install True node s)"
    unfolding acl_apply_def bytes option.case total Let_def len using small load
    by (simp add: version numeral_2_eq_2 numeral_3_eq_3)
  also have "\<dots> = Inr node"
    unfolding scan_loop_all using canonical_fits [OF assms(2)] install_canonical [OF assms(1,2)] by simp
  finally show ?thesis .
qed

section \<open>The decision POSIX.1e defines\<close>

definition covers :: "u32 \<Rightarrow> u32 \<Rightarrow> u32 \<Rightarrow> bool" where
  "covers p mask_bits want \<longleftrightarrow> p AND mask_bits AND want = want"

definition named_user :: "credentials \<Rightarrow> acl_entry \<Rightarrow> bool" where
  "named_user cred e \<longleftrightarrow> tag e = ACL_USER \<and> who e = c_fsuid cred"

definition named_group :: "group_heap \<Rightarrow> credentials \<Rightarrow> acl_entry \<Rightarrow> bool" where
  "named_group h cred e \<longleftrightarrow> tag e = ACL_GROUP \<and> acl_in_group h cred (who e)"

definition acl_grants :: "group_heap \<Rightarrow> vfs_node \<Rightarrow> vfs_acl \<Rightarrow> credentials \<Rightarrow> u32 \<Rightarrow> bool" where
  "acl_grants h node a cred want \<longleftrightarrow>
     (let mask_bits = drop_bit 3 (n_mode node) AND 7
      in if \<exists>e \<in> set (entries a). named_user cred e
         then \<exists>e \<in> set (entries a). named_user cred e \<and> covers (ucast (perm e)) mask_bits want
         else if acl_in_group h cred (n_gid node) \<or> (\<exists>e \<in> set (entries a). named_group h cred e)
         then acl_in_group h cred (n_gid node) \<and> covers (group_obj a) mask_bits want \<or>
           (\<exists>e \<in> set (entries a). named_group h cred e \<and> covers (ucast (perm e)) mask_bits want)
         else covers (n_mode node) 7 want)"

lemma find_user_None: "find_user (c_fsuid cred) es = None \<longleftrightarrow> (\<forall>e \<in> set es. \<not> named_user cred e)"
  by (induction es) (auto simp: named_user_def)

lemma find_user_Some: "find_user (c_fsuid cred) es = Some e \<Longrightarrow> e \<in> set es \<and> named_user cred e"
  by (induction es) (auto simp: named_user_def split: if_split_asm)

lemma named_user_unique:
  assumes "acl_ok a" "e \<in> set (entries a)" "e' \<in> set (entries a)" "named_user cred e" "named_user cred e'"
  shows "e = e'"
proof -
  have "inj_on entry_key (set (entries a))"
    using assms(1) by (simp add: acl_ok_def strict_sorted_iff distinct_map)
  moreover have "entry_key e = entry_key e'"
    using assms(4,5) by (simp add: entry_key_eq named_user_def)
  ultimately show ?thesis using assms(2,3) by (simp add: inj_on_eq_iff)
qed

lemma scan_groups_spec:
  "scan_groups h cred mask_bits want es matched =
     ((\<exists>e \<in> set es. named_group h cred e \<and> covers (ucast (perm e)) mask_bits want),
      matched \<or> (\<exists>e \<in> set es. named_group h cred e))"
  by (induction es arbitrary: matched) (auto simp: named_group_def covers_def)

lemma acl_permission_spec:
  assumes "acl node = Some a" "acl_ok a" "c_fsuid cred \<noteq> n_uid node"
  shows "acl_permission h node cred want = (acl_grants h node a cred want, True)"
proof (cases "find_user (c_fsuid cred) (entries a)")
  case None
  define mask_bits where "mask_bits = drop_bit 3 (n_mode node) AND 7"
  define own where "own \<longleftrightarrow> acl_in_group h cred (n_gid node)"
  define some_group where "some_group \<longleftrightarrow> (\<exists>e \<in> set (entries a). named_group h cred e)"
  define grant where "grant \<longleftrightarrow> (\<exists>e \<in> set (entries a). named_group h cred e \<and> covers (ucast (perm e)) mask_bits want)"
  have no: "(\<exists>e \<in> set (entries a). named_user cred e) = False" using None by (simp add: find_user_None)
  have imp: "grant \<longrightarrow> some_group" by (auto simp: grant_def some_group_def)
  have l: "acl_permission h node cred want =
      (if own \<and> covers (group_obj a) mask_bits want then (True, True)
       else case (grant, own \<or> some_group) of (True, _) \<Rightarrow> (True, True)
         | (False, matched') \<Rightarrow> if matched' then (False, True) else (covers (n_mode node) 7 want, True))"
    unfolding acl_permission_def assms(1) option.case None Let_def scan_groups_spec covers_def mask_bits_def own_def
      some_group_def grant_def using assms(3) by (simp only: if_False)
  have r: "acl_grants h node a cred want \<longleftrightarrow>
      (if own \<or> some_group then own \<and> covers (group_obj a) mask_bits want \<or> grant else covers (n_mode node) 7 want)"
    unfolding acl_grants_def Let_def no if_False mask_bits_def own_def some_group_def grant_def by (rule refl)
  show ?thesis unfolding l r using imp by (cases own; cases grant; cases some_group) simp_all
next
  case (Some e)
  have e: "e \<in> set (entries a)" "named_user cred e" using find_user_Some [OF Some] by auto
  have only: "e' = e" if "e' \<in> set (entries a)" "named_user cred e'" for e'
    using named_user_unique [OF assms(2) e(1) that(1) e(2) that(2)] by simp
  have some: "(\<exists>e \<in> set (entries a). named_user cred e) = True" using e by blast
  have one: "(\<exists>e' \<in> set (entries a). named_user cred e' \<and> covers (ucast (perm e')) m w) \<longleftrightarrow> covers (ucast (perm e)) m w"
    for m w using e only by blast
  show ?thesis
    unfolding acl_permission_def acl_grants_def assms(1) option.case Some some one Let_def if_True
    unfolding covers_def
    using assms(3) by (simp only: if_False)
qed

lemma acl_apply_ok:
  assumes "acl_apply room node val sz = Inr node'" "\<And>bytes. val = Some bytes \<Longrightarrow> sz \<le> length bytes"
  shows "node_acl_ok node'"
proof -
  obtain es where "all_fit [] es" "length es \<le> ACL_MAX_ENTRIES" "install room node (scan_state es []) = Inr node'"
    by (rule acl_apply_scan [OF assms])
  then show ?thesis by (intro install_ok)
qed

lemma acl_xattr_set_ok:
  assumes "node_acl_ok node" "\<And>bytes. val = Some bytes \<Longrightarrow> sz \<le> length bytes"
  shows "node_acl_ok (snd (acl_xattr_set clock clock' room current node name val sz flags))"
  using assms(1) acl_apply_ok [OF _ assms(2)]
  by (auto simp: acl_xattr_set_def node_acl_ok_def split: sum.split unit.split)

section \<open>Properties\<close>

text \<open>
  C36: Access control lists stay well formed. Setting, removing and importing a list each leave the node either without
  a list or with one that has between one and sixty named entries, strictly ordered by kind and identifier, with
  permission bits that fit in three bits.
\<close>

theorem acl_well_formed:
  assumes "node_acl_ok node" "\<And>bytes. val = Some bytes \<Longrightarrow> sz \<le> length bytes"
  shows "node_acl_ok (snd (acl_xattr_set clock clock' room current node name val sz flags)) \<and>
    node_acl_ok (snd (acl_xattr_remove clock clock' current node name)) \<and>
    (case acl_import room node val sz of Inl _ \<Rightarrow> True | Inr node' \<Rightarrow> node_acl_ok node')"
  using acl_xattr_set_ok [OF assms] assms(1) acl_apply_ok [OF _ assms(2)]
  by (auto simp: acl_xattr_remove_def acl_import_def acl_swap_def node_acl_ok_def split: sum.split unit.split)

definition sample_node :: vfs_node where
  "sample_node = \<lparr>n_flags = VFS_FILE, n_mode = 0x1A4, n_uid = 5, n_gid = 6, atime = 0, mtime = 0, ctime = 0, atime_ns = 0,
     mtime_ns = 0, ctime_ns = 0, acl = None, xattrs = [], xattr_dirty = False, meta_changes = 0\<rparr>"

definition sample_acl :: "u8 list" where
  "sample_acl = le32_bytes_of ACL_VERSION @ encode
     [entry_of ACL_USER_OBJ 7 0, entry_of ACL_USER 6 9, entry_of ACL_GROUP_OBJ 5 0, entry_of ACL_MASK 6 0, entry_of ACL_OTHER 4 0]"

theorem acl_well_formed_witness:
  "node_acl_ok (snd (acl_xattr_set 0 0 True None sample_node ACL_XATTR_ACCESS (Some sample_acl) (length sample_acl) 0))"
  by (rule acl_well_formed [THEN conjunct1]) (simp_all add: sample_node_def node_acl_ok_def)

text \<open>
  C21: Reading an access control list and writing it back is the identity. Once setting the attribute has
  installed a list, reading it into a large enough buffer succeeds, and applying the bytes read changes neither the list
  nor the mode.
\<close>

theorem acl_roundtrip:
  assumes "acl_xattr_set clock clock' room current node0 name (Some val) sz flags = (Inr (), node)"
    and "sz \<le> length val" and "acl node = Some a" and "length (entries a) * 8 + 36 \<le> length out"
  shows "\<exists>len out'. acl_xattr_get node ACL_XATTR_ACCESS out (length out) = (Inr len, out') \<and>
    acl_apply True node (Some out') len = Inr node"
proof -
  obtain node1 where n1: "acl_apply room node0 (Some val) sz = Inr node1" "acl node = acl node1"
    using assms(1) by (auto simp: acl_xattr_set_def split: if_split_asm sum.split_asm unit.split_asm)
  have "node_acl_ok node1" using assms(2) by (intro acl_apply_ok [OF n1(1)]) simp
  moreover have "acl node1 = Some a" using n1(2) assms(3) by simp
  ultimately have ok: "acl_ok a" by (simp add: node_acl_ok_def)
  from acl_xattr_get_bytes [OF assms(3) assms(4)] acl_reapply [OF assms(3) ok assms(4)] show ?thesis by blast
qed

theorem acl_roundtrip_witness:
  "\<exists>node len out'. acl_xattr_set 0 0 True None sample_node ACL_XATTR_ACCESS (Some sample_acl) (length sample_acl) 0 = (Inr (), node) \<and>
     acl_xattr_get node ACL_XATTR_ACCESS (replicate 64 0) 64 = (Inr len, out') \<and> acl_apply True node (Some out') len = Inr node"
proof -
  define node where "node = snd (acl_xattr_set 0 0 True None sample_node ACL_XATTR_ACCESS (Some sample_acl) (length sample_acl) 0)"
  have fst: "fst (acl_xattr_set 0 0 True None sample_node ACL_XATTR_ACCESS (Some sample_acl) (length sample_acl) 0) = Inr ()"
    by code_simp
  have list: "acl node = Some \<lparr>group_obj = 5, entries = [entry_of ACL_USER 6 9]\<rparr>"
    unfolding node_def by code_simp
  have set: "acl_xattr_set 0 0 True None sample_node ACL_XATTR_ACCESS (Some sample_acl) (length sample_acl) 0 = (Inr (), node)"
    using fst unfolding node_def by (metis prod.collapse)
  show ?thesis using acl_roundtrip [OF set order_refl list, of "replicate 64 0"] set by auto
qed

end
