(* ===== verification/Cred.thy ===== *)
theory Cred
  imports Acl
begin

text \<open>
  Process credentials and file permissions, \<^verbatim>\<open>kernel/core/cred.c\<close>. The current process's credentials are an argument,
  \<open>None\<close> when the kernel itself runs. The lemmas show that the identity calls never give a process without root's
  identity any identity it did not have, that the access check is the POSIX decision with root's override, that
  the sticky bit protects directory entries, and that the shared blocks of supplementary groups are
  counted exactly.
\<close>

section \<open>Questions about the current process\<close>

abbreviation (input) MODE_SETUID :: u32 where "MODE_SETUID \<equiv> 0x800"
abbreviation (input) MODE_SETGID :: u32 where "MODE_SETGID \<equiv> 0x400"
abbreviation (input) MODE_STICKY :: u32 where "MODE_STICKY \<equiv> 0x200"
abbreviation (input) CRED_MAX_GROUPS :: nat where "CRED_MAX_GROUPS \<equiv> 65536"
abbreviation (input) CRED_UNCHANGED :: u32 where "CRED_UNCHANGED \<equiv> 0xFFFFFFFF"
abbreviation (input) CRED_EXEC :: u32 where "CRED_EXEC \<equiv> 1"
abbreviation (input) CRED_WRITE :: u32 where "CRED_WRITE \<equiv> 2"
abbreviation (input) CRED_READ :: u32 where "CRED_READ \<equiv> 4"

definition cred_is_root :: "credentials option \<Rightarrow> bool" where
  "cred_is_root current = (case current of None \<Rightarrow> True | Some cred \<Rightarrow> c_euid cred = 0)"

definition cred_has_group :: "group_heap \<Rightarrow> credentials option \<Rightarrow> u32 \<Rightarrow> bool" where
  "cred_has_group h current gid =
     (case current of None \<Rightarrow> True | Some cred \<Rightarrow> c_egid cred = gid \<or> gid \<in> set (group_list h cred))"

definition in_file_group :: "group_heap \<Rightarrow> credentials \<Rightarrow> u32 \<Rightarrow> bool" where
  "in_file_group h cred gid \<longleftrightarrow> c_fsgid cred = gid \<or> gid \<in> set (group_list h cred)"

definition cred_owns :: "credentials option \<Rightarrow> vfs_node \<Rightarrow> bool" where
  "cred_owns current node =
     (case current of None \<Rightarrow> True | Some cred \<Rightarrow> c_fsuid cred = 0 \<or> c_fsuid cred = n_uid node)"

definition cred_may :: "group_heap \<Rightarrow> credentials option \<Rightarrow> vfs_node option \<Rightarrow> u32 \<Rightarrow> unit result" where
  "cred_may h current target want =
     (case target of
        None \<Rightarrow> Inl ENOENT
      | Some node \<Rightarrow>
          (case current of
             None \<Rightarrow> Inr ()
           | Some cred \<Rightarrow>
               if want = 0 then Inr ()
               else
                 let (granted, decided) = acl_permission h node cred want;
                     allowed = (if decided then (if granted then want else 0)
                                else if c_fsuid cred = n_uid node then drop_bit 6 (n_mode node) AND 7
                                else if in_file_group h cred (n_gid node) then drop_bit 3 (n_mode node) AND 7
                                else n_mode node AND 7)
                 in if allowed AND want = want then Inr ()
                    else if c_fsuid cred = 0 \<and>
                       (want AND CRED_EXEC = 0 \<or> n_flags node AND 0xFF = VFS_DIRECTORY \<or> n_mode node AND 0x49 \<noteq> 0)
                    then Inr ()
                    else Inl EACCES))"

section \<open>Paths\<close>

text \<open>
  What the path checks ask of the file system tree: the node a path leads to, the error number a failed lookup
  reports, and whether a buffer for the path could be allocated.
\<close>

record vfs_view =
  vfs_lookup :: "string \<Rightarrow> vfs_node option"
  vfs_lookup_error :: "string \<Rightarrow> errno option"
  vfs_path_buffer :: bool

definition missing :: "vfs_view \<Rightarrow> string \<Rightarrow> errno" where
  "missing view path = (case vfs_lookup_error view path of Some e \<Rightarrow> e | None \<Rightarrow> ENOENT)"

fun search_loop :: "group_heap \<Rightarrow> credentials option \<Rightarrow> vfs_view \<Rightarrow> string \<Rightarrow> nat list \<Rightarrow> unit result" where
  "search_loop h current view path [] = Inr ()"
| "search_loop h current view path (index # rest) =
     (if path ! index \<noteq> CHR ''/'' then search_loop h current view path rest
      else case vfs_lookup view (take index path) of
             None \<Rightarrow> Inl (missing view path)
           | Some directory \<Rightarrow>
               (case cred_may h current (Some directory) CRED_EXEC of
                  Inl e \<Rightarrow> Inl e
                | Inr _ \<Rightarrow> search_loop h current view path rest))"

definition cred_may_search :: "group_heap \<Rightarrow> credentials option \<Rightarrow> vfs_view \<Rightarrow> string \<Rightarrow> unit result" where
  "cred_may_search h current view path =
     (case current of
        None \<Rightarrow> Inr ()
      | Some cred \<Rightarrow>
          if c_fsuid cred = 0 \<or> path = [] \<or> hd path \<noteq> CHR ''/'' then Inr ()
          else if length path \<ge> VFS_PATH_MAX then Inl ENAMETOOLONG
          else if \<not> vfs_path_buffer view then Inl ENOMEM
          else search_loop h current view path [1..<length path])"

definition cred_may_path ::
    "group_heap \<Rightarrow> credentials option \<Rightarrow> vfs_view \<Rightarrow> string \<Rightarrow> vfs_node option \<Rightarrow> u32 \<Rightarrow> unit result" where
  "cred_may_path h current view path node want =
     (case cred_may_search h current view path of Inl e \<Rightarrow> Inl e | Inr _ \<Rightarrow> cred_may h current node want)"

text \<open>
  The two loops of \<^verbatim>\<open>parent_of\<close> shorten the path while its last character is, or is not, a slash.
\<close>

fun strip :: "(char \<Rightarrow> bool) \<Rightarrow> string \<Rightarrow> nat \<Rightarrow> nat" where
  "strip P path len = (if len > 1 \<and> P (path ! (len - 1)) then strip P path (len - 1) else len)"

declare strip.simps [simp del]

definition parent_path :: "string \<Rightarrow> string" where
  "parent_path path =
     (let len1 = strip (\<lambda>c. c = CHR ''/'') path (length path);
          len2 = strip (\<lambda>c. c \<noteq> CHR ''/'') path len1;
          len3 = (if len2 > 1 then len2 - 1 else len2)
      in take (if len3 \<noteq> 0 then len3 else 1) path)"

definition parent_of :: "vfs_view \<Rightarrow> string \<Rightarrow> vfs_node result" where
  "parent_of view path =
     (if \<not> vfs_path_buffer view \<or> length path \<ge> VFS_PATH_MAX then Inl ENOENT
      else case vfs_lookup view (parent_path path) of
             None \<Rightarrow> Inl (missing view (parent_path path))
           | Some parent \<Rightarrow> if n_flags parent AND 0xFF \<noteq> VFS_DIRECTORY then Inl ENOTDIR else Inr parent)"

definition cred_may_write_parent :: "group_heap \<Rightarrow> credentials option \<Rightarrow> vfs_view \<Rightarrow> string \<Rightarrow> unit result" where
  "cred_may_write_parent h current view path =
     (case cred_may_search h current view path of
        Inl e \<Rightarrow> Inl e
      | Inr _ \<Rightarrow>
          (case parent_of view path of
             Inl e \<Rightarrow> Inl e
           | Inr parent \<Rightarrow>
               if n_flags parent AND VFS_READONLY \<noteq> 0 then Inl EROFS
               else case current of
                      None \<Rightarrow> Inr ()
                    | Some cred \<Rightarrow>
                        if c_fsuid cred = 0 then Inr ()
                        else cred_may h current (Some parent) (CRED_WRITE OR CRED_EXEC)))"

definition cred_may_remove :: "group_heap \<Rightarrow> credentials option \<Rightarrow> vfs_view \<Rightarrow> string \<Rightarrow> vfs_node \<Rightarrow> unit result" where
  "cred_may_remove h current view path node =
     (case cred_may_write_parent h current view path of
        Inl e \<Rightarrow> Inl e
      | Inr _ \<Rightarrow>
          (case current of
             None \<Rightarrow> Inr ()
           | Some cred \<Rightarrow>
               if c_fsuid cred = 0 then Inr ()
               else case parent_of view path of
                      Inl _ \<Rightarrow> Inr ()
                    | Inr parent \<Rightarrow>
                        if n_mode parent AND MODE_STICKY = 0 then Inr ()
                        else if c_fsuid cred = n_uid node \<or> c_fsuid cred = n_uid parent then Inr ()
                        else Inl EPERM))"

definition cred_stamp_new_node :: "credentials option \<Rightarrow> vfs_node option \<Rightarrow> vfs_node option \<Rightarrow> vfs_node option" where
  "cred_stamp_new_node current parent target =
     (case (target, current) of
        (Some node, Some cred) \<Rightarrow>
          let node1 = node\<lparr>n_uid := c_fsuid cred, n_gid := c_fsgid cred\<rparr>
          in (case parent of
                Some p \<Rightarrow>
                  if n_mode p AND MODE_SETGID \<noteq> 0 then
                    let node2 = node1\<lparr>n_gid := n_gid p\<rparr>
                    in Some (if n_flags node2 AND 0xFF = VFS_DIRECTORY then node2\<lparr>n_mode := n_mode node2 OR MODE_SETGID\<rparr> else node2)
                  else Some node1
              | None \<Rightarrow> Some node1)
      | _ \<Rightarrow> target)"

section \<open>Changing identity\<close>

definition privileged :: "credentials \<Rightarrow> bool" where
  "privileged cred \<longleftrightarrow> c_euid cred = 0"

definition one_of :: "u32 \<Rightarrow> u32 \<Rightarrow> u32 \<Rightarrow> u32 \<Rightarrow> bool" where
  "one_of v a b c \<longleftrightarrow> v = a \<or> v = b \<or> v = c"

definition cred_set_uid :: "credentials option \<Rightarrow> u32 \<Rightarrow> unit result \<times> credentials option" where
  "cred_set_uid current uid =
     (case current of
        None \<Rightarrow> (Inl EPERM, current)
      | Some cred \<Rightarrow>
          if uid = CRED_UNCHANGED then (Inl EINVAL, current)
          else if privileged cred
          then (Inr (), Some (cred\<lparr>c_uid := uid, c_euid := uid, c_suid := uid, c_fsuid := uid\<rparr>))
          else if uid \<noteq> c_uid cred \<and> uid \<noteq> c_suid cred then (Inl EPERM, current)
          else (Inr (), Some (cred\<lparr>c_euid := uid, c_fsuid := uid\<rparr>)))"

definition cred_set_gid :: "credentials option \<Rightarrow> u32 \<Rightarrow> unit result \<times> credentials option" where
  "cred_set_gid current gid =
     (case current of
        None \<Rightarrow> (Inl EPERM, current)
      | Some cred \<Rightarrow>
          if gid = CRED_UNCHANGED then (Inl EINVAL, current)
          else if privileged cred
          then (Inr (), Some (cred\<lparr>c_gid := gid, c_egid := gid, c_sgid := gid, c_fsgid := gid\<rparr>))
          else if gid \<noteq> c_gid cred \<and> gid \<noteq> c_sgid cred then (Inl EPERM, current)
          else (Inr (), Some (cred\<lparr>c_egid := gid, c_fsgid := gid\<rparr>)))"

definition cred_set_reuid :: "credentials option \<Rightarrow> u32 \<Rightarrow> u32 \<Rightarrow> unit result \<times> credentials option" where
  "cred_set_reuid current ruid euid =
     (case current of
        None \<Rightarrow> (Inl EPERM, current)
      | Some cred \<Rightarrow>
          if \<not> privileged cred \<and>
             (ruid \<noteq> CRED_UNCHANGED \<and> ruid \<noteq> c_uid cred \<and> ruid \<noteq> c_euid cred \<or>
              euid \<noteq> CRED_UNCHANGED \<and> \<not> one_of euid (c_uid cred) (c_euid cred) (c_suid cred))
          then (Inl EPERM, current)
          else
            let old_uid = c_uid cred;
                cred1 = (if ruid \<noteq> CRED_UNCHANGED then cred\<lparr>c_uid := ruid\<rparr> else cred);
                cred2 = (if euid \<noteq> CRED_UNCHANGED then cred1\<lparr>c_euid := euid\<rparr> else cred1);
                cred3 = (if ruid \<noteq> CRED_UNCHANGED \<or> (euid \<noteq> CRED_UNCHANGED \<and> euid \<noteq> old_uid)
                         then cred2\<lparr>c_suid := c_euid cred2\<rparr> else cred2)
            in (Inr (), Some (cred3\<lparr>c_fsuid := c_euid cred3\<rparr>)))"

definition cred_set_regid :: "credentials option \<Rightarrow> u32 \<Rightarrow> u32 \<Rightarrow> unit result \<times> credentials option" where
  "cred_set_regid current rgid egid =
     (case current of
        None \<Rightarrow> (Inl EPERM, current)
      | Some cred \<Rightarrow>
          if \<not> privileged cred \<and>
             (rgid \<noteq> CRED_UNCHANGED \<and> rgid \<noteq> c_gid cred \<and> rgid \<noteq> c_egid cred \<or>
              egid \<noteq> CRED_UNCHANGED \<and> \<not> one_of egid (c_gid cred) (c_egid cred) (c_sgid cred))
          then (Inl EPERM, current)
          else
            let old_gid = c_gid cred;
                cred1 = (if rgid \<noteq> CRED_UNCHANGED then cred\<lparr>c_gid := rgid\<rparr> else cred);
                cred2 = (if egid \<noteq> CRED_UNCHANGED then cred1\<lparr>c_egid := egid\<rparr> else cred1);
                cred3 = (if rgid \<noteq> CRED_UNCHANGED \<or> (egid \<noteq> CRED_UNCHANGED \<and> egid \<noteq> old_gid)
                         then cred2\<lparr>c_sgid := c_egid cred2\<rparr> else cred2)
            in (Inr (), Some (cred3\<lparr>c_fsgid := c_egid cred3\<rparr>)))"

definition cred_set_resuid :: "credentials option \<Rightarrow> u32 \<Rightarrow> u32 \<Rightarrow> u32 \<Rightarrow> unit result \<times> credentials option" where
  "cred_set_resuid current ruid euid suid =
     (case current of
        None \<Rightarrow> (Inl EPERM, current)
      | Some cred \<Rightarrow>
          if \<not> privileged cred \<and>
             list_ex (\<lambda>v. v \<noteq> CRED_UNCHANGED \<and> \<not> one_of v (c_uid cred) (c_euid cred) (c_suid cred)) [ruid, euid, suid]
          then (Inl EPERM, current)
          else
            let cred1 = (if ruid \<noteq> CRED_UNCHANGED then cred\<lparr>c_uid := ruid\<rparr> else cred);
                cred2 = (if euid \<noteq> CRED_UNCHANGED then cred1\<lparr>c_euid := euid\<rparr> else cred1);
                cred3 = (if suid \<noteq> CRED_UNCHANGED then cred2\<lparr>c_suid := suid\<rparr> else cred2)
            in (Inr (), Some (cred3\<lparr>c_fsuid := c_euid cred3\<rparr>)))"

definition cred_set_resgid :: "credentials option \<Rightarrow> u32 \<Rightarrow> u32 \<Rightarrow> u32 \<Rightarrow> unit result \<times> credentials option" where
  "cred_set_resgid current rgid egid sgid =
     (case current of
        None \<Rightarrow> (Inl EPERM, current)
      | Some cred \<Rightarrow>
          if \<not> privileged cred \<and>
             list_ex (\<lambda>v. v \<noteq> CRED_UNCHANGED \<and> \<not> one_of v (c_gid cred) (c_egid cred) (c_sgid cred)) [rgid, egid, sgid]
          then (Inl EPERM, current)
          else
            let cred1 = (if rgid \<noteq> CRED_UNCHANGED then cred\<lparr>c_gid := rgid\<rparr> else cred);
                cred2 = (if egid \<noteq> CRED_UNCHANGED then cred1\<lparr>c_egid := egid\<rparr> else cred1);
                cred3 = (if sgid \<noteq> CRED_UNCHANGED then cred2\<lparr>c_sgid := sgid\<rparr> else cred2)
            in (Inr (), Some (cred3\<lparr>c_fsgid := c_egid cred3\<rparr>)))"

definition cred_set_fsuid :: "credentials option \<Rightarrow> u32 \<Rightarrow> u32 \<times> credentials option" where
  "cred_set_fsuid current fsuid =
     (case current of
        None \<Rightarrow> (0, current)
      | Some cred \<Rightarrow>
          (c_fsuid cred,
           Some (if privileged cred \<or> fsuid = c_uid cred \<or> fsuid = c_euid cred \<or> fsuid = c_suid cred \<or> fsuid = c_fsuid cred
                 then cred\<lparr>c_fsuid := fsuid\<rparr> else cred)))"

definition cred_set_fsgid :: "credentials option \<Rightarrow> u32 \<Rightarrow> u32 \<times> credentials option" where
  "cred_set_fsgid current fsgid =
     (case current of
        None \<Rightarrow> (0, current)
      | Some cred \<Rightarrow>
          (c_fsgid cred,
           Some (if privileged cred \<or> fsgid = c_gid cred \<or> fsgid = c_egid cred \<or> fsgid = c_sgid cred \<or> fsgid = c_fsgid cred
                 then cred\<lparr>c_fsgid := fsgid\<rparr> else cred)))"

section \<open>Supplementary groups\<close>

definition cred_groups_share :: "group_heap \<Rightarrow> credentials \<Rightarrow> group_heap" where
  "cred_groups_share h cred =
     (case groups cred of
        None \<Rightarrow> h
      | Some block \<Rightarrow> (case h block of None \<Rightarrow> h | Some (refs, gids) \<Rightarrow> h(block \<mapsto> (refs + 1, gids))))"

definition cred_groups_release :: "group_heap \<Rightarrow> credentials \<Rightarrow> group_heap \<times> credentials" where
  "cred_groups_release h cred =
     (case groups cred of
        None \<Rightarrow> (h, cred)
      | Some block \<Rightarrow>
          ((case h block of
              None \<Rightarrow> h
            | Some (refs, gids) \<Rightarrow> if refs - 1 = 0 then h(block := None) else h(block \<mapsto> (refs - 1, gids))),
           cred\<lparr>groups := None, group_count := 0\<rparr>))"

text \<open>
  \<open>block\<close> is the address the allocator returns for the new list, \<open>None\<close> when it is out of memory.
\<close>

definition cred_set_groups ::
    "nat option \<Rightarrow> group_heap \<Rightarrow> credentials option \<Rightarrow> nat \<Rightarrow> u32 list \<Rightarrow> unit result \<times> group_heap \<times> credentials option" where
  "cred_set_groups block h current cnt gids =
     (case current of
        None \<Rightarrow> (Inl EPERM, h, current)
      | Some cred \<Rightarrow>
          if cnt > CRED_MAX_GROUPS then (Inl EINVAL, h, current)
          else if \<not> privileged cred then (Inl EPERM, h, current)
          else if cnt \<noteq> 0 \<and> block = None then (Inl ENOMEM, h, current)
          else
            let h1 = (if cnt \<noteq> 0 then h(the block \<mapsto> (1, take cnt gids)) else h);
                (h2, cred2) = cred_groups_release h1 cred
            in (Inr (), h2, Some (cred2\<lparr>groups := (if cnt \<noteq> 0 then block else None), group_count := cnt\<rparr>)))"

definition cred_apply_exec :: "credentials \<Rightarrow> vfs_node option \<Rightarrow> bool \<Rightarrow> credentials" where
  "cred_apply_exec cred target no_new_privs =
     (let cred1 = (case target of
                     None \<Rightarrow> cred
                   | Some node \<Rightarrow>
                       if no_new_privs then cred
                       else
                         let c = (if n_mode node AND MODE_SETUID \<noteq> 0 then cred\<lparr>c_euid := n_uid node\<rparr> else cred)
                         in if n_mode node AND MODE_SETGID \<noteq> 0 \<and> n_mode node AND 8 \<noteq> 0
                            then c\<lparr>c_egid := n_gid node\<rparr> else c)
      in cred1\<lparr>c_suid := c_euid cred1, c_sgid := c_egid cred1, c_fsuid := c_euid cred1, c_fsgid := c_egid cred1\<rparr>)"

section \<open>Identities\<close>

text \<open>
  The calls that change the identity of the current process, with the credentials and the heap of group blocks as
  the state they act on.
\<close>

datatype id_call =
    SetUid u32 | SetGid u32 | SetReuid u32 u32 | SetRegid u32 u32 | SetResuid u32 u32 u32 | SetResgid u32 u32 u32
  | SetFsuid u32 | SetFsgid u32 | SetGroups "nat option" nat "u32 list" | Exec "vfs_node option" bool

fun run_call :: "group_heap \<times> credentials \<Rightarrow> id_call \<Rightarrow> group_heap \<times> credentials" where
  "run_call (h, cred) (SetUid uid) = (h, the (snd (cred_set_uid (Some cred) uid)))"
| "run_call (h, cred) (SetGid gid) = (h, the (snd (cred_set_gid (Some cred) gid)))"
| "run_call (h, cred) (SetReuid ruid euid) = (h, the (snd (cred_set_reuid (Some cred) ruid euid)))"
| "run_call (h, cred) (SetRegid rgid egid) = (h, the (snd (cred_set_regid (Some cred) rgid egid)))"
| "run_call (h, cred) (SetResuid ruid euid suid) = (h, the (snd (cred_set_resuid (Some cred) ruid euid suid)))"
| "run_call (h, cred) (SetResgid rgid egid sgid) = (h, the (snd (cred_set_resgid (Some cred) rgid egid sgid)))"
| "run_call (h, cred) (SetFsuid fsuid) = (h, the (snd (cred_set_fsuid (Some cred) fsuid)))"
| "run_call (h, cred) (SetFsgid fsgid) = (h, the (snd (cred_set_fsgid (Some cred) fsgid)))"
| "run_call (h, cred) (SetGroups block cnt gids) =
     (case cred_set_groups block h (Some cred) cnt gids of (_, h', cred') \<Rightarrow> (h', the cred'))"
| "run_call (h, cred) (Exec target no_new_privs) = (h, cred_apply_exec cred target no_new_privs)"

fun gains_nothing :: "id_call \<Rightarrow> bool" where
  "gains_nothing (Exec target no_new_privs) \<longleftrightarrow>
     no_new_privs \<or> (case target of None \<Rightarrow> True
       | Some node \<Rightarrow> n_mode node AND MODE_SETUID = 0 \<and> n_mode node AND MODE_SETGID = 0)"
| "gains_nothing _ \<longleftrightarrow> True"

definition uids :: "credentials \<Rightarrow> u32 set" where
  "uids cred = {c_uid cred, c_euid cred, c_suid cred}"

definition gids :: "credentials \<Rightarrow> u32 set" where
  "gids cred = {c_gid cred, c_egid cred, c_sgid cred}"

definition confined :: "credentials \<Rightarrow> credentials \<Rightarrow> bool" where
  "confined cred cred' \<longleftrightarrow> uids cred' \<subseteq> uids cred \<and> gids cred' \<subseteq> gids cred \<and>
     c_fsuid cred' \<in> insert (c_fsuid cred) (uids cred) \<and> c_fsgid cred' \<in> insert (c_fsgid cred) (gids cred) \<and>
     groups cred' = groups cred \<and> group_count cred' = group_count cred"

lemmas cred_calls = cred_set_uid_def cred_set_gid_def cred_set_reuid_def cred_set_regid_def cred_set_resuid_def
  cred_set_resgid_def cred_set_fsuid_def cred_set_fsgid_def cred_set_groups_def cred_apply_exec_def

lemma confined_refl [simp]: "confined cred cred"
  by (simp add: confined_def)

lemma confined_trans: "confined a b \<Longrightarrow> confined b c \<Longrightarrow> confined a c"
  by (auto simp: confined_def)

lemma run_call_confined:
  assumes "c_euid cred \<noteq> 0" "gains_nothing call"
  shows "fst (run_call (h, cred) call) = h" "confined cred (snd (run_call (h, cred) call))"
proof -
  have np: "\<not> privileged cred" using assms(1) by (simp add: privileged_def)
  have "fst (run_call (h, cred) call) = h \<and> confined cred (snd (run_call (h, cred) call))"
  proof (cases call)
    case (SetUid uid)
    then show ?thesis using np by (auto simp: cred_set_uid_def confined_def uids_def gids_def)
  next
    case (SetGid gid)
    then show ?thesis using np by (auto simp: cred_set_gid_def confined_def uids_def gids_def)
  next
    case (SetReuid ruid euid)
    then show ?thesis using np by (auto simp: cred_set_reuid_def confined_def uids_def gids_def one_of_def Let_def)
  next
    case (SetRegid rgid egid)
    then show ?thesis using np by (auto simp: cred_set_regid_def confined_def uids_def gids_def one_of_def Let_def)
  next
    case (SetResuid ruid euid suid)
    then show ?thesis using np by (auto simp: cred_set_resuid_def confined_def uids_def gids_def one_of_def Let_def)
  next
    case (SetResgid rgid egid sgid)
    then show ?thesis using np by (auto simp: cred_set_resgid_def confined_def uids_def gids_def one_of_def Let_def)
  next
    case (SetFsuid fsuid)
    then show ?thesis using np by (auto simp: cred_set_fsuid_def confined_def uids_def gids_def)
  next
    case (SetFsgid fsgid)
    then show ?thesis using np by (auto simp: cred_set_fsgid_def confined_def uids_def gids_def)
  next
    case (SetGroups block cnt gs)
    then show ?thesis using np by (simp add: cred_set_groups_def)
  next
    case (Exec target no_new_privs)
    then show ?thesis using assms(2)
      by (auto simp: cred_apply_exec_def confined_def uids_def gids_def Let_def split: option.splits)
  qed
  then show "fst (run_call (h, cred) call) = h" "confined cred (snd (run_call (h, cred) call))" by simp_all
qed

lemma run_calls_confined:
  assumes "0 \<notin> uids cred" "\<forall>call \<in> set calls. gains_nothing call"
  shows "fst (foldl run_call (h, cred) calls) = h \<and> confined cred (snd (foldl run_call (h, cred) calls))"
  using assms
proof (induction calls arbitrary: cred)
  case (Cons call calls)
  have "c_euid cred \<noteq> 0" using Cons.prems(1) by (auto simp: uids_def)
  moreover have "gains_nothing call" using Cons.prems(2) by simp
  ultimately have step: "fst (run_call (h, cred) call) = h" "confined cred (snd (run_call (h, cred) call))"
    by (rule run_call_confined)+
  obtain cred' where c: "run_call (h, cred) call = (h, cred')" using step(1) by (metis prod.collapse)
  have "0 \<notin> uids cred'" using step(2) Cons.prems(1) unfolding c by (auto simp: confined_def)
  then have "fst (foldl run_call (h, cred') calls) = h \<and> confined cred' (snd (foldl run_call (h, cred') calls))"
    using Cons.prems(2) by (intro Cons.IH) simp_all
  then show ?case using step(2) confined_trans unfolding c foldl.simps by auto
qed simp

section \<open>The access check\<close>

definition posix_allows :: "group_heap \<Rightarrow> vfs_node \<Rightarrow> credentials \<Rightarrow> u32 \<Rightarrow> bool" where
  "posix_allows h node cred want =
     (if c_fsuid cred = n_uid node then covers (drop_bit 6 (n_mode node)) 7 want
      else case acl node of
             Some a \<Rightarrow> acl_grants h node a cred want
           | None \<Rightarrow> if in_file_group h cred (n_gid node) then covers (drop_bit 3 (n_mode node)) 7 want
                     else covers (n_mode node) 7 want)"

definition root_override :: "vfs_node \<Rightarrow> credentials \<Rightarrow> u32 \<Rightarrow> bool" where
  "root_override node cred want \<longleftrightarrow> c_fsuid cred = 0 \<and>
     (want AND CRED_EXEC = 0 \<or> n_flags node AND 0xFF = VFS_DIRECTORY \<or> n_mode node AND 0x49 \<noteq> 0)"

lemma cred_may_spec:
  assumes "node_acl_ok node"
  shows "cred_may h (Some cred) (Some node) want =
    (if want = 0 \<or> posix_allows h node cred want \<or> root_override node cred want then Inr () else Inl EACCES)"
proof (cases "acl node = None \<or> c_fsuid cred = n_uid node")
  case True
  then have "acl_permission h node cred want = (False, False)"
    by (auto simp: acl_permission_def split: option.split)
  then show ?thesis using True
    by (auto simp: cred_may_def posix_allows_def root_override_def covers_def and.assoc split: option.split)
next
  case False
  then obtain a where a: "acl node = Some a" "c_fsuid cred \<noteq> n_uid node" by auto
  have "acl_ok a" using assms a(1) by (simp add: node_acl_ok_def)
  then have perm: "acl_permission h node cred want = (acl_grants h node a cred want, True)"
    by (rule acl_permission_spec [OF a(1) _ a(2)])
  have posix: "posix_allows h node cred want \<longleftrightarrow> acl_grants h node a cred want"
    using a by (simp add: posix_allows_def)
  show ?thesis unfolding cred_may_def option.case perm posix
    by (cases "acl_grants h node a cred want") (auto simp: root_override_def)
qed

section \<open>Directories on the way\<close>

lemma search_loop_ok:
  "search_loop h current view path indices = Inr () \<longleftrightarrow>
     (\<forall>index \<in> set indices. path ! index = CHR ''/'' \<longrightarrow>
        (\<exists>directory. vfs_lookup view (take index path) = Some directory \<and>
           cred_may h current (Some directory) CRED_EXEC = Inr ()))"
proof (induction indices)
  case (Cons index indices)
  show ?case
  proof (cases "path ! index = CHR ''/''")
    case True
    show ?thesis
    proof (cases "vfs_lookup view (take index path)")
      case None
      with True show ?thesis by simp
    next
      case (Some directory)
      with True Cons.IH show ?thesis by (cases "cred_may h current (Some directory) CRED_EXEC") (simp_all split: unit.split)
    qed
  next
    case False
    with Cons.IH show ?thesis by simp
  qed
qed simp

lemma strip_replicate:
  assumes "len \<noteq> 0" "\<And>i. len \<le> i \<Longrightarrow> i < len + k \<Longrightarrow> P (path ! i)" "len > 1 \<longrightarrow> \<not> P (path ! (len - 1))"
  shows "strip P path (len + k) = len"
  using assms(2)
proof (induction k)
  case 0
  then show ?case using assms(1,3) by (subst strip.simps) auto
next
  case (Suc k)
  have "P (path ! (len + k))" using Suc.prems [of "len + k"] by simp
  then have "strip P path (len + Suc k) = strip P path (len + k)"
    using assms(1) by (subst strip.simps) simp
  then show ?case using Suc by simp
qed

lemma parent_path_name:
  assumes "name \<noteq> []" "CHR ''/'' \<notin> set name"
  shows "parent_path (dir @ CHR ''/'' # name) = (if dir = [] then ''/'' else dir)"
proof -
  let ?path = "dir @ CHR ''/'' # name"
  have ending: "?path ! (length ?path - 1) \<noteq> CHR ''/''"
  proof -
    have "?path ! (length ?path - 1) = name ! (length name - 1)" using assms(1) by (simp add: nth_append nth_Cons')
    moreover have "name ! (length name - 1) \<in> set name" using assms(1) by simp
    ultimately show ?thesis using assms(2) by metis
  qed
  have first: "strip (\<lambda>c. c = CHR ''/'') ?path (length ?path) = length ?path"
    using strip_replicate [of "length ?path" 0 "\<lambda>c. c = CHR ''/''" ?path] ending by simp
  have "strip (\<lambda>c. c \<noteq> CHR ''/'') ?path (Suc (length dir) + length name) = Suc (length dir)"
  proof (rule strip_replicate)
    fix i assume i: "Suc (length dir) \<le> i" "i < Suc (length dir) + length name"
    then have "?path ! i = name ! (i - Suc (length dir))" by (simp add: nth_append nth_Cons')
    moreover have "name ! (i - Suc (length dir)) \<in> set name" using i by simp
    ultimately show "?path ! i \<noteq> CHR ''/''" using assms(2) by metis
  qed simp_all
  then have second: "strip (\<lambda>c. c \<noteq> CHR ''/'') ?path (length ?path) = Suc (length dir)" by simp
  show ?thesis unfolding parent_path_def Let_def first second by (cases "dir = []") simp_all
qed

text \<open>
  Searching a path looks at the directories before each of its slashes.
\<close>

lemma search_loop_path:
  assumes "CHR ''/'' \<notin> set name"
  shows "search_loop h current view (dir @ CHR ''/'' # name) [1..<length (dir @ CHR ''/'' # name)] = Inr () \<longleftrightarrow>
    (\<forall>index. 1 \<le> index \<and> index \<le> length dir \<and> (dir @ CHR ''/'' # name) ! index = CHR ''/'' \<longrightarrow>
       (\<exists>d. vfs_lookup view (take index dir) = Some d \<and> cred_may h current (Some d) CRED_EXEC = Inr ()))"
    (is "?loop \<longleftrightarrow> ?all")
proof -
  let ?path = "dir @ CHR ''/'' # name"
  have inside: "index \<le> length dir" if "index < length ?path" "?path ! index = CHR ''/''" for index
  proof (rule ccontr)
    assume "\<not> index \<le> length dir"
    then have "?path ! index = name ! (index - Suc (length dir))" "index - Suc (length dir) < length name"
      using that(1) by (simp_all add: nth_append nth_Cons')
    then show False using that(2) assms by (metis nth_mem)
  qed
  have same: "take index ?path = take index dir" if "index \<le> length dir" for index using that by simp
  show ?thesis unfolding search_loop_ok
  proof
    assume l: "\<forall>index \<in> set [1..<length ?path]. ?path ! index = CHR ''/'' \<longrightarrow>
      (\<exists>d. vfs_lookup view (take index ?path) = Some d \<and> cred_may h current (Some d) CRED_EXEC = Inr ())"
    show ?all
    proof (intro allI impI)
      fix index assume i: "1 \<le> index \<and> index \<le> length dir \<and> ?path ! index = CHR ''/''"
      then have "index \<in> set [1..<length ?path]" by (auto simp del: upt_Suc)
      with l i same [of index] show "\<exists>d. vfs_lookup view (take index dir) = Some d \<and> cred_may h current (Some d) CRED_EXEC = Inr ()" by metis
    qed
  next
    assume ?all
    then show "\<forall>index \<in> set [1..<length ?path]. ?path ! index = CHR ''/'' \<longrightarrow>
      (\<exists>d. vfs_lookup view (take index ?path) = Some d \<and> cred_may h current (Some d) CRED_EXEC = Inr ())"
      using inside same by (metis atLeastLessThan_iff set_upt)
  qed
qed

lemma cred_may_remove_parts:
  "cred_may_remove h (Some cred) view path node = Inr () \<longleftrightarrow> cred_may_search h (Some cred) view path = Inr () \<and>
     (\<exists>p. parent_of view path = Inr p \<and> n_flags p AND VFS_READONLY = 0 \<and>
        (c_fsuid cred = 0 \<or> cred_may h (Some cred) (Some p) (CRED_WRITE OR CRED_EXEC) = Inr () \<and>
           (n_mode p AND MODE_STICKY = 0 \<or> c_fsuid cred = n_uid node \<or> c_fsuid cred = n_uid p)))"
  by (auto simp: cred_may_remove_def cred_may_write_parent_def split: sum.splits if_splits)

section \<open>Shared groups\<close>

text \<open>
  Processes by number, each with its credentials, over one heap of group blocks. A process is forked with a copy of its parent's
  credentials, sets its groups, changes its identity, or ends. \<open>limit\<close> bounds the number of
  processes by what the 32-bit reference count can hold.
\<close>

type_synonym cred_table = "nat \<Rightarrow> credentials option"

definition holders :: "cred_table \<Rightarrow> nat \<Rightarrow> nat set" where
  "holders procs block = {p. \<exists>cred. procs p = Some cred \<and> groups cred = Some block}"

inductive cred_step :: "group_heap \<times> cred_table \<Rightarrow> group_heap \<times> cred_table \<Rightarrow> bool" where
  fork: "procs parent = Some cred \<Longrightarrow> procs child = None \<Longrightarrow> card (dom procs) < 2 ^ 32 - 1 \<Longrightarrow>
    cred_step (h, procs) (cred_groups_share h cred, procs(child \<mapsto> cred))"
| exit: "procs p = Some cred \<Longrightarrow> cred_step (h, procs) (fst (cred_groups_release h cred), procs(p := None))"
| set_groups: "procs p = Some cred \<Longrightarrow> cred_set_groups block h (Some cred) cnt gs = (r, h', Some cred') \<Longrightarrow>
    (\<And>b. block = Some b \<Longrightarrow> h b = None) \<Longrightarrow> cnt \<le> length gs \<Longrightarrow> cred_step (h, procs) (h', procs(p \<mapsto> cred'))"
| identity: "procs p = Some cred \<Longrightarrow> groups cred' = groups cred \<Longrightarrow> group_count cred' = group_count cred \<Longrightarrow>
    cred_step (h, procs) (h, procs(p \<mapsto> cred'))"

inductive cred_reachable :: "group_heap \<times> cred_table \<Rightarrow> bool" where
  boot: "groups cred = None \<Longrightarrow> group_count cred = 0 \<Longrightarrow> cred_reachable (Map.empty, [p \<mapsto> cred])"
| step: "cred_reachable s \<Longrightarrow> cred_step s s' \<Longrightarrow> cred_reachable s'"

definition block_ok :: "group_heap \<Rightarrow> cred_table \<Rightarrow> nat \<Rightarrow> bool" where
  "block_ok h procs block =
     (case h block of
        None \<Rightarrow> holders procs block = {}
      | Some (refs, gs) \<Rightarrow> holders procs block \<noteq> {} \<and> unat refs = card (holders procs block) \<and>
          (\<forall>p cred. procs p = Some cred \<and> groups cred = Some block \<longrightarrow> group_count cred \<le> length gs))"

definition groups_ok :: "group_heap \<times> cred_table \<Rightarrow> bool" where
  "groups_ok s = (case s of (h, procs) \<Rightarrow>
     finite (dom procs) \<and> card (dom procs) < 2 ^ 32 \<and> (\<forall>block. block_ok h procs block) \<and>
     (\<forall>p cred. procs p = Some cred \<and> groups cred = None \<longrightarrow> group_count cred = 0))"

lemma groups_okI:
  assumes "finite (dom procs)" "card (dom procs) < 2 ^ 32" "\<And>block. block_ok h procs block"
    "\<And>p cred. procs p = Some cred \<Longrightarrow> groups cred = None \<Longrightarrow> group_count cred = 0"
  shows "groups_ok (h, procs)"
  using assms by (auto simp: groups_ok_def)

lemma group_holders_upd:
  "holders (procs(p \<mapsto> cred)) block =
     (if groups cred = Some block then insert p (holders procs block) else holders procs block - {p})"
  by (auto simp: holders_def)

lemma group_holders_del: "holders (procs(p := None)) block = holders procs block - {p}"
  by (auto simp: holders_def)

lemma holders_dom: "holders procs block \<subseteq> dom procs"
  by (auto simp: holders_def)

lemma finite_group_holders: "finite (dom procs) \<Longrightarrow> finite (holders procs block)"
  by (rule finite_subset [OF holders_dom])

lemma card_group_holders: "finite (dom procs) \<Longrightarrow> card (holders procs block) \<le> card (dom procs)"
  by (rule card_mono [OF _ holders_dom])

lemma groups_okD:
  assumes "groups_ok (h, procs)" "procs p = Some cred" "groups cred = Some block"
  obtains refs gs where "h block = Some (refs, gs)" "p \<in> holders procs block" "unat refs = card (holders procs block)"
    "finite (holders procs block)" "card (holders procs block) \<le> card (dom procs)"
    "\<forall>q c. procs q = Some c \<and> groups c = Some block \<longrightarrow> group_count c \<le> length gs"
proof -
  have p: "p \<in> holders procs block" using assms(2,3) by (auto simp: holders_def)
  have f: "finite (dom procs)" and ok: "block_ok h procs block" using assms(1) by (simp_all add: groups_ok_def)
  obtain refs gs where r: "h block = Some (refs, gs)" using ok p by (auto simp: block_ok_def split: option.split_asm)
  have "unat refs = card (holders procs block)"
    "\<forall>q c. procs q = Some c \<and> groups c = Some block \<longrightarrow> group_count c \<le> length gs"
    using ok unfolding block_ok_def r option.case prod.case by blast+
  with that r p finite_group_holders [OF f] card_group_holders [OF f] show thesis by blast
qed

lemma block_ok_other:
  assumes "block_ok h procs block" "h' block = h block" "holders procs' block = holders procs block"
    "\<And>p cred. procs' p = Some cred \<Longrightarrow> groups cred = Some block \<Longrightarrow>
       \<exists>cred0. procs p = Some cred0 \<and> groups cred0 = Some block \<and> group_count cred0 = group_count cred"
  shows "block_ok h' procs' block"
  using assms(1) unfolding block_ok_def assms(2,3) using assms(4) by (fastforce split: option.splits)

lemma share_ok:
  assumes ok: "groups_ok (h, procs)" and p: "procs parent = Some cred" "procs child = None" and room: "card (dom procs) < 2 ^ 32 - 1"
  shows "groups_ok (cred_groups_share h cred, procs(child \<mapsto> cred))"
proof -
  let ?h = "cred_groups_share h cred" and ?procs = "procs(child \<mapsto> cred)"
  have f: "finite (dom procs)" using ok by (simp add: groups_ok_def)
  have fresh: "child \<notin> holders procs block" for block using p(2) by (simp add: holders_def)
  have none: "group_count c = 0" if "?procs q = Some c" "groups c = None" for q c
    using that ok p(1) by (auto simp: groups_ok_def split: if_split_asm)
  have blocks: "block_ok ?h ?procs block" for block
  proof (cases "groups cred = Some block")
    case True
    obtain refs gs where r: "h block = Some (refs, gs)" "parent \<in> holders procs block" "unat refs = card (holders procs block)"
      "finite (holders procs block)" "card (holders procs block) \<le> card (dom procs)"
      "\<forall>q c. procs q = Some c \<and> groups c = Some block \<longrightarrow> group_count c \<le> length gs"
      by (rule groups_okD [OF ok p(1) True])
    have "unat (refs + 1) = Suc (unat refs)"
      using r(3,5) room by (simp add: unat_word_ariths)
    then have "unat (refs + 1) = card (insert child (holders procs block))" using r(3,4) fresh by simp
    moreover have "\<forall>q c. ?procs q = Some c \<and> groups c = Some block \<longrightarrow> group_count c \<le> length gs"
      using p(1) r(6) by auto
    ultimately show ?thesis
      unfolding block_ok_def using True r(1) by (simp add: cred_groups_share_def group_holders_upd)
  next
    case False
    have "block_ok h procs block" using ok by (simp add: groups_ok_def)
    then show ?thesis
    proof (rule block_ok_other)
      show "?h block = h block" using False by (auto simp: cred_groups_share_def split: option.split)
      show "holders ?procs block = holders procs block" using False fresh by (simp add: group_holders_upd)
    qed (use False in \<open>auto split: if_split_asm\<close>)
  qed
  have "card (dom ?procs) < 2 ^ 32" using f p(2) room by (simp add: domIff)
  then show ?thesis using f by (intro groups_okI blocks none) auto
qed

lemma release_ok:
  assumes ok: "groups_ok (h, procs)" and p: "procs p = Some cred" and rel: "cred_groups_release h cred = (h', cred')"
  shows "groups_ok (h', procs(p \<mapsto> cred'))" "groups cred' = None" "group_count cred' = 0"
proof -
  let ?procs = "procs(p \<mapsto> cred')"
  show g: "groups cred' = None" "group_count cred' = 0"
    using rel ok p by (auto simp: cred_groups_release_def groups_ok_def split: option.split_asm)
  have f: "finite (dom procs)" using ok by (simp add: groups_ok_def)
  have none: "group_count c = 0" if "?procs q = Some c" "groups c = None" for q c
    using that ok g by (auto simp: groups_ok_def split: if_split_asm)
  have blocks: "block_ok h' ?procs block" for block
  proof (cases "groups cred = Some block")
    case True
    obtain refs gs where r: "h block = Some (refs, gs)" "p \<in> holders procs block" "unat refs = card (holders procs block)"
      "finite (holders procs block)" "card (holders procs block) \<le> card (dom procs)"
      "\<forall>q c. procs q = Some c \<and> groups c = Some block \<longrightarrow> group_count c \<le> length gs"
      by (rule groups_okD [OF ok p True])
    have hold: "holders ?procs block = holders procs block - {p}" using g(1) by (simp add: group_holders_upd)
    have "refs \<noteq> 0" using r(2-4) by (auto simp: unat_eq_0)
    then have dec: "unat (refs - 1) = card (holders procs block - {p})"
      using r(2-4) unat_minus_one [of refs] by simp
    have h': "h' = (if refs - 1 = 0 then h(block := None) else h(block \<mapsto> (refs - 1, gs)))"
      using rel True r(1) by (simp add: cred_groups_release_def)
    show ?thesis
    proof (cases "refs - 1 = 0")
      case zero: True
      then have "holders procs block - {p} = {}" using dec r(4) by simp
      then show ?thesis using zero h' hold by (simp add: block_ok_def)
    next
      case nonzero: False
      then have "card (holders procs block - {p}) \<noteq> 0" using dec by (simp add: unat_eq_0 [symmetric])
      then have "holders procs block - {p} \<noteq> {}" by (metis card.empty)
      moreover have "\<forall>q c. ?procs q = Some c \<and> groups c = Some block \<longrightarrow> group_count c \<le> length gs"
        using g(1) r(6) by auto
      ultimately show ?thesis unfolding block_ok_def using nonzero h' hold dec by simp
    qed
  next
    case False
    have "block_ok h procs block" using ok by (simp add: groups_ok_def)
    then show ?thesis
    proof (rule block_ok_other)
      show "h' block = h block"
        using False rel by (auto simp: cred_groups_release_def split: option.split_asm if_split_asm)
      show "holders ?procs block = holders procs block" using False p g(1) by (auto simp: holders_def)
    qed (use g(1) in \<open>auto split: if_split_asm\<close>)
  qed
  have "dom ?procs = dom procs" using p by auto
  moreover have "card (dom procs) < 2 ^ 32" using ok by (simp add: groups_ok_def)
  ultimately show "groups_ok (h', procs(p \<mapsto> cred'))" using f by (intro groups_okI blocks none) simp_all
qed

lemma drop_ok:
  assumes ok: "groups_ok (h, procs)" and p: "procs p = Some cred" "groups cred = None"
  shows "groups_ok (h, procs(p := None))"
proof -
  have f: "finite (dom procs)" using ok by (simp add: groups_ok_def)
  have "block_ok h (procs(p := None)) block" for block
  proof (rule block_ok_other)
    show "block_ok h procs block" using ok by (simp add: groups_ok_def)
    show "holders (procs(p := None)) block = holders procs block" using p by (auto simp: holders_def)
  qed (auto split: if_split_asm)
  moreover have "card (dom (procs(p := None))) < 2 ^ 32"
  proof -
    have "card (dom (procs(p := None))) \<le> card (dom procs)" by (rule card_mono [OF f]) auto
    then show ?thesis using ok unfolding groups_ok_def by simp
  qed
  ultimately show ?thesis using ok by (auto simp: groups_ok_def)
qed

lemma adopt_ok:
  assumes ok: "groups_ok (h, procs)" and p: "procs p = Some cred" "groups cred = None"
    and new: "h b = None" "groups cred' = Some b" "group_count cred' \<le> length gs"
  shows "groups_ok (h(b \<mapsto> (1, gs)), procs(p \<mapsto> cred'))"
proof -
  let ?h = "h(b \<mapsto> (1, gs))" and ?procs = "procs(p \<mapsto> cred')"
  have f: "finite (dom procs)" using ok by (simp add: groups_ok_def)
  have "block_ok h procs b" using ok by (simp add: groups_ok_def)
  then have empty: "holders procs b = {}" using new(1) by (simp add: block_ok_def)
  have "block_ok ?h ?procs block" for block
  proof (cases "block = b")
    case True
    have hold: "holders ?procs b = {p}" using empty new(2) by (simp add: group_holders_upd)
    have cnt: "\<forall>q c. ?procs q = Some c \<and> groups c = Some b \<longrightarrow> group_count c \<le> length gs"
      using empty new(3) by (auto simp: holders_def split: if_split_asm)
    show ?thesis unfolding block_ok_def True fun_upd_same option.case prod.case hold using cnt by simp
  next
    case False
    show ?thesis
    proof (rule block_ok_other)
      show "block_ok h procs block" using ok by (simp add: groups_ok_def)
      show "?h block = h block" using False by simp
      show "holders ?procs block = holders procs block" using False p new(2) by (auto simp: holders_def)
    qed (use False new(2) in \<open>auto split: if_split_asm\<close>)
  qed
  moreover have "dom ?procs = dom procs" using p(1) by auto
  ultimately show ?thesis using ok new(2) by (auto simp: groups_ok_def split: if_split_asm)
qed

lemma set_groups_ok:
  assumes ok: "groups_ok (h, procs)" and p: "procs p = Some cred"
    and set: "cred_set_groups block h (Some cred) cnt gs = (r, h', Some cred')"
    and fresh: "\<And>b. block = Some b \<Longrightarrow> h b = None" and len: "cnt \<le> length gs"
  shows "groups_ok (h', procs(p \<mapsto> cred'))"
proof (cases "cnt > CRED_MAX_GROUPS \<or> \<not> privileged cred \<or> cnt \<noteq> 0 \<and> block = None")
  case True
  then have "h' = h" "cred' = cred" using set by (auto simp: cred_set_groups_def split: if_split_asm)
  moreover have "procs(p \<mapsto> cred) = procs" using p by auto
  ultimately show ?thesis using ok by simp
next
  case False
  show ?thesis
  proof (cases "cnt = 0")
    case True
    obtain h2 cred2 where rel: "cred_groups_release h cred = (h2, cred2)" by (metis surj_pair)
    note r = release_ok [OF ok p rel]
    have "h' = h2" "cred' = cred2\<lparr>groups := None, group_count := 0\<rparr>"
      using set False True rel by (auto simp: cred_set_groups_def)
    then have "h' = h2" "cred' = cred2" using r(2,3) by simp_all
    with r(1) show ?thesis by simp
  next
    case nonzero: False
    then obtain b where b: "block = Some b" "h b = None" using False fresh by auto
    have other: "groups cred \<noteq> Some b"
    proof
      assume "groups cred = Some b"
      from groups_okD [OF ok p this] show False using b(2) by (metis option.distinct(1))
    qed
    obtain h2 cred2 where rel: "cred_groups_release h cred = (h2, cred2)" by (metis surj_pair)
    note r = release_ok [OF ok p rel]
    have "cred_groups_release (h(b \<mapsto> (1, take cnt gs))) cred = (h2(b \<mapsto> (1, take cnt gs)), cred2)"
      using rel other by (auto simp: cred_groups_release_def fun_upd_twist split: option.splits)
    then have eq: "h' = h2(b \<mapsto> (1, take cnt gs))" "cred' = cred2\<lparr>groups := Some b, group_count := cnt\<rparr>"
      using set False nonzero b(1) by (auto simp: cred_set_groups_def)
    have "h2 b = None"
      using rel b(2) other by (auto simp: cred_groups_release_def split: option.splits if_splits)
    then have "groups_ok (h2(b \<mapsto> (1, take cnt gs)), (procs(p \<mapsto> cred2))(p \<mapsto> cred'))"
      using len eq(2) by (intro adopt_ok [OF r(1) _ r(2)]) simp_all
    then show ?thesis unfolding eq(1) by simp
  qed
qed

lemma identity_ok:
  assumes ok: "groups_ok (h, procs)" and p: "procs p = Some cred" "groups cred' = groups cred" "group_count cred' = group_count cred"
  shows "groups_ok (h, procs(p \<mapsto> cred'))"
proof -
  have "block_ok h (procs(p \<mapsto> cred')) block" for block
  proof (rule block_ok_other)
    show "block_ok h procs block" using ok by (simp add: groups_ok_def)
    show "holders (procs(p \<mapsto> cred')) block = holders procs block" using p by (auto simp: holders_def)
  qed (use p in \<open>auto split: if_split_asm\<close>)
  moreover have "dom (procs(p \<mapsto> cred')) = dom procs" using p by auto
  ultimately show ?thesis using ok p by (auto simp: groups_ok_def)
qed

lemma cred_step_ok: "cred_step s s' \<Longrightarrow> groups_ok s \<Longrightarrow> groups_ok s'"
proof (induction rule: cred_step.induct)
  case (fork procs parent cred child h)
  then show ?case by (intro share_ok)
next
  case (exit procs p cred h)
  obtain h2 cred2 where rel: "cred_groups_release h cred = (h2, cred2)" by (metis surj_pair)
  note r = release_ok [OF exit(2) exit(1) rel]
  have "groups_ok (h2, (procs(p \<mapsto> cred2))(p := None))" by (rule drop_ok [OF r(1) _ r(2)]) simp
  then show ?case unfolding rel by simp
next
  case (set_groups procs p cred block h cnt gs r h' cred')
  then show ?case by (intro set_groups_ok)
next
  case (identity procs p cred cred' h)
  then show ?case by (intro identity_ok)
qed

lemma cred_reachable_ok: "cred_reachable s \<Longrightarrow> groups_ok s"
proof (induction rule: cred_reachable.induct)
  case (boot cred p)
  then show ?case by (auto simp: groups_ok_def block_ok_def holders_def split: if_split_asm)
next
  case (step s s')
  then show ?case using cred_step_ok by blast
qed

section \<open>Properties\<close>

text \<open>
  C19: A process without root's identity cannot gain one. Starting from credentials in which neither the real, the
  effective nor the saved user is root, after any sequence of the identity calls and of program starts that
  carry no set-id bits or happen under no-new-privs, every user and group identity is one the process started with, and its
  supplementary groups are unchanged.
\<close>

theorem cred_no_escalation:
  assumes "0 \<notin> uids cred" "\<forall>call \<in> set calls. gains_nothing call"
  shows "fst (foldl run_call (h, cred) calls) = h \<and> confined cred (snd (foldl run_call (h, cred) calls)) \<and>
    \<not> cred_is_root (Some (snd (foldl run_call (h, cred) calls)))"
proof -
  let ?cred = "snd (foldl run_call (h, cred) calls)"
  have run: "fst (foldl run_call (h, cred) calls) = h" "confined cred ?cred"
    using run_calls_confined [OF assms, of h] by simp_all
  have "c_euid ?cred \<in> uids cred" using run(2) by (auto simp: confined_def uids_def)
  then have "c_euid ?cred \<noteq> 0" using assms(1) by auto
  with run show ?thesis by (simp add: cred_is_root_def)
qed

definition sample_cred :: credentials where
  "sample_cred = \<lparr>c_uid = 5, c_gid = 5, c_euid = 5, c_egid = 5, c_suid = 7, c_sgid = 5, c_fsuid = 5, c_fsgid = 5,
     group_count = 0, groups = None\<rparr>"

theorem cred_no_escalation_witness:
  "c_euid (snd (foldl run_call (Map.empty, sample_cred) [SetUid 7])) = 7 \<and>
   confined sample_cred (snd (foldl run_call (Map.empty, sample_cred) [SetUid 7, SetResuid 0 0 0]))"
proof -
  have "0 \<notin> uids sample_cred" by (simp add: uids_def sample_cred_def)
  from cred_no_escalation [OF this, of "[SetUid 7, SetResuid 0 0 0]" Map.empty] show ?thesis
    by (simp add: sample_cred_def cred_set_uid_def privileged_def)
qed

text \<open>
  C20: The access check is the POSIX decision. A request is granted exactly when it asks for nothing, when the class the
  process falls into (owner, access control list, group or other) has all the requested bits, or when root's override
  applies: for anything but executing a file that nobody may execute.
\<close>

theorem cred_may_correct:
  assumes "node_acl_ok node"
  shows "cred_may h (Some cred) (Some node) want =
    (if want = 0 \<or> posix_allows h node cred want \<or> root_override node cred want then Inr () else Inl EACCES)"
  by (rule cred_may_spec [OF assms])

theorem cred_may_correct_witness:
  "node_acl_ok sample_node \<and> cred_may Map.empty (Some sample_cred) (Some sample_node) CRED_WRITE = Inr ()"
proof -
  have "node_acl_ok sample_node" by (simp add: node_acl_ok_def sample_node_def)
  with cred_may_correct [OF this, of Map.empty sample_cred CRED_WRITE] show ?thesis
    by (simp add: posix_allows_def covers_def sample_node_def sample_cred_def)
qed

text \<open>
  C33: Exactly when a process may remove \<open>dir/name\<close>, where \<open>dir\<close> is empty for an entry of the root directory: the path fits its
  buffer, the parent is a directory and not read-only, and the process is root or may write and search the parent, may search
  every directory on the path, and, if the parent is sticky, owns the file or the parent.
\<close>

theorem cred_may_remove_sticky:
  assumes "dir = [] \<or> hd dir = CHR ''/''" "name \<noteq> []" "CHR ''/'' \<notin> set name"
  shows "cred_may_remove h (Some cred) view (dir @ CHR ''/'' # name) node = Inr () \<longleftrightarrow>
    vfs_path_buffer view \<and> length dir + 1 + length name < VFS_PATH_MAX \<and>
    (\<exists>parent. vfs_lookup view (if dir = [] then ''/'' else dir) = Some parent \<and> n_flags parent AND 0xFF = VFS_DIRECTORY \<and>
       n_flags parent AND VFS_READONLY = 0 \<and>
       (c_fsuid cred = 0 \<or>
        cred_may h (Some cred) (Some parent) (CRED_WRITE OR CRED_EXEC) = Inr () \<and>
        (n_mode parent AND MODE_STICKY = 0 \<or> c_fsuid cred = n_uid node \<or> c_fsuid cred = n_uid parent) \<and>
        (\<forall>index. 1 \<le> index \<and> index \<le> length dir \<and> (dir @ CHR ''/'' # name) ! index = CHR ''/'' \<longrightarrow>
           (\<exists>d. vfs_lookup view (take index dir) = Some d \<and> cred_may h (Some cred) (Some d) CRED_EXEC = Inr ()))))"
proof -
  let ?path = "dir @ CHR ''/'' # name" and ?fits = "vfs_path_buffer view \<and> length dir + 1 + length name < VFS_PATH_MAX"
  let ?searched = "\<forall>index. 1 \<le> index \<and> index \<le> length dir \<and> ?path ! index = CHR ''/'' \<longrightarrow>
      (\<exists>d. vfs_lookup view (take index dir) = Some d \<and> cred_may h (Some cred) (Some d) CRED_EXEC = Inr ())"
  have start: "?path \<noteq> []" "hd ?path = CHR ''/''" using assms(1) by (cases dir; auto)+
  have search: "cred_may_search h (Some cred) view ?path = Inr () \<longleftrightarrow> c_fsuid cred = 0 \<or> ?fits \<and> ?searched"
    using start search_loop_path [OF assms(3), of h "Some cred" view dir] by (auto simp: cred_may_search_def)
  have parent: "parent_of view ?path = Inr p \<longleftrightarrow> ?fits \<and> vfs_lookup view (if dir = [] then ''/'' else dir) = Some p \<and>
      n_flags p AND 0xFF = VFS_DIRECTORY" for p
    unfolding parent_of_def parent_path_name [OF assms(2,3)] by (auto split: option.split)
  have "cred_may_remove h (Some cred) view ?path node = Inr () \<longleftrightarrow> cred_may_search h (Some cred) view ?path = Inr () \<and>
      (\<exists>p. parent_of view ?path = Inr p \<and> n_flags p AND VFS_READONLY = 0 \<and>
         (c_fsuid cred = 0 \<or> cred_may h (Some cred) (Some p) (CRED_WRITE OR CRED_EXEC) = Inr () \<and>
            (n_mode p AND MODE_STICKY = 0 \<or> c_fsuid cred = n_uid node \<or> c_fsuid cred = n_uid p)))"
    by (rule cred_may_remove_parts)
  then show ?thesis unfolding search parent by blast
qed

theorem cred_may_remove_sticky_witness:
  "cred_may_remove Map.empty (Some sample_cred)
     \<lparr>vfs_lookup = (\<lambda>path. if path = ''/d'' then Some (sample_node\<lparr>n_flags := VFS_DIRECTORY, n_mode := 0x3FF\<rparr>) else None),
      vfs_lookup_error = (\<lambda>_. None), vfs_path_buffer = True\<rparr> (''/d'' @ CHR ''/'' # ''f'') sample_node = Inr () \<and>
   c_fsuid sample_cred = n_uid sample_node"
proof -
  let ?view = "\<lparr>vfs_lookup = (\<lambda>path. if path = ''/d'' then Some (sample_node\<lparr>n_flags := VFS_DIRECTORY, n_mode := 0x3FF\<rparr>) else None),
      vfs_lookup_error = (\<lambda>_. None), vfs_path_buffer = True\<rparr>"
  have run: "cred_may_remove Map.empty (Some sample_cred) ?view (''/d'' @ CHR ''/'' # ''f'') sample_node = Inr ()"
    by code_simp
  then have "\<exists>parent. vfs_lookup ?view ''/d'' = Some parent \<and>
      (n_mode parent AND MODE_STICKY = 0 \<or> c_fsuid sample_cred = n_uid sample_node \<or> c_fsuid sample_cred = n_uid parent)"
    using cred_may_remove_sticky [of "''/d''" "''f''" Map.empty sample_cred ?view sample_node] by (auto simp: sample_cred_def)
  with run show ?thesis by (simp add: sample_cred_def sample_node_def)
qed

text \<open>
  The blocks of supplementary groups that processes share are counted exactly. In every state reachable by
  forks, exits, changes of groups and of identity, a block exists exactly while some process refers to it, its reference count is the
  number of those processes, and no process's group count exceeds the block it reads.
\<close>

lemma cred_groups_counted:
  assumes "cred_reachable (h, procs)"
  shows "(case h block of
      None \<Rightarrow> holders procs block = {}
    | Some (refs, gs) \<Rightarrow> holders procs block \<noteq> {} \<and> unat refs = card (holders procs block) \<and>
        (\<forall>p cred. procs p = Some cred \<and> groups cred = Some block \<longrightarrow> group_count cred \<le> length gs))"
  using cred_reachable_ok [OF assms] unfolding groups_ok_def block_ok_def by blast

end
