(* ===== verification/Xattr.thy ===== *)
theory Xattr
  imports Cred
begin

text \<open>
  Extended attributes, \<^verbatim>\<open>kernel/fs/xattr.c\<close>, and the system call body that dispatches to them and to the access control lists,
  \<^verbatim>\<open>xattr_on_node\<close> of \<^verbatim>\<open>kernel/core/syscall.c\<close>. The lemmas show that the attributes of a node are a
  finite map from names to values within the size limit, and which calls stay inside the kernel buffer they copy from.
\<close>

section \<open>Namespaces and permissions\<close>

abbreviation (input) VFS_XATTR_NAME_MAX :: nat where "VFS_XATTR_NAME_MAX \<equiv> 255"
abbreviation (input) VFS_XATTR_TOTAL_MAX :: nat where "VFS_XATTR_TOTAL_MAX \<equiv> 65536"
abbreviation (input) XATTR_VALUE_MAX :: nat where "XATTR_VALUE_MAX \<equiv> 65536"

definition namespaces :: "string list" where
  "namespaces = [''user.'', ''trusted.'', ''security.'']"

definition in_namespace :: "string \<Rightarrow> string \<Rightarrow> bool" where
  "in_namespace name space \<longleftrightarrow> take (length space) name = space \<and> length name > length space"

definition known_namespace :: "string \<Rightarrow> nat option" where
  "known_namespace name = find (\<lambda>index. in_namespace name (namespaces ! index)) [0..<length namespaces]"

definition xattr_privileged :: "credentials option \<Rightarrow> bool" where
  "xattr_privileged current = (case current of None \<Rightarrow> True | Some cred \<Rightarrow> c_fsuid cred = 0)"

definition may_read :: "credentials option \<Rightarrow> nat option \<Rightarrow> unit result" where
  "may_read current space = (if space = Some 1 \<and> \<not> xattr_privileged current then Inl ENODATA else Inr ())"

definition may_write :: "group_heap \<Rightarrow> credentials option \<Rightarrow> vfs_node \<Rightarrow> nat \<Rightarrow> unit result" where
  "may_write h current node space =
     (if n_flags node AND VFS_READONLY \<noteq> 0 then Inl EROFS
      else if space = 0 then
        (if n_flags node AND 0xFF \<noteq> VFS_FILE \<and> n_flags node AND 0xFF \<noteq> VFS_DIRECTORY then Inl EPERM
         else case cred_may h current (Some node) CRED_WRITE of Inl _ \<Rightarrow> Inl EACCES | Inr _ \<Rightarrow> Inr ())
      else if xattr_privileged current then Inr () else Inl EPERM)"

section \<open>The list of attributes\<close>

definition find_xattr :: "vfs_node \<Rightarrow> string \<Rightarrow> vfs_xattr option" where
  "find_xattr node name = find (\<lambda>attr. xname attr = name) (xattrs node)"

definition xattr_bytes :: "vfs_xattr \<Rightarrow> nat" where
  "xattr_bytes attr = length (xname attr) + 1 + length (xvalue attr)"

definition total_bytes :: "vfs_node \<Rightarrow> nat" where
  "total_bytes node = foldl (\<lambda>total attr. total + xattr_bytes attr) 0 (xattrs node)"

definition unlink_attr :: "vfs_node \<Rightarrow> vfs_xattr \<Rightarrow> vfs_node" where
  "unlink_attr node target = node\<lparr>xattrs := remove1 target (xattrs node)\<rparr>"

text \<open>
  \<open>room\<close> says whether the allocator had memory for the attribute and for its value.
\<close>

definition store :: "bool \<times> bool \<Rightarrow> vfs_node \<Rightarrow> string \<Rightarrow> u8 list \<Rightarrow> nat \<Rightarrow> vfs_node result" where
  "store room node name val sz =
     (if \<not> fst room then Inl ENOMEM
      else if sz \<noteq> 0 \<and> \<not> snd room then Inl ENOMEM
      else
        let attr = \<lparr>xname = name, xvalue = take sz val\<rparr>;
            node1 = (case find_xattr node name of Some old \<Rightarrow> unlink_attr node old | None \<Rightarrow> node)
        in Inr (node1\<lparr>xattrs := xattrs node1 @ [attr]\<rparr>))"

section \<open>Operations\<close>

definition vfs_xattr_get :: "credentials option \<Rightarrow> vfs_node \<Rightarrow> string \<Rightarrow> u8 list \<Rightarrow> nat \<Rightarrow> nat result \<times> u8 list" where
  "vfs_xattr_get current node name out sz =
     (case known_namespace name of
        None \<Rightarrow> (Inl EOPNOTSUPP, out)
      | Some space \<Rightarrow>
          (case may_read current (Some space) of
             Inl e \<Rightarrow> (Inl e, out)
           | Inr _ \<Rightarrow>
               (case find_xattr node name of
                  None \<Rightarrow> (Inl ENODATA, out)
                | Some attr \<Rightarrow>
                    if sz \<noteq> 0 \<and> sz < length (xvalue attr) then (Inl ERANGE, out)
                    else if sz \<noteq> 0 \<and> length (xvalue attr) \<noteq> 0
                    then (Inr (length (xvalue attr)), copy_into out 0 (xvalue attr))
                    else (Inr (length (xvalue attr)), out))))"

definition vfs_xattr_set ::
    "u64 \<Rightarrow> u64 \<Rightarrow> bool \<times> bool \<Rightarrow> group_heap \<Rightarrow> credentials option \<Rightarrow> vfs_node \<Rightarrow> string \<Rightarrow> u8 list \<Rightarrow> nat \<Rightarrow> u32 \<Rightarrow>
     unit result \<times> vfs_node" where
  "vfs_xattr_set clock clock' room h current node name val sz flags =
     (case known_namespace name of
        None \<Rightarrow> (Inl EOPNOTSUPP, node)
      | Some space \<Rightarrow>
          if length name > VFS_XATTR_NAME_MAX then (Inl ERANGE, node)
          else if flags AND NOT (XATTR_CREATE OR XATTR_REPLACE) \<noteq> 0 then (Inl EINVAL, node)
          else case may_write h current node space of
            Inl e \<Rightarrow> (Inl e, node)
          | Inr _ \<Rightarrow>
              let attr = find_xattr node name
              in if flags AND XATTR_CREATE \<noteq> 0 \<and> attr \<noteq> None then (Inl EEXIST, node)
                 else if flags AND XATTR_REPLACE \<noteq> 0 \<and> attr = None then (Inl ENODATA, node)
                 else if total_bytes node -
                     (case attr of Some a \<Rightarrow> length name + 1 + length (xvalue a) | None \<Rightarrow> 0) + length name + 1 + sz
                     > VFS_XATTR_TOTAL_MAX
                 then (Inl ENOSPC, node)
                 else case store room node name val sz of
                        Inl e \<Rightarrow> (Inl e, node)
                      | Inr node1 \<Rightarrow>
                          (Inr (), vfs_notify_meta_changed clock'
                             (vfs_stamp_times clock (node1\<lparr>xattr_dirty := True\<rparr>) VFS_TIME_CTIME)))"

definition vfs_xattr_remove ::
    "u64 \<Rightarrow> u64 \<Rightarrow> group_heap \<Rightarrow> credentials option \<Rightarrow> vfs_node \<Rightarrow> string \<Rightarrow> unit result \<times> vfs_node" where
  "vfs_xattr_remove clock clock' h current node name =
     (case known_namespace name of
        None \<Rightarrow> (Inl EOPNOTSUPP, node)
      | Some space \<Rightarrow>
          (case may_write h current node space of
             Inl e \<Rightarrow> (Inl e, node)
           | Inr _ \<Rightarrow>
               (case find_xattr node name of
                  None \<Rightarrow> (Inl ENODATA, node)
                | Some attr \<Rightarrow>
                    (Inr (), vfs_notify_meta_changed clock'
                       (vfs_stamp_times clock ((unlink_attr node attr)\<lparr>xattr_dirty := True\<rparr>) VFS_TIME_CTIME)))))"

text \<open>
  The loop of \<^verbatim>\<open>vfs_xattr_list\<close>: the bytes listed so far and the buffer.
\<close>

fun list_loop :: "credentials option \<Rightarrow> nat \<Rightarrow> vfs_xattr list \<Rightarrow> nat \<Rightarrow> char list \<Rightarrow> nat result \<times> char list" where
  "list_loop current sz [] used out = (Inr used, out)"
| "list_loop current sz (attr # attrs) used out =
     (case may_read current (known_namespace (xname attr)) of
        Inl _ \<Rightarrow> list_loop current sz attrs used out
      | Inr _ \<Rightarrow>
          let len = length (xname attr) + 1
          in if sz \<noteq> 0 then
               (if used + len > sz then (Inl ERANGE, out)
                else list_loop current sz attrs (used + len) (copy_into out used (xname attr @ [CHR 0x00])))
             else list_loop current sz attrs (used + len) out)"

definition vfs_xattr_list :: "credentials option \<Rightarrow> vfs_node \<Rightarrow> char list \<Rightarrow> nat \<Rightarrow> nat result \<times> char list" where
  "vfs_xattr_list current node out sz = list_loop current sz (xattrs node) 0 out"

definition vfs_xattr_import :: "bool \<times> bool \<Rightarrow> vfs_node \<Rightarrow> string \<Rightarrow> u8 list \<Rightarrow> nat \<Rightarrow> vfs_node result" where
  "vfs_xattr_import room node name val sz =
     (if known_namespace name = None \<or> length name > VFS_XATTR_NAME_MAX then Inl EOPNOTSUPP
      else store room node name val sz)"

definition vfs_xattr_release :: "vfs_node \<Rightarrow> vfs_node" where
  "vfs_xattr_release node = node\<lparr>xattrs := []\<rparr>"

section \<open>The system call\<close>

datatype xattr_op = XATTR_GET | XATTR_SET | XATTR_REMOVE | XATTR_LIST

text \<open>
  What the call copies back to user space. The kernel buffer holds \<open>size\<close> bytes; reading more than that from it is
  \<open>Overread\<close>.
\<close>

datatype copied = Nothing | Bytes "u8 list" | Names "char list" | Overread

definition copy_bytes :: "u8 list \<Rightarrow> nat \<Rightarrow> copied" where
  "copy_bytes buffer n = (if n \<le> length buffer then Bytes (take n buffer) else Overread)"

definition copy_names :: "char list \<Rightarrow> nat \<Rightarrow> copied" where
  "copy_names buffer n = (if n \<le> length buffer then Names (take n buffer) else Overread)"

text \<open>
  What the call needs from outside: the two clock readings, whether the allocations succeed, the heap of group blocks, the
  credentials, the name read from user space or the error reading it gave, the bytes read from user space, \<open>None\<close> when
  they cannot be read, the contents of a fresh kernel buffer of a given size, and whether user memory can be written.
\<close>

record xattr_env =
  clock1 :: u64
  clock2 :: u64
  acl_room :: bool
  attr_room :: "bool \<times> bool"
  buffer_room :: bool
  gheap :: group_heap
  current_cred :: "credentials option"
  user_name :: "string result"
  user_value :: "nat \<Rightarrow> u8 list option"
  fresh_bytes :: "nat \<Rightarrow> u8 list"
  fresh_chars :: "nat \<Rightarrow> char list"
  writable :: bool

definition is_posix_acl :: "string \<Rightarrow> bool" where
  "is_posix_acl name \<longleftrightarrow> take 7 name = ''system.''"

definition as_length :: "unit result \<Rightarrow> nat result" where
  "as_length r = (case r of Inl e \<Rightarrow> Inl e | Inr _ \<Rightarrow> Inr 0)"

definition deliver :: "xattr_env \<Rightarrow> nat \<Rightarrow> nat result \<Rightarrow> (nat \<Rightarrow> copied) \<Rightarrow> nat result \<times> copied" where
  "deliver env sz r copy =
     (case r of
        Inl e \<Rightarrow> (Inl e, Nothing)
      | Inr n \<Rightarrow> if n > 0 \<and> sz \<noteq> 0 then (if writable env then (Inr n, copy n) else (Inl EFAULT, Nothing)) else (Inr n, Nothing))"

definition xattr_list_names :: "xattr_env \<Rightarrow> vfs_node \<Rightarrow> nat \<Rightarrow> nat result \<times> char list" where
  "xattr_list_names env node sz =
     (case acl_xattr_list node (fresh_chars env sz) sz of
        (Inl e, out) \<Rightarrow> (Inl e, out)
      | (Inr n, out) \<Rightarrow>
          (case vfs_xattr_list (current_cred env) node (drop n out) (if sz \<noteq> 0 then sz - n else 0) of
             (Inl e, rest) \<Rightarrow> (Inl e, take n out @ rest)
           | (Inr m, rest) \<Rightarrow> (Inr (n + m), take n out @ rest)))"

definition xattr_run :: "xattr_env \<Rightarrow> vfs_node \<Rightarrow> xattr_op \<Rightarrow> string \<Rightarrow> nat \<Rightarrow> u32 \<Rightarrow> nat result \<times> vfs_node \<times> copied" where
  "xattr_run env node op name sz flags =
     (case op of
        XATTR_SET \<Rightarrow>
          (case (if sz = 0 then Some [] else user_value env sz) of
             None \<Rightarrow> (Inl EFAULT, node, Nothing)
           | Some val \<Rightarrow>
               let (r, node') =
                 (if is_posix_acl name
                  then acl_xattr_set (clock1 env) (clock2 env) (acl_room env) (current_cred env) node name
                         (if sz = 0 then None else Some val) sz flags
                  else vfs_xattr_set (clock1 env) (clock2 env) (attr_room env) (gheap env) (current_cred env) node name val sz flags)
               in (as_length r, node', Nothing))
      | XATTR_REMOVE \<Rightarrow>
          let (r, node') =
            (if is_posix_acl name then acl_xattr_remove (clock1 env) (clock2 env) (current_cred env) node name
             else vfs_xattr_remove (clock1 env) (clock2 env) (gheap env) (current_cred env) node name)
          in (as_length r, node', Nothing)
      | XATTR_GET \<Rightarrow>
          let (r, out) =
                (if is_posix_acl name then acl_xattr_get node name (fresh_bytes env sz) sz
                 else vfs_xattr_get (current_cred env) node name (fresh_bytes env sz) sz);
              (r', c) = deliver env sz r (copy_bytes out)
          in (r', node, c)
      | XATTR_LIST \<Rightarrow>
          let (r, out) = xattr_list_names env node sz;
              (r', c) = deliver env sz r (copy_names out)
          in (r', node, c))"

definition xattr_on_node :: "xattr_env \<Rightarrow> vfs_node option \<Rightarrow> xattr_op \<Rightarrow> nat \<Rightarrow> u32 \<Rightarrow> nat result \<times> vfs_node option \<times> copied" where
  "xattr_on_node env target op sz0 flags =
     (case (if op = XATTR_LIST then Inr [] else user_name env) of
        Inl e \<Rightarrow> (Inl e, target, Nothing)
      | Inr name \<Rightarrow>
          if op \<noteq> XATTR_LIST \<and> name = [] then (Inl ERANGE, target, Nothing)
          else if sz0 > XATTR_VALUE_MAX \<and> op = XATTR_SET then (Inl E2BIG, target, Nothing)
          else
            let sz = min sz0 XATTR_VALUE_MAX
            in case target of
                 None \<Rightarrow>
                   ((if op = XATTR_SET then Inl EOPNOTSUPP else if op = XATTR_LIST then Inr 0 else Inl ENODATA), None, Nothing)
               | Some node \<Rightarrow>
                   if sz \<noteq> 0 \<and> \<not> buffer_room env then (Inl ENOMEM, target, Nothing)
                   else (case xattr_run env node op name sz flags of (r, node', c) \<Rightarrow> (r, Some node', c)))"

section \<open>Attributes as a map\<close>

definition attr_of :: "vfs_node \<Rightarrow> string \<Rightarrow> u8 list option" where
  "attr_of node name = map_option xvalue (find_xattr node name)"

definition xattr_ok :: "vfs_node \<Rightarrow> bool" where
  "xattr_ok node \<longleftrightarrow> distinct (map xname (xattrs node)) \<and>
     (\<forall>attr \<in> set (xattrs node). known_namespace (xname attr) \<noteq> None \<and> length (xname attr) \<le> VFS_XATTR_NAME_MAX) \<and>
     total_bytes node \<le> VFS_XATTR_TOTAL_MAX"

lemma total_bytes_sum: "total_bytes node = sum_list (map xattr_bytes (xattrs node))"
proof -
  have "foldl (\<lambda>total attr. total + xattr_bytes attr) n attrs = n + sum_list (map xattr_bytes attrs)" for n attrs
    by (induction attrs arbitrary: n) simp_all
  then show ?thesis by (simp add: total_bytes_def)
qed

lemma find_xattr_Some:
  assumes "find_xattr node name = Some attr"
  shows "attr \<in> set (xattrs node)" "xname attr = name"
  using assms by (auto simp: find_xattr_def find_Some_iff)

lemma find_remove1:
  assumes "distinct (map xname attrs)" "old \<in> set attrs"
  shows "find (\<lambda>attr. xname attr = name) (remove1 old attrs) =
    (if name = xname old then None else find (\<lambda>attr. xname attr = name) attrs)"
proof (cases "name = xname old")
  case True
  have "xname old \<notin> xname ` set (remove1 old attrs)" using assms
  proof (induction attrs)
    case (Cons attr attrs)
    show ?case
    proof (cases "attr = old")
      case True
      then show ?thesis using Cons.prems(1) by simp
    next
      case False
      then have "old \<in> set attrs" "xname attr \<noteq> xname old" using Cons.prems by auto
      then show ?thesis using Cons False by simp
    qed
  qed simp
  then show ?thesis using True by (auto simp: find_None_iff) (metis image_eqI)
next
  case False
  then show ?thesis by (induction attrs) auto
qed

lemma find_xattr_None: "find_xattr node name = None \<longleftrightarrow> name \<notin> xname ` set (xattrs node)"
  by (auto simp: find_xattr_def find_None_iff)

lemma find_append: "find P (xs @ ys) = (case find P xs of Some x \<Rightarrow> Some x | None \<Rightarrow> find P ys)"
  by (induction xs) auto

lemma sum_remove1: "old \<in> set attrs \<Longrightarrow> sum_list (map xattr_bytes (remove1 old attrs)) + xattr_bytes old = sum_list (map xattr_bytes attrs)"
  by (induction attrs) auto

lemma distinct_remove1_map: "distinct (map f xs) \<Longrightarrow> distinct (map f (remove1 x xs))"
proof (induction xs)
  case (Cons y xs)
  then show ?case using set_remove1_subset [of x xs] by auto
qed simp

lemma unlink_attr_facts:
  assumes "distinct (map xname (xattrs node))" "find_xattr node name = Some old"
  shows "attr_of (unlink_attr node old) = (attr_of node)(name := None)"
    "distinct (map xname (xattrs (unlink_attr node old)))" "set (xattrs (unlink_attr node old)) \<subseteq> set (xattrs node)"
    "name \<notin> xname ` set (xattrs (unlink_attr node old))"
    "total_bytes (unlink_attr node old) + xattr_bytes old = total_bytes node"
proof -
  have old: "old \<in> set (xattrs node)" "xname old = name" by (rule find_xattr_Some [OF assms(2)])+
  have f: "find_xattr (unlink_attr node old) n = (if n = name then None else find_xattr node n)" for n
    using find_remove1 [OF assms(1) old(1), of n] old(2) by (simp add: find_xattr_def unlink_attr_def)
  then show "attr_of (unlink_attr node old) = (attr_of node)(name := None)" by (auto simp: attr_of_def)
  show "distinct (map xname (xattrs (unlink_attr node old)))"
    using assms(1) by (simp add: unlink_attr_def distinct_remove1_map)
  show "set (xattrs (unlink_attr node old)) \<subseteq> set (xattrs node)"
    by (simp add: unlink_attr_def set_remove1_subset)
  show "name \<notin> xname ` set (xattrs (unlink_attr node old))"
    using f [of name] by (simp add: find_xattr_None)
  show "total_bytes (unlink_attr node old) + xattr_bytes old = total_bytes node"
    using sum_remove1 [OF old(1)] by (simp add: total_bytes_sum unlink_attr_def)
qed

lemma store_facts:
  assumes "distinct (map xname (xattrs node))" "store room node name val sz = Inr node'" "sz \<le> length val"
  shows "attr_of node' = (attr_of node)(name \<mapsto> take sz val)" "distinct (map xname (xattrs node'))"
    "set (xattrs node') \<subseteq> insert \<lparr>xname = name, xvalue = take sz val\<rparr> (set (xattrs node))"
    "total_bytes node' = total_bytes node - (case find_xattr node name of Some a \<Rightarrow> xattr_bytes a | None \<Rightarrow> 0) + length name + 1 + sz"
proof -
  let ?attr = "\<lparr>xname = name, xvalue = take sz val\<rparr>"
  define node1 where "node1 = (case find_xattr node name of Some old \<Rightarrow> unlink_attr node old | None \<Rightarrow> node)"
  have n': "node' = node1\<lparr>xattrs := xattrs node1 @ [?attr]\<rparr>"
    using assms(2) by (simp add: store_def node1_def Let_def split: if_split_asm)
  have one: "attr_of node1 = (attr_of node)(name := None)" "distinct (map xname (xattrs node1))"
    "set (xattrs node1) \<subseteq> set (xattrs node)" "name \<notin> xname ` set (xattrs node1)"
    "total_bytes node1 = total_bytes node - (case find_xattr node name of Some a \<Rightarrow> xattr_bytes a | None \<Rightarrow> 0)"
  proof -
    show "attr_of node1 = (attr_of node)(name := None)"
      using unlink_attr_facts(1) [OF assms(1)] by (cases "find_xattr node name") (auto simp: node1_def attr_of_def)
    show "distinct (map xname (xattrs node1))"
      using unlink_attr_facts(2) [OF assms(1)] assms(1) by (cases "find_xattr node name") (auto simp: node1_def)
    show "set (xattrs node1) \<subseteq> set (xattrs node)"
      using unlink_attr_facts(3) [OF assms(1)] by (cases "find_xattr node name") (auto simp: node1_def)
    show "name \<notin> xname ` set (xattrs node1)"
      using unlink_attr_facts(4) [OF assms(1)] find_xattr_None [of node name]
      by (cases "find_xattr node name") (simp_all add: node1_def)
    show "total_bytes node1 = total_bytes node - (case find_xattr node name of Some a \<Rightarrow> xattr_bytes a | None \<Rightarrow> 0)"
    proof (cases "find_xattr node name")
      case (Some a)
      have "total_bytes (unlink_attr node a) + xattr_bytes a = total_bytes node" by (rule unlink_attr_facts(5) [OF assms(1) Some])
      then show ?thesis using Some by (simp add: node1_def)
    qed (simp add: node1_def)
  qed
  have none: "find_xattr node1 name = None" using one(4) by (simp add: find_xattr_None)
  have "find_xattr node' n = (if n = name then Some ?attr else find_xattr node1 n)" for n
    using none by (auto simp: n' find_xattr_def find_append split: option.split)
  then show "attr_of node' = (attr_of node)(name \<mapsto> take sz val)"
    using one(1) by (auto simp: attr_of_def fun_eq_iff split: if_split_asm)
  show "distinct (map xname (xattrs node'))" using one(2,4) by (simp add: n')
  show "set (xattrs node') \<subseteq> insert ?attr (set (xattrs node))" using one(3) by (auto simp: n')
  show "total_bytes node' = total_bytes node - (case find_xattr node name of Some a \<Rightarrow> xattr_bytes a | None \<Rightarrow> 0) + length name + 1 + sz"
    using one(5) assms(3) by (simp add: n' total_bytes_sum xattr_bytes_def)
qed

lemma attr_of_frame [simp]:
  "attr_of (vfs_notify_meta_changed clock node) = attr_of node"
  "attr_of (node\<lparr>xattr_dirty := d\<rparr>) = attr_of node"
  "attr_of (node\<lparr>ctime := t, ctime_ns := n\<rparr>) = attr_of node"
  by (auto simp: attr_of_def find_xattr_def fun_eq_iff)

lemma xattr_ok_frame [simp]:
  "xattr_ok (vfs_notify_meta_changed clock node) = xattr_ok node"
  "xattr_ok (node\<lparr>xattr_dirty := d\<rparr>) = xattr_ok node"
  "xattr_ok (node\<lparr>ctime := t, ctime_ns := n\<rparr>) = xattr_ok node"
  by (simp_all add: xattr_ok_def total_bytes_def)

lemma vfs_xattr_set_success:
  assumes "vfs_xattr_set clock clock' room h current node name val sz flags = (Inr (), node')"
  obtains node1 where "store room node name val sz = Inr node1" "known_namespace name \<noteq> None" "length name \<le> VFS_XATTR_NAME_MAX"
    "total_bytes node - (case find_xattr node name of Some a \<Rightarrow> length name + 1 + length (xvalue a) | None \<Rightarrow> 0)
       + length name + 1 + sz \<le> VFS_XATTR_TOTAL_MAX"
    "node' = vfs_notify_meta_changed clock' (vfs_stamp_times clock (node1\<lparr>xattr_dirty := True\<rparr>) VFS_TIME_CTIME)"
proof -
  obtain space where space: "known_namespace name = Some space"
    using assms by (cases "known_namespace name") (simp_all add: vfs_xattr_set_def)
  obtain u where "may_write h current node space = Inr u"
    using assms space by (cases "may_write h current node space") (simp_all add: vfs_xattr_set_def split: if_split_asm)
  moreover obtain node1 where "store room node name val sz = Inr node1"
    using assms space calculation
    by (cases "store room node name val sz") (simp_all add: vfs_xattr_set_def Let_def split: if_split_asm)
  ultimately show thesis
    using assms space that [of node1] by (simp add: vfs_xattr_set_def Let_def split: if_split_asm)
qed

lemma xattr_bytes_found: "find_xattr node name = Some a \<Longrightarrow> xattr_bytes a = length name + 1 + length (xvalue a)"
  using find_xattr_Some(2) by (fastforce simp: xattr_bytes_def)

lemma vfs_xattr_set_ok:
  assumes "xattr_ok node" "sz \<le> length val" "vfs_xattr_set clock clock' room h current node name val sz flags = (Inr (), node')"
  shows "xattr_ok node'" "attr_of node' = (attr_of node)(name \<mapsto> take sz val)"
proof -
  obtain node1 where n: "store room node name val sz = Inr node1" "known_namespace name \<noteq> None" "length name \<le> VFS_XATTR_NAME_MAX"
    "total_bytes node - (case find_xattr node name of Some a \<Rightarrow> length name + 1 + length (xvalue a) | None \<Rightarrow> 0)
       + length name + 1 + sz \<le> VFS_XATTR_TOTAL_MAX"
    "node' = vfs_notify_meta_changed clock' (vfs_stamp_times clock (node1\<lparr>xattr_dirty := True\<rparr>) VFS_TIME_CTIME)"
    by (rule vfs_xattr_set_success [OF assms(3)])
  have d: "distinct (map xname (xattrs node))" using assms(1) by (simp add: xattr_ok_def)
  note f = store_facts [OF d n(1) assms(2)]
  have "total_bytes node1 \<le> VFS_XATTR_TOTAL_MAX"
    using n(4) f(4) xattr_bytes_found [of node name] by (cases "find_xattr node name") simp_all
  moreover have "\<forall>attr \<in> set (xattrs node1). known_namespace (xname attr) \<noteq> None \<and> length (xname attr) \<le> VFS_XATTR_NAME_MAX"
    using f(3) n(2,3) assms(1) by (auto simp: xattr_ok_def)
  ultimately have "xattr_ok node1" using f(2) by (simp add: xattr_ok_def)
  then show "xattr_ok node'" by (simp add: n(5))
  show "attr_of node' = (attr_of node)(name \<mapsto> take sz val)" using f(1) by (simp add: n(5))
qed

lemma vfs_xattr_remove_ok:
  assumes "xattr_ok node" "vfs_xattr_remove clock clock' h current node name = (Inr (), node')"
  shows "xattr_ok node'" "attr_of node' = (attr_of node)(name := None)"
proof -
  obtain space where space: "known_namespace name = Some space"
    using assms(2) by (cases "known_namespace name") (simp_all add: vfs_xattr_remove_def)
  obtain u where "may_write h current node space = Inr u"
    using assms(2) space by (cases "may_write h current node space") (simp_all add: vfs_xattr_remove_def)
  then obtain old where old: "find_xattr node name = Some old"
    using assms(2) space by (cases "find_xattr node name") (simp_all add: vfs_xattr_remove_def)
  have n': "node' = vfs_notify_meta_changed clock' (vfs_stamp_times clock ((unlink_attr node old)\<lparr>xattr_dirty := True\<rparr>) VFS_TIME_CTIME)"
    using assms(2) space \<open>may_write h current node space = Inr u\<close> old by (simp add: vfs_xattr_remove_def)
  have d: "distinct (map xname (xattrs node))" using assms(1) by (simp add: xattr_ok_def)
  note f = unlink_attr_facts [OF d old]
  have "xattr_ok (unlink_attr node old)" using assms(1) f(2,3,5) by (auto simp: xattr_ok_def)
  then show "xattr_ok node'" by (simp add: n')
  show "attr_of node' = (attr_of node)(name := None)" using f(1) by (simp add: n')
qed

lemma vfs_xattr_get_spec:
  assumes "known_namespace name = Some space" "may_read current (Some space) = Inr ()"
  shows "vfs_xattr_get current node name out sz =
    (case attr_of node name of
       None \<Rightarrow> (Inl ENODATA, out)
     | Some val \<Rightarrow> if sz = 0 then (Inr (length val), out) else if sz < length val then (Inl ERANGE, out)
         else (Inr (length val), copy_into out 0 val))"
  using assms by (cases "find_xattr node name") (auto simp: vfs_xattr_get_def attr_of_def)

section \<open>Staying inside the buffer\<close>

definition readable_bytes :: "credentials option \<Rightarrow> vfs_xattr list \<Rightarrow> nat" where
  "readable_bytes current attrs =
     sum_list (map (\<lambda>attr. length (xname attr) + 1)
       (filter (\<lambda>attr. may_read current (known_namespace (xname attr)) = Inr ()) attrs))"

lemma list_loop_query: "list_loop current 0 attrs used out = (Inr (used + readable_bytes current attrs), out)"
proof (induction attrs arbitrary: used)
  case (Cons attr attrs)
  then show ?case by (cases "may_read current (known_namespace (xname attr))") (simp_all add: readable_bytes_def)
qed (simp add: readable_bytes_def)

lemma list_loop_bounds:
  assumes "sz \<noteq> 0" "sz \<le> length out" "used \<le> sz" "list_loop current sz attrs used out = (Inr n, out')"
  shows "n \<le> sz \<and> length out' = length out"
  using assms(2-4)
proof (induction attrs arbitrary: used out)
  case (Cons attr attrs)
  show ?case
  proof (cases "may_read current (known_namespace (xname attr))")
    case (Inl e)
    with Cons show ?thesis by simp
  next
    case (Inr u)
    have fits: "used + (length (xname attr) + 1) \<le> sz"
      and rest: "list_loop current sz attrs (used + (length (xname attr) + 1)) (copy_into out used (xname attr @ [CHR 0x00])) = (Inr n, out')"
      using Cons.prems(3) Inr assms(1) by (simp_all add: Let_def split: if_split_asm)
    have len: "length (copy_into out used (xname attr @ [CHR 0x00])) = length out" using fits Cons.prems(1) by simp
    from Cons.IH [OF _ fits rest] len Cons.prems(1) show ?thesis by simp
  qed
qed simp

lemma readable_bytes_0: "readable_bytes current attrs = 0 \<longleftrightarrow> (\<forall>attr \<in> set attrs. may_read current (known_namespace (xname attr)) \<noteq> Inr ())"
  by (auto simp: readable_bytes_def)

lemma length_acl_name: "length ACL_XATTR_ACCESS = 23"
  by simp

lemma copy_names_over: "copy_names out n = Overread \<longleftrightarrow> n > length out"
  by (simp add: copy_names_def)

lemma copy_bytes_over: "copy_bytes out n = Overread \<longleftrightarrow> n > length out"
  by (simp add: copy_bytes_def)

lemma deliver_over:
  "snd (deliver env sz r copy) = Overread \<longleftrightarrow> (\<exists>n. r = Inr n \<and> n > 0 \<and> sz \<noteq> 0 \<and> writable env \<and> copy n = Overread)"
  by (auto simp: deliver_def split: sum.split)

lemma xattr_list_names_over:
  assumes "length (fresh_chars env sz) = sz" "sz \<noteq> 0"
  shows "(\<exists>n. fst (xattr_list_names env node sz) = Inr n \<and> n > length (snd (xattr_list_names env node sz))) \<longleftrightarrow>
    sz = 24 \<and> acl node \<noteq> None \<and> readable_bytes (current_cred env) (xattrs node) > 0"
proof (cases "acl node")
  case None
  have l: "xattr_list_names env node sz = (case list_loop (current_cred env) sz (xattrs node) 0 (fresh_chars env sz) of
      (Inl e, rest) \<Rightarrow> (Inl e, rest) | (Inr m, rest) \<Rightarrow> (Inr m, rest))"
    using None assms(2) by (simp add: xattr_list_names_def acl_xattr_list_def vfs_xattr_list_def split: prod.split sum.split)
  show ?thesis
  proof (cases "list_loop (current_cred env) sz (xattrs node) 0 (fresh_chars env sz)")
    case (Pair r out)
    show ?thesis
    proof (cases r)
      case (Inr n)
      have "n \<le> sz \<and> length out = length (fresh_chars env sz)"
        using list_loop_bounds [OF assms(2), of "fresh_chars env sz" 0 "current_cred env" "xattrs node" n out] assms(1) Pair Inr
        by simp
      then show ?thesis using l Pair Inr None assms(1) by simp
    qed (use l Pair None in simp)
  qed
next
  case (Some a)
  let ?acl = "acl_xattr_list node (fresh_chars env sz) sz"
  consider "sz < 24" | "sz = 24" | "sz > 24" by linarith
  then show ?thesis
  proof cases
    case 1
    then have "?acl = (Inl ERANGE, fresh_chars env sz)" using Some assms(2) by (simp add: acl_xattr_list_def)
    with 1 show ?thesis by (simp add: xattr_list_names_def)
  next
    case 2
    then have "?acl = (Inr 24, copy_into (fresh_chars env sz) 0 (ACL_XATTR_ACCESS @ [CHR 0x00]))"
      using Some by (simp add: acl_xattr_list_def)
    moreover have "length (copy_into (fresh_chars env sz) 0 (ACL_XATTR_ACCESS @ [CHR 0x00])) = 24"
      using 2 assms(1) by (subst length_copy_into) simp_all
    ultimately show ?thesis
      using 2 Some by (simp add: xattr_list_names_def vfs_xattr_list_def list_loop_query)
  next
    case 3
    define out where "out = copy_into (fresh_chars env sz) 0 (ACL_XATTR_ACCESS @ [CHR 0x00])"
    have len: "length out = sz" using 3 assms(1) unfolding out_def by (subst length_copy_into) simp_all
    have "?acl = (Inr 24, out)" using 3 Some by (simp add: acl_xattr_list_def out_def)
    then have l: "xattr_list_names env node sz = (case list_loop (current_cred env) (sz - 24) (xattrs node) 0 (drop 24 out) of
        (Inl e, rest) \<Rightarrow> (Inl e, take 24 out @ rest) | (Inr m, rest) \<Rightarrow> (Inr (24 + m), take 24 out @ rest))"
      using assms(2) by (simp add: xattr_list_names_def vfs_xattr_list_def)
    show ?thesis
    proof (cases "list_loop (current_cred env) (sz - 24) (xattrs node) 0 (drop 24 out)")
      case (Pair r rest)
      show ?thesis
      proof (cases r)
        case (Inr n)
        have "n \<le> sz - 24 \<and> length rest = length (drop 24 out)"
          using list_loop_bounds [of "sz - 24" "drop 24 out" 0 "current_cred env" "xattrs node" n rest] 3 len Pair Inr by simp
        then have "24 + n \<le> sz" "length rest = sz - 24" using 3 len by auto
        then show ?thesis using l Pair Inr 3 len by simp
      qed (use l Pair 3 in simp)
    qed
  qed
qed

lemma acl_get_inside:
  assumes "length out = sz" "acl_xattr_get node name out sz = (Inr n, out')" "sz \<noteq> 0"
  shows "n \<le> length out'"
proof -
  obtain a where a: "acl node = Some a" "name = ACL_XATTR_ACCESS"
    using assms(2) by (auto simp: acl_xattr_get_def is_access_def split: if_split_asm option.split_asm)
  have room: "length (entries a) * 8 + 36 \<le> length out"
    using assms a by (auto simp: acl_xattr_get_def is_access_def Let_def split: if_split_asm)
  have ug: "length (canonical (n_mode node) a) \<le> length (entries a) + 4"
    using length_two_tags [of ACL_USER ACL_GROUP "entries a"] by (simp add: canonical_def)
  have "n = length (entries a) * 8 + 36"
    "out' = copy_into out 0 (le32_bytes_of ACL_VERSION @ encode (canonical (n_mode node) a))"
    using acl_xattr_get_bytes [OF a(1) room] assms(1,2) a(2) by simp_all
  moreover have "length (copy_into out 0 (le32_bytes_of ACL_VERSION @ encode (canonical (n_mode node) a))) = length out"
    using room ug by (intro length_copy_into) (simp add: le32_bytes_of_def)
  ultimately show ?thesis using room by simp
qed

lemma vfs_get_inside:
  assumes "length out = sz" "vfs_xattr_get current node name out sz = (Inr n, out')" "sz \<noteq> 0"
  shows "n \<le> length out'"
  using assms
  by (auto simp: vfs_xattr_get_def split: option.split_asm sum.split_asm if_split_asm)

lemma xattr_get_no_overread:
  assumes "length (fresh_bytes env sz) = sz"
  shows "snd (snd (xattr_run env node XATTR_GET name sz flags)) \<noteq> Overread"
proof -
  obtain r out where ro: "(if is_posix_acl name then acl_xattr_get node name (fresh_bytes env sz) sz
      else vfs_xattr_get (current_cred env) node name (fresh_bytes env sz) sz) = (r, out)" by (metis surj_pair)
  have "n \<le> length out" if "r = Inr n" "sz \<noteq> 0" for n
    using ro that acl_get_inside [OF assms] vfs_get_inside [OF assms] by (auto split: if_split_asm)
  then have "snd (deliver env sz r (copy_bytes out)) \<noteq> Overread"
    by (auto simp: deliver_over copy_bytes_over)
  then show ?thesis by (cases "deliver env sz r (copy_bytes out)") (simp add: xattr_run_def ro)
qed

lemma xattr_list_overread_iff:
  assumes "length (fresh_chars env sz) = sz"
  shows "snd (snd (xattr_run env node XATTR_LIST name sz flags)) = Overread \<longleftrightarrow>
    sz = 24 \<and> writable env \<and> acl node \<noteq> None \<and> readable_bytes (current_cred env) (xattrs node) > 0"
proof -
  obtain r out where ro: "xattr_list_names env node sz = (r, out)" by (metis surj_pair)
  have "snd (snd (xattr_run env node XATTR_LIST name sz flags)) = snd (deliver env sz r (copy_names out))"
    by (cases "deliver env sz r (copy_names out)") (simp add: xattr_run_def ro)
  also have "\<dots> = Overread \<longleftrightarrow> sz \<noteq> 0 \<and> writable env \<and> (\<exists>n. r = Inr n \<and> n > length out)"
    by (auto simp: deliver_over copy_names_over)
  also have "\<dots> \<longleftrightarrow> sz = 24 \<and> writable env \<and> acl node \<noteq> None \<and> readable_bytes (current_cred env) (xattrs node) > 0"
    using xattr_list_names_over [OF assms, of node] ro by auto
  finally show ?thesis .
qed

section \<open>Properties\<close>

text \<open>
  C26: Setting an attribute and reading it back gives the value, and no other attribute changes. After a
  successful set the node's attributes are the old map updated at the name, every name is
  unique and in a known namespace, the total size is within the limit, and a reader allowed to see the namespace gets exactly the
  bytes stored.
\<close>

theorem xattr_set_get:
  assumes "xattr_ok node" "sz \<le> length val" "vfs_xattr_set clock clock' room h current node name val sz flags = (Inr (), node')"
  shows "xattr_ok node' \<and> attr_of node' = (attr_of node)(name \<mapsto> take sz val) \<and>
    (\<exists>space. known_namespace name = Some space \<and>
       (may_read reader (Some space) = Inr () \<longrightarrow> sz \<le> length out \<longrightarrow> length out \<noteq> 0 \<longrightarrow>
          vfs_xattr_get reader node' name out (length out) = (Inr sz, copy_into out 0 (take sz val))))"
proof -
  note ok = vfs_xattr_set_ok [OF assms]
  obtain space where space: "known_namespace name = Some space"
    using assms(3) by (cases "known_namespace name") (simp_all add: vfs_xattr_set_def)
  have "vfs_xattr_get reader node' name out (length out) = (Inr sz, copy_into out 0 (take sz val))"
    if "may_read reader (Some space) = Inr ()" "sz \<le> length out" "length out \<noteq> 0"
    using that assms(2) ok(2) by (simp add: vfs_xattr_get_spec [OF space that(1)])
  with ok space show ?thesis by blast
qed

theorem xattr_set_get_witness:
  "xattr_ok sample_node \<and>
   (\<exists>node'. vfs_xattr_set 0 0 (True, True) Map.empty None sample_node ''user.a'' [1, 2] 2 0 = (Inr (), node') \<and>
      vfs_xattr_get None node' ''user.a'' [0, 0, 0] 3 = (Inr 2, [1, 2, 0]))"
proof -
  have ok: "xattr_ok sample_node" by (simp add: xattr_ok_def sample_node_def total_bytes_def)
  have space: "known_namespace ''user.a'' = Some 0"
    by (simp add: known_namespace_def namespaces_def in_namespace_def upt_conv_Cons)
  obtain node' where set: "vfs_xattr_set 0 0 (True, True) Map.empty None sample_node ''user.a'' [1, 2] 2 0 = (Inr (), node')"
    by (simp add: vfs_xattr_set_def space may_write_def cred_may_def sample_node_def store_def find_xattr_def total_bytes_def)
  show ?thesis
    using xattr_set_get [OF ok _ set, where reader = None and out = "[0, 0, 0]"] ok set space
    by (simp add: may_read_def xattr_privileged_def copy_into_def numeral_3_eq_3)
qed

text \<open>
  Removing an attribute removes exactly that attribute, and setting or removing an attribute that fails changes
  nothing.
\<close>

lemma xattr_remove_exact:
  assumes "xattr_ok node"
  shows "(case vfs_xattr_remove clock clock' h current node name of
      (Inr _, node') \<Rightarrow> xattr_ok node' \<and> attr_of node' = (attr_of node)(name := None) \<and> attr_of node name \<noteq> None
    | (Inl _, node') \<Rightarrow> node' = node) \<and>
    (case vfs_xattr_set clock clock' room h current node name val sz flags of (Inl _, node') \<Rightarrow> node' = node | (Inr _, _) \<Rightarrow> True)"
proof
  show "case vfs_xattr_remove clock clock' h current node name of
      (Inr _, node') \<Rightarrow> xattr_ok node' \<and> attr_of node' = (attr_of node)(name := None) \<and> attr_of node name \<noteq> None
    | (Inl _, node') \<Rightarrow> node' = node"
  proof (cases "vfs_xattr_remove clock clock' h current node name")
    case (Pair r node')
    show ?thesis
    proof (cases r)
      case (Inl e)
      then show ?thesis using Pair by (auto simp: vfs_xattr_remove_def split: option.split_asm sum.split_asm)
    next
      case (Inr u)
      have "attr_of node name \<noteq> None"
        using Pair Inr by (auto simp: vfs_xattr_remove_def attr_of_def split: option.split_asm sum.split_asm)
      then show ?thesis using vfs_xattr_remove_ok [OF assms] Pair Inr by simp
    qed
  qed
  show "case vfs_xattr_set clock clock' room h current node name val sz flags of (Inl _, node') \<Rightarrow> node' = node | (Inr _, _) \<Rightarrow> True"
    by (auto simp: vfs_xattr_set_def Let_def split: option.split sum.split)
qed

text \<open>
  C27: Which calls read past the kernel buffer. With buffers of the size the call allocates, reading an attribute never copies more than
  the buffer holds; listing the names does so exactly when the buffer has 24 bytes, the node has an access control
  list and there is an extended attribute to list: the name of the list fills the buffer, the remaining size of zero turns the
  second half of the listing into a query for the size, and the sum of both is copied out.
\<close>

theorem xattr_overread_exact:
  assumes "\<And>n. length (fresh_bytes env n) = n" "\<And>n. length (fresh_chars env n) = n"
  shows "snd (snd (xattr_on_node env (Some node) op sz flags)) = Overread \<longleftrightarrow>
    op = XATTR_LIST \<and> sz = 24 \<and> buffer_room env \<and> writable env \<and> acl node \<noteq> None \<and>
    (\<exists>attr \<in> set (xattrs node). may_read (current_cred env) (known_namespace (xname attr)) = Inr ())"
proof -
  have some: "readable_bytes (current_cred env) (xattrs node) > 0 \<longleftrightarrow>
      (\<exists>attr \<in> set (xattrs node). may_read (current_cred env) (known_namespace (xname attr)) = Inr ())"
    using readable_bytes_0 [of "current_cred env" "xattrs node"] by auto
  show ?thesis
  proof (cases op)
    case XATTR_GET
    then show ?thesis using xattr_get_no_overread [OF assms(1), of node]
      by (auto simp: xattr_on_node_def Let_def split: sum.split prod.split) (metis snd_conv)+
  next
    case XATTR_SET
    then show ?thesis by (auto simp: xattr_on_node_def xattr_run_def Let_def split: sum.split prod.split option.split)
  next
    case XATTR_REMOVE
    then show ?thesis by (auto simp: xattr_on_node_def xattr_run_def Let_def split: sum.split prod.split)
  next
    case XATTR_LIST
    have m: "min sz XATTR_VALUE_MAX = 24 \<longleftrightarrow> sz = 24" by linarith
    have "snd (snd (xattr_on_node env (Some node) op sz flags)) = Overread \<longleftrightarrow>
        \<not> (min sz XATTR_VALUE_MAX \<noteq> 0 \<and> \<not> buffer_room env) \<and>
        snd (snd (xattr_run env node XATTR_LIST [] (min sz XATTR_VALUE_MAX) flags)) = Overread"
      using XATTR_LIST by (simp add: xattr_on_node_def Let_def split: prod.split)
    then show ?thesis
      using XATTR_LIST m unfolding xattr_list_overread_iff [OF assms(2)] some by auto
  qed
qed

theorem xattr_overread_exact_witness:
  "\<exists>env node. acl node \<noteq> None \<and> snd (snd (xattr_on_node env (Some node) XATTR_LIST 24 0)) = Overread"
proof -
  let ?env = "\<lparr>clock1 = 0, clock2 = 0, acl_room = True, attr_room = (True, True), buffer_room = True, gheap = Map.empty,
    current_cred = None, user_name = Inr [], user_value = (\<lambda>_. None), fresh_bytes = (\<lambda>n. replicate n 0),
    fresh_chars = (\<lambda>n. replicate n (CHR 0x00)), writable = True\<rparr>"
  let ?node = "sample_node\<lparr>acl := Some \<lparr>group_obj = 0, entries = []\<rparr>, xattrs := [\<lparr>xname = ''user.a'', xvalue = []\<rparr>]\<rparr>"
  have "snd (snd (xattr_on_node ?env (Some ?node) XATTR_LIST 24 0)) = Overread"
    by (subst xattr_overread_exact) (simp_all add: may_read_def xattr_privileged_def)
  then show ?thesis by (intro exI [of _ ?env] exI [of _ ?node]) simp
qed

end
