(* ===== verification/Sysvsem.thy ===== *)
theory Sysvsem
  imports Cred
begin

text \<open>
  System V semaphores, \<^verbatim>\<open>kernel/ipc/sysvsem.c\<close>. A set is identified by its slot in the table, which it keeps while a process sleeps on it.
  Semaphore values and undo amounts are integers; the truncation of an undo amount to 16 bits is written
  out. The lemmas show that a call changes all of its semaphores or none, that values stay within
  their range, that every change of a value wakes the sleepers, what undoing at exit restores, and where the undo amount wraps
  around.
\<close>

section \<open>State\<close>

abbreviation (input) SEM_SETS_MAX :: nat where "SEM_SETS_MAX \<equiv> 128"
abbreviation (input) SEM_COUNT_MAX :: nat where "SEM_COUNT_MAX \<equiv> 250"
abbreviation (input) SEM_VALUE_MAX :: int where "SEM_VALUE_MAX \<equiv> 32767"
abbreviation (input) SEM_OPS_MAX :: nat where "SEM_OPS_MAX \<equiv> 500"
abbreviation (input) SEM_ADJ_MAX :: int where "SEM_ADJ_MAX \<equiv> 32767"
abbreviation (input) SEM_UNDO :: u16 where "SEM_UNDO \<equiv> 0x1000"
abbreviation (input) IPC_NOWAIT :: u16 where "IPC_NOWAIT \<equiv> 0x800"
abbreviation (input) IPC_PRIVATE :: int where "IPC_PRIVATE \<equiv> 0"
abbreviation (input) IPC_CREAT :: u32 where "IPC_CREAT \<equiv> 0x200"
abbreviation (input) IPC_EXCL :: u32 where "IPC_EXCL \<equiv> 0x400"

record sem =
  semval :: int
  sempid :: int
  waiting_less :: u32
  waiting_zero :: u32

text \<open>
  \<open>wakes\<close> counts the calls that wake the processes sleeping on the set.
\<close>

record sem_set =
  ss_id :: int
  removed :: bool
  ss_key :: int
  ss_mode :: u32
  ss_uid :: u32
  ss_gid :: u32
  ss_cuid :: u32
  ss_cgid :: u32
  ss_seq :: u32
  otime :: int
  ss_ctime :: int
  generation :: u32
  sleepers :: nat
  sems :: "sem list"
  wakes :: nat

record sem_undo =
  u_tgid :: int
  u_id :: int
  adjust :: "int list"

record sembuf =
  sem_num :: nat
  sem_op :: int
  sem_flags :: u16

record sem_state =
  sets :: "sem_set option list"
  undos :: "sem_undo list"
  next_seq :: u32

text \<open>
  What a call reads from the process that makes it: its credentials and group blocks, its thread group, the time, and whether
  allocations succeed.
\<close>

record sem_env =
  e_groups :: group_heap
  e_cred :: "credentials option"
  e_tgid :: int
  e_now :: int
  e_room :: bool
  e_undo_room :: bool

definition make_id :: "nat \<Rightarrow> u32 \<Rightarrow> int" where
  "make_id slot seq = int (unat (seq mod 32768)) * int SEM_SETS_MAX + int slot"

definition set_at :: "sem_state \<Rightarrow> nat \<Rightarrow> sem_set" where
  "set_at s slot = the (sets s ! slot)"

definition put_set :: "sem_state \<Rightarrow> nat \<Rightarrow> sem_set \<Rightarrow> sem_state" where
  "put_set s slot st = s\<lparr>sets := (sets s)[slot := Some st]\<rparr>"

definition find_by_id :: "sem_state \<Rightarrow> int \<Rightarrow> nat option" where
  "find_by_id s ident =
     (if ident < 0 then None
      else
        let slot = nat (ident mod int SEM_SETS_MAX)
        in case sets s ! slot of
             None \<Rightarrow> None
           | Some st \<Rightarrow> if removed st \<or> ss_id st \<noteq> ident then None else Some slot)"

definition find_by_key :: "sem_state \<Rightarrow> int \<Rightarrow> nat option" where
  "find_by_key s key =
     (if key = IPC_PRIVATE then None
      else find (\<lambda>slot. case sets s ! slot of None \<Rightarrow> False | Some st \<Rightarrow> \<not> removed st \<and> ss_key st = key) [0..<SEM_SETS_MAX])"

definition sem_permitted :: "sem_env \<Rightarrow> sem_set \<Rightarrow> bool \<Rightarrow> bool" where
  "sem_permitted env st wr =
     (case e_cred env of
        None \<Rightarrow> True
      | Some cred \<Rightarrow>
          if c_euid cred = 0 then True
          else
            let bits = (if c_euid cred = ss_uid st \<or> c_euid cred = ss_cuid st then drop_bit 6 (ss_mode st)
                        else if cred_has_group (e_groups env) (e_cred env) (ss_gid st) \<or>
                          cred_has_group (e_groups env) (e_cred env) (ss_cgid st) then drop_bit 3 (ss_mode st)
                        else ss_mode st)
            in bits AND (if wr then 2 else 4) \<noteq> 0)"

definition owner_or_root :: "sem_env \<Rightarrow> sem_set \<Rightarrow> bool" where
  "owner_or_root env st =
     (case e_cred env of
        None \<Rightarrow> True
      | Some cred \<Rightarrow> c_euid cred = 0 \<or> c_euid cred = ss_uid st \<or> c_euid cred = ss_cuid st)"

definition drop_undos_for :: "sem_undo list \<Rightarrow> int \<Rightarrow> sem_undo list" where
  "drop_undos_for us ident = filter (\<lambda>u. u_id u \<noteq> ident) us"

definition clear_undo_slot :: "sem_undo list \<Rightarrow> int \<Rightarrow> nat \<Rightarrow> sem_undo list" where
  "clear_undo_slot us ident num =
     map (\<lambda>u. if u_id u = ident \<and> num < length (adjust u) then u\<lparr>adjust := (adjust u)[num := 0]\<rparr> else u) us"

definition bump :: "sem_set \<Rightarrow> sem_set" where
  "bump st = st\<lparr>generation := generation st + 1, wakes := wakes st + 1\<rparr>"

definition destroy :: "sem_state \<Rightarrow> nat \<Rightarrow> sem_state" where
  "destroy s slot =
     (let st = bump ((set_at s slot)\<lparr>removed := True\<rparr>);
          s1 = s\<lparr>undos := drop_undos_for (undos s) (ss_id st)\<rparr>
      in if sleepers st = 0 then s1\<lparr>sets := (sets s1)[slot := None]\<rparr> else put_set s1 slot st)"

section \<open>Creating a set\<close>

definition new_set :: "sem_env \<Rightarrow> nat \<Rightarrow> u32 \<Rightarrow> int \<Rightarrow> nat \<Rightarrow> u32 \<Rightarrow> sem_set" where
  "new_set env slot seq key cnt flags =
     (let user = (case e_cred env of Some cred \<Rightarrow> c_euid cred | None \<Rightarrow> 0);
          group = (case e_cred env of Some cred \<Rightarrow> c_egid cred | None \<Rightarrow> 0)
      in \<lparr>ss_id = make_id slot seq, removed = False, ss_key = key, ss_mode = flags AND 0x1FF, ss_uid = user, ss_gid = group,
          ss_cuid = user, ss_cgid = group, ss_seq = seq, otime = 0, ss_ctime = e_now env, generation = 0, sleepers = 0,
          sems = replicate cnt \<lparr>semval = 0, sempid = 0, waiting_less = 0, waiting_zero = 0\<rparr>, wakes = 0\<rparr>)"

definition sysvsem_get :: "sem_env \<Rightarrow> sem_state \<Rightarrow> int \<Rightarrow> int \<Rightarrow> u32 \<Rightarrow> int result \<times> sem_state" where
  "sysvsem_get env s key cnt flags =
     (case find_by_key s key of
        Some slot \<Rightarrow>
          let st = set_at s slot
          in ((if flags AND IPC_CREAT \<noteq> 0 \<and> flags AND IPC_EXCL \<noteq> 0 then Inl EEXIST
               else if cnt > int (length (sems st)) then Inl EINVAL
               else if \<not> sem_permitted env st (flags AND 0x92 \<noteq> 0) \<or> \<not> sem_permitted env st False then Inl EACCES
               else Inr (ss_id st)), s)
      | None \<Rightarrow>
          if key \<noteq> IPC_PRIVATE \<and> flags AND IPC_CREAT = 0 then (Inl ENOENT, s)
          else if cnt \<le> 0 \<or> cnt > int SEM_COUNT_MAX then (Inl EINVAL, s)
          else
            (case find (\<lambda>slot. sets s ! slot = None) [0..<SEM_SETS_MAX] of
               None \<Rightarrow> (Inl ENOSPC, s)
             | Some slot \<Rightarrow>
                 if \<not> e_room env then (Inl ENOMEM, s)
                 else
                   let st = new_set env slot (next_seq s) key (nat cnt) flags
                   in (Inr (ss_id st), (put_set s slot st)\<lparr>next_seq := next_seq s + 1\<rparr>)))"

section \<open>Operations\<close>

definition undo_for :: "bool \<Rightarrow> int \<Rightarrow> sem_set \<Rightarrow> sem_undo list \<Rightarrow> (sem_undo list \<times> nat) option" where
  "undo_for room tgid st us =
     (case find (\<lambda>i. u_tgid (us ! i) = tgid \<and> u_id (us ! i) = ss_id st) [0..<length us] of
        Some i \<Rightarrow> Some (us, i)
      | None \<Rightarrow>
          if \<not> room then None
          else Some (\<lparr>u_tgid = tgid, u_id = ss_id st, adjust = replicate (length (sems st)) 0\<rparr> # us, 0))"

datatype staging = Staged "int list" | Blocked_at nat | Too_large

fun stage_ops :: "int list \<Rightarrow> sembuf list \<Rightarrow> nat \<Rightarrow> staging" where
  "stage_ops staged [] index = Staged staged"
| "stage_ops staged (op # ops) index =
     (let v = staged ! sem_num op
      in if sem_op op < 0 then
           (if v + sem_op op < 0 then Blocked_at index
            else stage_ops (staged[sem_num op := v + sem_op op]) ops (Suc index))
         else if sem_op op = 0 then (if v \<noteq> 0 then Blocked_at index else stage_ops staged ops (Suc index))
         else if v + sem_op op > SEM_VALUE_MAX then Too_large
         else stage_ops (staged[sem_num op := v + sem_op op]) ops (Suc index))"

definition undoes :: "sembuf \<Rightarrow> bool" where
  "undoes op \<longleftrightarrow> sem_flags op AND SEM_UNDO \<noteq> 0 \<and> sem_op op \<noteq> 0"

text \<open>
  The loop that finds or allocates the undo record and checks the amounts, and the loop that books them. \<open>int16\<close> is the cast to
  \<^verbatim>\<open>int16_t\<close>.
\<close>

definition int16 :: "int \<Rightarrow> int" where
  "int16 v = signed_take_bit 15 v"

fun check_undos :: "sem_env \<Rightarrow> sem_set \<Rightarrow> sembuf list \<Rightarrow> sem_undo list \<Rightarrow> errno option \<times> sem_undo list" where
  "check_undos env st [] us = (None, us)"
| "check_undos env st (op # ops) us =
     (if \<not> undoes op then check_undos env st ops us
      else case undo_for (e_undo_room env) (e_tgid env) st us of
             None \<Rightarrow> (Some ENOMEM, us)
           | Some (us', i) \<Rightarrow>
               let adjusted = adjust (us' ! i) ! sem_num op - sem_op op
               in if adjusted > SEM_ADJ_MAX \<or> adjusted < - SEM_ADJ_MAX then (Some ERANGE, us')
                  else check_undos env st ops us')"

definition book_undo :: "sem_env \<Rightarrow> sem_set \<Rightarrow> sem_undo list \<Rightarrow> sembuf \<Rightarrow> sem_undo list" where
  "book_undo env st us op =
     (if \<not> undoes op then us
      else case undo_for (e_undo_room env) (e_tgid env) st us of
             None \<Rightarrow> us
           | Some (us', i) \<Rightarrow>
               us'[i := (us' ! i)\<lparr>adjust := (adjust (us' ! i))[sem_num op := int16 (adjust (us' ! i) ! sem_num op - sem_op op)]\<rparr>])"

definition set_pid :: "int \<Rightarrow> sem list \<Rightarrow> sembuf \<Rightarrow> sem list" where
  "set_pid pid ss op = ss[sem_num op := (ss ! sem_num op)\<lparr>sempid := pid\<rparr>]"

definition values_of :: "sem_set \<Rightarrow> int list" where
  "values_of st = map semval (sems st)"

definition commit :: "sem_env \<Rightarrow> sem_set \<Rightarrow> int list \<Rightarrow> sembuf list \<Rightarrow> int \<Rightarrow> sem_set" where
  "commit env st staged ops pid =
     (let ss = map (\<lambda>(x, v). x\<lparr>semval := v\<rparr>) (zip (sems st) staged);
          st1 = st\<lparr>sems := foldl (set_pid pid) ss ops, otime := e_now env\<rparr>
      in if staged \<noteq> values_of st then bump st1 else st1)"

datatype try_status = Try_done | Try_blocked nat | Try_error errno

definition try_operations ::
    "sem_env \<Rightarrow> sem_set \<Rightarrow> sem_undo list \<Rightarrow> sembuf list \<Rightarrow> int \<Rightarrow> try_status \<times> sem_set \<times> sem_undo list" where
  "try_operations env st us ops pid =
     (case stage_ops (values_of st) ops 0 of
        Blocked_at index \<Rightarrow> (Try_blocked index, st, us)
      | Too_large \<Rightarrow> (Try_error ERANGE, st, us)
      | Staged staged \<Rightarrow>
          (case check_undos env st ops us of
             (Some e, us1) \<Rightarrow> (Try_error e, st, us1)
           | (None, us1) \<Rightarrow> (Try_done, commit env st staged ops pid, foldl (book_undo env st) us1 ops)))"

text \<open>
  One turn of the loop of \<^verbatim>\<open>sysvsem_op\<close>: the call returns, or it has registered itself as a sleeper and releases the lock.
\<close>

datatype sem_turn = Returns "unit result" | Sleeps nat

definition note_waiting :: "(u32 \<Rightarrow> u32) \<Rightarrow> sem_set \<Rightarrow> sembuf \<Rightarrow> sem_set" where
  "note_waiting f st op =
     (let x = sems st ! sem_num op;
          x' = (if sem_op op = 0 then x\<lparr>waiting_zero := f (waiting_zero x)\<rparr> else x\<lparr>waiting_less := f (waiting_less x)\<rparr>)
      in st\<lparr>sems := (sems st)[sem_num op := x']\<rparr>)"

definition sem_round :: "sem_env \<Rightarrow> sem_state \<Rightarrow> nat \<Rightarrow> sembuf list \<Rightarrow> bool \<Rightarrow> sem_turn \<times> sem_state" where
  "sem_round env s slot ops timed_out =
     (case try_operations env (set_at s slot) (undos s) ops (e_tgid env) of
        (Try_done, st, us) \<Rightarrow> (Returns (Inr ()), (put_set s slot st)\<lparr>undos := us\<rparr>)
      | (Try_error e, st, us) \<Rightarrow> (Returns (Inl e), (put_set s slot st)\<lparr>undos := us\<rparr>)
      | (Try_blocked index, st, us) \<Rightarrow>
          if sem_flags (ops ! index) AND IPC_NOWAIT \<noteq> 0 then (Returns (Inl EAGAIN), s)
          else if timed_out then (Returns (Inl EAGAIN), s)
          else
            let st1 = note_waiting (\<lambda>n. n + 1) st (ops ! index)
            in (Sleeps index, put_set s slot (st1\<lparr>sleepers := sleepers st1 + 1\<rparr>)))"

text \<open>
  Waking up: the sleeper deregisters; the last sleeper of a removed set frees it. \<open>None\<close> goes round the loop again.
\<close>

definition sem_resume :: "sem_state \<Rightarrow> nat \<Rightarrow> sembuf \<Rightarrow> bool \<Rightarrow> errno option \<times> sem_state" where
  "sem_resume s slot op interrupted =
     (let st0 = set_at s slot;
          st = note_waiting (\<lambda>n. n - 1) (st0\<lparr>sleepers := sleepers st0 - 1\<rparr>) op;
          s1 = put_set s slot st
      in if removed st then (Some EIDRM, if sleepers st = 0 then destroy s1 slot else s1)
         else if interrupted then (Some EINTR, s1)
         else (None, s1))"

text \<open>
  What happens while the call sleeps: the other processes' changes, whether a signal interrupted it, and whether the deadline has passed by the
  next turn.
\<close>

record sem_sleep =
  others :: "sem_state \<Rightarrow> sem_state"
  interrupted :: bool
  timed_out :: bool

fun sem_loop :: "sem_env \<Rightarrow> sem_state \<Rightarrow> nat \<Rightarrow> sembuf list \<Rightarrow> bool \<Rightarrow> sem_sleep list \<Rightarrow> (unit result \<times> sem_state) option" where
  "sem_loop env s slot ops late sleeps =
     (case sem_round env s slot ops late of
        (Returns r, s') \<Rightarrow> Some (r, s')
      | (Sleeps index, s') \<Rightarrow>
          (case sleeps of
             [] \<Rightarrow> None
           | z # zs \<Rightarrow>
               (case sem_resume (others z s') slot (ops ! index) (interrupted z) of
                  (Some e, s2) \<Rightarrow> Some (Inl e, s2)
                | (None, s2) \<Rightarrow> sem_loop env s2 slot ops (timed_out z) zs)))"

definition sem_admit :: "sem_env \<Rightarrow> sem_state \<Rightarrow> int \<Rightarrow> sembuf list \<Rightarrow> nat result" where
  "sem_admit env s ident ops =
     (case find_by_id s ident of
        None \<Rightarrow> Inl EINVAL
      | Some slot \<Rightarrow>
          if list_ex (\<lambda>op. sem_num op \<ge> length (sems (set_at s slot))) ops then Inl EFBIG
          else if \<not> sem_permitted env (set_at s slot) (list_ex (\<lambda>op. sem_op op \<noteq> 0) ops) then Inl EACCES
          else Inr slot)"

text \<open>
  \<open>user_ops\<close> is what copying the operations from user space gives, \<open>None\<close> when it faults.
\<close>

definition sysvsem_op ::
    "sem_env \<Rightarrow> sem_state \<Rightarrow> int \<Rightarrow> sembuf list option \<Rightarrow> nat \<Rightarrow> bool \<Rightarrow> sem_sleep list \<Rightarrow> (unit result \<times> sem_state) option" where
  "sysvsem_op env s ident user_ops cnt late sleeps =
     (if cnt = 0 then Some (Inl EINVAL, s)
      else if cnt > SEM_OPS_MAX then Some (Inl E2BIG, s)
      else if \<not> e_room env then Some (Inl ENOMEM, s)
      else case user_ops of
             None \<Rightarrow> Some (Inl EFAULT, s)
           | Some ops \<Rightarrow>
               (case sem_admit env s ident ops of
                  Inl e \<Rightarrow> Some (Inl e, s)
                | Inr slot \<Rightarrow> sem_loop env s slot ops late sleeps))"

section \<open>Control\<close>

abbreviation (input) IPC_64 :: u32 where "IPC_64 \<equiv> 0x100"

datatype sem_command =
    IPC_RMID | IPC_SET | IPC_STAT | IPC_INFO | GETPID | GETVAL | GETALL | GETNCNT | GETZCNT | SETVAL | SETALL
  | SEM_STAT | SEM_INFO | SEM_STAT_ANY | Unknown_command

definition sem_command_of :: "u32 \<Rightarrow> sem_command" where
  "sem_command_of command =
     (let c = command AND NOT IPC_64
      in if c = 0 then IPC_RMID else if c = 1 then IPC_SET else if c = 2 then IPC_STAT else if c = 3 then IPC_INFO
         else if c = 11 then GETPID else if c = 12 then GETVAL else if c = 13 then GETALL else if c = 14 then GETNCNT
         else if c = 15 then GETZCNT else if c = 16 then SETVAL else if c = 17 then SETALL else if c = 18 then SEM_STAT
         else if c = 19 then SEM_INFO else if c = 20 then SEM_STAT_ANY else Unknown_command)"

record semid_ds =
  ds_key :: int
  ds_uid :: u32
  ds_gid :: u32
  ds_cuid :: u32
  ds_cgid :: u32
  ds_mode :: u32
  ds_seq :: u16
  ds_otime :: int
  ds_ctime :: int
  ds_nsems :: nat

record seminfo =
  semmap :: int
  semmni :: int
  semmns :: int
  semmnu :: int
  semmsl :: int
  semopm :: int
  semume :: int
  semusz :: int
  semvmx :: int
  semaem :: int

datatype sem_out = No_out | Out_stat semid_ds | Out_info seminfo | Out_values "u16 list"

definition fill_stat :: "sem_set \<Rightarrow> semid_ds" where
  "fill_stat st = \<lparr>ds_key = ss_key st, ds_uid = ss_uid st, ds_gid = ss_gid st, ds_cuid = ss_cuid st, ds_cgid = ss_cgid st,
     ds_mode = ss_mode st, ds_seq = ucast (ss_seq st), ds_otime = otime st, ds_ctime = ss_ctime st,
     ds_nsems = length (sems st)\<rparr>"

text \<open>
  The user memory a control call reads or writes, and the other processes' changes while it does so without the lock.
\<close>

record sem_user =
  user_stat :: "semid_ds option"
  user_values :: "nat \<Rightarrow> u16 list option"
  user_writable :: bool
  meanwhile :: "sem_state \<Rightarrow> sem_state"

definition live :: "sem_set option \<Rightarrow> bool" where
  "live x = (case x of None \<Rightarrow> False | Some st \<Rightarrow> \<not> removed st)"

definition info_slot :: "bool \<Rightarrow> sem_state \<Rightarrow> int \<times> seminfo \<Rightarrow> nat \<Rightarrow> int \<times> seminfo" where
  "info_slot usage s acc slot =
     (case acc of (highest, info) \<Rightarrow>
        if \<not> live (sets s ! slot) then acc
        else (int slot,
              if usage then info\<lparr>semusz := semusz info + 1, semaem := semaem info + int (length (sems (set_at s slot)))\<rparr> else info))"

definition sem_info :: "bool \<Rightarrow> sem_state \<Rightarrow> int \<times> seminfo" where
  "sem_info usage s =
     (let all = int SEM_SETS_MAX * int SEM_COUNT_MAX;
          info = \<lparr>semmap = all, semmni = int SEM_SETS_MAX, semmns = all, semmnu = all, semmsl = int SEM_COUNT_MAX,
                  semopm = int SEM_OPS_MAX, semume = int SEM_OPS_MAX, semusz = 32, semvmx = SEM_VALUE_MAX, semaem = SEM_ADJ_MAX\<rparr>
      in foldl (info_slot usage s) (0, info) [0..<SEM_SETS_MAX])"

definition write_out :: "sem_user \<Rightarrow> int \<Rightarrow> sem_out \<Rightarrow> int result \<times> sem_out" where
  "write_out user reply out = (if user_writable user then (Inr reply, out) else (Inl EFAULT, No_out))"

definition sem_stat :: "sem_env \<Rightarrow> sem_user \<Rightarrow> sem_state \<Rightarrow> nat \<Rightarrow> sem_command \<Rightarrow> int result \<times> sem_state \<times> sem_out" where
  "sem_stat env user s slot command =
     (let st = set_at s slot
      in if command \<noteq> SEM_STAT_ANY \<and> \<not> sem_permitted env st False then (Inl EACCES, s, No_out)
         else case write_out user (if command = IPC_STAT then 0 else ss_id st) (Out_stat (fill_stat st)) of (r, out) \<Rightarrow> (r, s, out))"

definition sem_ipc_set :: "sem_env \<Rightarrow> sem_user \<Rightarrow> sem_state \<Rightarrow> int \<Rightarrow> int result \<times> sem_state" where
  "sem_ipc_set env user s0 ident =
     (case user_stat user of
        None \<Rightarrow> (Inl EFAULT, s0)
      | Some v \<Rightarrow>
          let s = meanwhile user s0
          in case find_by_id s ident of
               None \<Rightarrow> (Inl EINVAL, s)
             | Some slot \<Rightarrow>
                 if \<not> owner_or_root env (set_at s slot) then (Inl EPERM, s)
                 else
                   let st = set_at s slot
                   in (Inr 0, put_set s slot (st\<lparr>ss_uid := ds_uid v, ss_gid := ds_gid v,
                         ss_mode := (ss_mode st AND NOT 0x1FF) OR (ds_mode v AND 0x1FF), ss_ctime := e_now env\<rparr>)))"

definition sem_getter :: "sem_env \<Rightarrow> sem_set \<Rightarrow> int \<Rightarrow> sem_command \<Rightarrow> int result" where
  "sem_getter env st num command =
     (if num < 0 \<or> nat num \<ge> length (sems st) then Inl EINVAL
      else if \<not> sem_permitted env st False then Inl EACCES
      else
        let x = sems st ! nat num
        in if command = GETVAL then Inr (semval x)
           else if command = GETPID then Inr (sempid x)
           else if command = GETNCNT then Inr (int (unat (waiting_less x)))
           else Inr (int (unat (waiting_zero x))))"

definition sem_setval :: "sem_env \<Rightarrow> sem_state \<Rightarrow> nat \<Rightarrow> int \<Rightarrow> u64 \<Rightarrow> int result \<times> sem_state" where
  "sem_setval env s slot num argument =
     (let st = set_at s slot;
          v = sint (ucast argument :: u32)
      in if num < 0 \<or> nat num \<ge> length (sems st) then (Inl EINVAL, s)
         else if v < 0 \<or> v > SEM_VALUE_MAX then (Inl ERANGE, s)
         else if \<not> sem_permitted env st True then (Inl EACCES, s)
         else
           let x = (sems st ! nat num)\<lparr>semval := v, sempid := e_tgid env\<rparr>;
               st1 = bump (st\<lparr>sems := (sems st)[nat num := x], ss_ctime := e_now env\<rparr>)
           in (Inr 0, (put_set s slot st1)\<lparr>undos := clear_undo_slot (undos s) (ss_id st) (nat num)\<rparr>))"

definition sem_setall :: "sem_env \<Rightarrow> sem_user \<Rightarrow> sem_state \<Rightarrow> nat \<Rightarrow> int \<Rightarrow> int result \<times> sem_state" where
  "sem_setall env user s0 slot0 ident =
     (let cnt = length (sems (set_at s0 slot0))
      in case user_values user cnt of
           None \<Rightarrow> (Inl EFAULT, s0)
         | Some vals \<Rightarrow>
             let s = meanwhile user s0
             in case find_by_id s ident of
                  None \<Rightarrow> (Inl EINVAL, s)
                | Some slot \<Rightarrow>
                    let st = set_at s slot
                    in if length (sems st) \<noteq> cnt then (Inl EINVAL, s)
                       else if \<not> sem_permitted env st True then (Inl EACCES, s)
                       else if list_ex (\<lambda>v. uint v > SEM_VALUE_MAX) vals then (Inl ERANGE, s)
                       else
                         let ss = map (\<lambda>(x, v). x\<lparr>semval := uint v, sempid := e_tgid env\<rparr>) (zip (sems st) vals);
                             st1 = bump (st\<lparr>sems := ss, ss_ctime := e_now env\<rparr>)
                         in (Inr 0, (put_set s slot st1)\<lparr>undos := foldl (\<lambda>us index. clear_undo_slot us (ss_id st) index) (undos s) [0..<cnt]\<rparr>))"

definition ctl_target :: "sem_state \<Rightarrow> sem_command \<Rightarrow> int \<Rightarrow> nat option" where
  "ctl_target s command ident =
     (if command = SEM_STAT \<or> command = SEM_STAT_ANY
      then (if ident \<ge> 0 \<and> ident < int SEM_SETS_MAX \<and> live (sets s ! nat ident) then Some (nat ident) else None)
      else find_by_id s ident)"

definition ctl_on_set ::
    "sem_env \<Rightarrow> sem_user \<Rightarrow> sem_state \<Rightarrow> nat \<Rightarrow> int \<Rightarrow> int \<Rightarrow> sem_command \<Rightarrow> u64 \<Rightarrow> int result \<times> sem_state \<times> sem_out" where
  "ctl_on_set env user s slot ident num command argument =
     (case command of
        IPC_STAT \<Rightarrow> sem_stat env user s slot command
      | SEM_STAT \<Rightarrow> sem_stat env user s slot command
      | SEM_STAT_ANY \<Rightarrow> sem_stat env user s slot command
      | IPC_SET \<Rightarrow> (case sem_ipc_set env user s ident of (r, s') \<Rightarrow> (r, s', No_out))
      | IPC_RMID \<Rightarrow> if \<not> owner_or_root env (set_at s slot) then (Inl EPERM, s, No_out) else (Inr 0, destroy s slot, No_out)
      | GETVAL \<Rightarrow> (sem_getter env (set_at s slot) num command, s, No_out)
      | GETPID \<Rightarrow> (sem_getter env (set_at s slot) num command, s, No_out)
      | GETNCNT \<Rightarrow> (sem_getter env (set_at s slot) num command, s, No_out)
      | GETZCNT \<Rightarrow> (sem_getter env (set_at s slot) num command, s, No_out)
      | SETVAL \<Rightarrow> (case sem_setval env s slot num argument of (r, s') \<Rightarrow> (r, s', No_out))
      | GETALL \<Rightarrow>
          if \<not> sem_permitted env (set_at s slot) False then (Inl EACCES, s, No_out)
          else (case write_out user 0 (Out_values (map (\<lambda>x. word_of_int (semval x)) (sems (set_at s slot)))) of (r, out) \<Rightarrow> (r, s, out))
      | SETALL \<Rightarrow> (case sem_setall env user s slot ident of (r, s') \<Rightarrow> (r, s', No_out))
      | _ \<Rightarrow> (Inl EINVAL, s, No_out))"

definition sysvsem_ctl ::
    "sem_env \<Rightarrow> sem_user \<Rightarrow> sem_state \<Rightarrow> int \<Rightarrow> int \<Rightarrow> u32 \<Rightarrow> u64 \<Rightarrow> int result \<times> sem_state \<times> sem_out" where
  "sysvsem_ctl env user s ident num command argument =
     (let c = sem_command_of command
      in if c = IPC_INFO \<or> c = SEM_INFO then
           (case sem_info (c = SEM_INFO) s of (highest, info) \<Rightarrow>
              (case write_out user highest (Out_info info) of (r, out) \<Rightarrow> (r, s, out)))
         else
           (case ctl_target s c ident of
              None \<Rightarrow> (Inl EINVAL, s, No_out)
            | Some slot \<Rightarrow> ctl_on_set env user s slot ident num c argument))"

section \<open>Exit\<close>

definition clamp :: "int \<Rightarrow> int" where
  "clamp v = (let v1 = (if v < 0 then 0 else v) in if v1 > SEM_VALUE_MAX then SEM_VALUE_MAX else v1)"

definition undo_sem :: "int \<Rightarrow> sem \<times> int \<Rightarrow> sem" where
  "undo_sem tgid xa = (case xa of (x, a) \<Rightarrow> if a = 0 then x else x\<lparr>semval := clamp (semval x + a), sempid := tgid\<rparr>)"

definition undo_set :: "int \<Rightarrow> sem_set \<Rightarrow> int list \<Rightarrow> sem_set" where
  "undo_set tgid st adj =
     (let st1 = st\<lparr>sems := map (undo_sem tgid) (zip (sems st) adj) @ drop (length adj) (sems st)\<rparr>
      in if list_ex (\<lambda>a. a \<noteq> 0) (take (length (sems st)) adj) then bump st1 else st1)"

fun exit_loop :: "int \<Rightarrow> sem_undo list \<Rightarrow> sem_state \<Rightarrow> sem_state" where
  "exit_loop tgid [] s = s"
| "exit_loop tgid (u # us) s =
     (if u_tgid u \<noteq> tgid then exit_loop tgid us s
      else exit_loop tgid us
        (case find_by_id s (u_id u) of
           None \<Rightarrow> s
         | Some slot \<Rightarrow> put_set s slot (undo_set tgid (set_at s slot) (adjust u))))"

definition sysvsem_exit :: "int \<Rightarrow> sem_state \<Rightarrow> sem_state" where
  "sysvsem_exit tgid s = (exit_loop tgid (undos s) s)\<lparr>undos := filter (\<lambda>u. u_tgid u \<noteq> tgid) (undos s)\<rparr>"

section \<open>Invariant\<close>

definition set_ok :: "nat \<Rightarrow> sem_set \<Rightarrow> bool" where
  "set_ok slot st \<longleftrightarrow> 0 \<le> ss_id st \<and> nat (ss_id st mod int SEM_SETS_MAX) = slot \<and> sems st \<noteq> [] \<and>
     length (sems st) \<le> SEM_COUNT_MAX \<and> (\<forall>v \<in> set (values_of st). 0 \<le> v \<and> v \<le> SEM_VALUE_MAX)"

definition undo_fits :: "sem_state \<Rightarrow> sem_undo \<Rightarrow> bool" where
  "undo_fits s u \<longleftrightarrow> (\<exists>slot st. find_by_id s (u_id u) = Some slot \<and> sets s ! slot = Some st \<and> length (adjust u) = length (sems st))"

definition undo_key :: "sem_undo \<Rightarrow> int \<times> int" where
  "undo_key u = (u_tgid u, u_id u)"

definition sem_ok :: "sem_state \<Rightarrow> bool" where
  "sem_ok s \<longleftrightarrow> length (sets s) = SEM_SETS_MAX \<and>
     (\<forall>slot st. slot < SEM_SETS_MAX \<longrightarrow> sets s ! slot = Some st \<longrightarrow> set_ok slot st) \<and>
     (\<forall>slot slot' st st'. slot < SEM_SETS_MAX \<longrightarrow> slot' < SEM_SETS_MAX \<longrightarrow> sets s ! slot = Some st \<longrightarrow> sets s ! slot' = Some st' \<longrightarrow>
        \<not> removed st \<longrightarrow> \<not> removed st' \<longrightarrow> ss_key st = ss_key st' \<longrightarrow> ss_key st \<noteq> IPC_PRIVATE \<longrightarrow> slot = slot') \<and>
     (\<forall>u \<in> set (undos s). undo_fits s u) \<and> distinct (map undo_key (undos s))"

definition same_shape :: "sem_set \<Rightarrow> sem_set \<Rightarrow> bool" where
  "same_shape st st' \<longleftrightarrow> ss_id st' = ss_id st \<and> removed st' = removed st \<and> ss_key st' = ss_key st \<and>
     length (sems st') = length (sems st)"

lemma put_set_simps [simp]:
  "undos (put_set s slot st) = undos s" "next_seq (put_set s slot st) = next_seq s"
  "sets (put_set s slot st) = (sets s)[slot := Some st]"
  by (simp_all add: put_set_def)

lemma set_at_put [simp]: "slot < length (sets s) \<Longrightarrow> set_at (put_set s slot st) slot = st"
  by (simp add: set_at_def)

lemma find_by_id_Some:
  "find_by_id s ident = Some slot \<longleftrightarrow> 0 \<le> ident \<and> slot = nat (ident mod int SEM_SETS_MAX) \<and>
     (\<exists>st. sets s ! slot = Some st \<and> \<not> removed st \<and> ss_id st = ident)"
  by (auto simp: find_by_id_def Let_def split: option.split)

lemma find_by_id_slot: "find_by_id s ident = Some slot \<Longrightarrow> slot < SEM_SETS_MAX"
  by (auto simp: find_by_id_Some nat_less_iff)

lemma find_by_id_live:
  assumes "sem_ok s" "slot < SEM_SETS_MAX" "sets s ! slot = Some st" "\<not> removed st"
  shows "find_by_id s (ss_id st) = Some slot"
  using assms by (auto simp: find_by_id_Some sem_ok_def set_ok_def)

lemma sem_okD:
  assumes "sem_ok s" "slot < SEM_SETS_MAX" "sets s ! slot = Some st"
  shows "length (sets s) = SEM_SETS_MAX" "set_ok slot st" "set_at s slot = st"
  using assms by (auto simp: sem_ok_def set_at_def)

lemma find_by_id_put:
  assumes "slot < length (sets s)" "sets s ! slot = Some st" "same_shape st st'"
  shows "find_by_id (put_set s slot st') ident = find_by_id s ident"
  using assms by (cases "nat (ident mod int SEM_SETS_MAX) = slot") (auto simp: find_by_id_def Let_def same_shape_def)

lemma undo_fits_put:
  assumes "slot < length (sets s)" "sets s ! slot = Some st" "same_shape st st'"
  shows "undo_fits (put_set s slot st') u = undo_fits s u"
  using assms find_by_id_put [OF assms] unfolding undo_fits_def
  by (auto simp: nth_list_update same_shape_def)

lemma put_set_ok:
  assumes "sem_ok s" "slot < SEM_SETS_MAX" "sets s ! slot = Some st" "same_shape st st'" "set_ok slot st'"
  shows "sem_ok (put_set s slot st')"
proof -
  have len: "length (sets s) = SEM_SETS_MAX" using assms(1) by (simp add: sem_ok_def)
  have old: "\<exists>st0. sets s ! k = Some st0 \<and> removed st1 = removed st0 \<and> ss_key st1 = ss_key st0"
    if "sets (put_set s slot st') ! k = Some st1" for k st1
    using that assms(2-4) len by (cases "k = slot") (auto simp: same_shape_def)
  have keys: "k = k'" if h: "k < SEM_SETS_MAX" "k' < SEM_SETS_MAX" "sets (put_set s slot st') ! k = Some a"
      "sets (put_set s slot st') ! k' = Some b" "\<not> removed a" "\<not> removed b" "ss_key a = ss_key b" "ss_key a \<noteq> IPC_PRIVATE" for k k' a b
  proof -
    obtain a0 b0 where "sets s ! k = Some a0" "removed a = removed a0" "ss_key a = ss_key a0"
      "sets s ! k' = Some b0" "removed b = removed b0" "ss_key b = ss_key b0" using old h(3,4) by metis
    with h(1,2,5-8) assms(1) show ?thesis unfolding sem_ok_def by metis
  qed
  have ok: "set_ok k a" if "k < SEM_SETS_MAX" "sets (put_set s slot st') ! k = Some a" for k a
    using that assms(1,2,5) len by (cases "k = slot") (auto simp: sem_ok_def)
  have "\<forall>u \<in> set (undos s). undo_fits (put_set s slot st') u"
    using assms(1,2) len by (subst undo_fits_put [OF _ assms(3,4)]) (auto simp: sem_ok_def)
  then show ?thesis
    unfolding sem_ok_def using ok keys len assms(1) by (auto simp: sem_ok_def)
qed

lemma sem_ok_next_seq [simp]: "sem_ok (s\<lparr>next_seq := n\<rparr>) = sem_ok s"
proof -
  have "find_by_id (s\<lparr>next_seq := n\<rparr>) = find_by_id s" by (rule ext) (simp add: find_by_id_def)
  then show ?thesis by (simp add: sem_ok_def undo_fits_def)
qed

lemma undos_ok:
  assumes "sem_ok s" "\<forall>u \<in> set us. undo_fits s u" "distinct (map undo_key us)"
  shows "sem_ok (s\<lparr>undos := us\<rparr>)"
proof -
  have "find_by_id (s\<lparr>undos := us\<rparr>) = find_by_id s" by (rule ext) (simp add: find_by_id_def)
  then have "undo_fits (s\<lparr>undos := us\<rparr>) = undo_fits s" by (auto simp: undo_fits_def fun_eq_iff)
  then show ?thesis using assms by (auto simp: sem_ok_def)
qed

section \<open>Staging\<close>

definition total_on :: "sembuf list \<Rightarrow> nat \<Rightarrow> int" where
  "total_on ops i = sum_list (map sem_op (filter (\<lambda>op. sem_num op = i) ops))"

lemma total_on_simps [simp]:
  "total_on [] i = 0"
  "total_on (op # ops) i = (if sem_num op = i then sem_op op else 0) + total_on ops i"
  by (simp_all add: total_on_def)

lemma stage_ops_Staged:
  assumes "stage_ops staged ops index = Staged staged'" "\<forall>op \<in> set ops. sem_num op < length staged"
    "\<forall>v \<in> set staged. 0 \<le> v \<and> v \<le> SEM_VALUE_MAX"
  shows "length staged' = length staged \<and> (\<forall>v \<in> set staged'. 0 \<le> v \<and> v \<le> SEM_VALUE_MAX) \<and>
    (\<forall>i < length staged. staged' ! i = staged ! i + total_on ops i)"
  using assms
proof (induction ops arbitrary: staged index)
  case (Cons op ops)
  let ?v = "staged ! sem_num op" and ?upd = "staged[sem_num op := staged ! sem_num op + sem_op op]"
  have v: "0 \<le> ?v" "?v \<le> SEM_VALUE_MAX" using Cons.prems(2,3) by auto
  have upd: "stage_ops ?upd ops (Suc index) = Staged staged'" "0 \<le> ?v + sem_op op" "?v + sem_op op \<le> SEM_VALUE_MAX"
    using Cons.prems(1) v by (auto simp: Let_def split: if_split_asm)
  have "\<forall>v \<in> set ?upd. 0 \<le> v \<and> v \<le> SEM_VALUE_MAX"
    using Cons.prems(3) upd(2,3) set_update_subset_insert [of staged "sem_num op" "?v + sem_op op"] by blast
  moreover have "\<forall>op \<in> set ops. sem_num op < length ?upd" using Cons.prems(2) by simp
  ultimately have ih: "length staged' = length ?upd" "\<forall>v \<in> set staged'. 0 \<le> v \<and> v \<le> SEM_VALUE_MAX"
    "\<forall>i < length ?upd. staged' ! i = ?upd ! i + total_on ops i"
    using Cons.IH [OF upd(1)] by blast+
  have "staged' ! i = staged ! i + total_on (op # ops) i" if "i < length staged" for i
    using ih(3) that Cons.prems(2) by (cases "i = sem_num op") auto
  with ih(1,2) show ?case by simp
qed simp

lemma length_set_pid [simp]: "length (set_pid pid ss op) = length ss"
  by (simp add: set_pid_def)

lemma set_pid_values: "map semval (set_pid pid ss op) = map semval ss"
  using list_update_id [of "map semval ss" "sem_num op"]
  by (cases "sem_num op < length ss") (simp_all add: set_pid_def map_update list_update_beyond)

lemma foldl_set_pid: "map semval (foldl (set_pid pid) ss ops) = map semval ss" "length (foldl (set_pid pid) ss ops) = length ss"
  by (induction ops arbitrary: ss) (simp_all add: set_pid_values)

lemma map_zip_values: "length vs = length ss \<Longrightarrow> map semval (map (\<lambda>(x, v). x\<lparr>semval := v\<rparr>) (zip ss vs)) = vs"
proof (induction ss arbitrary: vs)
  case (Cons x ss)
  then show ?case by (cases vs) simp_all
qed simp

lemma bump_simps [simp]:
  "sems (bump st) = sems st" "ss_id (bump st) = ss_id st" "removed (bump st) = removed st" "ss_key (bump st) = ss_key st"
  "sleepers (bump st) = sleepers st" "generation (bump st) = generation st + 1" "wakes (bump st) = wakes st + 1"
  "values_of (bump st) = values_of st"
  by (simp_all add: bump_def values_of_def)

lemma commit_effect:
  assumes "length staged = length (sems st)"
  shows "values_of (commit env st staged ops pid) = staged" "same_shape st (commit env st staged ops pid)"
    "sleepers (commit env st staged ops pid) = sleepers st"
    "staged \<noteq> values_of st \<Longrightarrow> generation (commit env st staged ops pid) = generation st + 1 \<and>
       wakes (commit env st staged ops pid) = wakes st + 1"
proof -
  let ?ss = "map (\<lambda>(x, v). x\<lparr>semval := v\<rparr>) (zip (sems st) staged)"
  have "map semval (foldl (set_pid pid) ?ss ops) = staged" "length (foldl (set_pid pid) ?ss ops) = length (sems st)"
    using map_zip_values [OF assms] foldl_set_pid [of pid ?ss ops] assms by simp_all
  then show "values_of (commit env st staged ops pid) = staged" "same_shape st (commit env st staged ops pid)"
    by (auto simp: commit_def Let_def values_of_def same_shape_def)
qed (simp_all add: commit_def Let_def)

section \<open>Undo records\<close>

definition undo_rel :: "int \<Rightarrow> sem_set \<Rightarrow> sem_undo list \<Rightarrow> sem_undo list \<Rightarrow> bool" where
  "undo_rel tgid st us us' \<longleftrightarrow>
     (\<exists>u \<in> set us. undo_key u = (tgid, ss_id st)) \<and> us' = us \<or>
     (\<forall>u \<in> set us. undo_key u \<noteq> (tgid, ss_id st)) \<and>
       us' = \<lparr>u_tgid = tgid, u_id = ss_id st, adjust = replicate (length (sems st)) 0\<rparr> # us"

lemma undo_for_Some:
  assumes "undo_for room tgid st us = Some (us', i)"
  shows "i < length us'" "undo_key (us' ! i) = (tgid, ss_id st)" "undo_rel tgid st us us'"
proof -
  let ?P = "\<lambda>i. u_tgid (us ! i) = tgid \<and> u_id (us ! i) = ss_id st"
  have "i < length us' \<and> undo_key (us' ! i) = (tgid, ss_id st) \<and> undo_rel tgid st us us'"
  proof (cases "find ?P [0..<length us]")
    case None
    then have "\<forall>u \<in> set us. undo_key u \<noteq> (tgid, ss_id st)"
      by (auto simp: find_None_iff undo_key_def in_set_conv_nth)
    with None assms show ?thesis
      by (auto simp: undo_for_def undo_key_def undo_rel_def split: if_split_asm)
  next
    case (Some j)
    then have j: "j < length us" "?P j" by (auto simp: find_Some_iff)
    then have "us ! j \<in> set us" "undo_key (us ! j) = (tgid, ss_id st)" by (auto simp: undo_key_def)
    with j Some assms show ?thesis by (auto simp: undo_for_def undo_rel_def)
  qed
  then show "i < length us'" "undo_key (us' ! i) = (tgid, ss_id st)" "undo_rel tgid st us us'" by blast+
qed

lemma undo_for_found:
  assumes "\<exists>u \<in> set us. undo_key u = (tgid, ss_id st)"
  obtains i where "undo_for room tgid st us = Some (us, i)"
proof -
  have "find (\<lambda>i. u_tgid (us ! i) = tgid \<and> u_id (us ! i) = ss_id st) [0..<length us] \<noteq> None"
    using assms by (auto simp: find_None_iff undo_key_def in_set_conv_nth)
  then show thesis using that by (auto simp: undo_for_def)
qed

definition has_undo :: "sem_undo list \<Rightarrow> int \<times> int \<Rightarrow> bool" where
  "has_undo us k \<longleftrightarrow> (\<exists>u \<in> set us. undo_key u = k)"

definition amount :: "sem_undo list \<Rightarrow> int \<times> int \<Rightarrow> nat \<Rightarrow> int" where
  "amount us k num = (case find (\<lambda>u. undo_key u = k) us of None \<Rightarrow> 0 | Some u \<Rightarrow> adjust u ! num)"

definition undos_fit :: "sem_state \<Rightarrow> sem_undo list \<Rightarrow> bool" where
  "undos_fit s us \<longleftrightarrow> (\<forall>u \<in> set us. undo_fits s u) \<and> distinct (map undo_key us)"

lemma int16_diff: "int16 (int16 a - b) = int16 (a - b)"
proof -
  have "int16 (int16 a - b) = signed_take_bit 15 (signed_take_bit 15 (signed_take_bit 15 a) - signed_take_bit 15 b)"
    unfolding int16_def by (simp only: signed_take_bit_diff)
  also have "\<dots> = signed_take_bit 15 (signed_take_bit 15 a - signed_take_bit 15 b)" by simp
  also have "\<dots> = int16 (a - b)" unfolding int16_def by (simp only: signed_take_bit_diff)
  finally show ?thesis .
qed

lemma int16_small: "- SEM_ADJ_MAX \<le> v \<Longrightarrow> v \<le> SEM_ADJ_MAX \<Longrightarrow> int16 v = v"
  unfolding int16_def by (rule signed_take_bit_int_eq_self) simp_all

lemma check_undos_rel:
  "check_undos env st ops us = (r, us') \<Longrightarrow> us' = us \<or> undo_rel (e_tgid env) st us us'"
proof (induction ops arbitrary: us)
  case (Cons op ops)
  show ?case
  proof (cases "undoes op")
    case True
    show ?thesis
    proof (cases "undo_for (e_undo_room env) (e_tgid env) st us")
      case None
      with True Cons.prems show ?thesis by simp
    next
      case (Some p)
      obtain us1 i where p: "p = (us1, i)" by (cases p)
      have rel: "undo_rel (e_tgid env) st us us1" and key: "undo_key (us1 ! i) = (e_tgid env, ss_id st)" "i < length us1"
        using undo_for_Some [OF Some [unfolded p]] by auto
      have "us' = us1 \<or> undo_rel (e_tgid env) st us1 us'"
        using True Some p Cons by (auto simp: Let_def split: if_split_asm)
      moreover have "us' = us1" if "undo_rel (e_tgid env) st us1 us'"
        using that key nth_mem [OF key(2)] by (auto simp: undo_rel_def)
      ultimately show ?thesis using rel by auto
    qed
  next
    case False
    with Cons show ?thesis by simp
  qed
qed simp

lemma check_undos_has:
  "check_undos env st ops us = (None, us') \<Longrightarrow> list_ex undoes ops \<Longrightarrow> has_undo us' (e_tgid env, ss_id st)"
proof (induction ops arbitrary: us)
  case (Cons op ops)
  show ?case
  proof (cases "undoes op")
    case True
    obtain us1 i where p: "undo_for (e_undo_room env) (e_tgid env) st us = Some (us1, i)"
      using True Cons.prems(1) by (auto split: option.split_asm)
    then have rest: "check_undos env st ops us1 = (None, us')"
      using True Cons.prems(1) by (auto simp: Let_def split: if_split_asm)
    have "has_undo us1 (e_tgid env, ss_id st)"
      using undo_for_Some [OF p] by (auto simp: has_undo_def intro: bexI [of _ "us1 ! i"])
    then show ?thesis using check_undos_rel [OF rest] by (auto simp: has_undo_def undo_rel_def)
  qed (use Cons in simp)
qed simp

lemma undo_rel_fit:
  assumes "undos_fit s us" "undo_rel tgid st us us'" "find_by_id s (ss_id st) = Some slot" "sets s ! slot = Some st"
  shows "undos_fit s us'"
  using assms by (auto simp: undos_fit_def undo_rel_def undo_fits_def undo_key_def) blast

lemma book_undo_view:
  assumes "undoes op \<Longrightarrow> has_undo us (e_tgid env, ss_id st)"
  shows "map undo_key (book_undo env st us op) = map undo_key us"
    "map (\<lambda>u. length (adjust u)) (book_undo env st us op) = map (\<lambda>u. length (adjust u)) us"
proof -
  have "map undo_key (book_undo env st us op) = map undo_key us \<and>
      map (\<lambda>u. length (adjust u)) (book_undo env st us op) = map (\<lambda>u. length (adjust u)) us"
  proof (cases "undoes op")
    case True
    obtain i where i: "undo_for (e_undo_room env) (e_tgid env) st us = Some (us, i)"
      using undo_for_found assms [OF True] unfolding has_undo_def by metis
    note u = undo_for_Some [OF i]
    have "book_undo env st us op = us[i := (us ! i)\<lparr>adjust := (adjust (us ! i))[sem_num op := int16 (adjust (us ! i) ! sem_num op - sem_op op)]\<rparr>]"
      using True i by (simp add: book_undo_def)
    moreover have "undo_key ((us ! i)\<lparr>adjust := a\<rparr>) = undo_key (us ! i)" for a by (simp add: undo_key_def)
    ultimately show ?thesis
      using u(1) list_update_id [of "map undo_key us" i] list_update_id [of "map (\<lambda>u. length (adjust u)) us" i]
      by (simp add: map_update)
  qed (simp add: book_undo_def)
  then show "map undo_key (book_undo env st us op) = map undo_key us"
    "map (\<lambda>u. length (adjust u)) (book_undo env st us op) = map (\<lambda>u. length (adjust u)) us" by simp_all
qed

lemma has_undo_keys: "has_undo us k \<longleftrightarrow> k \<in> set (map undo_key us)"
  by (auto simp: has_undo_def)

lemma undos_fit_view:
  assumes "undos_fit s us" "map undo_key us' = map undo_key us" "map (\<lambda>u. length (adjust u)) us' = map (\<lambda>u. length (adjust u)) us"
  shows "undos_fit s us'"
proof -
  have len: "length us' = length us" using assms(2) map_eq_imp_length_eq by blast
  have "undo_fits s (us' ! i)" if "i < length us'" for i
  proof -
    have "undo_key (us' ! i) = undo_key (us ! i)" "length (adjust (us' ! i)) = length (adjust (us ! i))"
      using arg_cong [OF assms(2), of "\<lambda>xs. xs ! i"] arg_cong [OF assms(3), of "\<lambda>xs. xs ! i"] that len by simp_all
    moreover have "undo_fits s (us ! i)" using assms(1) that len by (simp add: undos_fit_def)
    ultimately show ?thesis by (simp add: undo_fits_def undo_key_def)
  qed
  then show ?thesis using assms(1,2) by (auto simp: undos_fit_def in_set_conv_nth)
qed

lemma foldl_book_view:
  assumes "list_ex undoes ops \<Longrightarrow> has_undo us (e_tgid env, ss_id st)"
  shows "map undo_key (foldl (book_undo env st) us ops) = map undo_key us"
    "map (\<lambda>u. length (adjust u)) (foldl (book_undo env st) us ops) = map (\<lambda>u. length (adjust u)) us"
proof -
  have "map undo_key (foldl (book_undo env st) us ops) = map undo_key us \<and>
    map (\<lambda>u. length (adjust u)) (foldl (book_undo env st) us ops) = map (\<lambda>u. length (adjust u)) us"
    using assms
  proof (induction ops arbitrary: us)
    case (Cons op ops)
    have v: "map undo_key (book_undo env st us op) = map undo_key us"
      "map (\<lambda>u. length (adjust u)) (book_undo env st us op) = map (\<lambda>u. length (adjust u)) us"
      using book_undo_view [of op us env st] Cons.prems by simp_all
    have "list_ex undoes ops \<Longrightarrow> has_undo (book_undo env st us op) (e_tgid env, ss_id st)"
      using Cons.prems v(1) by (simp add: has_undo_keys)
    from Cons.IH [OF this] v show ?case by simp
  qed simp
  then show "map undo_key (foldl (book_undo env st) us ops) = map undo_key us"
    "map (\<lambda>u. length (adjust u)) (foldl (book_undo env st) us ops) = map (\<lambda>u. length (adjust u)) us" by simp_all
qed

section \<open>One turn\<close>

lemma set_ok_values:
  assumes "set_ok slot st" "same_shape st st'" "\<forall>v \<in> set (values_of st'). 0 \<le> v \<and> v \<le> SEM_VALUE_MAX"
  shows "set_ok slot st'"
proof -
  have "sems st' \<noteq> []" using assms(1,2) unfolding set_ok_def same_shape_def by (metis length_0_conv)
  then show ?thesis using assms unfolding set_ok_def same_shape_def by simp
qed

lemma set_ok_shape:
  assumes "set_ok slot st" "same_shape st st'" "values_of st' = values_of st"
  shows "set_ok slot st'"
  using set_ok_values [OF assms(1,2)] assms(1,3) unfolding set_ok_def by simp

lemma try_operations_cases:
  assumes ok: "sem_ok s" and slot: "slot < SEM_SETS_MAX" "sets s ! slot = Some st" "\<not> removed st"
    and ops: "\<forall>op \<in> set ops. sem_num op < length (sems st)"
    and run: "try_operations env st (undos s) ops pid = (r, st', us')"
  shows "undos_fit s us'" "same_shape st st'" "set_ok slot st'" "sleepers st' = sleepers st"
    "r = Try_done \<Longrightarrow> \<forall>i < length (sems st). values_of st' ! i = values_of st ! i + total_on ops i"
    "r \<noteq> Try_done \<Longrightarrow> st' = st"
    "values_of st' \<noteq> values_of st \<Longrightarrow> generation st' = generation st + 1 \<and> wakes st' = wakes st + 1"
proof -
  have fit: "undos_fit s (undos s)" using ok by (simp add: sem_ok_def undos_fit_def)
  have found: "find_by_id s (ss_id st) = Some slot" by (rule find_by_id_live [OF ok slot])
  have set: "set_ok slot st" by (rule sem_okD(2) [OF ok slot(1,2)])
  have len: "length (values_of st) = length (sems st)" by (simp add: values_of_def)
  have fits: "\<forall>op \<in> set ops. sem_num op < length (values_of st)" using ops len by simp
  have range: "\<forall>v \<in> set (values_of st). 0 \<le> v \<and> v \<le> SEM_VALUE_MAX" using set unfolding set_ok_def by blast
  have "undos_fit s us' \<and> same_shape st st' \<and> set_ok slot st' \<and> sleepers st' = sleepers st \<and>
    (r = Try_done \<longrightarrow> (\<forall>i < length (sems st). values_of st' ! i = values_of st ! i + total_on ops i)) \<and>
    (r \<noteq> Try_done \<longrightarrow> st' = st) \<and>
    (values_of st' \<noteq> values_of st \<longrightarrow> generation st' = generation st + 1 \<and> wakes st' = wakes st + 1)"
  proof (cases "stage_ops (values_of st) ops 0")
    case (Staged staged)
    have st: "length staged = length (values_of st)" "\<forall>v \<in> set staged. 0 \<le> v \<and> v \<le> SEM_VALUE_MAX"
      "\<forall>i < length (values_of st). staged ! i = values_of st ! i + total_on ops i"
      using stage_ops_Staged [OF Staged fits range] by blast+
    obtain e us1 where chk: "check_undos env st ops (undos s) = (e, us1)" by (metis surj_pair)
    have "undos_fit s us1"
      using check_undos_rel [OF chk] undo_rel_fit [OF fit _ found slot(2)] fit by blast
    show ?thesis
    proof (cases e)
      case None
      have has: "list_ex undoes ops \<Longrightarrow> has_undo us1 (e_tgid env, ss_id st)"
        by (rule check_undos_has [OF chk [unfolded None]])
      have booked: "undos_fit s (foldl (book_undo env st) us1 ops)"
        by (rule undos_fit_view [OF \<open>undos_fit s us1\<close> foldl_book_view [OF has]])
      have c: "r = Try_done" "st' = commit env st staged ops pid" "us' = foldl (book_undo env st) us1 ops"
        using run Staged chk None by (simp_all add: try_operations_def)
      have l: "length staged = length (sems st)" using st(1) len by simp
      note eff = commit_effect [OF l, of env ops pid]
      have ok': "set_ok slot st'"
        unfolding c(2) using st(2) by (intro set_ok_values [OF set eff(2)]) (simp only: eff(1))
      have vals: "\<forall>i < length (sems st). values_of st' ! i = values_of st ! i + total_on ops i"
        using st(3) len unfolding c(2) eff(1) by simp
      have gen: "values_of st' \<noteq> values_of st \<longrightarrow> generation st' = generation st + 1 \<and> wakes st' = wakes st + 1"
        using eff(4) unfolding c(2) eff(1) by blast
      show ?thesis using booked ok' vals gen eff(2,3) unfolding c by blast
    next
      case (Some e')
      then have "r = Try_error e'" "st' = st" "us' = us1"
        using run Staged chk by (simp_all add: try_operations_def)
      with \<open>undos_fit s us1\<close> set show ?thesis by (simp add: same_shape_def)
    qed
  next
    case (Blocked_at k)
    then show ?thesis using run fit set by (auto simp: try_operations_def same_shape_def)
  next
    case Too_large
    then show ?thesis using run fit set by (auto simp: try_operations_def same_shape_def)
  qed
  then show "undos_fit s us'" "same_shape st st'" "set_ok slot st'" "sleepers st' = sleepers st"
    "r = Try_done \<Longrightarrow> \<forall>i < length (sems st). values_of st' ! i = values_of st ! i + total_on ops i"
    "r \<noteq> Try_done \<Longrightarrow> st' = st"
    "values_of st' \<noteq> values_of st \<Longrightarrow> generation st' = generation st + 1 \<and> wakes st' = wakes st + 1" by blast+
qed

lemma put_set_undos_ok:
  assumes "sem_ok s" "slot < SEM_SETS_MAX" "sets s ! slot = Some st" "same_shape st st'" "set_ok slot st'" "undos_fit s us"
  shows "sem_ok ((put_set s slot st')\<lparr>undos := us\<rparr>)"
proof (rule undos_ok)
  show "sem_ok (put_set s slot st')" by (rule put_set_ok [OF assms(1-5)])
  have "slot < length (sets s)" using assms(1,2) by (simp add: sem_ok_def)
  then show "\<forall>u \<in> set us. undo_fits (put_set s slot st') u"
    using assms(6) undo_fits_put [OF _ assms(3,4)] by (simp add: undos_fit_def)
  show "distinct (map undo_key us)" using assms(6) by (simp add: undos_fit_def)
qed

lemma note_waiting_simps [simp]:
  "values_of (note_waiting f st op) = values_of st" "length (sems (note_waiting f st op)) = length (sems st)"
  "same_shape st (note_waiting f st op)" "sleepers (note_waiting f st op) = sleepers st"
  "removed (note_waiting f st op) = removed st" "generation (note_waiting f st op) = generation st"
  "wakes (note_waiting f st op) = wakes st" "ss_id (note_waiting f st op) = ss_id st"
proof -
  have v: "map semval ((sems st)[k := x]) = map semval (sems st)" if "semval x = semval (sems st ! k)" for k x
    using that list_update_id [of "map semval (sems st)" k]
    by (cases "k < length (sems st)") (simp_all add: map_update list_update_beyond)
  show "values_of (note_waiting f st op) = values_of st"
    by (simp add: note_waiting_def values_of_def Let_def v)
qed (simp_all add: note_waiting_def same_shape_def Let_def)

lemma same_shape_sleepers [simp]: "same_shape st (st'\<lparr>sleepers := n\<rparr>) = same_shape st st'"
  by (simp add: same_shape_def)

lemma values_of_sleepers [simp]: "values_of (st\<lparr>sleepers := n\<rparr>) = values_of st"
  by (simp add: values_of_def)

lemma sem_round_cases:
  assumes ok: "sem_ok s" and slot: "slot < SEM_SETS_MAX" "sets s ! slot = Some st" "\<not> removed st"
    and ops: "\<forall>op \<in> set ops. sem_num op < length (sems st)"
    and run: "sem_round env s slot ops late = (turn, s')"
  obtains st' where "sem_ok s'" "sets s' = (sets s)[slot := Some st']" "same_shape st st'"
    "sleepers st' = (case turn of Returns _ \<Rightarrow> sleepers st | Sleeps _ \<Rightarrow> sleepers st + 1)"
    "turn = Returns (Inr ()) \<longrightarrow> (\<forall>i < length (sems st). values_of st' ! i = values_of st ! i + total_on ops i)"
    "turn \<noteq> Returns (Inr ()) \<longrightarrow> values_of st' = values_of st"
    "values_of st' \<noteq> values_of st \<longrightarrow> generation st' = generation st + 1 \<and> wakes st' = wakes st + 1"
    "next_seq s' = next_seq s"
proof -
  have at: "set_at s slot = st" using slot(2) by (simp add: set_at_def)
  have set: "set_ok slot st" by (rule sem_okD(2) [OF ok slot(1,2)])
  have id: "sets s = (sets s)[slot := Some st]" using slot(2) by (metis list_update_id)
  obtain r st1 us where tried: "try_operations env st (undos s) ops (e_tgid env) = (r, st1, us)" by (metis prod_cases3)
  note t = try_operations_cases [OF ok slot ops tried]
  show thesis
  proof (cases r)
    case Try_done
    then have s': "turn = Returns (Inr ())" "s' = (put_set s slot st1)\<lparr>undos := us\<rparr>"
      using run at tried by (simp_all add: sem_round_def)
    show thesis
      by (rule that [of st1]) (use s' t put_set_undos_ok [OF ok slot(1,2) t(2,3,1)] Try_done in simp_all)
  next
    case (Try_error e)
    then have s': "turn = Returns (Inl e)" "s' = (put_set s slot st1)\<lparr>undos := us\<rparr>"
      using run at tried by (simp_all add: sem_round_def)
    show thesis
      by (rule that [of st1]) (use s' t put_set_undos_ok [OF ok slot(1,2) t(2,3,1)] Try_error in simp_all)
  next
    case (Try_blocked index)
    have st1: "st1 = st" using t(6) Try_blocked by simp
    show thesis
    proof (cases "sem_flags (ops ! index) AND IPC_NOWAIT \<noteq> 0 \<or> late")
      case True
      then have "turn = Returns (Inl EAGAIN)" "s' = s"
        using run tried Try_blocked unfolding sem_round_def at by (simp_all split: if_split_asm)
      then show thesis using ok id by (intro that [of st]) (simp_all add: same_shape_def)
    next
      case False
      let ?st = "note_waiting (\<lambda>n. n + 1) st (ops ! index)"
      have s': "turn = Sleeps index" "s' = put_set s slot (?st\<lparr>sleepers := sleepers st + 1\<rparr>)"
        using False run at tried Try_blocked st1 by (simp_all add: sem_round_def Let_def)
      have shape: "same_shape st (?st\<lparr>sleepers := sleepers st + 1\<rparr>)" by simp
      have "set_ok slot (?st\<lparr>sleepers := sleepers st + 1\<rparr>)" by (rule set_ok_shape [OF set shape]) simp
      then have "sem_ok s'" unfolding s'(2) by (intro put_set_ok [OF ok slot(1,2) shape])
      then show thesis using s' shape by (intro that [of "?st\<lparr>sleepers := sleepers st + 1\<rparr>"]) simp_all
    qed
  qed
qed

section \<open>The other calls\<close>

text \<open>
  How a slot of the table may change in one call: a change of a value and a removal are noticed by the sleepers.
\<close>

definition noticed :: "sem_set \<Rightarrow> sem_set \<Rightarrow> bool" where
  "noticed st st' \<longleftrightarrow> (values_of st' \<noteq> values_of st \<or> removed st' \<noteq> removed st \<longrightarrow>
     generation st' = generation st + 1 \<and> wakes st' = wakes st + 1)"

definition evolves :: "sem_set option \<Rightarrow> sem_set option \<Rightarrow> bool" where
  "evolves a b =
     (case a of
        None \<Rightarrow> (case b of None \<Rightarrow> True | Some st' \<Rightarrow> sleepers st' = 0 \<and> \<not> removed st')
      | Some st \<Rightarrow>
          (case b of
             None \<Rightarrow> sleepers st = 0
           | Some st' \<Rightarrow> sleepers st' = sleepers st \<and> length (sems st') = length (sems st) \<and> noticed st st' \<and>
               (removed st' \<and> \<not> removed st \<longrightarrow> sleepers st \<noteq> 0) \<and> (removed st \<longrightarrow> removed st')))"

lemma evolves_refl [simp]: "evolves a a"
  by (simp add: evolves_def noticed_def split: option.split)

lemma evolves_update:
  assumes "slot < length xs" "evolves (xs ! slot) b"
  shows "evolves (xs ! k) (xs[slot := b] ! k)"
  using assms by (cases "k = slot") auto

lemma make_id_slot:
  assumes "slot < SEM_SETS_MAX"
  shows "0 \<le> make_id slot seq" "nat (make_id slot seq mod int SEM_SETS_MAX) = slot"
  using assms by (simp_all add: make_id_def)

lemma find_by_key_None:
  assumes "find_by_key s key = None" "key \<noteq> IPC_PRIVATE" "slot < SEM_SETS_MAX" "sets s ! slot = Some st" "\<not> removed st"
  shows "ss_key st \<noteq> key"
proof -
  have "\<not> (case sets s ! slot of None \<Rightarrow> False | Some st \<Rightarrow> \<not> removed st \<and> ss_key st = key)"
    using assms(1-3) unfolding find_by_key_def find_None_iff by (simp add: find_None_iff)
  then show ?thesis using assms(4,5) by simp
qed

lemma values_new_set: "values_of (new_set env slot seq key cnt flags) = replicate cnt 0"
  by (simp add: values_of_def new_set_def Let_def)

lemma new_set_simps [simp]:
  "ss_id (new_set env slot seq key cnt flags) = make_id slot seq" "removed (new_set env slot seq key cnt flags) = False"
  "ss_key (new_set env slot seq key cnt flags) = key" "sleepers (new_set env slot seq key cnt flags) = 0"
  "length (sems (new_set env slot seq key cnt flags)) = cnt"
  by (simp_all add: new_set_def Let_def)

lemma fill_slot_ok:
  assumes ok: "sem_ok s" and slot: "slot < SEM_SETS_MAX" "sets s ! slot = None" and st: "set_ok slot st"
    and key: "\<And>k st'. k < SEM_SETS_MAX \<Longrightarrow> sets s ! k = Some st' \<Longrightarrow> \<not> removed st' \<Longrightarrow> ss_key st \<noteq> IPC_PRIVATE \<Longrightarrow> ss_key st' \<noteq> ss_key st"
  shows "sem_ok (put_set s slot st)"
proof -
  have len: "length (sets s) = SEM_SETS_MAX" using ok by (simp add: sem_ok_def)
  have same: "find_by_id (put_set s slot st) ident = Some k" "sets (put_set s slot st) ! k = sets s ! k"
    if "find_by_id s ident = Some k" for ident k
    using that slot by (cases "k = slot"; auto simp: find_by_id_Some)+
  have fits: "\<forall>u \<in> set (undos s). undo_fits (put_set s slot st) u"
  proof
    fix u assume "u \<in> set (undos s)"
    then have "undo_fits s u" using ok by (simp add: sem_ok_def)
    then obtain k st' where k: "find_by_id s (u_id u) = Some k" "sets s ! k = Some st'" "length (adjust u) = length (sems st')"
      by (auto simp: undo_fits_def)
    then show "undo_fits (put_set s slot st) u"
      using same [OF k(1)] unfolding undo_fits_def by (intro exI [of _ k] exI [of _ st']) simp
  qed
  have sets: "set_ok k a" if "k < SEM_SETS_MAX" "sets (put_set s slot st) ! k = Some a" for k a
    using that ok st len by (cases "k = slot") (auto simp: sem_ok_def)
  have keys: "k = k'" if h: "k < SEM_SETS_MAX" "k' < SEM_SETS_MAX" "sets (put_set s slot st) ! k = Some a"
      "sets (put_set s slot st) ! k' = Some b" "\<not> removed a" "\<not> removed b" "ss_key a = ss_key b" "ss_key a \<noteq> IPC_PRIVATE" for k k' a b
  proof (cases "k = slot \<or> k' = slot")
    case True
    then show ?thesis using h key len slot(1) by (metis nth_list_update option.sel put_set_simps(3))
  next
    case False
    then have "sets s ! k = Some a" "sets s ! k' = Some b" using h(3,4) by simp_all
    then show ?thesis using h(1,2,5-8) ok unfolding sem_ok_def by metis
  qed
  have "distinct (map undo_key (undos s))" using ok by (simp add: sem_ok_def)
  then show ?thesis
    unfolding sem_ok_def using sets keys len fits by (auto simp del: put_set_simps(3)) (simp add: put_set_def)
qed

lemma sysvsem_get_ok:
  assumes ok: "sem_ok s" and run: "sysvsem_get env s key cnt flags = (r, s')"
  shows "sem_ok s'" "\<forall>slot < SEM_SETS_MAX. evolves (sets s ! slot) (sets s' ! slot)"
proof -
  have len: "length (sets s) = SEM_SETS_MAX" using ok by (simp add: sem_ok_def)
  have "sem_ok s' \<and> (\<forall>slot < SEM_SETS_MAX. evolves (sets s ! slot) (sets s' ! slot))"
  proof (cases "s' = s")
    case True
    with ok show ?thesis by simp
  next
    case False
    have none: "find_by_key s key = None"
      using run False by (cases "find_by_key s key") (auto simp: sysvsem_get_def Let_def)
    then obtain slot where c: "0 < cnt" "cnt \<le> int SEM_COUNT_MAX" "find (\<lambda>slot. sets s ! slot = None) [0..<SEM_SETS_MAX] = Some slot"
      "s' = (put_set s slot (new_set env slot (next_seq s) key (nat cnt) flags))\<lparr>next_seq := next_seq s + 1\<rparr>"
      using run False by (auto simp: sysvsem_get_def Let_def split: if_split_asm option.split_asm)
    let ?st = "new_set env slot (next_seq s) key (nat cnt) flags"
    have slot: "slot < SEM_SETS_MAX" "sets s ! slot = None" using c(3) by (auto simp: find_Some_iff)
    have st: "set_ok slot ?st"
      using make_id_slot [OF slot(1)] c(1,2)
      by (auto simp: set_ok_def values_new_set simp flip: length_0_conv)
    have "sem_ok (put_set s slot ?st)"
      using find_by_key_None [OF none] by (intro fill_slot_ok [OF ok slot st]) auto
    then have "sem_ok s'" unfolding c(4) by simp
    moreover have "evolves (sets s ! k) (sets s' ! k)" for k
    proof -
      have "evolves (sets s ! slot) (Some ?st)" using slot(2) by (simp add: evolves_def)
      then show ?thesis unfolding c(4) using slot(1) len evolves_update [of slot "sets s" "Some ?st" k] by simp
    qed
    ultimately show ?thesis by blast
  qed
  then show "sem_ok s'" "\<forall>slot < SEM_SETS_MAX. evolves (sets s ! slot) (sets s' ! slot)" by blast+
qed

lemma destroy_ok:
  assumes ok: "sem_ok s" and slot: "slot < SEM_SETS_MAX" "sets s ! slot = Some st"
  shows "sem_ok (destroy s slot)"
    "sets (destroy s slot) = (sets s)[slot := (if sleepers st = 0 then None else Some (bump (st\<lparr>removed := True\<rparr>)))]"
proof -
  have at: "set_at s slot = st" using slot(2) by (simp add: set_at_def)
  define s' where "s' = destroy s slot"
  define new where "new = (if sleepers st = 0 then None else Some (bump (st\<lparr>removed := True\<rparr>)))"
  show sets: "sets (destroy s slot) = (sets s)[slot := (if sleepers st = 0 then None else Some (bump (st\<lparr>removed := True\<rparr>)))]"
    by (simp add: destroy_def at Let_def)
  then have sets': "sets s' = (sets s)[slot := new]" by (simp add: s'_def new_def)
  have undos': "undos s' = filter (\<lambda>u. u_id u \<noteq> ss_id st) (undos s)"
    by (simp add: s'_def destroy_def at drop_undos_for_def Let_def)
  have len: "length (sets s) = SEM_SETS_MAX" using ok by (simp add: sem_ok_def)
  have new: "a = bump (st\<lparr>removed := True\<rparr>)" if "new = Some a" for a using that by (simp add: new_def split: if_split_asm)
  have sok: "set_ok slot st" by (rule sem_okD(2) [OF ok slot])
  have each: "set_ok k a" if "k < SEM_SETS_MAX" "sets s' ! k = Some a" for k a
  proof (cases "k = slot")
    case True
    then have "a = bump (st\<lparr>removed := True\<rparr>)" using that len sets' new by simp
    then show ?thesis using sok True by (simp add: set_ok_def values_of_def)
  next
    case False
    then show ?thesis using that ok sets' by (simp add: sem_ok_def)
  qed
  have old: "sets s ! k = Some a" if "k < SEM_SETS_MAX" "sets s' ! k = Some a" "\<not> removed a" for k a
    using that len sets' new by (cases "k = slot") auto
  have keys: "k = k'" if h: "k < SEM_SETS_MAX" "k' < SEM_SETS_MAX" "sets s' ! k = Some a"
      "sets s' ! k' = Some b" "\<not> removed a" "\<not> removed b" "ss_key a = ss_key b" "ss_key a \<noteq> IPC_PRIVATE" for k k' a b
    using h(1,2,5-8) old [OF h(1,3,5)] old [OF h(2,4,6)] ok unfolding sem_ok_def by metis
  have fits: "undo_fits s' u" if "u \<in> set (undos s')" for u
  proof -
    have u: "u \<in> set (undos s)" "u_id u \<noteq> ss_id st" using that undos' by auto
    then have "undo_fits s u" using ok by (simp add: sem_ok_def)
    then obtain k st' where k: "find_by_id s (u_id u) = Some k" "sets s ! k = Some st'" "length (adjust u) = length (sems st')"
      by (auto simp: undo_fits_def)
    have "k \<noteq> slot" using k(1,2) u(2) slot(2) by (auto simp: find_by_id_Some)
    then have "find_by_id s' (u_id u) = Some k" "sets s' ! k = Some st'"
      using k(1,2) sets' by (auto simp: find_by_id_Some)
    then show ?thesis using k(3) by (auto simp: undo_fits_def)
  qed
  have "distinct (map undo_key (undos s'))"
    using ok unfolding undos' sem_ok_def by (simp add: distinct_map_filter)
  then have "sem_ok s'" unfolding sem_ok_def using each keys fits len sets' by (auto simp: sets')
  then show "sem_ok (destroy s slot)" by (simp add: s'_def)
qed

lemma destroy_evolves:
  assumes "sem_ok s" "slot < SEM_SETS_MAX" "sets s ! slot = Some st" "\<not> removed st"
  shows "evolves (sets s ! k) (sets (destroy s slot) ! k)"
proof -
  have "evolves (Some st) (if sleepers st = 0 then None else Some (bump (st\<lparr>removed := True\<rparr>)))"
    using assms(4) by (simp add: evolves_def noticed_def)
  moreover have "slot < length (sets s)" using assms(1,2) by (simp add: sem_ok_def)
  ultimately show ?thesis
    unfolding destroy_ok(2) [OF assms(1-3)] using assms(3) by (intro evolves_update) simp_all
qed

lemma clear_undo_slot_view:
  "map undo_key (clear_undo_slot us ident num) = map undo_key us"
  "map (\<lambda>u. length (adjust u)) (clear_undo_slot us ident num) = map (\<lambda>u. length (adjust u)) us"
  by (simp_all add: clear_undo_slot_def undo_key_def)

lemma undos_fit_clear: "undos_fit s us \<Longrightarrow> undos_fit s (clear_undo_slot us ident num)"
  by (rule undos_fit_view [OF _ clear_undo_slot_view])

lemma undos_fit_clears: "undos_fit s us \<Longrightarrow> undos_fit s (foldl (\<lambda>us index. clear_undo_slot us ident index) us indices)"
  by (induction indices arbitrary: us) (simp_all add: undos_fit_clear)

text \<open>
  A call that replaces the set in one slot by one of the same shape with values in range, and the undo records by fitting ones.
\<close>

lemma replace_ok:
  assumes ok: "sem_ok s" and slot: "slot < SEM_SETS_MAX" "sets s ! slot = Some st"
    and st': "same_shape st st'" "\<forall>v \<in> set (values_of st'). 0 \<le> v \<and> v \<le> SEM_VALUE_MAX" "sleepers st' = sleepers st" "noticed st st'"
    and us: "undos_fit s us"
  shows "sem_ok ((put_set s slot st')\<lparr>undos := us\<rparr>)"
    "evolves (sets s ! k) (sets ((put_set s slot st')\<lparr>undos := us\<rparr>) ! k)"
proof -
  have "set_ok slot st'" by (rule set_ok_values [OF sem_okD(2) [OF ok slot] st'(1,2)])
  then show "sem_ok ((put_set s slot st')\<lparr>undos := us\<rparr>)" by (rule put_set_undos_ok [OF ok slot st'(1) _ us])
  have "evolves (Some st) (Some st')" using st' by (simp add: evolves_def same_shape_def)
  moreover have "slot < length (sets s)" using ok slot(1) by (simp add: sem_ok_def)
  ultimately show "evolves (sets s ! k) (sets ((put_set s slot st')\<lparr>undos := us\<rparr>) ! k)"
    using slot(2) evolves_update [of slot "sets s" "Some st'" k] by simp
qed

lemma live_undos_fit: "sem_ok s \<Longrightarrow> undos_fit s (undos s)"
  by (simp add: sem_ok_def undos_fit_def)

lemma put_set_undos_same: "put_set s slot st = (put_set s slot st)\<lparr>undos := undos s\<rparr>"
  by (simp add: put_set_def)

lemma found_set:
  assumes "find_by_id s ident = Some slot"
  obtains st where "slot < SEM_SETS_MAX" "sets s ! slot = Some st" "set_at s slot = st" "\<not> removed st" "ss_id st = ident"
  using assms find_by_id_slot [OF assms] by (auto simp: find_by_id_Some set_at_def)

lemma sem_ipc_set_ok:
  assumes ok: "sem_ok s" and run: "sem_ipc_set env user s0 ident = (r, s')" "user_stat user \<noteq> None" "meanwhile user s0 = s"
  shows "sem_ok s' \<and> (\<forall>k. evolves (sets s ! k) (sets s' ! k))"
proof (cases "s' = s")
  case True
  with ok show ?thesis by simp
next
  case False
  obtain v slot where c: "user_stat user = Some v" "find_by_id s ident = Some slot"
    using run False by (auto simp: sem_ipc_set_def Let_def split: option.split_asm)
  obtain st where st: "slot < SEM_SETS_MAX" "sets s ! slot = Some st" "set_at s slot = st" by (rule found_set [OF c(2)])
  let ?st = "st\<lparr>ss_uid := ds_uid v, ss_gid := ds_gid v, ss_mode := (ss_mode st AND NOT 0x1FF) OR (ds_mode v AND 0x1FF), ss_ctime := e_now env\<rparr>"
  have s': "s' = put_set s slot ?st"
    using run False c st(3) by (auto simp: sem_ipc_set_def Let_def split: if_split_asm)
  have shape: "same_shape st ?st" "values_of ?st = values_of st" "sleepers ?st = sleepers st" "noticed st ?st"
    by (simp_all add: same_shape_def values_of_def noticed_def)
  have range: "\<forall>v \<in> set (values_of ?st). 0 \<le> v \<and> v \<le> SEM_VALUE_MAX"
    using sem_okD(2) [OF ok st(1,2)] unfolding shape(2) set_ok_def by blast
  show ?thesis
    unfolding s' by (subst (1 2) put_set_undos_same) (use replace_ok [OF ok st(1,2) shape(1) range shape(3,4) live_undos_fit [OF ok]] in blast)
qed

lemma sem_setval_ok:
  assumes ok: "sem_ok s" and slot: "slot < SEM_SETS_MAX" "sets s ! slot = Some st"
    and run: "sem_setval env s slot num argument = (r, s')"
  shows "sem_ok s' \<and> (\<forall>k. evolves (sets s ! k) (sets s' ! k))"
proof (cases "s' = s")
  case True
  with ok show ?thesis by simp
next
  case False
  have at: "set_at s slot = st" using slot(2) by (simp add: set_at_def)
  define v where "v = sint (ucast argument :: u32)"
  let ?x = "(sems st ! nat num)\<lparr>semval := v, sempid := e_tgid env\<rparr>"
  let ?st = "bump (st\<lparr>sems := (sems st)[nat num := ?x], ss_ctime := e_now env\<rparr>)"
  have v: "0 \<le> v" "v \<le> SEM_VALUE_MAX"
    and s': "s' = (put_set s slot ?st)\<lparr>undos := clear_undo_slot (undos s) (ss_id st) (nat num)\<rparr>"
    using run False at by (auto simp: sem_setval_def Let_def v_def split: if_split_asm)
  have vals: "values_of ?st = (values_of st)[nat num := v]" by (simp add: values_of_def map_update)
  have "\<forall>x \<in> set (values_of st). 0 \<le> x \<and> x \<le> SEM_VALUE_MAX"
    using sem_okD(2) [OF ok slot] unfolding set_ok_def by blast
  then have range: "\<forall>x \<in> set (values_of ?st). 0 \<le> x \<and> x \<le> SEM_VALUE_MAX"
    unfolding vals using set_update_subset_insert [of "values_of st" "nat num" v] v by blast
  have shape: "same_shape st ?st" "sleepers ?st = sleepers st" "noticed st ?st"
    by (simp_all add: same_shape_def noticed_def)
  show ?thesis
    unfolding s' using replace_ok [OF ok slot shape(1) range shape(2,3) undos_fit_clear [OF live_undos_fit [OF ok]]] by blast
qed

lemma sem_setall_ok:
  assumes ok: "sem_ok s" and run: "sem_setall env user s0 slot0 ident = (r, s')"
    and user: "user_values user (length (sems (set_at s0 slot0))) = Some vals" "length vals = length (sems (set_at s0 slot0))"
    and "meanwhile user s0 = s"
  shows "sem_ok s' \<and> (\<forall>k. evolves (sets s ! k) (sets s' ! k))"
proof (cases "s' = s")
  case True
  with ok show ?thesis by simp
next
  case False
  obtain slot where c: "find_by_id s ident = Some slot"
    using run False user(1) assms(5) by (auto simp: sem_setall_def Let_def split: option.split_asm)
  obtain st where st: "slot < SEM_SETS_MAX" "sets s ! slot = Some st" "set_at s slot = st" by (rule found_set [OF c])
  let ?ss = "map (\<lambda>(x, v). x\<lparr>semval := uint v, sempid := e_tgid env\<rparr>) (zip (sems st) vals)"
  let ?st = "bump (st\<lparr>sems := ?ss, ss_ctime := e_now env\<rparr>)"
  let ?us = "foldl (\<lambda>us index. clear_undo_slot us (ss_id st) index) (undos s) [0..<length vals]"
  have len: "length (sems st) = length vals" and small: "\<not> list_ex (\<lambda>v. uint v > SEM_VALUE_MAX) vals"
    and s': "s' = (put_set s slot ?st)\<lparr>undos := ?us\<rparr>"
    using run False c st(3) user assms(5) unfolding sem_setall_def Let_def user(1) option.case assms(5) c st(3)
    by (simp_all split: if_split_asm)
  have "map semval (map (\<lambda>(x, v). x\<lparr>semval := uint v, sempid := e_tgid env\<rparr>) (zip xs vs)) = map uint vs"
    if "length xs = length vs" for xs and vs :: "u16 list"
    using that by (induction xs vs rule: list_induct2) simp_all
  then have vals: "values_of ?st = map uint vals" using len by (simp add: values_of_def)
  have range: "\<forall>x \<in> set (values_of ?st). 0 \<le> x \<and> x \<le> SEM_VALUE_MAX"
    unfolding vals using small by (auto simp: list_ex_iff not_less)
  have shape: "same_shape st ?st" "sleepers ?st = sleepers st" "noticed st ?st"
    using len by (simp_all add: same_shape_def noticed_def)
  show ?thesis
    unfolding s' using replace_ok [OF ok st(1,2) shape(1) range shape(2,3) undos_fit_clears [OF live_undos_fit [OF ok]]] by blast
qed

lemma ctl_on_set_ok:
  assumes ok: "sem_ok s" and slot: "slot < SEM_SETS_MAX" "sets s ! slot = Some st" "\<not> removed st"
    and run: "ctl_on_set env user s slot ident num command argument = (r, s', out)"
    and user: "\<And>x. meanwhile user x = x" "\<And>n vals. user_values user n = Some vals \<Longrightarrow> length vals = n"
  shows "sem_ok s' \<and> (\<forall>k. evolves (sets s ! k) (sets s' ! k))"
proof (cases "s' = s")
  case True
  with ok show ?thesis by simp
next
  case False
  show ?thesis
  proof (cases command)
    case IPC_RMID
    then have "s' = destroy s slot" using run False by (simp add: ctl_on_set_def split: if_split_asm)
    then show ?thesis using destroy_ok(1) [OF ok slot(1,2)] destroy_evolves [OF ok slot] by simp
  next
    case IPC_SET
    then obtain r0 where run': "sem_ipc_set env user s ident = (r0, s')"
      using run by (auto simp: ctl_on_set_def split: prod.split_asm)
    have "user_stat user \<noteq> None" using run' False by (cases "user_stat user") (simp_all add: sem_ipc_set_def)
    then show ?thesis by (rule sem_ipc_set_ok [OF ok run' _ user(1)])
  next
    case SETVAL
    then obtain r0 where "sem_setval env s slot num argument = (r0, s')"
      using run by (auto simp: ctl_on_set_def split: prod.split_asm)
    then show ?thesis by (rule sem_setval_ok [OF ok slot(1,2)])
  next
    case SETALL
    then obtain r0 where run': "sem_setall env user s slot ident = (r0, s')"
      using run by (auto simp: ctl_on_set_def split: prod.split_asm)
    then obtain vals where "user_values user (length (sems (set_at s slot))) = Some vals"
      using False by (cases "user_values user (length (sems (set_at s slot)))") (auto simp: sem_setall_def Let_def)
    then show ?thesis using user(2) by (intro sem_setall_ok [OF ok run' _ _ user(1)]) auto
  qed (use run False in \<open>auto simp: ctl_on_set_def sem_stat_def Let_def split: if_split_asm prod.split_asm\<close>)
qed

lemma sysvsem_ctl_ok:
  assumes ok: "sem_ok s" and run: "sysvsem_ctl env user s ident num command argument = (r, s', out)"
    and user: "\<And>x. meanwhile user x = x" "\<And>n vals. user_values user n = Some vals \<Longrightarrow> length vals = n"
  shows "sem_ok s'" "\<forall>k. evolves (sets s ! k) (sets s' ! k)"
proof -
  have "sem_ok s' \<and> (\<forall>k. evolves (sets s ! k) (sets s' ! k))"
  proof (cases "s' = s")
    case True
    with ok show ?thesis by simp
  next
    case False
    let ?c = "sem_command_of command"
    have "\<not> (?c = IPC_INFO \<or> ?c = SEM_INFO)"
      using run False by (auto simp: sysvsem_ctl_def Let_def split: prod.split_asm)
    then obtain slot where t: "ctl_target s ?c ident = Some slot" "ctl_on_set env user s slot ident num ?c argument = (r, s', out)"
      using run False by (auto simp: sysvsem_ctl_def Let_def split: option.split_asm)
    obtain st where "slot < SEM_SETS_MAX" "sets s ! slot = Some st" "\<not> removed st"
      using t(1) find_by_id_slot
      by (auto simp: ctl_target_def live_def find_by_id_Some split: if_split_asm option.split_asm)
    then show ?thesis by (rule ctl_on_set_ok [OF ok _ _ _ t(2) user])
  qed
  then show "sem_ok s'" "\<forall>k. evolves (sets s ! k) (sets s' ! k)" by blast+
qed

section \<open>Undoing\<close>

lemma clamp_range: "0 \<le> clamp v" "clamp v \<le> SEM_VALUE_MAX"
  by (simp_all add: clamp_def Let_def)

lemma clamp_id: "0 \<le> v \<Longrightarrow> v \<le> SEM_VALUE_MAX \<Longrightarrow> clamp v = v"
  by (simp add: clamp_def)

lemma undo_sem_value: "semval (undo_sem tgid (x, a)) = (if a = 0 then semval x else clamp (semval x + a))"
  by (simp add: undo_sem_def)

lemma undo_set_effect:
  assumes "length adj = length (sems st)"
  shows "same_shape st (undo_set tgid st adj)" "sleepers (undo_set tgid st adj) = sleepers st" "noticed st (undo_set tgid st adj)"
    "\<And>i. i < length (sems st) \<Longrightarrow> values_of (undo_set tgid st adj) ! i =
       (if adj ! i = 0 then values_of st ! i else clamp (values_of st ! i + adj ! i))"
proof -
  let ?ss = "map (undo_sem tgid) (zip (sems st) adj)"
  have eq: "undo_set tgid st adj = (if list_ex (\<lambda>a. a \<noteq> 0) adj then bump (st\<lparr>sems := ?ss\<rparr>) else st\<lparr>sems := ?ss\<rparr>)"
    using assms by (simp add: undo_set_def Let_def)
  have len: "length ?ss = length (sems st)" using assms by simp
  then show "same_shape st (undo_set tgid st adj)" "sleepers (undo_set tgid st adj) = sleepers st"
    unfolding eq by (simp_all add: same_shape_def)
  show vals: "values_of (undo_set tgid st adj) ! i =
       (if adj ! i = 0 then values_of st ! i else clamp (values_of st ! i + adj ! i))" if "i < length (sems st)" for i
    using that assms unfolding eq by (simp add: values_of_def undo_sem_value)
  have "values_of (undo_set tgid st adj) = values_of st" if "\<not> list_ex (\<lambda>a. a \<noteq> 0) adj"
  proof (rule nth_equalityI)
    show "length (values_of (undo_set tgid st adj)) = length (values_of st)" using len unfolding eq by (simp add: values_of_def)
    fix i assume "i < length (values_of (undo_set tgid st adj))"
    then have i: "i < length (sems st)" using len unfolding eq by (simp add: values_of_def split: if_split_asm)
    then have "adj ! i = 0" using that assms by (auto simp: list_ex_length)
    then show "values_of (undo_set tgid st adj) ! i = values_of st ! i" using vals [OF i] by simp
  qed
  moreover have "generation (undo_set tgid st adj) = generation st + 1 \<and> wakes (undo_set tgid st adj) = wakes st + 1"
    if "list_ex (\<lambda>a. a \<noteq> 0) adj" using that unfolding eq by simp
  moreover have "removed (undo_set tgid st adj) = removed st" unfolding eq by simp
  ultimately show "noticed st (undo_set tgid st adj)" unfolding noticed_def by blast
qed

definition slot_after :: "int \<Rightarrow> sem_undo list \<Rightarrow> sem_set \<Rightarrow> sem_set" where
  "slot_after tgid us st =
     (case find (\<lambda>u. undo_key u = (tgid, ss_id st)) us of
        None \<Rightarrow> st
      | Some u \<Rightarrow> if removed st then st else undo_set tgid st (adjust u))"

lemma undo_set_range:
  assumes "set_ok slot st" "length adj = length (sems st)"
  shows "\<forall>v \<in> set (values_of (undo_set tgid st adj)). 0 \<le> v \<and> v \<le> SEM_VALUE_MAX"
proof
  fix v assume "v \<in> set (values_of (undo_set tgid st adj))"
  moreover have "length (values_of (undo_set tgid st adj)) = length (sems st)"
    using undo_set_effect(1) [OF assms(2), of tgid] by (simp add: values_of_def same_shape_def)
  ultimately obtain i where i: "i < length (sems st)" "v = values_of (undo_set tgid st adj) ! i"
    by (auto simp: in_set_conv_nth)
  have "values_of st ! i \<in> set (values_of st)" using i(1) by (simp add: values_of_def)
  then have "0 \<le> values_of st ! i" "values_of st ! i \<le> SEM_VALUE_MAX" using assms(1) unfolding set_ok_def by blast+
  then show "0 \<le> v \<and> v \<le> SEM_VALUE_MAX"
    using undo_set_effect(4) [OF assms(2) i(1), of tgid] i(2) clamp_range by simp
qed

lemma exit_loop_effect:
  assumes "sem_ok s" "\<forall>u \<in> set us. undo_fits s u" "distinct (map undo_key us)"
  shows "sem_ok (exit_loop tgid us s) \<and> undos (exit_loop tgid us s) = undos s \<and>
    (\<forall>k < SEM_SETS_MAX. sets (exit_loop tgid us s) ! k = map_option (slot_after tgid us) (sets s ! k))"
  using assms
proof (induction us arbitrary: s)
  case Nil
  have "slot_after tgid [] = id" by (rule ext) (simp add: slot_after_def)
  with Nil show ?case by (simp add: option.map_ident)
next
  case (Cons u us)
  have len: "length (sets s) = SEM_SETS_MAX" using Cons.prems(1) by (simp add: sem_ok_def)
  show ?case
  proof (cases "u_tgid u = tgid")
    case False
    then have "slot_after tgid (u # us) = slot_after tgid us" by (intro ext) (simp add: slot_after_def undo_key_def)
    with False Cons show ?thesis by simp
  next
    case True
    obtain slot st where f: "find_by_id s (u_id u) = Some slot" "sets s ! slot = Some st" "length (adjust u) = length (sems st)"
      using Cons.prems(2) by (auto simp: undo_fits_def)
    have slot: "slot < SEM_SETS_MAX" "\<not> removed st" "ss_id st = u_id u"
      using find_by_id_slot [OF f(1)] f(1,2) by (auto simp: find_by_id_Some)
    have at: "set_at s slot = st" using f(2) by (simp add: set_at_def)
    define st1 where "st1 = undo_set tgid st (adjust u)"
    define s1 where "s1 = put_set s slot st1"
    have shape: "same_shape st st1" unfolding st1_def by (rule undo_set_effect(1) [OF f(3)])
    have sok: "set_ok slot st" by (rule sem_okD(2) [OF Cons.prems(1) slot(1) f(2)])
    have "set_ok slot st1"
      unfolding st1_def by (rule set_ok_values [OF sok undo_set_effect(1) [OF f(3)] undo_set_range [OF sok f(3)]])
    then have ok1: "sem_ok s1" unfolding s1_def by (rule put_set_ok [OF Cons.prems(1) slot(1) f(2) shape])
    have fits1: "\<forall>u \<in> set us. undo_fits s1 u"
      using Cons.prems(2) len slot(1) unfolding s1_def by (subst undo_fits_put [OF _ f(2) shape]) simp_all
    have dist: "distinct (map undo_key us)" "undo_key u \<notin> set (map undo_key us)" using Cons.prems(3) by simp_all
    have run: "exit_loop tgid (u # us) s = exit_loop tgid us s1"
      using True f(1) at by (simp add: s1_def st1_def)
    note ih = Cons.IH [OF ok1 fits1 dist(1)]
    have "map_option (slot_after tgid us) (sets s1 ! k) = map_option (slot_after tgid (u # us)) (sets s ! k)"
      if k: "k < SEM_SETS_MAX" for k
    proof (cases "k = slot")
      case True
      have "undo_key x \<noteq> undo_key u" if "x \<in> set us" for x using dist(2) imageI [OF that, of undo_key] by auto
      then have "find (\<lambda>x. undo_key x = (tgid, u_id u)) us = None"
        using \<open>u_tgid u = tgid\<close> by (auto simp: find_None_iff undo_key_def)
      then have "slot_after tgid us st1 = st1" using shape slot(3) by (simp add: slot_after_def same_shape_def)
      moreover have "slot_after tgid (u # us) st = st1"
        using \<open>u_tgid u = tgid\<close> slot(2,3) by (simp add: slot_after_def undo_key_def st1_def)
      ultimately show ?thesis using True len slot(1) f(2) by (simp add: s1_def)
    next
      case False
      have "ss_id a \<noteq> u_id u" if "sets s ! k = Some a" for a
        using sem_okD(2) [OF Cons.prems(1) k that] sok False slot(3) by (auto simp: set_ok_def)
      then have "slot_after tgid (u # us) a = slot_after tgid us a" if "sets s ! k = Some a" for a
        using that by (auto simp: slot_after_def undo_key_def)
      then show ?thesis using False by (cases "sets s ! k") (simp_all add: s1_def)
    qed
    with ih show ?thesis unfolding run by (simp add: s1_def)
  qed
qed

lemma slot_after_evolves:
  assumes "\<forall>u \<in> set us. u_id u = ss_id st \<longrightarrow> \<not> removed st \<longrightarrow> length (adjust u) = length (sems st)"
  shows "evolves (Some st) (Some (slot_after tgid us st))"
proof (cases "find (\<lambda>u. undo_key u = (tgid, ss_id st)) us")
  case None
  then show ?thesis by (simp add: slot_after_def)
next
  case (Some u)
  then have u: "u \<in> set us" "u_id u = ss_id st" by (auto simp: find_Some_iff undo_key_def)
  show ?thesis
  proof (cases "removed st")
    case True
    then show ?thesis using Some by (simp add: slot_after_def)
  next
    case False
    then have "length (adjust u) = length (sems st)" using assms u by blast
    from undo_set_effect(1-3) [OF this, of tgid] show ?thesis
      using Some False by (simp add: slot_after_def evolves_def same_shape_def)
  qed
qed

lemma sysvsem_exit_ok:
  assumes ok: "sem_ok s"
  shows "sem_ok (sysvsem_exit tgid s)" "\<forall>k < SEM_SETS_MAX. evolves (sets s ! k) (sets (sysvsem_exit tgid s) ! k)"
    "\<forall>k < SEM_SETS_MAX. sets (sysvsem_exit tgid s) ! k = map_option (slot_after tgid (undos s)) (sets s ! k)"
proof -
  have fits: "\<forall>u \<in> set (undos s). undo_fits s u" "distinct (map undo_key (undos s))" using ok by (simp_all add: sem_ok_def)
  note eff = exit_loop_effect [OF ok fits, of tgid]
  let ?s1 = "exit_loop tgid (undos s) s"
  have fits1: "\<forall>u \<in> set (undos s). undo_fits ?s1 u" using eff by (simp add: sem_ok_def)
  show "sem_ok (sysvsem_exit tgid s)"
    unfolding sysvsem_exit_def using eff fits1 fits(2) by (intro undos_ok) (simp_all add: distinct_map_filter)
  show sets: "\<forall>k < SEM_SETS_MAX. sets (sysvsem_exit tgid s) ! k = map_option (slot_after tgid (undos s)) (sets s ! k)"
    using eff by (simp add: sysvsem_exit_def)
  show "\<forall>k < SEM_SETS_MAX. evolves (sets s ! k) (sets (sysvsem_exit tgid s) ! k)"
  proof (intro allI impI)
    fix k assume k: "k < SEM_SETS_MAX"
    show "evolves (sets s ! k) (sets (sysvsem_exit tgid s) ! k)"
    proof (cases "sets s ! k")
      case None
      with sets k show ?thesis by simp
    next
      case (Some st)
      have "length (adjust u) = length (sems st)" if "u \<in> set (undos s)" "u_id u = ss_id st" "\<not> removed st" for u
        using fits(1) that find_by_id_live [OF ok k Some that(3)] Some by (fastforce simp: undo_fits_def)
      then show ?thesis using slot_after_evolves [of "undos s" st tgid] sets k Some by auto
    qed
  qed
qed

section \<open>Processes and sleepers\<close>

text \<open>
  The calls of all processes, one after the other under the lock. A thread that sleeps is remembered with the slot it sleeps on, its
  operations and the one it is blocked at. A thread that wakes up either leaves with an error or tries again at
  once.
\<close>

type_synonym sem_sleeping = "nat \<Rightarrow> (nat \<times> sembuf list \<times> nat) option"

fun after_turn :: "sem_turn \<Rightarrow> sem_sleeping \<Rightarrow> nat \<Rightarrow> nat \<Rightarrow> sembuf list \<Rightarrow> sem_sleeping" where
  "after_turn (Returns _) sl thread slot ops = sl(thread := None)"
| "after_turn (Sleeps index) sl thread slot ops = sl(thread \<mapsto> (slot, ops, index))"

inductive sem_step :: "sem_state \<times> sem_sleeping \<Rightarrow> sem_state \<times> sem_sleeping \<Rightarrow> bool" where
  get: "sysvsem_get env s key cnt flags = (r, s') \<Longrightarrow> sem_step (s, sl) (s', sl)"
| op: "sl thread = None \<Longrightarrow> sem_admit env s ident ops = Inr slot \<Longrightarrow> sem_round env s slot ops late = (turn, s') \<Longrightarrow>
    sem_step (s, sl) (s', after_turn turn sl thread slot ops)"
| leave: "sl thread = Some (slot, ops, index) \<Longrightarrow> sem_resume s slot (ops ! index) intr = (Some e, s') \<Longrightarrow>
    sem_step (s, sl) (s', sl(thread := None))"
| retry: "sl thread = Some (slot, ops, index) \<Longrightarrow> sem_resume s slot (ops ! index) intr = (None, s1) \<Longrightarrow>
    sem_round env s1 slot ops late = (turn, s') \<Longrightarrow> sem_step (s, sl) (s', after_turn turn sl thread slot ops)"
| ctl: "sysvsem_ctl env user s ident num command argument = (r, s', out) \<Longrightarrow> (\<And>x. meanwhile user x = x) \<Longrightarrow>
    (\<And>n vals. user_values user n = Some vals \<Longrightarrow> length vals = n) \<Longrightarrow> sem_step (s, sl) (s', sl)"
| late_set: "sem_ipc_set env user s0 ident = (r, s') \<Longrightarrow> user_stat user \<noteq> None \<Longrightarrow> meanwhile user s0 = s \<Longrightarrow> sem_step (s, sl) (s', sl)"
| late_setall: "sem_setall env user s0 slot0 ident = (r, s') \<Longrightarrow> meanwhile user s0 = s \<Longrightarrow>
    user_values user (length (sems (set_at s0 slot0))) = Some vals \<Longrightarrow> length vals = length (sems (set_at s0 slot0)) \<Longrightarrow>
    sem_step (s, sl) (s', sl)"
| exit: "sem_step (s, sl) (sysvsem_exit tgid s, sl)"

inductive sem_reachable :: "sem_state \<times> sem_sleeping \<Rightarrow> bool" where
  boot: "sem_reachable (\<lparr>sets = replicate SEM_SETS_MAX None, undos = [], next_seq = 0\<rparr>, Map.empty)"
| step: "sem_reachable c \<Longrightarrow> sem_step c c' \<Longrightarrow> sem_reachable c'"

definition sleeping_on :: "sem_sleeping \<Rightarrow> nat \<Rightarrow> nat set" where
  "sleeping_on sl slot = {t. \<exists>ops index. sl t = Some (slot, ops, index)}"

definition slot_inv :: "sem_sleeping \<Rightarrow> nat \<Rightarrow> sem_set option \<Rightarrow> bool" where
  "slot_inv sl slot x =
     (case x of
        None \<Rightarrow> sleeping_on sl slot = {}
      | Some st \<Rightarrow> sleepers st = card (sleeping_on sl slot) \<and> (removed st \<longrightarrow> sleepers st \<noteq> 0) \<and>
          (\<forall>t ops index. sl t = Some (slot, ops, index) \<longrightarrow> (\<forall>op \<in> set ops. sem_num op < length (sems st))))"

definition sem_inv :: "sem_state \<times> sem_sleeping \<Rightarrow> bool" where
  "sem_inv c = (case c of (s, sl) \<Rightarrow>
     sem_ok s \<and> finite (dom sl) \<and> (\<forall>slot < SEM_SETS_MAX. slot_inv sl slot (sets s ! slot)) \<and>
     (\<forall>t slot ops index. sl t = Some (slot, ops, index) \<longrightarrow> slot < SEM_SETS_MAX \<and> index < length ops))"

lemma finite_sleeping_on: "finite (dom sl) \<Longrightarrow> finite (sleeping_on sl slot)"
  by (rule finite_subset [of _ "dom sl"]) (auto simp: sleeping_on_def)

lemma slot_inv_evolves:
  assumes "slot_inv sl slot a" "evolves a b" "finite (dom sl)"
  shows "slot_inv sl slot b"
proof (cases a)
  case None
  then show ?thesis
    using assms by (auto simp: slot_inv_def evolves_def sleeping_on_def split: option.split_asm option.split)
next
  case (Some st)
  show ?thesis
  proof (cases b)
    case None
    then show ?thesis using assms Some finite_sleeping_on [OF assms(3), of slot] by (simp add: slot_inv_def evolves_def)
  next
    case (Some st')
    then show ?thesis using assms \<open>a = Some st\<close> by (auto simp: slot_inv_def evolves_def)
  qed
qed

lemma sem_inv_evolves:
  assumes "sem_inv (s, sl)" "sem_ok s'" "\<And>slot. slot < SEM_SETS_MAX \<Longrightarrow> evolves (sets s ! slot) (sets s' ! slot)"
  shows "sem_inv (s', sl)"
  using assms slot_inv_evolves unfolding sem_inv_def prod.case by blast

lemma stage_ops_Blocked: "stage_ops staged ops k = Blocked_at index \<Longrightarrow> k \<le> index \<and> index < k + length ops"
proof (induction ops arbitrary: staged k)
  case (Cons op ops)
  show ?case
  proof (cases "index = k")
    case False
    then obtain staged' where "stage_ops staged' ops (Suc k) = Blocked_at index"
      using Cons.prems by (auto simp: Let_def split: if_split_asm)
    from Cons.IH [OF this] show ?thesis by simp
  qed simp
qed simp

lemma sem_round_index:
  assumes "sem_round env s slot ops late = (Sleeps index, s')"
  shows "index < length ops"
proof -
  obtain r st us where t: "try_operations env (set_at s slot) (undos s) ops (e_tgid env) = (r, st, us)" by (metis prod_cases3)
  then have "r = Try_blocked index"
    using assms by (cases r) (auto simp: sem_round_def Let_def split: if_split_asm)
  then have "stage_ops (values_of (set_at s slot)) ops 0 = Blocked_at index"
    using t by (auto simp: try_operations_def split: staging.split_asm prod.split_asm option.split_asm)
  from stage_ops_Blocked [OF this] show ?thesis by simp
qed

lemma sleeping_on_upd:
  "sleeping_on (sl(t := None)) slot = sleeping_on sl slot - {t}"
  "sleeping_on (sl(t \<mapsto> (slot', ops, index))) slot =
     (if slot' = slot then insert t (sleeping_on sl slot) else sleeping_on sl slot - {t})"
  by (auto simp: sleeping_on_def)

lemma sem_invD:
  assumes "sem_inv (s, sl)"
  shows "sem_ok s" "finite (dom sl)" "\<And>slot. slot < SEM_SETS_MAX \<Longrightarrow> slot_inv sl slot (sets s ! slot)"
    "\<And>t slot ops index. sl t = Some (slot, ops, index) \<Longrightarrow> slot < SEM_SETS_MAX \<and> index < length ops"
  using assms unfolding sem_inv_def prod.case by blast+

lemma sem_invI:
  assumes "sem_ok s" "finite (dom sl)" "\<And>slot. slot < SEM_SETS_MAX \<Longrightarrow> slot_inv sl slot (sets s ! slot)"
    "\<And>t slot ops index. sl t = Some (slot, ops, index) \<Longrightarrow> slot < SEM_SETS_MAX \<and> index < length ops"
  shows "sem_inv (s, sl)"
  using assms unfolding sem_inv_def prod.case by blast

lemma sleeping_set:
  assumes "sem_inv (s, sl)" "sl t = Some (slot, ops, index)"
  obtains st where "sets s ! slot = Some st" "slot < SEM_SETS_MAX" "sleepers st = card (sleeping_on sl slot)" "t \<in> sleeping_on sl slot"
    "\<forall>op \<in> set ops. sem_num op < length (sems st)" "index < length ops" "sleepers st \<noteq> 0"
proof -
  have slot: "slot < SEM_SETS_MAX" "index < length ops" using sem_invD(4) [OF assms] by blast+
  have t: "t \<in> sleeping_on sl slot" using assms(2) by (auto simp: sleeping_on_def)
  have inv: "slot_inv sl slot (sets s ! slot)" by (rule sem_invD(3) [OF assms(1) slot(1)])
  obtain st where st: "sets s ! slot = Some st" using inv t by (auto simp: slot_inv_def split: option.split_asm)
  have "sleepers st = card (sleeping_on sl slot)" "\<forall>op \<in> set ops. sem_num op < length (sems st)"
    using inv assms(2) unfolding st slot_inv_def option.case by blast+
  moreover have "card (sleeping_on sl slot) \<noteq> 0"
    using t finite_sleeping_on [OF sem_invD(2) [OF assms(1)], of slot] by auto
  ultimately show thesis using that st slot t by simp
qed

lemma slot_inv_other:
  assumes "slot_inv sl k x" "\<And>ops index. sl t \<noteq> Some (k, ops, index)" "\<And>ops index. v \<noteq> Some (k, ops, index)"
  shows "slot_inv (sl(t := v)) k x"
proof -
  have on: "sleeping_on (sl(t := v)) k = sleeping_on sl k" using assms(2,3) by (auto simp: sleeping_on_def)
  have old: "sl u = Some (k, ops, index)" if "(sl(t := v)) u = Some (k, ops, index)" for u ops index
    using that assms(3) by (cases "u = t") auto
  show ?thesis
  proof (cases x)
    case None
    then show ?thesis using assms(1) on by (simp add: slot_inv_def)
  next
    case (Some st)
    show ?thesis using assms(1) old unfolding Some slot_inv_def option.case on by blast
  qed
qed

lemma sem_inv_slot:
  assumes inv: "sem_inv (s, sl)" and t: "\<And>k ops index. k \<noteq> slot \<Longrightarrow> sl t \<noteq> Some (k, ops, index)"
    and v: "\<And>k ops index. v = Some (k, ops, index) \<Longrightarrow> k = slot \<and> slot < SEM_SETS_MAX \<and> index < length ops"
    and new: "sem_ok s'" "\<And>k. k \<noteq> slot \<Longrightarrow> sets s' ! k = sets s ! k" "slot < SEM_SETS_MAX \<Longrightarrow> slot_inv (sl(t := v)) slot (sets s' ! slot)"
  shows "sem_inv (s', sl(t := v))"
proof (rule sem_invI)
  show "sem_ok s'" by (rule new(1))
  show "finite (dom (sl(t := v)))" using sem_invD(2) [OF inv] by (auto simp: dom_def intro: finite_subset [of _ "insert t (dom sl)"])
  show "slot_inv (sl(t := v)) k (sets s' ! k)" if "k < SEM_SETS_MAX" for k
  proof (cases "k = slot")
    case True
    then show ?thesis using new(3) that by simp
  next
    case False
    have "slot_inv sl k (sets s ! k)" by (rule sem_invD(3) [OF inv that])
    then show ?thesis unfolding new(2) [OF False] using False t v by (intro slot_inv_other) auto
  qed
  show "k < SEM_SETS_MAX \<and> i < length os" if "(sl(t := v)) u = Some (k, os, i)" for u k os i
  proof (cases "u = t")
    case True
    then show ?thesis using that v by auto
  next
    case False
    then show ?thesis using that by (intro sem_invD(4) [OF inv, of u]) simp
  qed
qed

definition resumed :: "sem_set \<Rightarrow> sembuf \<Rightarrow> sem_set" where
  "resumed st op = note_waiting (\<lambda>n. n - 1) (st\<lparr>sleepers := sleepers st - 1\<rparr>) op"

lemma resumed_simps [simp]:
  "values_of (resumed st op) = values_of st" "removed (resumed st op) = removed st" "generation (resumed st op) = generation st"
  "wakes (resumed st op) = wakes st" "sleepers (resumed st op) = sleepers st - 1" "length (sems (resumed st op)) = length (sems st)"
  "same_shape st (resumed st op)"
  using note_waiting_simps(3) [of "st\<lparr>sleepers := sleepers st - 1\<rparr>" "\<lambda>n. n - 1" op]
  by (simp_all add: resumed_def same_shape_def)

lemma sem_resume_eq:
  assumes "sets s ! slot = Some st"
  shows "sem_resume s slot op intr =
    (if removed st then (Some EIDRM, if sleepers st - 1 = 0 then destroy (put_set s slot (resumed st op)) slot else put_set s slot (resumed st op))
     else if intr then (Some EINTR, put_set s slot (resumed st op)) else (None, put_set s slot (resumed st op)))"
proof -
  have at: "set_at s slot = st" using assms by (simp add: set_at_def)
  show ?thesis unfolding sem_resume_def at Let_def resumed_def [symmetric] by simp
qed

lemma resume_put_ok:
  assumes ok: "sem_ok s" and slot: "slot < SEM_SETS_MAX" "sets s ! slot = Some st"
  shows "sem_ok (put_set s slot (resumed st op))"
  using set_ok_shape [OF sem_okD(2) [OF assms] resumed_simps(7,1)] by (rule put_set_ok [OF assms resumed_simps(7)])

lemma resumed_card:
  assumes inv: "sem_inv (s, sl)" and t: "sl t = Some (slot, ops, index)" and st: "sets s ! slot = Some st"
  shows "card (sleeping_on (sl(t := None)) slot) = sleepers st - 1"
proof -
  obtain st0 where s0: "sets s ! slot = Some st0" "slot < SEM_SETS_MAX" "sleepers st0 = card (sleeping_on sl slot)" "t \<in> sleeping_on sl slot"
    "\<forall>op \<in> set ops. sem_num op < length (sems st0)" "index < length ops" "sleepers st0 \<noteq> 0"
    by (rule sleeping_set [OF inv t])
  have eq: "st0 = st" using s0(1) st by simp
  show ?thesis
    using s0(3,4) finite_sleeping_on [OF sem_invD(2) [OF inv], of slot] unfolding eq by (simp add: sleeping_on_upd)
qed

lemma resumed_slot_inv:
  assumes inv: "sem_inv (s, sl)" and t: "sl t = Some (slot, ops, index)" and st: "sets s ! slot = Some st"
    and live: "removed st \<Longrightarrow> sleepers st - 1 \<noteq> 0"
  shows "slot_inv (sl(t := None)) slot (Some (resumed st op))"
proof -
  have slot: "slot < SEM_SETS_MAX" using sem_invD(4) [OF inv t] by blast
  have "slot_inv sl slot (Some st)" using sem_invD(3) [OF inv slot] unfolding st .
  then have "\<forall>op \<in> set os. sem_num op < length (sems st)" if "(sl(t := None)) u = Some (slot, os, i)" for u os i
    using that unfolding slot_inv_def option.case by (cases "u = t") auto
  then show ?thesis
    unfolding slot_inv_def option.case resumed_simps resumed_card [OF inv t st] using live by blast
qed

lemma resume_inv:
  assumes inv: "sem_inv (s, sl)" and t: "sl t = Some (slot, ops, index)"
    and run: "sem_resume s slot op intr = (e, s')" and st: "sets s ! slot = Some st"
  shows "sem_inv (s', sl(t := None))" "\<And>k. k \<noteq> slot \<Longrightarrow> sets s' ! k = sets s ! k"
    "sets s' ! slot = (if removed st \<and> sleepers st - 1 = 0 then None else Some (resumed st op))"
    "e = None \<Longrightarrow> \<not> removed st \<and> s' = put_set s slot (resumed st op)"
proof -
  have slot: "slot < SEM_SETS_MAX" using sem_invD(4) [OF inv t] by blast
  have ok: "sem_ok s" and fin: "finite (dom sl)" by (rule sem_invD [OF inv])+
  have len: "slot < length (sets s)" using ok slot by (simp add: sem_ok_def)
  let ?s1 = "put_set s slot (resumed st op)" and ?sl = "sl(t := None)"
  have ok1: "sem_ok ?s1" by (rule resume_put_ok [OF ok slot st])
  have one: "sets ?s1 ! slot = Some (resumed st op)" using len by simp
  note dok = destroy_ok [OF ok1 slot one]
  show new: "\<And>k. k \<noteq> slot \<Longrightarrow> sets s' ! k = sets s ! k"
    "sets s' ! slot = (if removed st \<and> sleepers st - 1 = 0 then None else Some (resumed st op))"
    using run dok(2) len unfolding sem_resume_eq [OF st] by (auto split: if_split_asm)
  show "e = None \<Longrightarrow> \<not> removed st \<and> s' = put_set s slot (resumed st op)"
    using run unfolding sem_resume_eq [OF st] by (auto split: if_split_asm)
  have ok': "sem_ok s'" using run ok1 dok(1) unfolding sem_resume_eq [OF st] by (auto split: if_split_asm)
  have "slot_inv ?sl slot (sets s' ! slot)"
  proof (cases "removed st \<and> sleepers st - 1 = 0")
    case True
    have "card (sleeping_on ?sl slot) = 0" using resumed_card [OF inv t st] True by simp
    then have "sleeping_on ?sl slot = {}" using finite_sleeping_on [of ?sl slot] fin by simp
    then show ?thesis unfolding new(2) using True by (simp add: slot_inv_def)
  next
    case False
    then show ?thesis unfolding new(2) using resumed_slot_inv [OF inv t st] by (auto simp del: fun_upd_apply)
  qed
  then show "sem_inv (s', ?sl)" using t by (intro sem_inv_slot [OF inv _ _ ok' new(1)]) auto
qed

lemma round_inv:
  assumes inv: "sem_inv (s, sl)" and t: "sl t = None" and slot: "slot < SEM_SETS_MAX" "sets s ! slot = Some st" "\<not> removed st"
    and ops: "\<forall>op \<in> set ops. sem_num op < length (sems st)" and run: "sem_round env s slot ops late = (turn, s')"
  shows "sem_inv (s', after_turn turn sl t slot ops)"
    "\<exists>st'. sets s' = (sets s)[slot := Some st'] \<and> noticed st st' \<and> removed st' = removed st \<and> length (sems st') = length (sems st)"
proof -
  have ok: "sem_ok s" by (rule sem_invD [OF inv])
  obtain st' where r: "sem_ok s'" "sets s' = (sets s)[slot := Some st']" "same_shape st st'"
    "sleepers st' = (case turn of Returns _ \<Rightarrow> sleepers st | Sleeps _ \<Rightarrow> sleepers st + 1)"
    "turn = Returns (Inr ()) \<longrightarrow> (\<forall>i < length (sems st). values_of st' ! i = values_of st ! i + total_on ops i)"
    "turn \<noteq> Returns (Inr ()) \<longrightarrow> values_of st' = values_of st"
    "values_of st' \<noteq> values_of st \<longrightarrow> generation st' = generation st + 1 \<and> wakes st' = wakes st + 1"
    "next_seq s' = next_seq s"
    by (rule sem_round_cases [OF ok slot ops run])
  have len: "slot < length (sets s)" using ok slot(1) by (simp add: sem_ok_def)
  show "\<exists>st'. sets s' = (sets s)[slot := Some st'] \<and> noticed st st' \<and> removed st' = removed st \<and> length (sems st') = length (sems st)"
    using r(2,3,7) unfolding same_shape_def noticed_def by blast
  have at: "sets s' ! slot = Some st'" "\<And>k. k \<noteq> slot \<Longrightarrow> sets s' ! k = sets s ! k" using r(2) len by simp_all
  have inv_slot: "slot_inv sl slot (Some st)" using sem_invD(3) [OF inv slot(1)] unfolding slot(2) .
  have notin: "t \<notin> sleeping_on sl slot" using t by (simp add: sleeping_on_def)
  show "sem_inv (s', after_turn turn sl t slot ops)"
  proof (cases turn)
    case (Returns x)
    have "slot_inv (sl(t := None)) slot (Some st')"
    proof (rule slot_inv_other)
      show "slot_inv sl slot (Some st')"
        using inv_slot r(3,4) Returns slot(3) unfolding slot_inv_def option.case same_shape_def by simp
    qed (simp_all add: t)
    then show ?thesis
      unfolding Returns after_turn.simps using t at by (intro sem_inv_slot [OF inv _ _ r(1) at(2)]) auto
  next
    case (Sleeps index)
    let ?sl = "sl(t \<mapsto> (slot, ops, index))"
    have idx: "index < length ops" by (rule sem_round_index [OF run [unfolded Sleeps]])
    have on: "sleeping_on ?sl slot = insert t (sleeping_on sl slot)" by (simp add: sleeping_on_upd)
    have card: "card (sleeping_on ?sl slot) = sleepers st + 1"
      using inv_slot notin finite_sleeping_on [OF sem_invD(2) [OF inv], of slot]
      unfolding on slot_inv_def option.case by simp
    have len': "length (sems st') = length (sems st)" "\<not> removed st'" using r(3) slot(3) by (simp_all add: same_shape_def)
    have nums: "\<forall>op \<in> set os. sem_num op < length (sems st')" if "?sl u = Some (slot, os, i)" for u os i
    proof (cases "u = t")
      case True
      then show ?thesis using that ops len'(1) by simp
    next
      case False
      then have "sl u = Some (slot, os, i)" using that by simp
      then show ?thesis using inv_slot unfolding slot_inv_def option.case len'(1) by blast
    qed
    have "slot_inv ?sl slot (Some st')"
      unfolding slot_inv_def option.case card using r(4) nums len'(2) Sleeps by auto
    then show ?thesis
      unfolding Sleeps after_turn.simps using t at idx slot(1) by (intro sem_inv_slot [OF inv _ _ r(1) at(2)]) auto
  qed
qed

definition step_noticed :: "sem_state \<Rightarrow> sem_state \<Rightarrow> bool" where
  "step_noticed s s' \<longleftrightarrow> (\<forall>slot < SEM_SETS_MAX. \<forall>st st'. sets s ! slot = Some st \<longrightarrow> sets s' ! slot = Some st' \<longrightarrow> noticed st st')"

lemma evolves_noticed: "\<forall>slot < SEM_SETS_MAX. evolves (sets s ! slot) (sets s' ! slot) \<Longrightarrow> step_noticed s s'"
  unfolding step_noticed_def by (auto simp: evolves_def)

lemma update_noticed:
  assumes "sets s ! slot = Some st" "sets s' = (sets s)[slot := Some st']" "noticed st st'"
  shows "step_noticed s s'"
  unfolding step_noticed_def assms(2)
proof (intro allI impI)
  fix k a b assume h: "k < SEM_SETS_MAX" "sets s ! k = Some a" "(sets s)[slot := Some st'] ! k = Some b"
  show "noticed a b"
  proof (cases "k = slot \<and> slot < length (sets s)")
    case True
    then show ?thesis using h assms by simp
  next
    case False
    then have "b = a" using h by (cases "k = slot") (auto simp: list_update_beyond)
    then show ?thesis by (simp add: noticed_def)
  qed
qed

lemma sem_admit_Inr:
  assumes "sem_admit env s ident ops = Inr slot"
  shows "find_by_id s ident = Some slot" "\<forall>op \<in> set ops. sem_num op < length (sems (set_at s slot))"
  using assms by (auto simp: sem_admit_def list_ex_iff not_le split: option.split_asm if_split_asm)

lemma sem_step_inv:
  assumes "sem_step c c'" "sem_inv c"
  shows "sem_inv c' \<and> step_noticed (fst c) (fst c')"
  using assms
proof (induction rule: sem_step.induct)
  case (get env s key cnt flags r s' sl)
  note g = sysvsem_get_ok [OF sem_invD(1) [OF get(2)] get(1)]
  show ?case using sem_inv_evolves [OF get(2) g(1)] g(2) evolves_noticed [OF g(2)] by simp
next
  case (op sl thread env s ident ops slot late turn s')
  obtain st where st: "slot < SEM_SETS_MAX" "sets s ! slot = Some st" "set_at s slot = st" "\<not> removed st"
    by (rule found_set [OF sem_admit_Inr(1) [OF op(2)]])
  have ops: "\<forall>op \<in> set ops. sem_num op < length (sems st)" using sem_admit_Inr(2) [OF op(2)] st(3) by simp
  note r = round_inv [OF op(4) op(1) st(1,2,4) ops op(3)]
  from r(2) obtain st' where "sets s' = (sets s)[slot := Some st']" "noticed st st'" by blast
  from update_noticed [OF st(2) this] r(1) show ?case by simp
next
  case (leave sl thread slot ops index s intr e s')
  obtain st where st: "sets s ! slot = Some st" by (rule sleeping_set [OF leave(3,1)])
  note r = resume_inv [OF leave(3,1,2) st]
  have "noticed st (resumed st (ops ! index))" by (simp add: noticed_def)
  then have "step_noticed s s'"
    using r(2,3) st unfolding step_noticed_def by (metis noticed_def option.inject option.distinct(1))
  with r(1) show ?case by simp
next
  case (retry sl thread slot ops index s intr s1 env late turn s')
  obtain st where st: "sets s ! slot = Some st" "slot < SEM_SETS_MAX" "\<forall>op \<in> set ops. sem_num op < length (sems st)"
    by (rule sleeping_set [OF retry(4,1)])
  let ?st = "resumed st (ops ! index)"
  note r = resume_inv [OF retry(4,1,2) st(1)]
  have live: "\<not> removed st" "s1 = put_set s slot ?st" using r(4) by simp_all
  have len: "slot < length (sets s)" using sem_invD(1) [OF retry(4)] st(2) by (simp add: sem_ok_def)
  have at: "sets s1 ! slot = Some ?st" using live(2) len by simp
  have none: "(sl(thread := None)) thread = None" by simp
  have fit: "\<not> removed ?st" "\<forall>op \<in> set ops. sem_num op < length (sems ?st)" using live(1) st(3) by simp_all
  note q = round_inv [OF r(1) none st(2) at fit retry(3)]
  have aft: "after_turn turn (sl(thread := None)) thread slot ops = after_turn turn sl thread slot ops" by (cases turn) simp_all
  have "step_noticed s s'"
  proof -
    obtain st' where st': "sets s' = (sets s1)[slot := Some st']" "noticed ?st st'" using q(2) by blast
    have "noticed st st'" using st'(2) by (simp add: noticed_def)
    then show ?thesis using update_noticed [OF st(1), of s' st'] st'(1) live(2) by simp
  qed
  with q(1) show ?case unfolding aft fst_conv by blast
next
  case (ctl env user s ident num command argument r s' out sl)
  note g = sysvsem_ctl_ok [OF sem_invD(1) [OF ctl(4)] ctl(1-3)]
  show ?case using sem_inv_evolves [OF ctl(4) g(1)] g(2) evolves_noticed by simp
next
  case (late_set env user s0 ident r s' s sl)
  note g = sem_ipc_set_ok [OF sem_invD(1) [OF late_set(4)] late_set(1-3)]
  show ?case using sem_inv_evolves [OF late_set(4)] g evolves_noticed by simp
next
  case (late_setall env user s0 slot0 ident r s' s vals sl)
  note g = sem_setall_ok [OF sem_invD(1) [OF late_setall(5)] late_setall(1,3,4,2)]
  show ?case using sem_inv_evolves [OF late_setall(5)] g evolves_noticed by simp
next
  case (exit s sl tgid)
  note g = sysvsem_exit_ok [OF sem_invD(1) [OF exit(1)], of tgid]
  show ?case using sem_inv_evolves [OF exit(1) g(1)] g(2) evolves_noticed [OF g(2)] by simp
qed

lemma sem_reachable_inv: "sem_reachable c \<Longrightarrow> sem_inv c"
proof (induction rule: sem_reachable.induct)
  case boot
  show ?case by (auto simp: sem_inv_def sem_ok_def slot_inv_def sleeping_on_def)
next
  case (step c c')
  then show ?case using sem_step_inv by blast
qed

section \<open>What undoing restores\<close>

definition undone_on :: "sembuf list \<Rightarrow> nat \<Rightarrow> int" where
  "undone_on ops i = sum_list (map sem_op (filter (\<lambda>op. undoes op \<and> sem_num op = i) ops))"

lemma undone_on_simps [simp]:
  "undone_on [] i = 0"
  "undone_on (op # ops) i = (if undoes op \<and> sem_num op = i then sem_op op else 0) + undone_on ops i"
  by (simp_all add: undone_on_def)

lemma find_key:
  assumes "distinct (map undo_key us)" "i < length us"
  shows "find (\<lambda>u. undo_key u = undo_key (us ! i)) us = Some (us ! i)"
  using assms
proof (induction us arbitrary: i)
  case (Cons u us)
  show ?case
  proof (cases i)
    case (Suc j)
    then have "undo_key u \<noteq> undo_key (us ! j)" using Cons.prems by (metis distinct.simps(2) list.simps(9) nth_mem length_map nth_map Suc_less_eq length_Cons)
    then show ?thesis using Suc Cons by simp
  qed simp
qed simp

definition room_for :: "sem_undo list \<Rightarrow> int \<times> int \<Rightarrow> sembuf list \<Rightarrow> bool" where
  "room_for us k ops \<longleftrightarrow> (\<forall>u \<in> set us. undo_key u = k \<longrightarrow> (\<forall>op \<in> set ops. sem_num op < length (adjust u)))"

lemma book_amount:
  assumes "distinct (map undo_key us)" "undoes op \<Longrightarrow> has_undo us (e_tgid env, ss_id st)" "room_for us (e_tgid env, ss_id st) [op]"
  shows "amount (book_undo env st us op) (e_tgid env, ss_id st) i =
    (if undoes op \<and> sem_num op = i then int16 (amount us (e_tgid env, ss_id st) i - sem_op op) else amount us (e_tgid env, ss_id st) i)"
proof (cases "undoes op")
  case True
  let ?k = "(e_tgid env, ss_id st)"
  obtain j where j: "undo_for (e_undo_room env) (e_tgid env) st us = Some (us, j)"
    using undo_for_found assms(2) [OF True] unfolding has_undo_def by metis
  have u: "j < length us" "undo_key (us ! j) = ?k" using undo_for_Some [OF j] by simp_all
  let ?u = "(us ! j)\<lparr>adjust := (adjust (us ! j))[sem_num op := int16 (adjust (us ! j) ! sem_num op - sem_op op)]\<rparr>"
  have b: "book_undo env st us op = us[j := ?u]" using True j by (simp add: book_undo_def)
  have k: "undo_key ?u = ?k" using u(2) by (simp add: undo_key_def)
  have "map undo_key (us[j := ?u]) = map undo_key us"
    using u k list_update_id [of "map undo_key us" j] by (simp add: map_update)
  then have "distinct (map undo_key (us[j := ?u]))" using assms(1) by simp
  from find_key [OF this, of j] u k have f: "find (\<lambda>u. undo_key u = ?k) (us[j := ?u]) = Some ?u" by simp
  have f0: "find (\<lambda>u. undo_key u = ?k) us = Some (us ! j)" using find_key [OF assms(1) u(1)] u(2) by simp
  have "sem_num op < length (adjust (us ! j))" using assms(3) u by (simp add: room_for_def)
  then show ?thesis using True unfolding b by (simp add: amount_def f f0)
qed (simp add: book_undo_def)

lemma room_for_view:
  assumes "map undo_key us' = map undo_key us" "map (\<lambda>u. length (adjust u)) us' = map (\<lambda>u. length (adjust u)) us" "room_for us k ops"
  shows "room_for us' k ops"
proof -
  have len: "length us' = length us" using assms(1) map_eq_imp_length_eq by blast
  have "undo_key (us' ! i) = undo_key (us ! i)" "length (adjust (us' ! i)) = length (adjust (us ! i))" if "i < length us'" for i
    using arg_cong [OF assms(1), of "\<lambda>xs. xs ! i"] arg_cong [OF assms(2), of "\<lambda>xs. xs ! i"] that len by simp_all
  then show ?thesis using assms(3) len unfolding room_for_def by (metis in_set_conv_nth)
qed

lemma amount_none: "\<not> has_undo us k \<Longrightarrow> amount us k i = 0"
proof -
  assume "\<not> has_undo us k"
  then have "find (\<lambda>u. undo_key u = k) us = None" by (auto simp: find_None_iff has_undo_def)
  then show ?thesis by (simp add: amount_def)
qed

definition undo_touches :: "sembuf list \<Rightarrow> nat \<Rightarrow> bool" where
  "undo_touches ops i \<longleftrightarrow> list_ex (\<lambda>op. undoes op \<and> sem_num op = i) ops"

lemma undone_untouched: "\<not> undo_touches ops i \<Longrightarrow> undone_on ops i = 0"
  by (induction ops) (auto simp: undo_touches_def)

lemma booked_amount:
  assumes "distinct (map undo_key us)" "list_ex undoes ops \<Longrightarrow> has_undo us (e_tgid env, ss_id st)"
    "room_for us (e_tgid env, ss_id st) ops"
  shows "amount (foldl (book_undo env st) us ops) (e_tgid env, ss_id st) i =
    (if undo_touches ops i then int16 (amount us (e_tgid env, ss_id st) i - undone_on ops i) else amount us (e_tgid env, ss_id st) i)"
  using assms
proof (induction ops arbitrary: us)
  case (Cons op ops)
  let ?k = "(e_tgid env, ss_id st)" and ?us = "book_undo env st us op"
  have v: "map undo_key ?us = map undo_key us" "map (\<lambda>u. length (adjust u)) ?us = map (\<lambda>u. length (adjust u)) us"
    using book_undo_view [of op us env st] Cons.prems(2) by simp_all
  have room: "room_for us ?k [op]" "room_for us ?k ops" using Cons.prems(3) by (simp_all add: room_for_def)
  have a: "amount ?us ?k i = (if undoes op \<and> sem_num op = i then int16 (amount us ?k i - sem_op op) else amount us ?k i)"
    by (rule book_amount [OF Cons.prems(1) _ room(1)]) (use Cons.prems(2) in simp)
  have "amount (foldl (book_undo env st) ?us ops) ?k i =
      (if undo_touches ops i then int16 (amount ?us ?k i - undone_on ops i) else amount ?us ?k i)"
  proof (rule Cons.IH)
    show "distinct (map undo_key ?us)" using v(1) Cons.prems(1) by simp
    show "list_ex undoes ops \<Longrightarrow> has_undo ?us ?k" using Cons.prems(2) v(1) by (simp add: has_undo_keys)
    show "room_for ?us ?k ops" by (rule room_for_view [OF v room(2)])
  qed
  then show ?case
    using a int16_diff [of "amount us ?k i - sem_op op" "undone_on ops i"] undone_untouched [of ops i]
    by (auto simp: undo_touches_def diff_diff_eq)
qed (simp add: undo_touches_def)

lemma try_done_undos:
  assumes "try_operations env st us ops pid = (Try_done, st', us')"
  obtains us1 where "us' = foldl (book_undo env st) us1 ops" "list_ex undoes ops \<longrightarrow> has_undo us1 (e_tgid env, ss_id st)"
    "us1 = us \<or> \<not> has_undo us (e_tgid env, ss_id st) \<and>
       us1 = \<lparr>u_tgid = e_tgid env, u_id = ss_id st, adjust = replicate (length (sems st)) 0\<rparr> # us"
proof -
  obtain e us1 where chk: "check_undos env st ops us = (e, us1)" by (metis surj_pair)
  have "e = None" "us' = foldl (book_undo env st) us1 ops"
    using assms(1) chk by (auto simp: try_operations_def split: staging.split_asm option.split_asm)
  moreover have "list_ex undoes ops \<longrightarrow> has_undo us1 (e_tgid env, ss_id st)"
    using check_undos_has chk \<open>e = None\<close> by blast
  moreover have "us1 = us \<or> \<not> has_undo us (e_tgid env, ss_id st) \<and>
      us1 = \<lparr>u_tgid = e_tgid env, u_id = ss_id st, adjust = replicate (length (sems st)) 0\<rparr> # us"
    using check_undos_rel [OF chk] unfolding undo_rel_def has_undo_def by blast
  ultimately show thesis using that by blast
qed

lemma round_books:
  assumes ok: "sem_ok s" and slot: "slot < SEM_SETS_MAX" "sets s ! slot = Some st" "\<not> removed st"
    and ops: "\<forall>op \<in> set ops. sem_num op < length (sems st)"
    and run: "sem_round env s slot ops late = (Returns (Inr ()), s')" and i: "i < length (sems st)"
  shows "amount (undos s') (e_tgid env, ss_id st) i =
    (if undo_touches ops i then int16 (amount (undos s) (e_tgid env, ss_id st) i - undone_on ops i)
     else amount (undos s) (e_tgid env, ss_id st) i)"
proof -
  let ?k = "(e_tgid env, ss_id st)"
  have at: "set_at s slot = st" using slot(2) by (simp add: set_at_def)
  obtain r st1 us where tried: "try_operations env st (undos s) ops (e_tgid env) = (r, st1, us)" by (metis prod_cases3)
  have "r = Try_done \<and> undos s' = us"
  proof (cases r)
    case (Try_blocked index)
    show ?thesis using run unfolding sem_round_def at tried Try_blocked
      by (simp only: prod.case try_status.case Let_def split: if_split_asm) simp_all
  qed (use run in \<open>unfold sem_round_def at tried, auto\<close>)
  then have finished: "r = Try_done" "undos s' = us" by blast+
  obtain us1 where us: "us = foldl (book_undo env st) us1 ops" "list_ex undoes ops \<longrightarrow> has_undo us1 ?k"
    "us1 = undos s \<or> \<not> has_undo (undos s) ?k \<and>
       us1 = \<lparr>u_tgid = e_tgid env, u_id = ss_id st, adjust = replicate (length (sems st)) 0\<rparr> # undos s"
    by (rule try_done_undos [OF tried [unfolded finished(1)]])
  have same: "amount us1 ?k i = amount (undos s) ?k i"
    using us(3) i amount_none [of "undos s" ?k i] by (auto simp: amount_def [of "_ # _"] undo_key_def)
  have old: "distinct (map undo_key (undos s))" "\<forall>u \<in> set (undos s). undo_fits s u" using ok by (simp_all add: sem_ok_def)
  have dist: "distinct (map undo_key us1)"
    using us(3) old(1) unfolding has_undo_keys by (auto simp: undo_key_def)
  have "length (adjust u) = length (sems st)" if "u \<in> set (undos s)" "undo_key u = ?k" for u
    using old(2) that find_by_id_live [OF ok slot(1,2,3)] slot(2) by (auto simp: undo_fits_def undo_key_def)
  then have room: "room_for us1 ?k ops" using us(3) ops by (auto simp: room_for_def)
  show ?thesis unfolding finished(2) us(1) using us(2) same by (subst booked_amount [OF dist _ room]) simp_all
qed

text \<open>
  The exit of a process adds its undo amount to every semaphore and keeps the value in range.
\<close>

lemma exit_value:
  assumes ok: "sem_ok s" and slot: "slot < SEM_SETS_MAX" "sets s ! slot = Some st" "\<not> removed st" and i: "i < length (sems st)"
  shows "values_of (set_at (sysvsem_exit tgid s) slot) ! i = clamp (values_of st ! i + amount (undos s) (tgid, ss_id st) i)"
proof -
  have range: "0 \<le> values_of st ! i" "values_of st ! i \<le> SEM_VALUE_MAX"
    using sem_okD(2) [OF ok slot(1,2)] i nth_mem [of i "values_of st"] unfolding set_ok_def by (auto simp: values_of_def)
  have after: "sets (sysvsem_exit tgid s) ! slot = Some (slot_after tgid (undos s) st)"
    using sysvsem_exit_ok(3) [OF ok, of tgid] slot(1,2) by simp
  show ?thesis
  proof (cases "find (\<lambda>u. undo_key u = (tgid, ss_id st)) (undos s)")
    case None
    then show ?thesis using after clamp_id [OF range] by (simp add: slot_after_def set_at_def amount_def)
  next
    case (Some u)
    then have u: "u \<in> set (undos s)" "u_id u = ss_id st" by (auto simp: find_Some_iff undo_key_def)
    have "undo_fits s u" using ok u(1) by (simp add: sem_ok_def)
    then have len: "length (adjust u) = length (sems st)"
      using find_by_id_live [OF ok slot(1,2,3)] u(2) slot(2) by (auto simp: undo_fits_def)
    show ?thesis
      using after Some slot(3) undo_set_effect(4) [OF len i, of tgid] clamp_id [OF range] by (simp add: slot_after_def set_at_def amount_def)
  qed
qed

section \<open>Examples\<close>

text \<open>
  A set of two semaphores, created by the first call after boot; a call that raises and lowers it; a call that waits for it.
\<close>

definition ex_env :: sem_env where
  "ex_env = \<lparr>e_groups = (\<lambda>_. None), e_cred = None, e_tgid = 40, e_now = 9, e_room = True, e_undo_room = True\<rparr>"

definition ex_boot :: sem_state where
  "ex_boot = \<lparr>sets = replicate SEM_SETS_MAX None, undos = [], next_seq = 0\<rparr>"

definition ex_set :: sem_state where
  "ex_set = snd (sysvsem_get ex_env ex_boot 0 2 0x1B6)"

definition ex_ops :: "sembuf list" where
  "ex_ops = [\<lparr>sem_num = 0, sem_op = 5, sem_flags = SEM_UNDO\<rparr>, \<lparr>sem_num = 0, sem_op = - 2, sem_flags = SEM_UNDO\<rparr>]"

definition ex_wrap :: "sembuf list" where
  "ex_wrap = [\<lparr>sem_num = 0, sem_op = 30000, sem_flags = SEM_UNDO\<rparr>, \<lparr>sem_num = 0, sem_op = - 30000, sem_flags = 0\<rparr>,
     \<lparr>sem_num = 0, sem_op = 30000, sem_flags = SEM_UNDO\<rparr>]"

definition ex_wait :: "sembuf list" where
  "ex_wait = [\<lparr>sem_num = 1, sem_op = - 1, sem_flags = 0\<rparr>]"

lemma ex_reachable: "sem_reachable (ex_set, Map.empty)"
proof -
  have "sem_step (ex_boot, Map.empty) (ex_set, Map.empty)"
    unfolding ex_set_def by (rule sem_step.get [of ex_env ex_boot 0 2 "0x1B6"]) (rule prod.collapse [symmetric])
  then show ?thesis unfolding ex_boot_def by (rule sem_reachable.step [OF sem_reachable.boot])
qed

lemma ex_admit: "sem_admit ex_env ex_set 0 ex_ops = Inr 0" "sem_admit ex_env ex_set 0 ex_wrap = Inr 0" "sem_admit ex_env ex_set 0 ex_wait = Inr 0"
  by code_simp+

lemma ex_turn: "fst (sem_round ex_env ex_set 0 ex_ops False) = Returns (Inr ())" "fst (sem_round ex_env ex_set 0 ex_wrap False) = Returns (Inr ())"
  "fst (sem_round ex_env ex_set 0 ex_wait False) = Sleeps 0"
  by code_simp+

lemma ex_round: "sem_round ex_env ex_set 0 ops False = (fst (sem_round ex_env ex_set 0 ops False), snd (sem_round ex_env ex_set 0 ops False))"
  by simp

lemma ex_waiting: "sem_reachable (snd (sem_round ex_env ex_set 0 ex_wait False), [7 \<mapsto> (0, ex_wait, 0)])"
  using sem_reachable.step [OF ex_reachable sem_step.op [of Map.empty 7, OF _ ex_admit(3) ex_round]] unfolding ex_turn by simp

section \<open>Properties\<close>

text \<open>
  C16: Semaphore operations are all or nothing. In every reachable state, one turn of an admitted call that succeeds
  adds to every semaphore exactly the sum of the call's operations on it; a turn that fails or goes to sleep changes no
  value. Every value stays between zero and the maximum, and no other set is touched.
\<close>

theorem sem_op_atomic:
  assumes "sem_reachable (s, sl)" "sem_admit env s ident ops = Inr slot" "sem_round env s slot ops late = (turn, s')"
    "i < length (sems (set_at s slot))"
  shows "values_of (set_at s' slot) ! i =
      values_of (set_at s slot) ! i + (if turn = Returns (Inr ()) then total_on ops i else 0) \<and>
    0 \<le> values_of (set_at s' slot) ! i \<and> values_of (set_at s' slot) ! i \<le> SEM_VALUE_MAX \<and>
    (\<forall>k. k \<noteq> slot \<longrightarrow> sets s' ! k = sets s ! k)"
proof -
  have ok: "sem_ok s" by (rule sem_invD(1) [OF sem_reachable_inv [OF assms(1)]])
  note adm = sem_admit_Inr [OF assms(2)]
  obtain st where st: "slot < SEM_SETS_MAX" "sets s ! slot = Some st" "set_at s slot = st" "\<not> removed st" "ss_id st = ident"
    by (rule found_set [OF adm(1)])
  obtain st' where r: "sem_ok s'" "sets s' = (sets s)[slot := Some st']" "same_shape st st'"
    "sleepers st' = (case turn of Returns _ \<Rightarrow> sleepers st | Sleeps _ \<Rightarrow> sleepers st + 1)"
    "turn = Returns (Inr ()) \<longrightarrow> (\<forall>i < length (sems st). values_of st' ! i = values_of st ! i + total_on ops i)"
    "turn \<noteq> Returns (Inr ()) \<longrightarrow> values_of st' = values_of st"
    "values_of st' \<noteq> values_of st \<longrightarrow> generation st' = generation st + 1 \<and> wakes st' = wakes st + 1"
    "next_seq s' = next_seq s"
    by (rule sem_round_cases [OF ok st(1,2,4) adm(2) [unfolded st(3)] assms(3)])
  have at: "sets s' ! slot = Some st'" using r(2) ok st(1) by (simp add: sem_ok_def)
  have len: "i < length (values_of st')" using assms(4) st(3) r(3) by (simp add: values_of_def same_shape_def)
  have "values_of st' ! i \<in> set (values_of st')" using len by simp
  then have range: "0 \<le> values_of st' ! i" "values_of st' ! i \<le> SEM_VALUE_MAX"
    using sem_okD(2) [OF r(1) st(1) at] unfolding set_ok_def by blast+
  have "values_of st' ! i = values_of st ! i + (if turn = Returns (Inr ()) then total_on ops i else 0)"
    using r(5,6) assms(4) st(3) by simp
  with range show ?thesis using at r(2) st(3) by (simp add: set_at_def)
qed

theorem sem_op_atomic_witness:
  "sem_reachable (ex_set, Map.empty) \<and> sem_admit ex_env ex_set 0 ex_ops = Inr 0 \<and>
   values_of (set_at (snd (sem_round ex_env ex_set 0 ex_ops False)) 0) ! 0 = 3"
proof -
  have "0 < length (sems (set_at ex_set 0)) \<and> values_of (set_at ex_set 0) ! 0 = 0 \<and> total_on ex_ops 0 = 3" by code_simp
  then show ?thesis using sem_op_atomic [OF ex_reachable ex_admit(1) ex_round, of 0] ex_reachable ex_admit(1) unfolding ex_turn by simp
qed

text \<open>
  C29: A process never sleeps on a set that has been freed, and no removed set is leaked. In every reachable state the set a thread sleeps on
  exists and has the semaphores its operations name, the number of sleepers recorded in a set is the number of
  threads sleeping on it, a removed set that is still in the table has sleepers, and all values are in range.
\<close>

theorem sem_sleepers_safe:
  assumes "sem_reachable (s, sl)"
  shows "(\<forall>thread slot ops index. sl thread = Some (slot, ops, index) \<longrightarrow>
      (\<exists>st. sets s ! slot = Some st \<and> (\<forall>op \<in> set ops. sem_num op < length (sems st)))) \<and>
    (\<forall>slot st. slot < SEM_SETS_MAX \<longrightarrow> sets s ! slot = Some st \<longrightarrow>
      sleepers st = card (sleeping_on sl slot) \<and> (removed st \<longrightarrow> sleepers st \<noteq> 0) \<and>
      (\<forall>v \<in> set (values_of st). 0 \<le> v \<and> v \<le> SEM_VALUE_MAX))"
proof (intro conjI allI impI)
  note inv = sem_reachable_inv [OF assms]
  show "\<exists>st. sets s ! slot = Some st \<and> (\<forall>op \<in> set ops. sem_num op < length (sems st))"
    if "sl thread = Some (slot, ops, index)" for thread slot ops index
    by (rule sleeping_set [OF inv that]) blast
  fix slot st assume h: "slot < SEM_SETS_MAX" "sets s ! slot = Some st"
  have "slot_inv sl slot (Some st)" using sem_invD(3) [OF inv h(1)] unfolding h(2) .
  then show "sleepers st = card (sleeping_on sl slot)" "removed st \<Longrightarrow> sleepers st \<noteq> 0" unfolding slot_inv_def option.case by blast+
  show "\<forall>v \<in> set (values_of st). 0 \<le> v \<and> v \<le> SEM_VALUE_MAX"
    using sem_okD(2) [OF sem_invD(1) [OF inv] h] unfolding set_ok_def by blast
qed

theorem sem_sleepers_safe_witness:
  "sem_reachable (snd (sem_round ex_env ex_set 0 ex_wait False), [7 \<mapsto> (0, ex_wait, 0)]) \<and>
   (\<exists>st. sets (snd (sem_round ex_env ex_set 0 ex_wait False)) ! 0 = Some st)"
proof -
  have "[7 \<mapsto> (0, ex_wait, 0)] (7::nat) = Some (0::nat, ex_wait, 0::nat)" by simp
  then show ?thesis using conjunct1 [OF sem_sleepers_safe [OF ex_waiting]] ex_waiting by blast
qed

text \<open>
  C30: No wakeup is lost. Whenever a step of any process changes a value of a set or removes it, the set's generation number changes
  and its sleepers are woken; a process that registers as a sleeper and finds the generation unchanged has missed
  nothing.
\<close>

theorem sem_no_lost_wakeup:
  assumes "sem_reachable (s, sl)" "sem_step (s, sl) (s', sl')" "slot < SEM_SETS_MAX" "sets s ! slot = Some st"
    "sets s' ! slot = Some st'" "values_of st' \<noteq> values_of st \<or> removed st' \<noteq> removed st"
  shows "generation st' \<noteq> generation st \<and> wakes st' = wakes st + 1"
proof -
  have "step_noticed s s'" using sem_step_inv [OF assms(2) sem_reachable_inv [OF assms(1)]] by simp
  then have "noticed st st'" using assms(3-5) unfolding step_noticed_def by blast
  then show ?thesis using assms(6) unfolding noticed_def by auto
qed

theorem sem_no_lost_wakeup_witness:
  "\<exists>sl st st'. sem_step (ex_set, Map.empty) (snd (sem_round ex_env ex_set 0 ex_ops False), sl) \<and> sets ex_set ! 0 = Some st \<and>
     sets (snd (sem_round ex_env ex_set 0 ex_ops False)) ! 0 = Some st' \<and> generation st' \<noteq> generation st \<and> wakes st' = wakes st + 1"
proof -
  let ?s = "snd (sem_round ex_env ex_set 0 ex_ops False)"
  have st: "sem_step (ex_set, Map.empty) (?s, after_turn (Returns (Inr ())) Map.empty 7 0 ex_ops)"
    using sem_step.op [of Map.empty 7, OF _ ex_admit(1) ex_round] unfolding ex_turn by simp
  have at: "sets ex_set ! 0 = Some (set_at ex_set 0)" "sets ?s ! 0 = Some (set_at ?s 0)"
    "values_of (set_at ?s 0) \<noteq> values_of (set_at ex_set 0)" by code_simp+
  show ?thesis using sem_no_lost_wakeup [OF ex_reachable st _ at(1,2)] st at by auto
qed

text \<open>
  C31: Undoing at exit takes back a call. When every operation of a successful call that changes a value asks for undo, the exit of the
  process right after the call leaves every semaphore of the set with the value that its exit instead of the call would have left, provided the undo amount
  kept for the semaphore from earlier calls, if there is one, stays in its 16 bits; without a record from earlier calls that is the value before the call.
\<close>

theorem sem_undo_restores:
  assumes "sem_reachable (s, sl)" "sem_admit env s ident ops = Inr slot" "sem_round env s slot ops late = (Returns (Inr ()), s')"
    "\<forall>op \<in> set ops. sem_op op \<noteq> 0 \<longrightarrow> sem_flags op AND SEM_UNDO \<noteq> 0" "i < length (sems (set_at s slot))"
    "has_undo (undos s) (e_tgid env, ident) \<longrightarrow> \<bar>amount (undos s) (e_tgid env, ident) i - total_on ops i\<bar> \<le> SEM_ADJ_MAX"
  shows "values_of (set_at (sysvsem_exit (e_tgid env) s') slot) ! i = values_of (set_at (sysvsem_exit (e_tgid env) s) slot) ! i \<and>
    (\<not> has_undo (undos s) (e_tgid env, ident) \<longrightarrow>
       values_of (set_at (sysvsem_exit (e_tgid env) s') slot) ! i = values_of (set_at s slot) ! i)"
proof -
  let ?a = "amount (undos s) (e_tgid env, ident) i"
  have ok: "sem_ok s" by (rule sem_invD(1) [OF sem_reachable_inv [OF assms(1)]])
  note adm = sem_admit_Inr [OF assms(2)]
  obtain st where st: "slot < SEM_SETS_MAX" "sets s ! slot = Some st" "set_at s slot = st" "\<not> removed st" "ss_id st = ident"
    by (rule found_set [OF adm(1)])
  have ops: "\<forall>op \<in> set ops. sem_num op < length (sems st)" using adm(2) st(3) by simp
  obtain st' where r: "sem_ok s'" "sets s' = (sets s)[slot := Some st']" "same_shape st st'"
    "\<forall>i < length (sems st). values_of st' ! i = values_of st ! i + total_on ops i"
    by (rule sem_round_cases [OF ok st(1,2,4) ops assms(3)]) blast
  have i: "i < length (sems st)" "i < length (sems st')" using assms(5) st(3) r(3) by (simp_all add: same_shape_def)
  have at: "sets s' ! slot = Some st'" using r(2) ok st(1) by (simp add: sem_ok_def)
  have v: "values_of st' ! i = values_of st ! i + total_on ops i" using r(4) i(1) by simp
  have range: "0 \<le> values_of x ! i" "values_of x ! i \<le> SEM_VALUE_MAX" if "set_ok slot x" "i < length (sems x)" for x
    using that nth_mem [of i "values_of x"] unfolding set_ok_def by (auto simp: values_of_def)
  have b: "0 \<le> values_of st ! i" "values_of st ! i \<le> SEM_VALUE_MAX" "0 \<le> values_of st' ! i" "values_of st' ! i \<le> SEM_VALUE_MAX"
    using range [OF sem_okD(2) [OF ok st(1,2)] i(1)] range [OF sem_okD(2) [OF r(1) st(1) at] i(2)] by simp_all
  have same: "undone_on ops i = total_on ops i"
    unfolding undone_on_def total_on_def using assms(4) by (induction ops) (auto simp: undoes_def)
  have none: "?a = 0" if "\<not> has_undo (undos s) (e_tgid env, ident)"
    by (rule amount_none [OF that])
  have "\<bar>?a - total_on ops i\<bar> \<le> SEM_ADJ_MAX" using assms(6) none b v by (cases "has_undo (undos s) (e_tgid env, ident)") auto
  then have "int16 (?a - total_on ops i) = ?a - total_on ops i" by (intro int16_small) auto
  then have amt: "amount (undos s') (e_tgid env, ss_id st) i = ?a - total_on ops i"
    using round_books [OF ok st(1,2,4) ops assms(3) i(1)] undone_untouched [of ops i] same st(5) by auto
  have id: "ss_id st' = ss_id st" "\<not> removed st'" using r(3) st(4) by (simp_all add: same_shape_def)
  have "values_of (set_at (sysvsem_exit (e_tgid env) s') slot) ! i = clamp (values_of st ! i + ?a)"
    using exit_value [OF r(1) st(1) at id(2) i(2), of "e_tgid env"] amt v id(1) by simp
  then show ?thesis
    using exit_value [OF ok st(1,2,4) i(1), of "e_tgid env"] none clamp_id [OF b(1,2)] st(3,5) by simp
qed

theorem sem_undo_restores_witness:
  "sem_reachable (ex_set, Map.empty) \<and>
   values_of (set_at (sysvsem_exit (e_tgid ex_env) (snd (sem_round ex_env ex_set 0 ex_ops False))) 0) ! 0 = values_of (set_at ex_set 0) ! 0"
proof -
  have "sem_round ex_env ex_set 0 ex_ops False = (Returns (Inr ()), snd (sem_round ex_env ex_set 0 ex_ops False))"
    using ex_round ex_turn(1) by metis
  moreover have "\<forall>op \<in> set ex_ops. sem_op op \<noteq> 0 \<longrightarrow> sem_flags op AND SEM_UNDO \<noteq> 0" by code_simp
  moreover have "\<not> has_undo (undos ex_set) (e_tgid ex_env, 0)" by code_simp
  moreover have "0 < length (sems (set_at ex_set 0))" by code_simp
  ultimately show ?thesis using sem_undo_restores [OF ex_reachable ex_admit(1), of False _ 0] ex_reachable by blast
qed

text \<open>
  C39: The undo amount of a process for a semaphore after a successful call is the amount from earlier calls, 0 without a record, minus the sum of
  the operations on the semaphore that ask for undo, reduced to a signed 16-bit number. Each operation alone is checked against the maximum, their
  sum is not, so the reduction can change it.
\<close>

theorem sem_undo_amount:
  assumes "sem_reachable (s, sl)" "sem_admit env s ident ops = Inr slot" "sem_round env s slot ops late = (Returns (Inr ()), s')"
    "i < length (sems (set_at s slot))"
  shows "amount (undos s') (e_tgid env, ident) i =
    (if undo_touches ops i then int16 (amount (undos s) (e_tgid env, ident) i - undone_on ops i) else amount (undos s) (e_tgid env, ident) i)"
proof -
  have ok: "sem_ok s" by (rule sem_invD(1) [OF sem_reachable_inv [OF assms(1)]])
  note adm = sem_admit_Inr [OF assms(2)]
  obtain st where st: "slot < SEM_SETS_MAX" "sets s ! slot = Some st" "set_at s slot = st" "\<not> removed st" "ss_id st = ident"
    by (rule found_set [OF adm(1)])
  show ?thesis
    using round_books [OF ok st(1,2,4) adm(2) [unfolded st(3)] assms(3)] assms(4) unfolding st(3,5) by blast
qed

theorem sem_undo_amount_witness:
  "sem_reachable (ex_set, Map.empty) \<and> undone_on ex_wrap 0 = 60000 \<and>
   amount (undos (snd (sem_round ex_env ex_set 0 ex_wrap False))) (e_tgid ex_env, 0) 0 = 5536"
proof -
  have "sem_round ex_env ex_set 0 ex_wrap False = (Returns (Inr ()), snd (sem_round ex_env ex_set 0 ex_wrap False))"
    using ex_round ex_turn(2) by metis
  moreover have "0 < length (sems (set_at ex_set 0))" by code_simp
  ultimately have "amount (undos (snd (sem_round ex_env ex_set 0 ex_wrap False))) (e_tgid ex_env, 0) 0 =
      (if undo_touches ex_wrap 0 then int16 (amount (undos ex_set) (e_tgid ex_env, 0) 0 - undone_on ex_wrap 0)
       else amount (undos ex_set) (e_tgid ex_env, 0) 0)"
    using sem_undo_amount [OF ex_reachable ex_admit(2)] by blast
  moreover have "undo_touches ex_wrap 0" "amount (undos ex_set) (e_tgid ex_env, 0) 0 = 0" by code_simp+
  moreover have "undone_on ex_wrap 0 = 60000" "int16 (- 60000) = 5536" by code_simp+
  ultimately show ?thesis using ex_reachable by simp
qed

end
