(* ===== verification/Spec2Isabelle.thy ===== *)
theory Spec2Isabelle
  imports Elf_Plan Lz4_Contract Zram_Disk Jbd2_Contract Jbd2_Revoke Crc Bpf Seccomp Pipe Eventfd Posix_Lock Pmm Xattr Sysvsem
begin

text \<open>
  A verification of parts of the Tunix kernel, a Unix-like kernel written in C and Rust. The paths below are relative to
  \<^verbatim>\<open>src/kernel\<close>.

  \<^bold>\<open>The program.\<close> System calls enter through \<^verbatim>\<open>core/syscall.c\<close>, pass the filters of \<^verbatim>\<open>core/seccomp.c\<close>
  and reach the parts that hold state: credentials and access control decide who may use a file, pipes, event counters, semaphores
  and record locks coordinate processes, the page allocator provides memory, and the journal keeps the disk consistent. The theories model the
  parts whose rules can be stated without hardware. Each part of the code is one group of definitions under the names of the
  source, followed by its lemmas.

  \<^bold>\<open>Conventions.\<close> The theory \<open>Prelude\<close> has the types and the facts that all parts share. A fixed width integer is a word
  of that width and wraps as in C; sizes and positions that the code keeps below a bound are natural numbers where the
  bound is proved or documented. An error number is the left part of a sum, \<^verbatim>\<open>NULL\<close> is \<open>None\<close>, and a panic is a value of its own.
  A structure is a record; a block of memory that is shared or counted is an entry of an explicit store. Code of other parts that
  an operation calls (allocation, the clock, copies to and from user memory, sleeping, devices) is an argument of its definition, so the
  theorems hold whatever it answers; where a theorem needs more of it, it is a hypothesis that a witness discharges with a
  concrete function. Operations run under the lock that the code takes around them, so each is one step; where the code
  releases the lock in the middle, as in sleeping, the definition is split there and other steps come between.

  \<^bold>\<open>Checksums\<close>, \<open>Crc\<close>: \<^verbatim>\<open>lib/crc.c\<close>. The tables and the table driven loops. A locale for linear
  shift registers carries the proofs for all three polynomials, reflected and not; the sliced routine equals the bitwise definition
  for every alignment, and detects every change of up to four adjacent bytes.

  \<^bold>\<open>System call filters\<close>, \<open>Bpf\<close> and \<open>Seccomp\<close>: \<^verbatim>\<open>core/seccomp.c\<close>. The checker, the interpreter as a partial function whose
  value \<open>None\<close> would be a program that does not return (a checked program only jumps forward, so it returns, and this is proved), filter lists on
  a counted heap, and a step relation of processes that install, inherit and drop them and of forks that fail half way. Checked programs
  return and stay inside; decisions are the most restrictive verdict, never relax, and do not depend on other processes; reference counts are the
  holders and the references that failed forks have lost.

  \<^bold>\<open>Pipes\<close>, \<open>Byte_Stream\<close> and \<open>Pipe\<close>: \<^verbatim>\<open>ipc/pipe.c\<close>. The ring buffer implements the contract of the locale \<open>byte_stream\<close>: what
  is delivered is what was accepted, in order, until the last end of the pipe is closed. \<^bold>\<open>Event counters\<close>, \<open>Eventfd\<close>: \<^verbatim>\<open>ipc/eventfd.c\<close>.

  \<^bold>\<open>Record locks\<close>, \<open>Posix_Lock\<close>: \<^verbatim>\<open>fs/posix_lock.c\<close> and the \<^verbatim>\<open>fcntl\<close> entry points. The list of ranges refines a function
  from bytes to owners; writers exclude everybody else in every reachable state; the deadlock search refuses only
  requests that close a cycle of waiters, and every one that its ten hops can find.

  \<^bold>\<open>Page allocator\<close>, \<open>Pmm\<close>: \<^verbatim>\<open>mm/pmm.c\<close>. The bitmap with its reference counts and rotating hint; pages are exclusive,
  counts are exact, and a search fails only when there is nothing to find.

  \<^bold>\<open>Access control\<close>, \<open>Node\<close>, \<open>Acl\<close>, \<open>Cred\<close> and \<open>Xattr\<close>: \<^verbatim>\<open>fs/acl.c\<close>, \<^verbatim>\<open>core/cred.c\<close> and \<^verbatim>\<open>fs/xattr.c\<close>. The access decision is that of POSIX,
  identities never grow without root's, lists stay well formed and survive being read and written back, and attributes are a
  bounded map. The overread of \<^verbatim>\<open>listxattr\<close> is characterised exactly.

  \<^bold>\<open>Semaphores\<close>, \<open>Sysvsem\<close>: \<^verbatim>\<open>ipc/sysvsem.c\<close>. Operations are all or nothing, sleepers never wait on a freed set and never miss
  a change, and the undo amounts, from earlier calls too, take back what they should within their 16 bits.

  \<^bold>\<open>Journal\<close>, the theories \<open>Jbd2\<close> to \<open>Jbd2_Revoke\<close>: \<^verbatim>\<open>fs/jbd2.c\<close>. The code over an arbitrary device (\<open>Jbd2\<close>), the
  blocks it writes and reads back (\<open>Jbd2_Blocks\<close>), a disk with a volatile cache (\<open>Jbd2_Disk\<close>), recovery (\<open>Jbd2_Recover\<close>), what a power
  failure at any point leaves (\<open>Jbd2_Crash\<close>), the contract with the file system (\<open>Jbd2_Contract\<close>) and the revoke table with the
  termination of recovery (\<open>Jbd2_Revoke\<close>). On a disk that carries out every request, and before the sequence numbers wrap, a commit is durable
  when it returns and atomic when it does not, except that under checksums recovery loses the blocks that begin with the journal's magic number; which blocks
  are replayed is \<open>intact\<close> in \<open>Jbd2_Recover\<close>. The fuel of the probing loops is the size of the table, which is never full.

  \<^bold>\<open>Compression and the compressed memory disk\<close>, \<open>Rust\<close>, \<open>Lz4\<close>, \<open>Lz4_Block\<close>, \<open>Lz4_Contract\<close>, \<open>Zram\<close> and \<open>Zram_Disk\<close>: \<^verbatim>\<open>rust/lz4\<close>
  and \<^verbatim>\<open>drivers/storage/zram.c\<close>. The compressor writes the block format within its bound, the decompressor accepts exactly that format, so
  the round trip holds; the disk built on them is an array of bytes for its clients, and its memory and statistics are exact.

  \<^bold>\<open>The ELF planner\<close>, \<open>Elf\<close>, \<open>Elf_Reference\<close> and \<open>Elf_Plan\<close>: \<^verbatim>\<open>rust/elf\<close>, which decides where the segments of a program go, and the C code it
  replaced, \<^verbatim>\<open>rust/elf-check/reference.c\<close>. The two agree on every input except for the documented differences, and the plans that are accepted
  keep inside the file and user memory. Both recursions are over the list of program headers, so no fuel is needed.

  \<^bold>\<open>Not modelled.\<close> Processes, scheduling and signals, page tables and swap, the node tree of the VFS and the file systems on it, sockets and the
  network, terminals, and all drivers: they act on hardware registers, page tables or the run queues of several processors,
  and their behaviour is not determined by the sources alone. Lock implementations are atomic instructions. What the modelled parts use
  of them is an argument of the definitions, as described above. Messages to the console and statistics that nothing reads
  are left out.
\<close>

end
